(* ===== verification/Prelude.thy ===== *)
theory Prelude
  imports Main "HOL-Library.Word" "HOL-Library.Sublist"
begin

section \<open>Prelude: Rust strings, machine integers and list updates\<close>

text \<open>
  What every component shares. A Rust \<open>String\<close> is a list of bytes that is valid UTF-8; the
  model keeps the bytes, as \<open>string\<close>, so that \<open>len\<close> is \<open>length\<close> and slicing is by bytes.
  \<open>chars_count\<close>, \<open>take_chars\<close>, \<open>str_trim\<close> and \<open>ascii_lower\<close> are the operations of
  \<open>str\<close> that the sources call. A \<open>u32\<close> or \<open>u64\<close> is a word; \<open>usize\<close> lengths and indices
  are natural numbers. \<open>Result<T, E>\<close> is the sum \<open>'e + 't\<close> with \<open>Inl\<close> for the error.
\<close>

type_synonym u32 = "32 word"
type_synonym u64 = "64 word"

named_theorems sat_simps \<open>saturating word arithmetic read as natural numbers\<close>
named_theorems list_upd_simps \<open>updates of one element of a list\<close>

subsection \<open>Saturating and wrapping integers\<close>

definition sat_add :: "'a::len word \<Rightarrow> 'a word \<Rightarrow> 'a word" where
  "sat_add a b = (if a + b < a then - 1 else a + b)"

definition sat_sub :: "'a::len word \<Rightarrow> 'a word \<Rightarrow> 'a word" where
  "sat_sub a b = (if a < b then 0 else a - b)"

definition sat_mul :: "'a::len word \<Rightarrow> 'a word \<Rightarrow> 'a word" where
  "sat_mul a b = (if unat a * unat b < 2 ^ LENGTH('a) then a * b else - 1)"

lemma unat_minus_one_word [sat_simps]: "unat (- 1 :: 'a::len word) = 2 ^ LENGTH('a) - 1"
  by (simp add: unsigned_minus_1_eq_mask mask_eq_exp_minus_1)

lemma add_overflow_iff: "(a + b < a) \<longleftrightarrow> 2 ^ LENGTH('a) \<le> unat a + unat b"
  for a b :: "'a::len word"
proof (cases "unat a + unat b < 2 ^ LENGTH('a)")
  case True
  then have "unat (a + b) = unat a + unat b" by (simp add: unat_word_ariths)
  with True show ?thesis by (simp add: word_less_nat_alt)
next
  case False
  have a: "unat a < 2 ^ LENGTH('a)" and b: "unat b < 2 ^ LENGTH('a)" by (rule unsigned_less)+
  have "(unat a + unat b) mod 2 ^ LENGTH('a) = unat a + unat b - 2 ^ LENGTH('a)"
    using False a b by (metis add_less_mono le_mod_geq linorder_not_less mod_less mult_2 mod_add_self2
        less_diff_conv2)
  then have "unat (a + b) = unat a + unat b - 2 ^ LENGTH('a)"
    by (simp add: unat_word_ariths)
  moreover have "unat a + unat b - 2 ^ LENGTH('a) < unat a"
    using False b by linarith
  ultimately show ?thesis using False by (simp add: word_less_nat_alt)
qed

lemma unat_sat_add [sat_simps]:
  "unat (sat_add a b) = min (unat a + unat b) (2 ^ LENGTH('a) - 1)"
  for a b :: "'a::len word"
proof (cases "a + b < a")
  case True
  then show ?thesis by (simp add: sat_add_def add_overflow_iff sat_simps)
next
  case False
  then have "unat a + unat b < 2 ^ LENGTH('a)" by (simp add: add_overflow_iff)
  with False show ?thesis by (simp add: sat_add_def unat_word_ariths)
qed

lemma unat_sat_sub [sat_simps]: "unat (sat_sub a b) = unat a - unat b"
  for a b :: "'a::len word"
proof (cases "a < b")
  case True
  then show ?thesis by (simp add: sat_sub_def word_less_nat_alt)
next
  case False
  then have "b \<le> a" by simp
  then show ?thesis by (simp add: sat_sub_def unat_sub)
qed

lemma unat_sat_mul [sat_simps]:
  "unat (sat_mul a b) = min (unat a * unat b) (2 ^ LENGTH('a) - 1)"
  for a b :: "'a::len word"
  by (auto simp: sat_mul_def unat_word_ariths sat_simps)

lemma sat_add_ge: "a \<le> sat_add a b"
  for a b :: "'a::len word"
  by (auto simp: sat_add_def)

lemma unat_less_max: "a \<noteq> - 1 \<Longrightarrow> unat a + 1 < 2 ^ LENGTH('a)"
  for a :: "'a::len word"
proof -
  assume "a \<noteq> - 1"
  then have "unat a \<noteq> 2 ^ LENGTH('a) - 1"
    by (metis unat_minus_one_word word_unat_eq_iff)
  moreover have "unat a < 2 ^ LENGTH('a)" by (rule unsigned_less)
  ultimately show ?thesis by linarith
qed

lemma sat_add_one_gt: "a \<noteq> - 1 \<Longrightarrow> a < sat_add a 1"
  for a :: "'a::len word"
  using unat_less_max [of a] by (simp add: word_less_nat_alt sat_simps)

lemma word_less_add_one: "a \<noteq> - 1 \<Longrightarrow> a < a + 1"
  for a :: "'a::len word"
  using unat_less_max [of a] by (simp add: word_less_nat_alt unat_word_ariths)

subsection \<open>Strings\<close>

text \<open>A UTF-8 continuation byte is \<open>10xxxxxx\<close>; every other byte starts a character.\<close>

definition is_cont :: "char \<Rightarrow> bool" where
  "is_cont c \<longleftrightarrow> 128 \<le> (of_char c :: nat) \<and> (of_char c :: nat) < 192"

text \<open>\<open>s.chars().count()\<close>\<close>

definition chars_count :: "string \<Rightarrow> nat" where
  "chars_count s = length (filter (\<lambda>c. \<not> is_cont c) s)"

text \<open>\<open>s.chars().take(n).collect::<String>()\<close>\<close>

fun take_chars :: "nat \<Rightarrow> string \<Rightarrow> string" where
  "take_chars n [] = []"
| "take_chars n (c # cs) =
     (if is_cont c then c # take_chars n cs
      else if n = 0 then [] else c # take_chars (n - 1) cs)"

lemma take_chars_prefix: "prefix (take_chars n s) s"
  by (induction n s rule: take_chars.induct) auto

lemma length_take_chars: "length (take_chars n s) \<le> length s"
  using take_chars_prefix prefix_length_le by blast

lemma take_chars_all: "chars_count s \<le> n \<Longrightarrow> take_chars n s = s"
  by (induction n s rule: take_chars.induct) (auto simp: chars_count_def split: if_splits)

lemma chars_count_take_chars: "chars_count (take_chars n s) = min n (chars_count s)"
  by (induction n s rule: take_chars.induct) (auto simp: chars_count_def)

text \<open>The UTF-8 encodings of \<open>char::is_whitespace\<close> (Unicode \<open>White_Space\<close>).\<close>

definition ws_chars :: "string list" where
  "ws_chars =
     [[CHR 0x09], [CHR 0x0A], [CHR 0x0B], [CHR 0x0C], [CHR 0x0D], [CHR 0x20],
      [CHR 0xC2, CHR 0x85], [CHR 0xC2, CHR 0xA0], [CHR 0xE1, CHR 0x9A, CHR 0x80],
      [CHR 0xE2, CHR 0x80, CHR 0x80], [CHR 0xE2, CHR 0x80, CHR 0x81],
      [CHR 0xE2, CHR 0x80, CHR 0x82], [CHR 0xE2, CHR 0x80, CHR 0x83],
      [CHR 0xE2, CHR 0x80, CHR 0x84], [CHR 0xE2, CHR 0x80, CHR 0x85],
      [CHR 0xE2, CHR 0x80, CHR 0x86], [CHR 0xE2, CHR 0x80, CHR 0x87],
      [CHR 0xE2, CHR 0x80, CHR 0x88], [CHR 0xE2, CHR 0x80, CHR 0x89],
      [CHR 0xE2, CHR 0x80, CHR 0x8A], [CHR 0xE2, CHR 0x80, CHR 0xA8],
      [CHR 0xE2, CHR 0x80, CHR 0xA9], [CHR 0xE2, CHR 0x80, CHR 0xAF],
      [CHR 0xE2, CHR 0x81, CHR 0x9F], [CHR 0xE3, CHR 0x80, CHR 0x80]]"

text \<open>\<open>s.trim_start()\<close>, \<open>s.trim_end()\<close> and \<open>s.trim()\<close>\<close>

fun strip_one :: "string list \<Rightarrow> string \<Rightarrow> string option" where
  "strip_one [] s = None"
| "strip_one (w # ws) s =
     (if take (length w) s = w \<and> w \<noteq> [] then Some (drop (length w) s) else strip_one ws s)"

lemma strip_one_shorter: "strip_one ws s = Some r \<Longrightarrow> length r < length s"
proof (induction ws)
  case (Cons w ws)
  show ?case
  proof (cases "take (length w) s = w \<and> w \<noteq> []")
    case True
    then have "length w \<le> length s" by (metis length_take min.cobounded2 nat_le_linear take_all)
    with True Cons.prems show ?thesis by (cases w) auto
  next
    case False
    with Cons show ?thesis by auto
  qed
qed simp

function trim_by :: "string list \<Rightarrow> string \<Rightarrow> string" where
  "trim_by ws s = (case strip_one ws s of None \<Rightarrow> s | Some r \<Rightarrow> trim_by ws r)"
  by pat_completeness auto
termination
  by (relation "measure (\<lambda>(ws, s). length s)") (auto dest: strip_one_shorter)

declare trim_by.simps [simp del]

definition trim_start :: "string \<Rightarrow> string" where
  "trim_start s = trim_by ws_chars s"

definition trim_end :: "string \<Rightarrow> string" where
  "trim_end s = rev (trim_by (List.map rev ws_chars) (rev s))"

definition str_trim :: "string \<Rightarrow> string" where
  "str_trim s = trim_end (trim_start s)"

lemma length_trim_by: "length (trim_by ws s) \<le> length s"
proof (induction ws s rule: trim_by.induct)
  case (1 ws s)
  show ?case
  proof (cases "strip_one ws s")
    case None
    then show ?thesis by (simp add: trim_by.simps [of ws s])
  next
    case (Some r)
    with "1.IH" [OF Some] strip_one_shorter [OF Some] show ?thesis
      by (simp add: trim_by.simps [of ws s])
  qed
qed

lemma trim_by_fixed: "strip_one ws (trim_by ws s) = None"
proof (induction ws s rule: trim_by.induct)
  case (1 ws s)
  then show ?case by (cases "strip_one ws s") (simp_all add: trim_by.simps [of ws s])
qed

text \<open>\<open>u8::to_ascii_lowercase\<close>, \<open>str::to_ascii_lowercase\<close>, \<open>starts_with\<close>, \<open>contains\<close>\<close>

definition lower_byte :: "char \<Rightarrow> char" where
  "lower_byte c =
     (if 65 \<le> (of_char c :: nat) \<and> (of_char c :: nat) \<le> 90
      then char_of ((of_char c :: nat) + 32) else c)"

definition ascii_lower :: "string \<Rightarrow> string" where
  "ascii_lower s = List.map lower_byte s"

lemma length_ascii_lower [simp]: "length (ascii_lower s) = length s"
  by (simp add: ascii_lower_def)

definition starts_with :: "string \<Rightarrow> string \<Rightarrow> bool" where
  "starts_with s p \<longleftrightarrow> take (length p) s = p"

definition ends_with :: "string \<Rightarrow> string \<Rightarrow> bool" where
  "ends_with s p \<longleftrightarrow> length p \<le> length s \<and> drop (length s - length p) s = p"

fun str_contains :: "string \<Rightarrow> string \<Rightarrow> bool" where
  "str_contains [] p = (p = [])"
| "str_contains (c # cs) p = (starts_with (c # cs) p \<or> str_contains cs p)"

lemma starts_with_prefix: "starts_with s p \<longleftrightarrow> prefix p s"
  by (auto simp: starts_with_def prefix_def) (metis append_take_drop_id)

lemma starts_with_append [simp]: "starts_with (p @ s) p"
  by (simp add: starts_with_def)

lemma str_contains_sublist: "str_contains s p \<longleftrightarrow> sublist p s"
  by (induction s) (auto simp: starts_with_prefix sublist_Cons_right)

lemma str_contains_iff: "str_contains s p \<longleftrightarrow> (\<exists>a b. s = a @ p @ b)"
  by (simp add: str_contains_sublist sublist_def)

definition strip_prefix :: "string \<Rightarrow> string \<Rightarrow> string option" where
  "strip_prefix p s = (if starts_with s p then Some (drop (length p) s) else None)"

lemma strip_prefix_append [simp]: "strip_prefix p (p @ s) = Some s"
  by (simp add: strip_prefix_def)

lemma strip_prefix_SomeD: "strip_prefix p s = Some r \<Longrightarrow> s = p @ r"
  by (auto simp: strip_prefix_def starts_with_def split: if_splits) (metis append_take_drop_id)

text \<open>What is left of a text after trimming its end is a prefix of it.\<close>

lemma trim_by_suffix: "suffix (trim_by ws s) s"
proof (induction ws s rule: trim_by.induct)
  case (1 ws s)
  show ?case
  proof (cases "strip_one ws s")
    case None
    then show ?thesis by (simp add: trim_by.simps [of ws s])
  next
    case (Some r)
    have "suffix r s" using Some
      by (induction ws) (auto split: if_splits simp: suffix_drop)
    moreover have "suffix (trim_by ws r) r" using "1.IH" [OF Some] .
    ultimately show ?thesis using Some by (simp add: trim_by.simps [of ws s])
  qed
qed

lemma trim_end_prefix: "prefix (trim_end s) s"
  using trim_by_suffix [of "List.map rev ws_chars" "rev s"] by (simp add: trim_end_def suffix_to_prefix)

lemma trim_start_suffix: "suffix (trim_start s) s"
  by (simp add: trim_start_def trim_by_suffix)

text \<open>A text that starts with a byte of no white space, or ends in one, is not trimmed there.\<close>

definition ink :: "char \<Rightarrow> bool" where
  "ink c \<longleftrightarrow> 0x21 \<le> (of_char c :: nat) \<and> (of_char c :: nat) \<le> 0x7E"

lemma strip_one_None: "c \<notin> hd ` set ws \<Longrightarrow> strip_one ws (c # s) = None"
  by (induction ws) (auto simp: take_Cons' neq_Nil_conv)

lemma ink_no_ws:
  assumes "ink c"
  shows "c \<notin> hd ` set ws_chars" "c \<notin> hd ` set (List.map rev ws_chars)"
proof -
  have "list_all (\<lambda>w. \<not> ink (hd w)) ws_chars" "list_all (\<lambda>w. \<not> ink (hd w)) (List.map rev ws_chars)"
    by code_simp+
  with assms show "c \<notin> hd ` set ws_chars" "c \<notin> hd ` set (List.map rev ws_chars)"
    unfolding list_all_iff by blast+
qed

lemma strip_one_ink: "ink c \<Longrightarrow> strip_one ws_chars (c # s) = None"
  "ink c \<Longrightarrow> strip_one (List.map rev ws_chars) (c # s) = None"
  by (rule strip_one_None, erule ink_no_ws)+

lemma trim_start_ink: "ink c \<Longrightarrow> trim_start (c # s) = c # s"
  by (simp add: trim_start_def trim_by.simps [of ws_chars "c # s"] strip_one_ink)

text \<open>Putting inked text in front of a text changes nothing at its end.\<close>

lemma strip_one_rev_append:
  assumes "ink c \<or> c = CHR '' ''" and "s \<noteq> []"
  shows "strip_one (List.map rev ws_chars) (s @ c # p) = map_option (\<lambda>r. r @ c # p) (strip_one (List.map rev ws_chars) s)"
proof -
  have c: "(of_char c :: nat) \<in> {0x20..0x7E}" using assms(1) by (auto simp: ink_def)
  then have n: "c \<noteq> CHR 0xC2" "c \<noteq> CHR 0xE1" "c \<noteq> CHR 0xE2" "c \<noteq> CHR 0xE3" "c \<noteq> CHR 0x9A" "c \<noteq> CHR 0x80"
    "c \<noteq> CHR 0x81" by auto
  obtain d ds where s: "s = d # ds" using assms(2) by (cases s) auto
  show ?thesis using n unfolding s by (cases ds; cases "tl ds") (auto simp: ws_chars_def)
qed

lemma strip_one_append:
  assumes "ink c \<or> c = CHR '' ''" and "s \<noteq> []"
  shows "strip_one ws_chars (s @ c # p) = map_option (\<lambda>r. r @ c # p) (strip_one ws_chars s)"
proof -
  have c: "(of_char c :: nat) \<in> {0x20..0x7E}" using assms(1) by (auto simp: ink_def)
  then have n: "c \<noteq> CHR 0x80" "c \<noteq> CHR 0x81" "c \<noteq> CHR 0x82" "c \<noteq> CHR 0x83" "c \<noteq> CHR 0x84" "c \<noteq> CHR 0x85" "c \<noteq> CHR 0x86"
    "c \<noteq> CHR 0x87" "c \<noteq> CHR 0x88" "c \<noteq> CHR 0x89" "c \<noteq> CHR 0x8A" "c \<noteq> CHR 0x9A" "c \<noteq> CHR 0x9F" "c \<noteq> CHR 0xA0"
    "c \<noteq> CHR 0xA8" "c \<noteq> CHR 0xA9" "c \<noteq> CHR 0xAF" by auto
  obtain d ds where s: "s = d # ds" using assms(2) by (cases s) auto
  show ?thesis using n unfolding s by (cases ds; cases "tl ds") (auto simp: ws_chars_def)
qed

subsection \<open>Numbers as text\<close>

text \<open>What \<open>format!\<close> prints for an unsigned number.\<close>

fun show_nat :: "nat \<Rightarrow> string" where
  "show_nat n = (if n < 10 then [char_of (48 + n)] else show_nat (n div 10) @ [char_of (48 + n mod 10)])"

declare show_nat.simps [simp del]

lemma show_nat_not_Nil [simp]: "show_nat n \<noteq> []"
  by (simp add: show_nat.simps [of n])

lemma length_show_nat: "length (show_nat n) \<le> Suc n"
proof (induction n rule: show_nat.induct)
  case (1 n)
  then show ?case by (cases "n < 10") (simp_all add: show_nat.simps [of n])
qed

subsection \<open>Errors as values\<close>

text \<open>The \<open>?\<close> operator.\<close>

definition bind_sum :: "'e + 'a \<Rightarrow> ('a \<Rightarrow> 'e + 'b) \<Rightarrow> 'e + 'b" where
  "bind_sum x f = (case x of Inl e \<Rightarrow> Inl e | Inr a \<Rightarrow> f a)"

lemma bind_sum_simps [simp]: "bind_sum (Inl e) f = Inl e" "bind_sum (Inr a) f = f a"
  by (simp_all add: bind_sum_def)

lemma bind_sum_Inr: "bind_sum x f = Inr b \<longleftrightarrow> (\<exists>a. x = Inr a \<and> f a = Inr b)"
  by (cases x) simp_all

lemma bind_sum_cong [fundef_cong]:
  "x = y \<Longrightarrow> (\<And>a. y = Inr a \<Longrightarrow> f a = g a) \<Longrightarrow> bind_sum x f = bind_sum y g"
  by (cases y) simp_all

text \<open>\<open>for x in xs { out.push(f(x)?) }\<close>\<close>

fun map_sum_list :: "('a \<Rightarrow> 'e + 'b) \<Rightarrow> 'a list \<Rightarrow> 'e + 'b list" where
  "map_sum_list f [] = Inr []"
| "map_sum_list f (x # xs) = bind_sum (f x) (\<lambda>y. bind_sum (map_sum_list f xs) (\<lambda>ys. Inr (y # ys)))"

lemma map_sum_list_Inr:
  "map_sum_list f xs = Inr ys \<Longrightarrow> length ys = length xs \<and> (\<forall>i<length xs. f (xs ! i) = Inr (ys ! i))"
  by (induction xs arbitrary: ys) (auto simp: bind_sum_Inr nth_Cons split: nat.splits)

subsection \<open>Joining\<close>

text \<open>\<open>parts.join(sep)\<close>\<close>

fun str_join :: "string \<Rightarrow> string list \<Rightarrow> string" where
  "str_join sep [] = []"
| "str_join sep [x] = x"
| "str_join sep (x # y # ys) = x @ sep @ str_join sep (y # ys)"

subsection \<open>Updating one element of a list\<close>

text \<open>\<open>if let Some(x) = xs.iter_mut().find(P) { f(x) }\<close>: the first match only.\<close>

fun update_first :: "('a \<Rightarrow> bool) \<Rightarrow> ('a \<Rightarrow> 'a) \<Rightarrow> 'a list \<Rightarrow> 'a list" where
  "update_first P f [] = []"
| "update_first P f (x # xs) = (if P x then f x # xs else x # update_first P f xs)"

lemma length_update_first [simp, list_upd_simps]: "length (update_first P f xs) = length xs"
  by (induction xs) auto

lemma update_first_none [list_upd_simps]: "\<not> (\<exists>x\<in>set xs. P x) \<Longrightarrow> update_first P f xs = xs"
  by (induction xs) auto

lemma map_update_first [list_upd_simps]:
  "(\<And>x. g (f x) = g x) \<Longrightarrow> List.map g (update_first P f xs) = List.map g xs"
  by (induction xs) auto

lemma in_set_update_first:
  "y \<in> set (update_first P f xs) \<Longrightarrow> y \<in> set xs \<or> (\<exists>x\<in>set xs. P x \<and> y = f x)"
  by (induction xs) (auto split: if_splits)

text \<open>\<open>xs.iter().position(P)\<close> followed by \<open>xs.remove(idx)\<close>\<close>

fun take_first :: "('a \<Rightarrow> bool) \<Rightarrow> 'a list \<Rightarrow> ('a \<times> 'a list) option" where
  "take_first P [] = None"
| "take_first P (x # xs) =
     (if P x then Some (x, xs)
      else (case take_first P xs of None \<Rightarrow> None | Some (y, ys) \<Rightarrow> Some (y, x # ys)))"

lemma take_first_None: "take_first P xs = None \<longleftrightarrow> \<not> (\<exists>x\<in>set xs. P x)"
  by (induction xs) (auto split: option.splits)

lemma take_first_SomeD:
  "take_first P xs = Some (y, ys) \<Longrightarrow>
     \<exists>a b. xs = a @ y # b \<and> ys = a @ b \<and> P y \<and> (\<forall>x\<in>set a. \<not> P x)"
proof (induction xs arbitrary: ys)
  case (Cons x xs)
  show ?case
  proof (cases "P x")
    case True
    with Cons.prems show ?thesis by (intro exI [of _ "[]"] exI [of _ xs]) auto
  next
    case False
    with Cons.prems obtain zs where "take_first P xs = Some (y, zs)" and ys: "ys = x # zs"
      by (auto split: option.splits)
    with Cons.IH obtain a b where "xs = a @ y # b" "zs = a @ b" "P y" "\<forall>x\<in>set a. \<not> P x" by blast
    with False ys show ?thesis by (intro exI [of _ "x # a"] exI [of _ b]) auto
  qed
qed simp

lemma take_first_append:
  "\<forall>x\<in>set a. \<not> P x \<Longrightarrow> P y \<Longrightarrow> take_first P (a @ y # b) = Some (y, a @ b)"
  by (induction a) auto

text \<open>\<open>for (i, x) in xs.iter_mut().enumerate() { x.pos = i }\<close>, from a start index.\<close>

fun renumber :: "(int \<Rightarrow> 'a \<Rightarrow> 'a) \<Rightarrow> int \<Rightarrow> 'a list \<Rightarrow> 'a list" where
  "renumber f i [] = []"
| "renumber f i (x # xs) = f i x # renumber f (i + 1) xs"

lemma length_renumber [simp, list_upd_simps]: "length (renumber f i xs) = length xs"
  by (induction xs arbitrary: i) auto

lemma nth_renumber: "k < length xs \<Longrightarrow> renumber f i xs ! k = f (i + int k) (xs ! k)"
  by (induction xs arbitrary: i k) (auto simp: nth_Cons' algebra_simps)

lemma map_renumber [list_upd_simps]:
  "(\<And>i x. g (f i x) = g x) \<Longrightarrow> List.map g (renumber f i xs) = List.map g xs"
  by (induction xs arbitrary: i) auto

lemma in_set_renumber: "y \<in> set (renumber f i xs) \<Longrightarrow> \<exists>x\<in>set xs. \<exists>j. y = f j x"
  by (induction xs arbitrary: i) fastforce+

lemma map_index_renumber:
  "(\<And>i x. g (f i x) = i) \<Longrightarrow> List.map g (renumber f i xs) = List.map (\<lambda>k. i + int k) [0..<length xs]"
  by (rule nth_equalityI) (auto simp: nth_renumber)

subsection \<open>JSON values\<close>

text \<open>
  The data type \<open>serde_json::Value\<close>: one constructor per variant. Integers keep their value,
  other numbers their text; an object is an association list with distinct keys, and the
  sources only look keys up and insert them, so the order of the entries is not observable.
\<close>

datatype json =
    JNull
  | JBool bool
  | JInt int
  | JFloat string
  | JStr string
  | JArr "json list"
  | JObj "(string \<times> json) list"

fun jget :: "string \<Rightarrow> json \<Rightarrow> json option" where
  "jget k (JObj kvs) = map_of kvs k"
| "jget k _ = None"

fun as_str :: "json \<Rightarrow> string option" where
  "as_str (JStr s) = Some s"
| "as_str _ = None"

fun as_array :: "json \<Rightarrow> json list option" where
  "as_array (JArr xs) = Some xs"
| "as_array _ = None"

fun as_bool :: "json \<Rightarrow> bool option" where
  "as_bool (JBool b) = Some b"
| "as_bool _ = None"

definition jget_str :: "string \<Rightarrow> json \<Rightarrow> string option" where
  "jget_str k v = Option.bind (jget k v) as_str"

definition jget_or :: "string \<Rightarrow> string \<Rightarrow> json \<Rightarrow> json option" where
  "jget_or k k' v = (case jget k v of None \<Rightarrow> jget k' v | Some x \<Rightarrow> Some x)"

fun opt_json :: "string option \<Rightarrow> json" where
  "opt_json None = JNull"
| "opt_json (Some s) = JStr s"

fun kv_insert :: "string \<Rightarrow> json \<Rightarrow> (string \<times> json) list \<Rightarrow> (string \<times> json) list" where
  "kv_insert k v [] = [(k, v)]"
| "kv_insert k v ((k', v') # kvs) = (if k' = k then (k, v) # kvs else (k', v') # kv_insert k v kvs)"

fun jinsert :: "string \<Rightarrow> json \<Rightarrow> json \<Rightarrow> json" where
  "jinsert k v (JObj kvs) = JObj (kv_insert k v kvs)"
| "jinsert k v j = j"

lemma map_of_kv_insert [simp]: "map_of (kv_insert k v kvs) = (map_of kvs)(k \<mapsto> v)"
  by (induction k v kvs rule: kv_insert.induct) (auto simp: fun_eq_iff)

lemma jget_jinsert:
  "jget k' (jinsert k v (JObj kvs)) = (if k' = k then Some v else jget k' (JObj kvs))"
  by simp

end
