(* ===== verification/RunState.thy ===== *)
theory RunState
  imports Prelude
begin

section \<open>The run lifecycle: statuses, transitions, outcomes\<close>

text \<open>
  Models \<open>crates/agent-core/src/run_state.rs\<close>, with the status enumeration of
  \<open>crates/assistant-protocol/src/v2/run.rs\<close> and the error record of
  \<open>crates/assistant-protocol/src/error.rs\<close>. The status constructors keep the names of
  \<open>RunStatusV2\<close>; the variants of \<open>EngineOutcome\<close> get the prefix \<open>Out\<close>, those of
  \<open>TransitionError\<close> \<open>Te\<close> and those of \<open>CommitError\<close> \<open>Ce\<close>.
\<close>

named_theorems run_defs \<open>definitions of the run state graph\<close>

subsection \<open>Statuses\<close>

datatype run_status =
    Created
  | Queued
  | Preparing
  | Running
  | WaitingPermission
  | WaitingSubagent
  | Cancelling
  | Completed
  | Failed
  | Cancelled
  | Interrupted

definition is_terminal :: "run_status \<Rightarrow> bool" where
  [run_defs]: "is_terminal s \<longleftrightarrow> s \<in> {Completed, Failed, Cancelled, Interrupted}"

definition is_active :: "run_status \<Rightarrow> bool" where
  [run_defs]: "is_active s \<longleftrightarrow>
     s \<in> {Preparing, Running, WaitingPermission, WaitingSubagent, Cancelling}"

fun status_str :: "run_status \<Rightarrow> string" where
  "status_str Created = ''created''"
| "status_str Queued = ''queued''"
| "status_str Preparing = ''preparing''"
| "status_str Running = ''running''"
| "status_str WaitingPermission = ''waiting_permission''"
| "status_str WaitingSubagent = ''waiting_subagent''"
| "status_str Cancelling = ''cancelling''"
| "status_str Completed = ''completed''"
| "status_str Failed = ''failed''"
| "status_str Cancelled = ''cancelled''"
| "status_str Interrupted = ''interrupted''"

text \<open>\<open>{:?}\<close> of a status: the variant name, from \<open>derive(Debug)\<close>.\<close>

fun status_debug :: "run_status \<Rightarrow> string" where
  "status_debug Created = ''Created''"
| "status_debug Queued = ''Queued''"
| "status_debug Preparing = ''Preparing''"
| "status_debug Running = ''Running''"
| "status_debug WaitingPermission = ''WaitingPermission''"
| "status_debug WaitingSubagent = ''WaitingSubagent''"
| "status_debug Cancelling = ''Cancelling''"
| "status_debug Completed = ''Completed''"
| "status_debug Failed = ''Failed''"
| "status_debug Cancelled = ''Cancelled''"
| "status_debug Interrupted = ''Interrupted''"

text \<open>\<open>run_status_from_db\<close> of \<open>run_manager.rs\<close>: unknown text reads as interrupted.\<close>

definition run_status_from_db :: "string \<Rightarrow> run_status" where
  "run_status_from_db s =
     (if s = ''created'' then Created
      else if s = ''queued'' then Queued
      else if s = ''preparing'' then Preparing
      else if s = ''running'' then Running
      else if s = ''waiting_permission'' then WaitingPermission
      else if s = ''waiting_subagent'' then WaitingSubagent
      else if s = ''cancelling'' then Cancelling
      else if s = ''completed'' then Completed
      else if s = ''failed'' then Failed
      else if s = ''cancelled'' then Cancelled
      else if s = ''interrupted'' then Interrupted
      else Interrupted)"

lemma run_status_from_db_str [simp]: "run_status_from_db (status_str s) = s"
  by (cases s) (simp_all add: run_status_from_db_def)

subsection \<open>The state graph\<close>

text \<open>The wire mirror \<open>RunStatusV2::can_transition_to\<close> of the protocol crate.\<close>

fun can_transition_to :: "run_status \<Rightarrow> run_status \<Rightarrow> bool" where
  "can_transition_to Created next = (next \<in> {Queued, Cancelling, Failed})"
| "can_transition_to Queued next = (next \<in> {Preparing, Cancelling, Failed})"
| "can_transition_to Preparing next =
     (next \<in> {Running, WaitingPermission, Cancelling, Failed, Interrupted})"
| "can_transition_to Running next =
     (next \<in> {WaitingPermission, WaitingSubagent, Cancelling, Completed, Failed, Interrupted})"
| "can_transition_to WaitingPermission next =
     (next \<in> {Running, Cancelling, Completed, Failed, Interrupted})"
| "can_transition_to WaitingSubagent next =
     (next \<in> {Running, Cancelling, Completed, Failed, Interrupted})"
| "can_transition_to Cancelling next = (next \<in> {Cancelled, Interrupted, Failed})"
| "can_transition_to _ next = False"

definition can_transition :: "run_status \<Rightarrow> run_status \<Rightarrow> bool" where
  [run_defs]: "can_transition current next \<longleftrightarrow> (current, next) \<in>
     {(Created, Queued), (Created, Cancelling), (Created, Failed),
      (Queued, Preparing), (Queued, Cancelling), (Queued, Failed),
      (Preparing, Running), (Preparing, WaitingPermission), (Preparing, Cancelling),
      (Preparing, Failed), (Preparing, Interrupted),
      (Running, WaitingPermission), (Running, WaitingSubagent), (Running, Cancelling),
      (Running, Completed), (Running, Failed), (Running, Interrupted),
      (WaitingPermission, Running), (WaitingPermission, Cancelling),
      (WaitingPermission, Completed), (WaitingPermission, Failed),
      (WaitingPermission, Interrupted),
      (WaitingSubagent, Running), (WaitingSubagent, Cancelling),
      (WaitingSubagent, Completed), (WaitingSubagent, Failed), (WaitingSubagent, Interrupted),
      (Cancelling, Cancelled), (Cancelling, Interrupted), (Cancelling, Failed)}"

datatype transition_error =
    TeIllegal run_status run_status
  | TeTerminal run_status
  | TeOther string

definition transition :: "run_status \<Rightarrow> run_status \<Rightarrow> transition_error + unit" where
  "transition current target =
     (if current = target then Inl (TeIllegal current target)
      else if is_terminal current then Inl (TeTerminal current)
      else if can_transition current target then Inr ()
      else Inl (TeIllegal current target))"

definition all_statuses :: "run_status list" where
  [run_defs]: "all_statuses =
     [Created, Queued, Preparing, Running, WaitingPermission, WaitingSubagent, Cancelling,
      Completed, Failed, Cancelled, Interrupted]"

definition legal_next_states :: "run_status \<Rightarrow> run_status list" where
  "legal_next_states current = filter (\<lambda>next. isl (transition current next) = False) all_statuses"

lemma can_transition_irrefl: "\<not> can_transition s s"
  by (cases s) (simp_all add: run_defs)

lemma can_transition_not_terminal: "can_transition s t \<Longrightarrow> \<not> is_terminal s"
  by (cases s) (simp_all add: run_defs)

lemma transition_ok_iff: "transition s t = Inr () \<longleftrightarrow> can_transition s t"
  using can_transition_irrefl can_transition_not_terminal by (auto simp: transition_def)

lemma transition_cases:
  "transition s t =
     (if can_transition s t then Inr ()
      else if s \<noteq> t \<and> is_terminal s then Inl (TeTerminal s) else Inl (TeIllegal s t))"
  using can_transition_irrefl can_transition_not_terminal by (auto simp: transition_def)

lemma set_all_statuses: "s \<in> set all_statuses"
  by (cases s) (simp_all add: all_statuses_def)

lemma set_legal_next_states: "set (legal_next_states s) = {t. can_transition s t}"
  using set_all_statuses by (auto simp: legal_next_states_def transition_cases)

lemma can_transition_mirror: "can_transition_to s t = can_transition s t"
  by (cases s; cases t) (simp_all add: run_defs)

inductive lifecycle_path :: "run_status \<Rightarrow> run_status list \<Rightarrow> run_status \<Rightarrow> bool" where
  path_nil: "lifecycle_path s [] s"
| path_cons: "transition s t = Inr () \<Longrightarrow> lifecycle_path t ts u \<Longrightarrow> lifecycle_path s (t # ts) u"

inductive_cases path_nilE: "lifecycle_path s [] u"
inductive_cases path_consE: "lifecycle_path s (t # ts) u"

lemma lifecycle_path_terminal: "lifecycle_path s ts u \<Longrightarrow> is_terminal s \<Longrightarrow> ts = [] \<and> u = s"
  by (induction rule: lifecycle_path.induct)
    (auto simp: transition_ok_iff dest: can_transition_not_terminal)

lemma lifecycle_path_append:
  "lifecycle_path s ts t \<Longrightarrow> lifecycle_path t us u \<Longrightarrow> lifecycle_path s (ts @ us) u"
  by (induction rule: lifecycle_path.induct) (auto intro: path_cons)

subsection \<open>Engine outcomes\<close>

datatype engine_outcome =
    OutCompleted string
  | OutFailed string string bool
  | OutCancelled
  | OutInterrupted string

fun target_status :: "engine_outcome \<Rightarrow> run_status" where
  "target_status (OutCompleted _) = Completed"
| "target_status (OutFailed _ _ _) = Failed"
| "target_status OutCancelled = Cancelled"
| "target_status (OutInterrupted _) = Interrupted"

fun outcome_error_code :: "engine_outcome \<Rightarrow> string option" where
  "outcome_error_code (OutFailed code _ _) = Some code"
| "outcome_error_code (OutInterrupted reason) =
     (if reason = ''daemon_restarted'' then Some ''daemon_restarted'' else None)"
| "outcome_error_code _ = None"

record transition_metadata =
  tm_error_code :: "string option"
  tm_reason :: "string option"
  tm_step_count :: "u32 option"
  tm_lifecycle_hint :: "string option"
  tm_extra :: json

definition tm_empty :: transition_metadata where
  "tm_empty = \<lparr>tm_error_code = None, tm_reason = None, tm_step_count = None,
     tm_lifecycle_hint = None, tm_extra = JNull\<rparr>"

definition with_error_code :: "string \<Rightarrow> transition_metadata \<Rightarrow> transition_metadata" where
  "with_error_code code m = m\<lparr>tm_error_code := Some code\<rparr>"

definition with_reason :: "string \<Rightarrow> transition_metadata \<Rightarrow> transition_metadata" where
  "with_reason reason m = m\<lparr>tm_reason := Some reason\<rparr>"

definition with_lifecycle_hint :: "string \<Rightarrow> transition_metadata \<Rightarrow> transition_metadata" where
  "with_lifecycle_hint hint m = m\<lparr>tm_lifecycle_hint := Some hint\<rparr>"

fun outcome_retryable :: "engine_outcome \<Rightarrow> bool" where
  "outcome_retryable (OutFailed _ _ True) = True"
| "outcome_retryable _ = False"

fun from_outcome :: "engine_outcome \<Rightarrow> transition_metadata" where
  "from_outcome (OutCompleted reason) =
     with_lifecycle_hint ''completed'' (with_reason reason tm_empty)"
| "from_outcome (OutFailed code error retryable) =
     \<lparr>tm_error_code = Some code, tm_reason = Some error, tm_step_count = None,
      tm_lifecycle_hint = Some ''failed'',
      tm_extra = JObj [(''retryable'', JBool (outcome_retryable (OutFailed code error retryable)))]\<rparr>"
| "from_outcome OutCancelled =
     with_lifecycle_hint ''cancelled'' (with_reason ''cancelled'' tm_empty)"
| "from_outcome (OutInterrupted reason) =
     (let m = with_lifecycle_hint ''interrupted'' (with_reason reason tm_empty)
      in if reason = ''daemon_restarted'' then m\<lparr>tm_error_code := Some ''daemon_restarted''\<rparr> else m)"

definition outcome_commit_parts :: "engine_outcome \<Rightarrow> run_status \<times> transition_metadata" where
  "outcome_commit_parts outcome = (target_status outcome, from_outcome outcome)"

lemma target_status_terminal [simp]: "is_terminal (target_status o')"
  by (cases o') (simp_all add: is_terminal_def)

lemma from_outcome_error_code [simp]: "tm_error_code (from_outcome o') = outcome_error_code o'"
  by (cases o') (auto simp: Let_def with_lifecycle_hint_def with_reason_def tm_empty_def)

subsection \<open>Commit results and errors\<close>

record committed_transition =
  ct_run_id :: string
  ct_from :: run_status
  ct_to :: run_status
  ct_revision :: u64
  ct_idempotent :: bool

datatype commit_error =
    CeNotFound string
  | CeIllegal transition_error
  | CeCasConflict string u64 u64 run_status
  | CeAlreadyTerminal string run_status u64
  | CeStorage string
  | CeOther string

fun is_cas_conflict :: "commit_error \<Rightarrow> bool" where
  "is_cas_conflict (CeCasConflict _ _ _ _) = True"
| "is_cas_conflict _ = False"

fun is_already_terminal :: "commit_error \<Rightarrow> bool" where
  "is_already_terminal (CeAlreadyTerminal _ _ _) = True"
| "is_already_terminal _ = False"

datatype error_category =
    CatValidation | CatAuth | CatNotFound | CatConflict | CatRateLimited | CatTimeout
  | CatInternal | CatProvider | CatNetwork | CatPermissionDenied | CatUnsupported | CatExtension

record daemon_error =
  de_code :: string
  de_category :: error_category
  de_retryable :: bool
  de_user_message_key :: string
  de_technical_message :: string
  de_recovery_actions :: "string list"
  de_correlation_id :: string

text \<open>\<open>DaemonError::new\<close>; the fresh correlation id is an argument.\<close>

definition daemon_error_new ::
  "string \<Rightarrow> string \<Rightarrow> error_category \<Rightarrow> bool \<Rightarrow> string \<Rightarrow> daemon_error" where
  "daemon_error_new uuid code category retryable msg =
     \<lparr>de_code = code, de_category = category, de_retryable = retryable,
      de_user_message_key = ''error.'' @ code, de_technical_message = msg,
      de_recovery_actions = [], de_correlation_id = uuid\<rparr>"

definition with_user_key :: "string \<Rightarrow> daemon_error \<Rightarrow> daemon_error" where
  "with_user_key key e = e\<lparr>de_user_message_key := key\<rparr>"

fun transition_daemon_error :: "string \<Rightarrow> transition_error \<Rightarrow> daemon_error" where
  "transition_daemon_error uuid (TeIllegal from to) =
     with_user_key ''error.run_invalid_state''
       (daemon_error_new uuid ''run_invalid_state'' CatValidation False
         (''Illegal transition from '' @ status_debug from @ '' to '' @ status_debug to))"
| "transition_daemon_error uuid (TeTerminal from) =
     with_user_key ''error.run_invalid_state''
       (daemon_error_new uuid ''run_invalid_state'' CatValidation False
         (''Cannot transition from terminal state '' @ status_debug from))"
| "transition_daemon_error uuid (TeOther msg) =
     daemon_error_new uuid ''internal_error'' CatInternal False msg"

lemma transition_daemon_error_code:
  "transition s t = Inl e \<Longrightarrow> de_code (transition_daemon_error uuid e) = ''run_invalid_state''
     \<and> de_retryable (transition_daemon_error uuid e) = False"
  by (auto simp: transition_cases with_user_key_def daemon_error_new_def split: if_splits)

subsection \<open>Properties of the lifecycle\<close>

lemma cancelling_path:
  "lifecycle_path Cancelling ts u \<Longrightarrow> length ts \<le> 1 \<and> u \<in> {Cancelling, Cancelled, Interrupted, Failed}"
  by (cases rule: lifecycle_path.cases)
    (auto simp: transition_ok_iff can_transition_def is_terminal_def dest: lifecycle_path_terminal)

lemma path_from_working:
  assumes "lifecycle_path s ts u" and "u = Completed"
    and "s \<in> {Running, WaitingPermission, WaitingSubagent}"
  shows "\<exists>us. ts = us @ [Completed] \<and> set us \<subseteq> {Running, WaitingPermission, WaitingSubagent}"
  using assms
proof (induction rule: lifecycle_path.induct)
  case (path_cons s t ts u)
  show ?case
  proof (cases "t \<in> {Running, WaitingPermission, WaitingSubagent}")
    case True
    with path_cons obtain us where "ts = us @ [Completed]"
      "set us \<subseteq> {Running, WaitingPermission, WaitingSubagent}" by auto
    with True show ?thesis by (intro exI [of _ "t # us"]) auto
  next
    case False
    with path_cons.hyps(1) path_cons.prems(2) have "t \<in> {Cancelling, Completed, Failed, Interrupted}"
      by (auto simp: transition_ok_iff can_transition_def)
    moreover have "t \<noteq> Cancelling"
      using path_cons.hyps(2) path_cons.prems(1) by (auto dest: cancelling_path)
    ultimately have "is_terminal t" by (auto simp: is_terminal_def)
    with lifecycle_path_terminal [OF path_cons.hyps(2)] path_cons.prems show ?thesis
      by (intro exI [of _ "[]"]) auto
  qed
qed auto

text \<open>
  How a run completes. Every sequence of accepted transitions that takes a created run to
  completed goes through queued and preparing, then stays in running and the two waiting
  states until it completes; in particular a run that was ever cancelling never completes.
\<close>

theorem completed_runs_were_prepared:
  assumes "lifecycle_path Created ts Completed"
  shows "\<exists>us. ts = [Queued, Preparing] @ us @ [Completed] \<and> us \<noteq> []
    \<and> set us \<subseteq> {Running, WaitingPermission, WaitingSubagent}"
proof -
  obtain ts1 where ts1: "ts = Queued # ts1" "lifecycle_path Queued ts1 Completed"
    using assms
    by (cases rule: lifecycle_path.cases)
      (auto simp: transition_ok_iff can_transition_def is_terminal_def
        dest: lifecycle_path_terminal cancelling_path)
  obtain ts2 where ts2: "ts1 = Preparing # ts2" "lifecycle_path Preparing ts2 Completed"
    using ts1(2)
    by (cases rule: lifecycle_path.cases)
      (auto simp: transition_ok_iff can_transition_def is_terminal_def
        dest: lifecycle_path_terminal cancelling_path)
  obtain t ts3 where ts3: "ts2 = t # ts3" "lifecycle_path t ts3 Completed"
    "t \<in> {Running, WaitingPermission}"
    using ts2(2)
    by (cases rule: lifecycle_path.cases)
      (auto simp: transition_ok_iff can_transition_def is_terminal_def
        dest: lifecycle_path_terminal cancelling_path)
  obtain us where "ts3 = us @ [Completed]" "set us \<subseteq> {Running, WaitingPermission, WaitingSubagent}"
    using path_from_working [OF ts3(2)] ts3(3) by auto
  with ts1 ts2 ts3 show ?thesis by (intro exI [of _ "t # us"]) auto
qed

lemma completed_runs_were_prepared_witness:
  "\<exists>us. [Queued, Preparing, Running, WaitingPermission, Completed] = [Queued, Preparing] @ us @ [Completed]
    \<and> us \<noteq> [] \<and> set us \<subseteq> {Running, WaitingPermission, WaitingSubagent}"
proof (rule completed_runs_were_prepared)
  show "lifecycle_path Created [Queued, Preparing, Running, WaitingPermission, Completed] Completed"
    by (auto intro!: lifecycle_path.intros simp: transition_ok_iff can_transition_def)
qed

text \<open>
  Which statuses can still move. \<open>legal_next_states\<close> is empty exactly for the four terminal
  statuses, every other status can fail at once, every legal successor is accepted by
  \<open>transition\<close>, and a rejected transition maps to the non-retryable \<open>run_invalid_state\<close>.
\<close>

theorem terminal_iff_stuck:
  "(legal_next_states s = [] \<longleftrightarrow> is_terminal s)
    \<and> (\<not> is_terminal s \<longrightarrow> Failed \<in> set (legal_next_states s))
    \<and> (t \<in> set (legal_next_states s) \<longleftrightarrow> transition s t = Inr ())
    \<and> (t \<notin> set (legal_next_states s) \<longrightarrow> (\<exists>e. transition s t = Inl e
          \<and> de_code (transition_daemon_error uuid e) = ''run_invalid_state''
          \<and> \<not> de_retryable (transition_daemon_error uuid e)))"
proof (intro conjI impI)
  have fail: "\<not> is_terminal s \<Longrightarrow> can_transition s Failed"
    by (cases s) (simp_all add: is_terminal_def can_transition_def)
  then show "\<not> is_terminal s \<Longrightarrow> Failed \<in> set (legal_next_states s)"
    by (simp add: set_legal_next_states)
  then show "legal_next_states s = [] \<longleftrightarrow> is_terminal s"
    using set_legal_next_states [of s] can_transition_not_terminal [of s]
    by (metis empty_iff empty_set equals0I mem_Collect_eq set_empty)
  show "t \<in> set (legal_next_states s) \<longleftrightarrow> transition s t = Inr ()"
    by (simp add: set_legal_next_states transition_ok_iff)
next
  assume "t \<notin> set (legal_next_states s)"
  then have "transition s t \<noteq> Inr ()" by (simp add: set_legal_next_states transition_ok_iff)
  then obtain e where "transition s t = Inl e" by (cases "transition s t") auto
  with transition_daemon_error_code [OF this, of uuid]
  show "\<exists>e. transition s t = Inl e \<and> de_code (transition_daemon_error uuid e) = ''run_invalid_state''
      \<and> \<not> de_retryable (transition_daemon_error uuid e)" by auto
qed

lemma terminal_iff_stuck_witness:
  "Failed \<in> set (legal_next_states Running) \<and> Queued \<notin> set (legal_next_states Running)
    \<and> (\<exists>e. transition Running Queued = Inl e
          \<and> de_code (transition_daemon_error ''u'' e) = ''run_invalid_state''
          \<and> \<not> de_retryable (transition_daemon_error ''u'' e))"
proof -
  have "\<not> is_terminal Running" "Queued \<notin> set (legal_next_states Running)"
    by (simp_all add: is_terminal_def set_legal_next_states can_transition_def)
  with terminal_iff_stuck [of Running Queued "''u''"] show ?thesis by blast
qed

text \<open>
  A cancelling run never completes. From cancelling at most one further transition is
  accepted, to cancelled, interrupted or failed; the target of a \<open>Completed\<close> outcome is refused.
\<close>

theorem cancelling_never_completes:
  assumes "lifecycle_path Cancelling ts u"
  shows "u \<noteq> Completed \<and> length ts \<le> 1 \<and> u \<in> {Cancelling, Cancelled, Interrupted, Failed}
    \<and> transition Cancelling (target_status (OutCompleted reason)) = Inl (TeIllegal Cancelling Completed)"
  using cancelling_path [OF assms] by (auto simp: transition_cases can_transition_def is_terminal_def)

lemma cancelling_never_completes_witness:
  "Cancelled \<noteq> Completed \<and> length [Cancelled] \<le> 1 \<and> Cancelled \<in> {Cancelling, Cancelled, Interrupted, Failed}
    \<and> transition Cancelling (target_status (OutCompleted ''done'')) = Inl (TeIllegal Cancelling Completed)"
proof (rule cancelling_never_completes)
  show "lifecycle_path Cancelling [Cancelled] Cancelled"
    by (auto intro!: lifecycle_path.intros simp: transition_ok_iff can_transition_def)
qed

text \<open>
  The protocol mirror is the authority. \<open>RunStatusV2::can_transition_to\<close> of the wire crate
  accepts exactly the transitions the daemon's \<open>transition\<close> accepts.
\<close>

theorem protocol_mirror_exact: "can_transition_to s t = (transition s t = Inr ())"
  by (simp add: can_transition_mirror transition_ok_iff)

text \<open>
  The database text of a status determines it: reading back what \<open>as_str\<close> wrote gives the
  status, distinct statuses have distinct texts, and any other text reads as interrupted.
\<close>

theorem status_text_roundtrip:
  "run_status_from_db (status_str s) = s
    \<and> (run_status_from_db text \<noteq> Interrupted \<longrightarrow> text = status_str (run_status_from_db text))"
proof (intro conjI impI)
  assume "run_status_from_db text \<noteq> Interrupted"
  then show "text = status_str (run_status_from_db text)"
    by (simp add: run_status_from_db_def split: if_splits)
qed simp

lemma status_text_roundtrip_witness:
  "run_status_from_db (status_str Queued) = Queued \<and> ''running'' = status_str (run_status_from_db ''running'')"
  using status_text_roundtrip [of Queued "''running''"] by (simp add: run_status_from_db_def)

end
