(* ===== verification/RunEvent.thy ===== *)
theory RunEvent
  imports RunState
begin

section \<open>Run events\<close>

text \<open>
  Models \<open>crates/assistant-protocol/src/v2/run_event.rs\<close>: the event record \<open>RunEventV2\<close> and its
  payload \<open>RunEventKind\<close> (every variant, with the prefix \<open>Ev\<close>); \<open>redact_secrets\<close> of the same
  file is in the theory \<open>Redact\<close>. Timestamps are opaque text, and an \<open>f64\<close> percentage, with
  which nothing computes, is kept as its text.
\<close>

subsection \<open>Payloads\<close>

datatype (plugins only: size code) run_event_kind =
    EvQueued
  | EvPreparing
  | EvStarted
  | EvHookInvocationStarted string string string string u32 string bool
  | EvHookInvocationCompleted string string string string u32 string "string option"
      "string option" u64 string bool
  | EvTextDelta string
  | EvReasoningDelta string
  | EvToolCallRequested string string json
  | EvToolCallPrepared string string json string string
  | EvToolCallStarted string string
  | EvToolCallDelta nat "string option" "string option" string
  | EvToolCallCompleted string string json bool u64 "string option"
  | EvToolOutputDelta string "string option" string string bool "string option" "string option"
      "u64 option"
  | EvPermissionRequested string string string string json
  | EvPermissionResponded string bool string
  | EvPlanModeChanged string string "json option" "u32 option" "string option"
  | EvFileChanged string string "string option" "string option" "string option" "string option"
      "string option"
  | EvTaskStarted string string string
  | EvTaskUpdated string string "string option"
  | EvTaskCompleted string "int option" "string option"
  | EvInteractionRequested string string json
  | EvInteractionResponded string json
  | EvCheckpointCreated string "string option"
  | EvCheckpointCommitted string
  | EvCheckpointRewound string "string list" "string option"
  | EvContextUsageUpdated u64 u64 "json option"
  | EvUsageUpdated u64 u64 "u64 option" "u64 option" "u64 option"
  | EvContextCompressed u64 u64 string
  | EvContextSnapshotCommitted string "string option" u64 "string list" "string option"
      "string option" string "u64 option" "string option" json
  | EvSubagentCreated string "string option" string
  | EvSubagentCompleted string string
  | EvSubagentFailed string string
  | EvProgress string "string option"
  | EvGenerationAttemptStarted u32 u32
  | EvGenerationAttemptFailed u32 string bool bool "u64 option"
  | EvGenerationAttemptDiscarded u32 string
  | EvGenerationAttemptCommitted u32
  | EvTurnStarted string
  | EvTurnCompleted string string u64 u64
  | EvMessageStarted string string string
  | EvMessageDelta string string string
  | EvMessageCompleted string string string "json option"
  | EvCompleted string
  | EvFailed string string
  | EvCancelled string
  | EvInterrupted string
  | EvUnknown json

primrec type_name :: "run_event_kind \<Rightarrow> string" where
  "type_name EvQueued = ''queued''"
| "type_name EvPreparing = ''preparing''"
| "type_name EvStarted = ''started''"
| "type_name (EvHookInvocationStarted _ _ _ _ _ _ _) = ''hook_invocation_started''"
| "type_name (EvHookInvocationCompleted _ _ _ _ _ _ _ _ _ _ _) = ''hook_invocation_completed''"
| "type_name (EvTextDelta _) = ''text_delta''"
| "type_name (EvReasoningDelta _) = ''reasoning_delta''"
| "type_name (EvToolCallRequested _ _ _) = ''tool_call_requested''"
| "type_name (EvToolCallPrepared _ _ _ _ _) = ''tool_call_prepared''"
| "type_name (EvToolCallStarted _ _) = ''tool_call_started''"
| "type_name (EvToolCallDelta _ _ _ _) = ''tool_call_delta''"
| "type_name (EvToolCallCompleted _ _ _ _ _ _) = ''tool_call_completed''"
| "type_name (EvToolOutputDelta _ _ _ _ _ _ _ _) = ''tool_output_delta''"
| "type_name (EvPermissionRequested _ _ _ _ _) = ''permission_requested''"
| "type_name (EvPermissionResponded _ _ _) = ''permission_responded''"
| "type_name (EvPlanModeChanged _ _ _ _ _) = ''plan_mode_changed''"
| "type_name (EvFileChanged _ _ _ _ _ _ _) = ''file_changed''"
| "type_name (EvTaskStarted _ _ _) = ''task_started''"
| "type_name (EvTaskUpdated _ _ _) = ''task_updated''"
| "type_name (EvTaskCompleted _ _ _) = ''task_completed''"
| "type_name (EvInteractionRequested _ _ _) = ''interaction_requested''"
| "type_name (EvInteractionResponded _ _) = ''interaction_responded''"
| "type_name (EvCheckpointCreated _ _) = ''checkpoint_created''"
| "type_name (EvCheckpointCommitted _) = ''checkpoint_committed''"
| "type_name (EvCheckpointRewound _ _ _) = ''checkpoint_rewound''"
| "type_name (EvContextUsageUpdated _ _ _) = ''context_usage_updated''"
| "type_name (EvUsageUpdated _ _ _ _ _) = ''usage_updated''"
| "type_name (EvContextCompressed _ _ _) = ''context_compressed''"
| "type_name (EvContextSnapshotCommitted _ _ _ _ _ _ _ _ _ _) = ''context_snapshot_committed''"
| "type_name (EvSubagentCreated _ _ _) = ''subagent_created''"
| "type_name (EvSubagentCompleted _ _) = ''subagent_completed''"
| "type_name (EvSubagentFailed _ _) = ''subagent_failed''"
| "type_name (EvProgress _ _) = ''progress''"
| "type_name (EvGenerationAttemptStarted _ _) = ''generation_attempt_started''"
| "type_name (EvGenerationAttemptFailed _ _ _ _ _) = ''generation_attempt_failed''"
| "type_name (EvGenerationAttemptDiscarded _ _) = ''generation_attempt_discarded''"
| "type_name (EvGenerationAttemptCommitted _) = ''generation_attempt_committed''"
| "type_name (EvTurnStarted _) = ''turn_started''"
| "type_name (EvTurnCompleted _ _ _ _) = ''turn_completed''"
| "type_name (EvMessageStarted _ _ _) = ''message_started''"
| "type_name (EvMessageDelta _ _ _) = ''message_delta''"
| "type_name (EvMessageCompleted _ _ _ _) = ''message_completed''"
| "type_name (EvCompleted _) = ''completed''"
| "type_name (EvFailed _ _) = ''failed''"
| "type_name (EvCancelled _) = ''cancelled''"
| "type_name (EvInterrupted _) = ''interrupted''"
| "type_name (EvUnknown _) = ''unknown''"

definition kind_is_terminal :: "run_event_kind \<Rightarrow> bool" where
  "kind_is_terminal k = (case k of
       EvCompleted _ \<Rightarrow> True
     | EvFailed _ _ \<Rightarrow> True
     | EvCancelled _ \<Rightarrow> True
     | EvInterrupted _ \<Rightarrow> True
     | _ \<Rightarrow> False)"

subsection \<open>Events\<close>

record run_event =
  ev_event_id :: string
  ev_global_sequence :: u64
  ev_run_id :: string
  ev_run_sequence :: u64
  ev_sequence :: u64
  ev_timestamp :: string
  ev_payload :: run_event_kind

definition effective_run_sequence :: "run_event \<Rightarrow> u64" where
  "effective_run_sequence e = (if 0 < ev_run_sequence e then ev_run_sequence e else ev_sequence e)"

definition set_run_sequence :: "u64 \<Rightarrow> run_event \<Rightarrow> run_event" where
  "set_run_sequence seq e = e\<lparr>ev_run_sequence := seq, ev_sequence := seq\<rparr>"

text \<open>\<open>RunEventV2::new\<close>; the fresh id and the clock reading are arguments.\<close>

definition run_event_new ::
  "string \<times> string \<Rightarrow> string \<Rightarrow> u64 \<Rightarrow> run_event_kind \<Rightarrow> run_event" where
  "run_event_new stamp run_id run_sequence payload =
     \<lparr>ev_event_id = fst stamp, ev_global_sequence = 0, ev_run_id = run_id,
      ev_run_sequence = run_sequence, ev_sequence = run_sequence, ev_timestamp = snd stamp,
      ev_payload = payload\<rparr>"

definition with_global_sequence :: "u64 \<Rightarrow> run_event \<Rightarrow> run_event" where
  "with_global_sequence g e = e\<lparr>ev_global_sequence := g\<rparr>"

lemma effective_run_event_new [simp]: "effective_run_sequence (run_event_new st r n p) = n"
  by (simp add: effective_run_sequence_def run_event_new_def)

lemma effective_set_run_sequence [simp]: "effective_run_sequence (set_run_sequence n e) = n"
  by (simp add: effective_run_sequence_def set_run_sequence_def)

lemma effective_with_global [simp]:
  "effective_run_sequence (with_global_sequence g e) = effective_run_sequence e"
  by (simp add: effective_run_sequence_def with_global_sequence_def)

lemma run_event_new_sel [simp]:
  "ev_run_id (run_event_new st r n p) = r" "ev_payload (run_event_new st r n p) = p"
  by (simp_all add: run_event_new_def)

lemma with_global_sel [simp]:
  "ev_run_id (with_global_sequence g e) = ev_run_id e"
  "ev_payload (with_global_sequence g e) = ev_payload e"
  by (simp_all add: with_global_sequence_def)

end
