(* ===== verification/Redact.thy ===== *)
theory Redact
  imports Prelude
begin

section \<open>Redaction of secrets\<close>

text \<open>
  Models \<open>redact_secrets\<close> of \<open>crates/assistant-protocol/src/v2/run_event.rs\<close>, the filter that
  every free-form error text passes before it enters an event.
  \<open>redact_secrets\<close> scans the bytes with an index \<open>i\<close>; the model carries \<open>input[i..]\<close>. Taking
  that slice at an index that is not a character boundary panics in Rust: the result is
  then \<open>None\<close>. Inside a secret the code reads bytes as Latin-1 characters
  (\<open>bytes[i] as char\<close>).
\<close>

definition latin1_ws :: "char \<Rightarrow> bool" where
  "latin1_ws c \<longleftrightarrow> c \<in> {CHR 0x09, CHR 0x0A, CHR 0x0B, CHR 0x0C, CHR 0x0D, CHR 0x20, CHR 0x85, CHR 0xA0}"

definition ascii_ws :: "char \<Rightarrow> bool" where
  "ascii_ws c \<longleftrightarrow> c \<in> {CHR 0x09, CHR 0x0A, CHR 0x0C, CHR 0x0D, CHR 0x20}"

definition ascii_alnum :: "char \<Rightarrow> bool" where
  "ascii_alnum c \<longleftrightarrow> (let n = (of_char c :: nat)
     in 48 \<le> n \<and> n \<le> 57 \<or> 65 \<le> n \<and> n \<le> 90 \<or> 97 \<le> n \<and> n \<le> 122)"

definition redact_from :: "string \<Rightarrow> (nat \<times> bool) option" where
  "redact_from rest =
     (let lower = ascii_lower rest
      in if starts_with lower ''authorization:'' then Some (14, True)
         else if starts_with lower ''bearer '' then Some (7, True)
         else if starts_with lower ''api_key='' \<or> starts_with lower ''api-key='' then Some (8, True)
         else if starts_with rest ''sk-ant-'' then Some (7, False)
         else if starts_with rest ''sk-'' then Some (3, False)
         else None)"

definition secret_char :: "bool \<Rightarrow> char \<Rightarrow> bool" where
  "secret_char stop_at_ws c =
     (if stop_at_ws then \<not> (latin1_ws c \<or> c = CHR 0x22 \<or> c = CHR 0x27)
      else ascii_alnum c \<or> c = CHR ''_'' \<or> c = CHR ''-'')"

definition skip_secret :: "bool \<Rightarrow> string \<Rightarrow> string" where
  "skip_secret stop_at_ws rest =
     dropWhile (secret_char stop_at_ws) (if stop_at_ws then dropWhile ascii_ws rest else rest)"

text \<open>\<open>len_utf8\<close> of the first character of a non-empty string.\<close>

definition char_len :: "string \<Rightarrow> nat" where
  "char_len s = Suc (length (takeWhile is_cont (tl s)))"

lemma length_dropWhile_le' [simp]: "length (dropWhile P xs) \<le> length xs"
  by (induction xs) auto

lemma length_skip_secret: "length (skip_secret b s) \<le> length s"
  by (auto simp: skip_secret_def intro: le_trans [OF length_dropWhile_le' length_dropWhile_le'])

lemma redact_from_Some:
  "redact_from s = Some (n, b) \<Longrightarrow>
     0 < n \<and> n \<le> length s \<and> (n, b) \<in> {(14, True), (7, True), (8, True), (7, False), (3, False)}"
  by (auto simp: redact_from_def Let_def starts_with_prefix split: if_splits
      dest!: prefix_length_le)

function redact_secrets :: "string \<Rightarrow> string option" where
  "redact_secrets s =
     (case s of
        [] \<Rightarrow> Some []
      | c # cs \<Rightarrow>
          (if is_cont c then None
           else case redact_from s of
             Some (prefix_len, stop_at_ws) \<Rightarrow>
               map_option (\<lambda>out. take prefix_len s @ ''[REDACTED]'' @ out)
                 (redact_secrets (skip_secret stop_at_ws (drop prefix_len s)))
           | None \<Rightarrow>
               map_option (\<lambda>out. take (char_len s) s @ out)
                 (redact_secrets (drop (char_len s) s))))"
  by pat_completeness auto
termination
proof (relation "measure length")
  fix s c cs p n b
  assume s: "s = c # cs" and r: "redact_from s = Some p" and p: "(n, b) = p"
  then have "0 < n" "n \<le> length s" using redact_from_Some [of s n b] by auto
  moreover have "length (skip_secret b (drop n s)) \<le> length s - n"
    using length_skip_secret [of b "drop n s"] by simp
  ultimately show "(skip_secret b (drop n s), s) \<in> measure length"
    by (auto intro: le_less_trans)
qed (auto simp: char_len_def)

declare redact_secrets.simps [simp del]

subsection \<open>What survives redaction\<close>

text \<open>
  \<open>unmasked t\<close>: the text starts with one of the markers the scanner knows, and what follows
  the marker is not the placeholder. \<open>has_unmasked\<close> asks this of every position.
\<close>

definition ci_markers :: "string list" where
  "ci_markers = [''authorization:'', ''bearer '', ''api_key='', ''api-key='']"

definition unmasked :: "string \<Rightarrow> bool" where
  "unmasked t \<longleftrightarrow>
     (\<exists>m\<in>set ci_markers. starts_with (ascii_lower t) m \<and>
        \<not> starts_with (drop (length m) t) ''[REDACTED]'')
     \<or> starts_with t ''sk-'' \<and> \<not> starts_with t ''sk-[REDACTED]'' \<and>
        \<not> starts_with t ''sk-ant-[REDACTED]''"

fun has_unmasked :: "string \<Rightarrow> bool" where
  "has_unmasked [] = False"
| "has_unmasked (c # cs) = (unmasked (c # cs) \<or> has_unmasked cs)"

lemma ascii_lower_append [simp]: "ascii_lower (a @ b) = ascii_lower a @ ascii_lower b"
  by (simp add: ascii_lower_def)

lemma ascii_lower_Cons [simp]: "ascii_lower (c # b) = lower_byte c # ascii_lower b"
  by (simp add: ascii_lower_def)

lemma ascii_lower_Nil [simp]: "ascii_lower [] = []"
  by (simp add: ascii_lower_def)

lemma redact_Nil: "redact_secrets [] = Some []"
  by (simp add: redact_secrets.simps)

lemma redact_cont: "is_cont c \<Longrightarrow> redact_secrets (c # cs) = None"
  by (simp add: redact_secrets.simps [of "c # cs"])

lemma redact_marker:
  "\<not> is_cont c \<Longrightarrow> redact_from (c # cs) = Some (n, b) \<Longrightarrow>
     redact_secrets (c # cs) = map_option (\<lambda>out. take n (c # cs) @ ''[REDACTED]'' @ out)
       (redact_secrets (skip_secret b (drop n (c # cs))))"
  by (simp add: redact_secrets.simps [of "c # cs"])

lemma redact_copy:
  "\<not> is_cont c \<Longrightarrow> redact_from (c # cs) = None \<Longrightarrow>
     redact_secrets (c # cs) = map_option (\<lambda>out. take (char_len (c # cs)) (c # cs) @ out)
       (redact_secrets (drop (char_len (c # cs)) (c # cs)))"
  by (simp add: redact_secrets.simps [of "c # cs"])

text \<open>The four ways one step of the scanner returns.\<close>

lemma redact_SomeE:
  assumes "redact_secrets s = Some out"
  obtains "s = []" "out = []"
  | c cs n b out' where "s = c # cs" "\<not> is_cont c" "redact_from s = Some (n, b)"
      "redact_secrets (skip_secret b (drop n s)) = Some out'"
      "out = take n s @ ''[REDACTED]'' @ out'"
  | c cs out' where "s = c # cs" "\<not> is_cont c" "redact_from s = None"
      "redact_secrets (drop (char_len s) s) = Some out'" "out = take (char_len s) s @ out'"
proof (cases s)
  case Nil
  with assms that(1) show ?thesis by (simp add: redact_Nil)
next
  case (Cons c cs)
  with assms have nc: "\<not> is_cont c" by (auto simp: redact_cont)
  show ?thesis
  proof (cases "redact_from s")
    case None
    with assms Cons nc that(3) show ?thesis by (auto simp: redact_copy)
  next
    case (Some nb)
    with assms Cons nc that(2) show ?thesis by (cases nb) (auto simp: redact_marker)
  qed
qed

text \<open>Input and output agree up to the first placeholder the scanner writes.\<close>

lemma redact_agree:
  "redact_secrets s = Some out \<Longrightarrow>
     \<exists>p. prefix p s \<and> (out = p \<or> (\<exists>q. out = p @ ''[REDACTED]'' @ q))"
proof (induction "length s" arbitrary: s out rule: less_induct)
  case less
  from less.prems show ?case
  proof (cases rule: redact_SomeE)
    case 1
    then show ?thesis by simp
  next
    case (2 c cs n b out')
    then show ?thesis by (intro exI [of _ "take n s"]) (auto simp: take_is_prefix)
  next
    case (3 c cs out')
    then have "length (drop (char_len s) s) < length s" by (simp add: char_len_def)
    from less.hyps [OF this 3(4)] obtain p where p: "prefix p (drop (char_len s) s)"
      "out' = p \<or> (\<exists>q. out' = p @ ''[REDACTED]'' @ q)" by blast
    have "prefix (take (char_len s) s @ p) s"
      using p(1) by (metis append_take_drop_id same_prefix_prefix)
    moreover have "out = take (char_len s) s @ p \<or>
        (\<exists>q. out = (take (char_len s) s @ p) @ ''[REDACTED]'' @ q)"
      unfolding 3(5) using p(2) by fastforce
    ultimately show ?thesis by blast
  qed
qed

lemma agree_starts:
  assumes "prefix p s" and "out = p \<or> (\<exists>q. out = p @ ''[REDACTED]'' @ q)"
    and "starts_with out m" and "CHR ''['' \<notin> set m"
  shows "starts_with s m"
proof -
  have m: "prefix m out" using assms(3) by (simp add: starts_with_prefix)
  have "prefix m p"
  proof (cases "out = p")
    case False
    with assms(2) obtain q where "out = p @ ''[REDACTED]'' @ q" by blast
    with m have "prefix m p \<or> (\<exists>us. m = p @ us \<and> prefix us (''[REDACTED]'' @ q))"
      by (simp only: prefix_append)
    then show ?thesis
    proof (elim disjE exE conjE)
      fix us assume us: "m = p @ us" "prefix us (''[REDACTED]'' @ q)"
      show ?thesis
      proof (cases us)
        case Nil
        with us(1) show ?thesis by simp
      next
        case (Cons a l)
        with us(2) have "a = CHR ''[''" by simp
        with us(1) Cons assms(4) show ?thesis by simp
      qed
    qed
  qed (use m in simp)
  with assms(1) show ?thesis by (auto simp: starts_with_prefix intro: prefix_order.trans)
qed

lemma redact_starts:
  assumes "redact_secrets s = Some out" and "starts_with out m" and "CHR ''['' \<notin> set m"
  shows "starts_with s m"
proof -
  from redact_agree [OF assms(1)] obtain p where "prefix p s"
    "out = p \<or> (\<exists>q. out = p @ ''[REDACTED]'' @ q)" by blast
  then show ?thesis using assms(2,3) by (rule agree_starts)
qed

lemma redact_starts_lower:
  assumes "redact_secrets s = Some out" and "starts_with (ascii_lower out) m"
    and "CHR ''['' \<notin> set m"
  shows "starts_with (ascii_lower s) m"
proof -
  from redact_agree [OF assms(1)] obtain p where p: "prefix p s"
    "out = p \<or> (\<exists>q. out = p @ ''[REDACTED]'' @ q)" by blast
  define m' where "m' = take (length m) out"
  have len: "length m \<le> length out"
    using assms(2) by (auto simp: starts_with_prefix dest: prefix_length_le)
  have low: "ascii_lower m' = m"
    using assms(2) by (simp add: m'_def ascii_lower_def starts_with_def flip: take_map)
  have "CHR ''['' \<notin> set m'"
  proof
    assume "CHR ''['' \<in> set m'"
    then have "lower_byte (CHR ''['') \<in> set m" using low by (force simp: ascii_lower_def)
    then show False using assms(3) by (simp add: lower_byte_def)
  qed
  moreover have "starts_with out m'" using len by (simp add: m'_def starts_with_def)
  ultimately have "starts_with s m'" using agree_starts [OF p] by blast
  then have "take (length m') s = m'" by (simp add: starts_with_def)
  moreover have "length m' = length m" using len by (simp add: m'_def)
  ultimately have "ascii_lower (take (length m) s) = m" using low by simp
  then show ?thesis by (simp add: starts_with_def ascii_lower_def take_map)
qed

lemma has_unmasked_append:
  "has_unmasked (P @ t) \<longleftrightarrow> (\<exists>k<length P. unmasked (drop k P @ t)) \<or> has_unmasked t"
proof (induction P)
  case (Cons c P)
  have "(\<exists>k<length (c # P). unmasked (drop k (c # P) @ t)) \<longleftrightarrow>
      unmasked (c # P @ t) \<or> (\<exists>k<length P. unmasked (drop k P @ t))"
    by (simp add: Ex_less_Suc2)
  with Cons show ?case by simp
qed simp

lemma starts_with_app: "starts_with s (m @ q) \<Longrightarrow> starts_with s m"
  by (auto simp: starts_with_prefix prefix_def)

lemma redact_from_None:
  "redact_from s = None \<longleftrightarrow>
     (\<forall>m\<in>set ci_markers. \<not> starts_with (ascii_lower s) m) \<and> \<not> starts_with s ''sk-''"
proof -
  have "starts_with s ''sk-ant-'' \<Longrightarrow> starts_with s ''sk-''"
    by (rule starts_with_app [where q = "''ant-''"]) simp
  then show ?thesis unfolding redact_from_def Let_def ci_markers_def
    by (simp split: if_split)
qed

lemma copy_not_unmasked:
  assumes "redact_secrets s = Some out" and "redact_from s = None"
  shows "\<not> unmasked out"
proof
  assume "unmasked out"
  then consider m where "m \<in> set ci_markers" "starts_with (ascii_lower out) m"
    | "starts_with out ''sk-''"
    by (auto simp: unmasked_def)
  then show False
  proof cases
    case (1 m)
    then have "CHR ''['' \<notin> set m" by (auto simp: ci_markers_def)
    with 1 redact_starts_lower [OF assms(1)] assms(2) show False
      by (auto simp: redact_from_None)
  next
    case 2
    then have "starts_with s ''sk-''" by (rule redact_starts [OF assms(1)]) simp
    with assms(2) show False by (simp add: redact_from_None)
  qed
qed

lemma cont_not_unmasked: "is_cont c \<Longrightarrow> \<not> unmasked (c # t)"
proof -
  assume c: "is_cont c"
  then have "lower_byte c = c" by (simp add: lower_byte_def is_cont_def)
  with c show ?thesis
    by (auto simp: unmasked_def ci_markers_def starts_with_def is_cont_def)
qed

text \<open>The marker the scanner stops at is the lower-cased text it copies.\<close>

lemma redact_from_marker:
  assumes "redact_from s = Some (n, b)"
  shows "ascii_lower (take n s) \<in> set ci_markers \<or> take n s \<in> {''sk-'', ''sk-ant-''}"
proof -
  have take: "starts_with t m \<Longrightarrow> n = length m \<Longrightarrow> take n t = m" for t m :: string
    by (simp add: starts_with_def)
  have low: "ascii_lower (take k s) = take k (ascii_lower s)" for k
    by (simp add: ascii_lower_def take_map)
  consider "starts_with (ascii_lower s) ''authorization:''" "n = 14"
    | "starts_with (ascii_lower s) ''bearer ''" "n = 7"
    | "starts_with (ascii_lower s) ''api_key=''" "n = 8"
    | "starts_with (ascii_lower s) ''api-key=''" "n = 8"
    | "starts_with s ''sk-ant-''" "n = 7" | "starts_with s ''sk-''" "n = 3"
    using assms by (auto simp: redact_from_def Let_def split: if_splits)
  then show ?thesis
    by cases (drule take, simp, simp add: low ci_markers_def)+
qed

lemma lower_split:
  "ascii_lower t = c # cs \<longleftrightarrow> (\<exists>d ds. t = d # ds \<and> lower_byte d = c \<and> ascii_lower ds = cs)"
  by (cases t) auto

lemma sk_lower: "starts_with t ''sk-'' \<Longrightarrow> starts_with (ascii_lower t) ''sk-''"
  by (cases t; cases "tl t"; cases "tl (tl t)") (auto simp: starts_with_def lower_byte_def)

text \<open>Inside a copied marker and its placeholder no further unmasked marker begins.\<close>

fun clash :: "string \<Rightarrow> string \<Rightarrow> bool" where
  "clash (x # xs) (y # ys) = (x \<noteq> y \<or> clash xs ys)"
| "clash _ _ = False"

lemma clash_starts: "clash a b \<Longrightarrow> \<not> starts_with (a @ q) b"
  by (induction a b rule: clash.induct) (auto simp: starts_with_prefix)

lemma marker_clash:
  "\<forall>m\<in>set ci_markers. \<forall>k\<in>set [1..<length m]. \<forall>m'\<in>set (''sk-'' # ci_markers).
     clash (drop k m @ ''[redacted]'') m'"
  by code_simp

lemma placeholder_clash:
  "\<forall>k\<in>set [0..<10]. \<forall>m'\<in>set (''sk-'' # ci_markers). clash (drop k ''[redacted]'') m'"
  by code_simp

lemma sk_clash:
  "\<forall>P\<in>set [''sk-'', ''sk-ant-'']. \<forall>k\<in>set [1..<length P]. \<forall>m'\<in>set (''sk-'' # ci_markers).
     clash (drop k P @ ''[redacted]'') m'"
  by code_simp

lemma sk_head_clash:
  "\<forall>P\<in>set [''sk-'', ''sk-ant-'']. \<forall>m'\<in>set ci_markers. clash (P @ ''[redacted]'') m'"
  by code_simp

lemma head_clash:
  "\<forall>m\<in>set ci_markers. \<forall>m'\<in>set (''sk-'' # ci_markers). m \<noteq> m' \<longrightarrow> clash (m @ ''[redacted]'') m'"
  by code_simp

lemma unmasked_cases:
  assumes "unmasked t"
  obtains m where "m \<in> set ci_markers" "starts_with (ascii_lower t) m"
      "\<not> starts_with (drop (length m) t) ''[REDACTED]''"
  | "starts_with (ascii_lower t) ''sk-''" "\<not> starts_with t ''sk-[REDACTED]''"
      "\<not> starts_with t ''sk-ant-[REDACTED]''"
  using assms sk_lower by (auto simp: unmasked_def)

lemma lower_placeholder [simp]: "ascii_lower ''[REDACTED]'' = ''[redacted]''"
  by code_simp

lemma lower_drop: "ascii_lower (drop k t) = drop k (ascii_lower t)"
  by (simp add: ascii_lower_def drop_map)

lemma clash_masked:
  assumes "\<forall>m\<in>set (''sk-'' # ci_markers). clash (ascii_lower a) m"
  shows "\<not> unmasked (a @ q)"
proof
  assume "unmasked (a @ q)"
  then show False
    by (cases rule: unmasked_cases) (use assms clash_starts in \<open>auto simp del: str_contains.simps\<close>)
qed

lemma marker_chunk_masked:
  assumes P: "ascii_lower P \<in> set ci_markers \<or> P \<in> set [''sk-'', ''sk-ant-'']" and k: "k < length P"
  shows "\<not> unmasked (drop k P @ ''[REDACTED]'' @ q)"
proof (cases "k = 0")
  case False
  then have "\<forall>m\<in>set (''sk-'' # ci_markers). clash (ascii_lower (drop k P @ ''[REDACTED]'')) m"
  proof (cases "ascii_lower P \<in> set ci_markers")
    case True
    moreover have "k \<in> set [1..<length (ascii_lower P)]" using False k by simp
    ultimately show ?thesis using marker_clash
      unfolding ascii_lower_append lower_drop lower_placeholder by blast
  next
    case nolow: False
    with P have "P \<in> set [''sk-'', ''sk-ant-'']" by blast
    moreover from this have "ascii_lower P = P" by (auto simp: lower_byte_def)
    moreover have "k \<in> set [1..<length P]" using False k by simp
    ultimately show ?thesis using sk_clash
      unfolding ascii_lower_append lower_drop lower_placeholder by metis
  qed
  from clash_masked [OF this, of q] show ?thesis by simp
next
  case True
  show ?thesis
  proof
    assume "unmasked (drop k P @ ''[REDACTED]'' @ q)"
    then have u: "unmasked (P @ ''[REDACTED]'' @ q)" using True by simp
    have low: "ascii_lower (P @ ''[REDACTED]'' @ q) = (ascii_lower P @ ''[redacted]'') @ ascii_lower q"
      unfolding ascii_lower_append lower_placeholder by simp
    show False
    proof (cases "ascii_lower P \<in> set ci_markers")
      case ci: True
      from u show False
      proof (cases rule: unmasked_cases)
        case (1 m)
        have "m = ascii_lower P"
        proof (rule ccontr)
          assume "m \<noteq> ascii_lower P"
          with head_clash ci 1(1) have "clash (ascii_lower P @ ''[redacted]'') m"
            by (metis list.set_intros(2))
          from clash_starts [OF this] 1(2) show False unfolding low by blast
        qed
        with 1(3) show False using starts_with_append [of "''[REDACTED]''" q] by simp
      next
        case 2
        have "''sk-'' \<noteq> ascii_lower P" using ci by (auto simp: ci_markers_def)
        with head_clash ci have "clash (ascii_lower P @ ''[redacted]'') ''sk-''"
          by (metis list.set_intros(1))
        from clash_starts [OF this] 2(1) show False unfolding low by blast
      qed
    next
      case False
      with P have sk: "P \<in> set [''sk-'', ''sk-ant-'']" by blast
      then have P': "ascii_lower P = P" by (auto simp: lower_byte_def)
      from u show False
      proof (cases rule: unmasked_cases)
        case (1 m)
        with sk_head_clash sk have "clash (ascii_lower P @ ''[redacted]'') m" unfolding P' by blast
        from clash_starts [OF this] 1(2) show False unfolding low by blast
      next
        case 2
        from sk have "starts_with (P @ ''[REDACTED]'' @ q) (P @ ''[REDACTED]'')"
          by (simp only: append_assoc [symmetric] starts_with_append)
        with sk 2(2,3) show False by auto
      qed
    qed
  qed
qed

lemma placeholder_masked:
  assumes "k < 10" shows "\<not> unmasked (drop k ''[REDACTED]'' @ q)"
proof (rule clash_masked)
  have "k \<in> set [0..<10]" using assms by simp
  then show "\<forall>m\<in>set (''sk-'' # ci_markers). clash (ascii_lower (drop k ''[REDACTED]'')) m"
    using placeholder_clash unfolding lower_drop lower_placeholder by blast
qed

lemma skip_shorter:
  assumes "redact_from s = Some (n, b)"
  shows "length (skip_secret b (drop n s)) < length s"
proof -
  have "0 < n" "n \<le> length s" using redact_from_Some [OF assms] by blast+
  moreover have "length (skip_secret b (drop n s)) \<le> length s - n"
    using length_skip_secret [of b "drop n s"] by simp
  ultimately show ?thesis by linarith
qed

lemma copied_chunk_masked:
  assumes "\<not> is_cont c" and "\<not> unmasked (take (char_len (c # cs)) (c # cs) @ t)" and "\<not> has_unmasked t"
  shows "\<not> has_unmasked (take (char_len (c # cs)) (c # cs) @ t)"
proof -
  define us where "us = takeWhile is_cont cs"
  have chunk: "take (char_len (c # cs)) (c # cs) = c # us"
    by (simp add: char_len_def us_def flip: takeWhile_eq_take)
  have "\<not> unmasked (drop k us @ t)" if "k < length us" for k
  proof -
    have d: "drop k us = us ! k # drop (Suc k) us" by (rule Cons_nth_drop_Suc [OF that, symmetric])
    have "is_cont (us ! k)"
      using set_takeWhileD [of "us ! k" is_cont cs] nth_mem [OF that] us_def by simp
    then show ?thesis unfolding d append_Cons by (rule cont_not_unmasked)
  qed
  then have "\<not> has_unmasked (us @ t)" using assms(3) by (simp add: has_unmasked_append)
  with assms(2) show ?thesis by (simp add: chunk)
qed

lemma redact_masked: "redact_secrets s = Some out \<Longrightarrow> \<not> has_unmasked out"
proof (induction "length s" arbitrary: s out rule: less_induct)
  case less
  from less.prems show ?case
  proof (cases rule: redact_SomeE)
    case 1
    then show ?thesis by simp
  next
    case (2 c cs n b out')
    from less.hyps [OF skip_shorter [OF 2(3)] 2(4)] have tail: "\<not> has_unmasked out'" .
    have "\<not> has_unmasked (''[REDACTED]'' @ out')"
      unfolding has_unmasked_append using tail placeholder_masked by simp
    moreover have "\<not> unmasked (drop k (take n s) @ ''[REDACTED]'' @ out')" if "k < length (take n s)" for k
      using redact_from_marker [OF 2(3)] that by (intro marker_chunk_masked) simp_all
    ultimately show ?thesis unfolding 2(5) has_unmasked_append [of "take n s"] by blast
  next
    case (3 c cs out')
    have "length (drop (char_len s) s) < length s" using 3(1) by (simp add: char_len_def)
    from less.hyps [OF this 3(4)] have tail: "\<not> has_unmasked out'" .
    have "\<not> unmasked out" using less.prems 3(3) by (rule copy_not_unmasked)
    with 3 tail copied_chunk_masked [of c cs out'] show ?thesis by simp
  qed
qed

subsection \<open>When the scanner returns\<close>

definition is_ascii :: "string \<Rightarrow> bool" where
  "is_ascii s \<longleftrightarrow> (\<forall>c\<in>set s. (of_char c :: nat) < 128)"

lemma is_ascii_skip: "is_ascii s \<Longrightarrow> is_ascii (skip_secret b s)"
  by (auto simp: is_ascii_def skip_secret_def dest!: set_dropWhileD)

lemma is_ascii_drop: "is_ascii s \<Longrightarrow> is_ascii (drop n s)"
  by (auto simp: is_ascii_def dest: in_set_dropD)

lemma redact_total_ascii: "is_ascii s \<Longrightarrow> \<exists>out. redact_secrets s = Some out"
proof (induction "length s" arbitrary: s rule: less_induct)
  case less
  show ?case
  proof (cases s)
    case Nil
    then show ?thesis by (simp add: redact_Nil)
  next
    case (Cons c cs)
    with less.prems have nc: "\<not> is_cont c" by (simp add: is_ascii_def is_cont_def)
    show ?thesis
    proof (cases "redact_from s")
      case None
      have "length (drop (char_len s) s) < length s" using Cons by (simp add: char_len_def)
      from less.hyps [OF this is_ascii_drop [OF less.prems]] nc None Cons show ?thesis
        by (auto simp: redact_copy)
    next
      case (Some nb)
      then obtain n b where nb: "redact_from s = Some (n, b)" by (cases nb) auto
      from less.hyps [OF skip_shorter [OF nb] is_ascii_skip [OF is_ascii_drop [OF less.prems]]] nc nb Cons
      show ?thesis by (auto simp: redact_marker)
    qed
  qed
qed

lemma redact_id:
  "is_ascii s \<Longrightarrow> \<forall>k<length s. redact_from (drop k s) = None \<Longrightarrow> redact_secrets s = Some s"
proof (induction s)
  case Nil
  then show ?case by (simp add: redact_Nil)
next
  case (Cons c cs)
  from Cons.prems(1) have nc: "\<not> is_cont c" by (simp add: is_ascii_def is_cont_def)
  have "cs = [] \<or> \<not> is_cont (hd cs)" using Cons.prems(1) by (cases cs) (auto simp: is_ascii_def is_cont_def)
  then have len: "char_len (c # cs) = 1" by (cases cs) (simp_all add: char_len_def)
  have "redact_from (c # cs) = None" using Cons.prems(2) by (metis drop0 length_greater_0_conv list.discI)
  moreover have "redact_secrets cs = Some cs"
  proof (rule Cons.IH)
    show "\<forall>k<length cs. redact_from (drop k cs) = None"
      using Cons.prems(2) by (metis Suc_less_eq drop_Suc_Cons length_Cons)
  qed (use Cons.prems in \<open>simp_all add: is_ascii_def\<close>)
  ultimately show ?case using nc by (simp add: redact_copy len)
qed

subsection \<open>Markers, one at a time\<close>

lemma redact_authorization:
  "redact_secrets (''Authorization:'' @ t) =
     map_option (\<lambda>out. ''Authorization:[REDACTED]'' @ out) (redact_secrets (skip_secret True t))"
proof -
  have "ascii_lower ''Authorization:'' = ''authorization:''" by code_simp
  then have "starts_with (ascii_lower (''Authorization:'' @ t)) ''authorization:''"
    by (simp only: ascii_lower_append starts_with_append)
  then have "redact_from (''Authorization:'' @ t) = Some (14, True)"
    by (simp only: redact_from_def Let_def if_True)
  then show ?thesis
    using redact_marker [of "CHR ''A''" "''uthorization:'' @ t" 14 True]
    by (simp add: is_cont_def)
qed

lemma redact_api_key:
  "redact_secrets (''api_key='' @ t) =
     map_option (\<lambda>out. ''api_key=[REDACTED]'' @ out) (redact_secrets (skip_secret True t))"
proof -
  have "redact_from (''api_key='' @ t) = Some (8, True)"
    using starts_with_append [of "''api_key=''" "ascii_lower t"]
    by (simp add: redact_from_def Let_def starts_with_def lower_byte_def)
  then show ?thesis
    using redact_marker [of "CHR ''a''" "''pi_key='' @ t" 8 True]
    by (simp add: is_cont_def)
qed

text \<open>A token in which the scanner finds nothing to mask.\<close>

definition plain_token :: "string \<Rightarrow> bool" where
  "plain_token t \<longleftrightarrow> is_ascii t \<and> (\<forall>k<length t. redact_from (drop k t) = None)"

lemma redact_plain: "plain_token t \<Longrightarrow> redact_secrets t = Some t"
  by (simp add: plain_token_def redact_id)

lemma redact_plain_Cons:
  assumes "plain_token t" "is_ascii [c]" "redact_from (c # t) = None"
  shows "redact_secrets (c # t) = Some (c # t)"
proof (rule redact_plain)
  show "plain_token (c # t)" unfolding plain_token_def
  proof (intro conjI allI impI)
    fix k assume "k < length (c # t)"
    with assms show "redact_from (drop k (c # t)) = None"
      by (cases k) (simp_all add: plain_token_def)
  qed (use assms in \<open>simp add: plain_token_def is_ascii_def\<close>)
qed

lemma redact_from_other:
  "c \<notin> {CHR ''a'', CHR ''A'', CHR ''b'', CHR ''B'', CHR ''s''} \<Longrightarrow> lower_byte c \<notin> {CHR ''a'', CHR ''b''} \<Longrightarrow>
   redact_from (c # t) = None"
  by (simp add: redact_from_def starts_with_def)

lemma redact_space: "redact_from (CHR '' '' # t) = None" "redact_from (CHR 0x22 # t) = None"
  by (rule redact_from_other; code_simp)+

subsection \<open>What the output is\<close>

text \<open>
  A text cut into pieces: a character copied, or a marker with the blanks and the secret behind it. The output has
  the placeholder for blanks and secret.
\<close>

datatype piece = Copied string | Masked string string string

fun piece_in :: "piece \<Rightarrow> string" where
  "piece_in (Copied u) = u"
| "piece_in (Masked m blanks secret) = m @ blanks @ secret"

fun piece_out :: "piece \<Rightarrow> string" where
  "piece_out (Copied u) = u"
| "piece_out (Masked m blanks secret) = m @ ''[REDACTED]''"

definition marker_at :: "string \<Rightarrow> bool" where
  "marker_at t \<longleftrightarrow> (\<exists>m\<in>set ci_markers. starts_with (ascii_lower t) m) \<or> starts_with t ''sk-''"

definition ends_here :: "(char \<Rightarrow> bool) \<Rightarrow> string \<Rightarrow> bool" where
  "ends_here P t \<longleftrightarrow> t = [] \<or> \<not> P (hd t)"

text \<open>
  The secret behind a marker in words is the longest run of bytes that are no white space and no quotes, behind
  the blanks; that behind a key prefix is the longest run of letters, digits, \<open>_\<close> and \<open>-\<close>.
\<close>

definition secret_cut :: "string \<Rightarrow> string \<Rightarrow> string \<Rightarrow> string \<Rightarrow> bool" where
  "secret_cut m blanks secret rest \<longleftrightarrow>
     ascii_lower m \<in> set ci_markers \<and> list_all ascii_ws blanks \<and> ends_here ascii_ws (secret @ rest)
       \<and> list_all (\<lambda>c. \<not> latin1_ws c \<and> c \<noteq> CHR 0x22 \<and> c \<noteq> CHR 0x27) secret
       \<and> ends_here (\<lambda>c. \<not> latin1_ws c \<and> c \<noteq> CHR 0x22 \<and> c \<noteq> CHR 0x27) rest
     \<or> m \<in> {''sk-'', ''sk-ant-''} \<and> blanks = [] \<and> (m = ''sk-'' \<longrightarrow> \<not> starts_with (m @ secret @ rest) ''sk-ant-'')
       \<and> list_all (\<lambda>c. ascii_alnum c \<or> c = CHR ''_'' \<or> c = CHR ''-'') secret
       \<and> ends_here (\<lambda>c. ascii_alnum c \<or> c = CHR ''_'' \<or> c = CHR ''-'') rest"

fun pieces_ok :: "piece list \<Rightarrow> bool" where
  "pieces_ok [] = True"
| "pieces_ok (Copied u # ps) = (u \<noteq> [] \<and> list_all is_cont (tl u) \<and> \<not> marker_at (u @ concat (List.map piece_in ps)) \<and> pieces_ok ps)"
| "pieces_ok (Masked m blanks secret # ps) = (secret_cut m blanks secret (concat (List.map piece_in ps)) \<and> pieces_ok ps)"

lemma marker_at_redact_from: "marker_at t \<longleftrightarrow> redact_from t \<noteq> None"
  using redact_from_None [of t] by (auto simp: marker_at_def)

lemma dropWhile_ends: "ends_here P (dropWhile P xs)"
  by (induction xs) (auto simp: ends_here_def)

lemma redact_from_cases:
  assumes "redact_from s = Some (n, b)"
  shows "if b then ascii_lower (take n s) \<in> set ci_markers
         else take n s \<in> {''sk-'', ''sk-ant-''} \<and> (take n s = ''sk-'' \<longrightarrow> \<not> starts_with s ''sk-ant-'')"
proof -
  have take: "starts_with t m \<Longrightarrow> n = length m \<Longrightarrow> take n t = m" for t m :: string
    by (simp add: starts_with_def)
  have low: "ascii_lower (take k s) = take k (ascii_lower s)" for k
    by (simp add: ascii_lower_def take_map)
  consider "starts_with (ascii_lower s) ''authorization:''" "n = 14" "b"
    | "starts_with (ascii_lower s) ''bearer ''" "n = 7" "b"
    | "starts_with (ascii_lower s) ''api_key=''" "n = 8" "b"
    | "starts_with (ascii_lower s) ''api-key=''" "n = 8" "b"
    | "starts_with s ''sk-ant-''" "n = 7" "\<not> b" | "starts_with s ''sk-''" "\<not> starts_with s ''sk-ant-''" "n = 3" "\<not> b"
    using assms by (auto simp: redact_from_def Let_def split: if_splits)
  then show ?thesis
    by cases (drule take, simp, simp add: low ci_markers_def)+
qed

lemma secret_cut_skip:
  assumes "redact_from s = Some (n, b)"
  obtains blanks secret where "s = take n s @ blanks @ secret @ skip_secret b (drop n s)"
    "secret_cut (take n s) blanks secret (skip_secret b (drop n s))"
proof (cases b)
  case True
  let ?t = "drop n s" and ?P = "\<lambda>c. \<not> latin1_ws c \<and> c \<noteq> CHR 0x22 \<and> c \<noteq> CHR 0x27"
  have P: "secret_char True = ?P" by (auto simp: secret_char_def)
  show ?thesis
  proof (rule that [of "takeWhile ascii_ws ?t" "takeWhile ?P (dropWhile ascii_ws ?t)"])
    show "s = take n s @ takeWhile ascii_ws ?t @ takeWhile ?P (dropWhile ascii_ws ?t) @ skip_secret b ?t"
      using True by (simp add: skip_secret_def P)
    have "takeWhile ?P (dropWhile ascii_ws ?t) @ skip_secret b ?t = dropWhile ascii_ws ?t"
      using True by (simp add: skip_secret_def P)
    then show "secret_cut (take n s) (takeWhile ascii_ws ?t) (takeWhile ?P (dropWhile ascii_ws ?t)) (skip_secret b ?t)"
      using redact_from_cases [OF assms] True dropWhile_ends [of ascii_ws ?t] dropWhile_ends [of ?P "dropWhile ascii_ws ?t"]
      by (auto simp: secret_cut_def list_all_iff skip_secret_def P dest: set_takeWhileD)
  qed
next
  case False
  let ?t = "drop n s" and ?P = "\<lambda>c. ascii_alnum c \<or> c = CHR ''_'' \<or> c = CHR ''-''"
  have P: "secret_char False = ?P" by (auto simp: secret_char_def)
  show ?thesis
  proof (rule that [of "[]" "takeWhile ?P ?t"])
    have skip: "skip_secret b ?t = dropWhile ?P ?t" using False by (simp add: skip_secret_def P)
    show "s = take n s @ [] @ takeWhile ?P ?t @ skip_secret b ?t" by (simp add: skip)
    have whole: "take n s @ takeWhile ?P ?t @ skip_secret b ?t = s" by (simp add: skip)
    have "list_all ?P (takeWhile ?P ?t)" unfolding list_all_iff by (blast dest: set_takeWhileD)
    moreover have "ends_here ?P (skip_secret b ?t)" unfolding skip by (rule dropWhile_ends)
    moreover have "take n s \<in> {''sk-'', ''sk-ant-''}" "take n s = ''sk-'' \<longrightarrow> \<not> starts_with (take n s @ takeWhile ?P ?t @ skip_secret b ?t) ''sk-ant-''"
      using redact_from_cases [OF assms] False unfolding whole by simp_all
    ultimately show "secret_cut (take n s) [] (takeWhile ?P ?t) (skip_secret b ?t)"
      unfolding secret_cut_def by blast
  qed
qed

lemma redact_pieces:
  "redact_secrets s = Some out \<Longrightarrow>
     \<exists>ps. pieces_ok ps \<and> s = concat (List.map piece_in ps) \<and> out = concat (List.map piece_out ps)"
proof (induction "length s" arbitrary: s out rule: less_induct)
  case less
  from less.prems show ?case
  proof (cases rule: redact_SomeE)
    case 1
    then show ?thesis by (intro exI [of _ "[]"]) simp
  next
    case (2 c cs n b out')
    from less.hyps [OF skip_shorter [OF 2(3)] 2(4)] obtain ps where ps: "pieces_ok ps"
      "skip_secret b (drop n s) = concat (List.map piece_in ps)" "out' = concat (List.map piece_out ps)" by blast
    from secret_cut_skip [OF 2(3)] obtain blanks secret where
      cut: "s = take n s @ blanks @ secret @ skip_secret b (drop n s)"
      "secret_cut (take n s) blanks secret (skip_secret b (drop n s))" by blast
    have "pieces_ok (Masked (take n s) blanks secret # ps)" using cut(2) ps(1,2) by simp
    moreover have "s = concat (List.map piece_in (Masked (take n s) blanks secret # ps))" using cut(1) ps(2) by simp
    moreover have "out = concat (List.map piece_out (Masked (take n s) blanks secret # ps))" using 2(5) ps(3) by simp
    ultimately show ?thesis by blast
  next
    case (3 c cs out')
    let ?u = "take (char_len s) s"
    have "length (drop (char_len s) s) < length s" using 3(1) by (simp add: char_len_def)
    from less.hyps [OF this 3(4)] obtain ps where ps: "pieces_ok ps"
      "drop (char_len s) s = concat (List.map piece_in ps)" "out' = concat (List.map piece_out ps)" by blast
    have u: "?u = c # takeWhile is_cont cs" using 3(1) by (simp add: char_len_def flip: takeWhile_eq_take)
    have s: "s = ?u @ concat (List.map piece_in ps)" using ps(2) by (metis append_take_drop_id)
    have "list_all is_cont (tl ?u)" unfolding u by (auto simp: list_all_iff dest: set_takeWhileD)
    moreover have "\<not> marker_at (?u @ concat (List.map piece_in ps))" using 3(3) s by (simp add: marker_at_redact_from)
    ultimately have "pieces_ok (Copied ?u # ps)" using ps(1) u by simp
    then show ?thesis using s 3(5) ps(3) by (intro exI [of _ "Copied ?u # ps"]) simp
  qed
qed

text \<open>
  C22: what redaction leaves of a text. If the scanner returns, then the input is a row of pieces, each one
  character at which none of the markers begins, copied, or a marker (\<open>Authorization:\<close>, \<open>Bearer \<close>, \<open>api_key=\<close>,
  \<open>api-key=\<close> in any case, \<open>sk-\<close>, \<open>sk-ant-\<close>) with the secret behind it, and the output has the marker and
  \<open>[REDACTED]\<close> for the latter: the secret, which is the longest run behind the marker of bytes that are no
  white space and no quotes (behind blanks), or of letters, digits, \<open>_\<close> and \<open>-\<close> for the key prefixes, is not in it. No marker
  of the output is followed by anything but the placeholder, and the scanner returns on every ASCII input.
  A secret behind a second word (\<open>redaction_leaks_header_token\<close>) is not one of these runs.
\<close>

theorem redaction_masks_every_marker:
  "(redact_secrets s = Some out \<longrightarrow> \<not> has_unmasked out
      \<and> (\<exists>ps. pieces_ok ps \<and> s = concat (List.map piece_in ps) \<and> out = concat (List.map piece_out ps)))
   \<and> (is_ascii s \<longrightarrow> redact_secrets s \<noteq> None)"
  using redact_masked redact_pieces redact_total_ascii by blast

lemma redaction_masks_every_marker_witness:
  "redact_secrets ''key sk-ab, bearer x'' = Some ''key sk-[REDACTED], bearer [REDACTED]''
    \<and> \<not> has_unmasked ''key sk-[REDACTED], bearer [REDACTED]'' \<and> is_ascii ''key sk-ab, bearer x''"
proof -
  have "redact_secrets ''key sk-ab, bearer x'' = Some ''key sk-[REDACTED], bearer [REDACTED]''"
    "is_ascii ''key sk-ab, bearer x''" by code_simp+
  with redaction_masks_every_marker [of "''key sk-ab, bearer x''"] show ?thesis by blast
qed

text \<open>
  What follows the first word of an \<open>Authorization:\<close> header, or a quote after \<open>api_key=\<close>, is
  copied unmasked. For any token in which the scanner finds no marker of its own, the token of
  \<open>Authorization: Bearer <token>\<close> and of a quoted \<open>api_key="<token>\<close> is in the output verbatim.
\<close>

theorem redaction_leaks_header_token:
  assumes "plain_token t"
  shows "redact_secrets (''Authorization: Bearer '' @ t) = Some (''Authorization:[REDACTED] '' @ t)
    \<and> redact_secrets (''api_key='' @ CHR 0x22 # t) = Some (''api_key=[REDACTED]'' @ CHR 0x22 # t)"
proof
  have "skip_secret True ('' Bearer '' @ t) = CHR '' '' # t"
    by (simp add: skip_secret_def ascii_ws_def secret_char_def latin1_ws_def)
  then show "redact_secrets (''Authorization: Bearer '' @ t) = Some (''Authorization:[REDACTED] '' @ t)"
    using redact_authorization [of "'' Bearer '' @ t"] redact_plain_Cons [OF assms, of "CHR '' ''"] redact_space
    by (simp add: is_ascii_def)
  have "skip_secret True (CHR 0x22 # t) = CHR 0x22 # t"
    by (simp add: skip_secret_def ascii_ws_def secret_char_def)
  then show "redact_secrets (''api_key='' @ CHR 0x22 # t) = Some (''api_key=[REDACTED]'' @ CHR 0x22 # t)"
    using redact_api_key [of "CHR 0x22 # t"] redact_plain_Cons [OF assms, of "CHR 0x22"] redact_space
    by (simp add: is_ascii_def)
qed

lemma redaction_leaks_header_token_witness:
  "redact_secrets ''Authorization: Bearer abc123'' = Some ''Authorization:[REDACTED] abc123''
    \<and> redact_secrets (''api_key='' @ CHR 0x22 # ''abc123'')
        = Some (''api_key=[REDACTED]'' @ CHR 0x22 # ''abc123'')"
proof -
  have "\<forall>k\<in>set [0..<6]. redact_from (drop k ''abc123'') = None" "is_ascii ''abc123''" by code_simp+
  then have "plain_token ''abc123''" by (simp add: plain_token_def)
  from redaction_leaks_header_token [OF this] show ?thesis by simp
qed

text \<open>
  A secret with a byte the scanner takes for white space panics. After \<open>Bearer \<close>, the second
  byte of a two-byte character such as \<open>U+00E0\<close> reads as a non-breaking space, the scan stops
  inside the character and the next slice of the input is not on a character boundary.
\<close>

theorem redaction_panics_inside_character:
  "redact_secrets (''bearer '' @ CHR 0xC3 # CHR 0xA0 # rest) = None"
proof -
  have "redact_from (''bearer '' @ CHR 0xC3 # CHR 0xA0 # rest) = Some (7, True)"
    using starts_with_append [of "''bearer ''" "ascii_lower (CHR 0xC3 # CHR 0xA0 # rest)"]
    by (simp add: redact_from_def Let_def starts_with_def lower_byte_def)
  moreover have "skip_secret True (CHR 0xC3 # CHR 0xA0 # rest) = CHR 0xA0 # rest"
    by (simp add: skip_secret_def ascii_ws_def secret_char_def latin1_ws_def)
  ultimately show ?thesis
    using redact_marker [of "CHR ''b''" "''earer '' @ CHR 0xC3 # CHR 0xA0 # rest" 7 True]
      redact_cont [of "CHR 0xA0" rest]
    by (simp add: is_cont_def)
qed

end
