(* ===== verification/EventSeq.thy ===== *)
theory EventSeq
  imports RunEvent Redact "HOL-Library.Multiset"
begin

section \<open>The event sequencer\<close>

text \<open>
  Models \<open>crates/agent-core/src/event_seq.rs\<close>: the per-run event log that assigns sequence
  numbers, persists an event before it is published, and replays. The mutex-guarded \<open>Inner\<close>
  and the backend are one record. A backend is the trait object \<open>EventPersistence\<close> (a record
  of its three operations over a store \<open>'p\<close>) or the directory of JSONL files; what the
  environment variables select (\<open>event_log_dir\<close>) is the field \<open>sq_dir\<close>. A broadcast channel
  is the list of the events sent to it. \<open>redact_secrets\<close> can panic (see \<open>Redact\<close>), so the
  operations that sanitise return \<open>None\<close> for a panic.
\<close>

named_theorems seq_simps \<open>field equations of the sequencer\<close>

subsection \<open>Backends and state\<close>

record 'p persistence_ops =
  p_append :: "run_event \<Rightarrow> 'p \<Rightarrow> string + 'p"
  p_replay :: "string \<Rightarrow> u64 \<Rightarrow> 'p \<Rightarrow> string + run_event list"
  p_last :: "string \<Rightarrow> 'p \<Rightarrow> string + u64"

text \<open>
  The JSONL directory: \<open>d_read\<close> gives the non-blank lines of a run's file, each parsed or
  with its parse error (\<open>None\<close> when the file cannot be read); \<open>d_write\<close> is
  create-directory, serialise, open and write, with the error text of the step that failed.
\<close>

record 'p dir_ops =
  d_read :: "string \<Rightarrow> 'p \<Rightarrow> (string + run_event) list option"
  d_write :: "string \<Rightarrow> run_event \<Rightarrow> 'p \<Rightarrow> string + 'p"

record 'p sequencer =
  sq_sequences :: "string \<rightharpoonup> u64"
  sq_events :: "string \<rightharpoonup> run_event list"
  sq_buses :: "string \<rightharpoonup> run_event list"
  sq_loaded :: "string \<rightharpoonup> bool"
  sq_load_errors :: "string \<rightharpoonup> string"
  sq_persistence :: "'p persistence_ops option"
  sq_memory_only :: bool
  sq_dir :: "'p dir_ops option"
  sq_store :: 'p

definition seq_with_persistence :: "'p persistence_ops \<Rightarrow> 'p dir_ops option \<Rightarrow> 'p \<Rightarrow> 'p sequencer" where
  "seq_with_persistence ops dir st =
     \<lparr>sq_sequences = Map.empty, sq_events = Map.empty, sq_buses = Map.empty,
      sq_loaded = Map.empty, sq_load_errors = Map.empty, sq_persistence = Some ops,
      sq_memory_only = False, sq_dir = dir, sq_store = st\<rparr>"

definition seq_memory_only :: "'p dir_ops option \<Rightarrow> 'p \<Rightarrow> 'p sequencer" where
  "seq_memory_only dir st =
     \<lparr>sq_sequences = Map.empty, sq_events = Map.empty, sq_buses = Map.empty,
      sq_loaded = Map.empty, sq_load_errors = Map.empty, sq_persistence = None,
      sq_memory_only = True, sq_dir = dir, sq_store = st\<rparr>"

subsection \<open>Loading a run on first access\<close>

definition max_sequence :: "run_event list \<Rightarrow> u64" where
  "max_sequence evs = fold (\<lambda>e m. max m (effective_run_sequence e)) evs 0"

definition load_persistence :: "'p persistence_ops \<Rightarrow> string \<Rightarrow> 'p sequencer \<Rightarrow> 'p sequencer" where
  "load_persistence ops run_id s =
     (case p_replay ops run_id 0 (sq_store s) of
        Inl error \<Rightarrow> s\<lparr>sq_load_errors := (sq_load_errors s)(run_id \<mapsto> error)\<rparr>
      | Inr loaded \<Rightarrow>
          (if loaded \<noteq> []
           then s\<lparr>sq_sequences := (sq_sequences s)(run_id \<mapsto> max_sequence loaded),
                  sq_events := (sq_events s)(run_id \<mapsto> loaded)\<rparr>
           else (case p_last ops run_id (sq_store s) of
                   Inr max_seq \<Rightarrow>
                     (if 0 < max_seq
                      then s\<lparr>sq_sequences := (sq_sequences s)(run_id \<mapsto> max_seq)\<rparr> else s)
                 | Inl error \<Rightarrow>
                     s\<lparr>sq_load_errors := (sq_load_errors s)(run_id \<mapsto> error)\<rparr>)))"

text \<open>The loop over the lines of a JSONL file: the first unparsable line is an error.\<close>

fun parse_lines :: "(string + run_event) list \<Rightarrow> run_event list \<Rightarrow> string + run_event list" where
  "parse_lines [] acc = Inr (rev acc)"
| "parse_lines (Inr ev # ls) acc = parse_lines ls (ev # acc)"
| "parse_lines (Inl err # ls) acc = Inl err"

definition load_dir :: "'p dir_ops \<Rightarrow> string \<Rightarrow> 'p sequencer \<Rightarrow> 'p sequencer" where
  "load_dir ops run_id s =
     (case d_read ops run_id (sq_store s) of
        None \<Rightarrow> s
      | Some lines \<Rightarrow>
          (case parse_lines lines [] of
             Inl error \<Rightarrow> s\<lparr>sq_load_errors := (sq_load_errors s)(run_id \<mapsto> error)\<rparr>
           | Inr loaded \<Rightarrow>
               (if loaded \<noteq> []
                then s\<lparr>sq_sequences := (sq_sequences s)(run_id \<mapsto> max_sequence loaded),
                       sq_events := (sq_events s)(run_id \<mapsto> loaded)\<rparr>
                else s)))"

definition ensure_loaded :: "string \<Rightarrow> 'p sequencer \<Rightarrow> 'p sequencer" where
  "ensure_loaded run_id s =
     (if sq_loaded s run_id = Some True then s
      else (let s = s\<lparr>sq_loaded := (sq_loaded s)(run_id \<mapsto> True)\<rparr>
            in case sq_persistence s of
                 Some ops \<Rightarrow> load_persistence ops run_id s
               | None \<Rightarrow>
                   (if sq_memory_only s then s
                    else case sq_dir s of None \<Rightarrow> s | Some d \<Rightarrow> load_dir d run_id s)))"

subsection \<open>Appending\<close>

fun sanitize_payload :: "run_event_kind \<Rightarrow> run_event_kind option" where
  "sanitize_payload (EvFailed error code) =
     map_option (\<lambda>error. EvFailed error code) (redact_secrets error)"
| "sanitize_payload (EvInterrupted reason) =
     map_option EvInterrupted (redact_secrets reason)"
| "sanitize_payload (EvProgress message percentage) =
     map_option (\<lambda>message. EvProgress message percentage) (redact_secrets message)"
| "sanitize_payload other = Some other"

definition persist_event :: "string \<Rightarrow> run_event \<Rightarrow> 'p sequencer \<Rightarrow> string + 'p sequencer" where
  "persist_event run_id event s =
     (if sq_memory_only s then Inr s
      else case sq_persistence s of
        Some ops \<Rightarrow> map_sum id (\<lambda>st. s\<lparr>sq_store := st\<rparr>) (p_append ops event (sq_store s))
      | None \<Rightarrow>
          (case sq_dir s of
             None \<Rightarrow> Inr s
           | Some d \<Rightarrow> map_sum id (\<lambda>st. s\<lparr>sq_store := st\<rparr>) (d_write d run_id event (sq_store s))))"

definition bus_send :: "string \<Rightarrow> run_event \<Rightarrow> 'p sequencer \<Rightarrow> 'p sequencer" where
  "bus_send run_id event s =
     s\<lparr>sq_buses := (sq_buses s)(run_id \<mapsto> (case sq_buses s run_id of None \<Rightarrow> [] | Some es \<Rightarrow> es) @ [event])\<rparr>"

definition push_event :: "string \<Rightarrow> run_event \<Rightarrow> 'p sequencer \<Rightarrow> 'p sequencer" where
  "push_event run_id event s =
     s\<lparr>sq_events := (sq_events s)(run_id \<mapsto> (case sq_events s run_id of None \<Rightarrow> [] | Some es \<Rightarrow> es) @ [event])\<rparr>"

definition persistence_failed :: string where
  "persistence_failed = ''PERSISTENCE_FAILED''"

text \<open>
  \<open>append\<close>: \<open>stamp\<close> is the fresh event id with the clock reading of the one event the call
  builds. The result is the event handed back (a \<open>Failed\<close> stand-in on an error) with the new
  state, or \<open>None\<close> for a panic of the redaction.
\<close>

definition seq_append ::
  "string \<times> string \<Rightarrow> string \<Rightarrow> run_event_kind \<Rightarrow> 'p sequencer \<Rightarrow> (run_event \<times> 'p sequencer) option" where
  "seq_append stamp run_id payload s =
     Option.bind (sanitize_payload payload) (\<lambda>payload.
       (let s = ensure_loaded run_id s
        in case sq_load_errors s run_id of
             Some error \<Rightarrow>
               map_option (\<lambda>msg. (run_event_new stamp run_id 0 (EvFailed msg persistence_failed), s))
                 (redact_secrets error)
           | None \<Rightarrow>
               (let prev = (case sq_sequences s run_id of None \<Rightarrow> 0 | Some n \<Rightarrow> n);
                    sequence = prev + 1;
                    event = run_event_new stamp run_id sequence payload
                in case persist_event run_id event (s\<lparr>sq_sequences := (sq_sequences s)(run_id \<mapsto> sequence)\<rparr>) of
                     Inl error \<Rightarrow>
                       map_option (\<lambda>msg. (run_event_new stamp run_id sequence (EvFailed msg persistence_failed),
                           s\<lparr>sq_sequences := (sq_sequences s)(run_id \<mapsto> prev)\<rparr>))
                         (redact_secrets error)
                   | Inr s \<Rightarrow> Some (event, bus_send run_id event (push_event run_id event s)))))"

fun is_persistence_failed :: "run_event_kind \<Rightarrow> bool" where
  "is_persistence_failed (EvFailed _ code) = (code = persistence_failed)"
| "is_persistence_failed _ = False"

definition append_checked ::
  "string \<times> string \<Rightarrow> string \<Rightarrow> run_event_kind \<Rightarrow> 'p sequencer \<Rightarrow>
     ((string + run_event) \<times> 'p sequencer) option" where
  "append_checked stamp run_id payload s =
     map_option (\<lambda>(event, s).
        (if is_persistence_failed (ev_payload event) then Inl persistence_failed else Inr event, s))
       (seq_append stamp run_id payload s)"

subsection \<open>Injecting committed events, replay\<close>

definition inject_committed :: "run_event \<Rightarrow> 'p sequencer \<Rightarrow> 'p sequencer" where
  "inject_committed event s =
     (let r = ev_run_id event;
          s = ensure_loaded r s;
          seq = effective_run_sequence event;
          entry = (case sq_sequences s r of None \<Rightarrow> 0 | Some n \<Rightarrow> n);
          s = s\<lparr>sq_sequences := (sq_sequences s)(r \<mapsto> (if entry < seq then seq else entry))\<rparr>;
          events = (case sq_events s r of None \<Rightarrow> [] | Some es \<Rightarrow> es)
      in if \<exists>e\<in>set events. effective_run_sequence e = seq
         then s\<lparr>sq_events := (sq_events s)(r \<mapsto> events)\<rparr>
         else bus_send r event
                (s\<lparr>sq_events := (sq_events s)(r \<mapsto> sort_key effective_run_sequence (events @ [event]))\<rparr>))"

definition replay_after_checked ::
  "string \<Rightarrow> u64 \<Rightarrow> 'p sequencer \<Rightarrow> (string + run_event list) \<times> 'p sequencer" where
  "replay_after_checked run_id after s =
     (let s = ensure_loaded run_id s
      in case sq_load_errors s run_id of
           Some error \<Rightarrow> (Inl error, s)
         | None \<Rightarrow>
             (Inr (case sq_events s run_id of
                     None \<Rightarrow> []
                   | Some events \<Rightarrow> filter (\<lambda>e. after < effective_run_sequence e) events), s))"

definition replay_after :: "string \<Rightarrow> u64 \<Rightarrow> 'p sequencer \<Rightarrow> run_event list \<times> 'p sequencer" where
  "replay_after run_id after s =
     (case replay_after_checked run_id after s of (Inl _, s) \<Rightarrow> ([], s) | (Inr es, s) \<Rightarrow> (es, s))"

definition last_sequence :: "string \<Rightarrow> 'p sequencer \<Rightarrow> u64 \<times> 'p sequencer" where
  "last_sequence run_id s =
     (let s = ensure_loaded run_id s
      in (case sq_sequences s run_id of None \<Rightarrow> 0 | Some n \<Rightarrow> n, s))"

subsection \<open>The memory invariant\<close>

definition seq_last :: "'p sequencer \<Rightarrow> string \<Rightarrow> u64" where
  "seq_last s r = (case sq_sequences s r of None \<Rightarrow> 0 | Some n \<Rightarrow> n)"

definition seq_log :: "'p sequencer \<Rightarrow> string \<Rightarrow> run_event list" where
  "seq_log s r = (case sq_events s r of None \<Rightarrow> [] | Some es \<Rightarrow> es)"

definition seq_bus :: "'p sequencer \<Rightarrow> string \<Rightarrow> run_event list" where
  "seq_bus s r = (case sq_buses s r of None \<Rightarrow> [] | Some es \<Rightarrow> es)"

definition strictly_sequenced :: "run_event list \<Rightarrow> bool" where
  "strictly_sequenced es \<longleftrightarrow> sorted_wrt (<) (List.map effective_run_sequence es)"

definition seq_wf :: "'p sequencer \<Rightarrow> bool" where
  "seq_wf s \<longleftrightarrow>
     (\<forall>r. strictly_sequenced (seq_log s r)
        \<and> (\<forall>e\<in>set (seq_log s r). effective_run_sequence e \<le> seq_last s r)
        \<and> (seq_log s r \<noteq> [] \<longrightarrow> sq_loaded s r = Some True))"

lemma strictly_sequenced_Nil [simp]: "strictly_sequenced []"
  by (simp add: strictly_sequenced_def)

lemma strictly_sequenced_snoc:
  "strictly_sequenced (es @ [e]) \<longleftrightarrow>
     strictly_sequenced es \<and> (\<forall>x\<in>set es. effective_run_sequence x < effective_run_sequence e)"
  by (auto simp: strictly_sequenced_def sorted_wrt_append)

lemma strictly_sequenced_filter: "strictly_sequenced es \<Longrightarrow> strictly_sequenced (filter P es)"
  by (simp add: strictly_sequenced_def sorted_wrt_map sorted_wrt_filter)

lemma strictly_sequenced_iff:
  "strictly_sequenced es \<longleftrightarrow>
     sorted (List.map effective_run_sequence es) \<and> distinct (List.map effective_run_sequence es)"
  by (simp add: strictly_sequenced_def strict_sorted_iff)

lemma strictly_sequenced_insert:
  assumes "strictly_sequenced es" and "\<forall>x\<in>set es. effective_run_sequence x \<noteq> effective_run_sequence e"
  shows "strictly_sequenced (sort_key effective_run_sequence (es @ [e]))"
proof -
  have "distinct (List.map effective_run_sequence (es @ [e]))"
    using assms by (auto simp: strictly_sequenced_iff)
  moreover have "mset (List.map effective_run_sequence (sort_key effective_run_sequence (es @ [e])))
      = mset (List.map effective_run_sequence (es @ [e]))"
    by (simp only: mset_map mset_sort)
  ultimately have "distinct (List.map effective_run_sequence (sort_key effective_run_sequence (es @ [e])))"
    using mset_eq_imp_distinct_iff by blast
  then show ?thesis by (simp add: strictly_sequenced_iff)
qed

lemma fold_max_ge: "(m :: u64) \<le> fold (\<lambda>e m. max m (f e)) es m"
proof (induction es arbitrary: m)
  case (Cons e es)
  have "m \<le> max m (f e)" by simp
  also have "\<dots> \<le> fold (\<lambda>e m. max m (f e)) es (max m (f e))" by (rule Cons)
  finally show ?case by simp
qed simp

lemma fold_max_in: "e \<in> set es \<Longrightarrow> (f e :: u64) \<le> fold (\<lambda>e m. max m (f e)) es m"
proof (induction es arbitrary: m)
  case (Cons x es)
  show ?case
  proof (cases "e = x")
    case True
    have "f x \<le> max m (f x)" by simp
    also have "\<dots> \<le> fold (\<lambda>e m. max m (f e)) es (max m (f x))" by (rule fold_max_ge)
    finally show ?thesis using True by simp
  next
    case False
    with Cons show ?thesis by simp
  qed
qed simp

lemma max_sequence_ge: "e \<in> set es \<Longrightarrow> effective_run_sequence e \<le> max_sequence es"
  by (simp add: max_sequence_def fold_max_in)

lemma bus_send_sel [simp]:
  "sq_sequences (bus_send r e s) = sq_sequences s" "sq_events (bus_send r e s) = sq_events s"
  "sq_loaded (bus_send r e s) = sq_loaded s" "sq_load_errors (bus_send r e s) = sq_load_errors s"
  "sq_persistence (bus_send r e s) = sq_persistence s" "sq_store (bus_send r e s) = sq_store s"
  "sq_memory_only (bus_send r e s) = sq_memory_only s"
  by (simp_all add: bus_send_def)

lemma push_event_sel [simp]:
  "sq_sequences (push_event r e s) = sq_sequences s" "sq_buses (push_event r e s) = sq_buses s"
  "sq_loaded (push_event r e s) = sq_loaded s" "sq_load_errors (push_event r e s) = sq_load_errors s"
  "sq_persistence (push_event r e s) = sq_persistence s" "sq_store (push_event r e s) = sq_store s"
  "sq_memory_only (push_event r e s) = sq_memory_only s"
  by (simp_all add: push_event_def)

lemma seq_log_simps [seq_simps]:
  "seq_log (bus_send r e s) q = seq_log s q"
  "seq_log (push_event r e s) q = (if q = r then seq_log s r @ [e] else seq_log s q)"
  "seq_bus (bus_send r e s) q = (if q = r then seq_bus s r @ [e] else seq_bus s q)"
  "seq_bus (push_event r e s) q = seq_bus s q"
  "seq_last (bus_send r e s) q = seq_last s q"
  "seq_last (push_event r e s) q = seq_last s q"
  by (auto simp: seq_log_def seq_bus_def seq_last_def bus_send_def push_event_def split: option.splits)

lemma seq_log_upd [seq_simps]:
  "seq_log (s\<lparr>sq_events := (sq_events s')(r \<mapsto> es)\<rparr>) q =
     (if q = r then es else (case sq_events s' q of None \<Rightarrow> [] | Some es \<Rightarrow> es))"
  "seq_log (s\<lparr>sq_sequences := m\<rparr>) q = seq_log s q"
  "seq_log (s\<lparr>sq_loaded := ml\<rparr>) q = seq_log s q"
  "seq_log (s\<lparr>sq_load_errors := me\<rparr>) q = seq_log s q"
  "seq_log (s\<lparr>sq_store := st\<rparr>) q = seq_log s q"
  by (simp_all add: seq_log_def)

lemma seq_bus_upd [seq_simps]:
  "seq_bus (s\<lparr>sq_events := ev\<rparr>) q = seq_bus s q"
  "seq_bus (s\<lparr>sq_sequences := m\<rparr>) q = seq_bus s q"
  "seq_bus (s\<lparr>sq_loaded := ml\<rparr>) q = seq_bus s q"
  "seq_bus (s\<lparr>sq_load_errors := me\<rparr>) q = seq_bus s q"
  "seq_bus (s\<lparr>sq_store := st\<rparr>) q = seq_bus s q"
  by (simp_all add: seq_bus_def)

lemma seq_last_upd [seq_simps]:
  "seq_last (s\<lparr>sq_sequences := (sq_sequences s')(r \<mapsto> n)\<rparr>) q =
     (if q = r then n else (case sq_sequences s' q of None \<Rightarrow> 0 | Some n \<Rightarrow> n))"
  "seq_last (s\<lparr>sq_events := ev\<rparr>) q = seq_last s q"
  "seq_last (s\<lparr>sq_loaded := ml\<rparr>) q = seq_last s q"
  "seq_last (s\<lparr>sq_load_errors := me\<rparr>) q = seq_last s q"
  "seq_last (s\<lparr>sq_store := st\<rparr>) q = seq_last s q"
  by (simp_all add: seq_last_def)

lemma seq_fold [seq_simps]:
  "(case sq_events s q of None \<Rightarrow> [] | Some es \<Rightarrow> es) = seq_log s q"
  "(case sq_sequences s q of None \<Rightarrow> 0 | Some n \<Rightarrow> n) = seq_last s q"
  by (simp_all add: seq_log_def seq_last_def)

subsection \<open>The store interface\<close>

text \<open>
  What the sequencer relies on of an \<open>EventPersistence\<close>: \<open>inv\<close> is the store's own invariant and
  \<open>durable\<close> the set of event ids it holds; \<open>admissible\<close> says which ids and sequence numbers the
  store is meant for. A replay is strictly ordered by sequence and only returns durable events
  of the run; an accepted append makes the event durable and forgets nothing.
\<close>

locale event_store =
  fixes ops :: "'p persistence_ops"
    and admissible :: "string \<Rightarrow> u64 \<Rightarrow> bool"
    and inv :: "'p \<Rightarrow> bool"
    and durable :: "'p \<Rightarrow> string set"
  assumes append_inv: "inv p \<Longrightarrow> admissible (ev_event_id e) (effective_run_sequence e) \<Longrightarrow> p_append ops e p = Inr p' \<Longrightarrow> inv p'"
    and append_durable: "inv p \<Longrightarrow> admissible (ev_event_id e) (effective_run_sequence e) \<Longrightarrow> p_append ops e p = Inr p' \<Longrightarrow>
        ev_event_id e \<in> durable p'"
    and append_keeps: "inv p \<Longrightarrow> admissible (ev_event_id e) (effective_run_sequence e) \<Longrightarrow> p_append ops e p = Inr p' \<Longrightarrow> durable p \<subseteq> durable p'"
    and replay_sorted: "inv p \<Longrightarrow> p_replay ops r n p = Inr es \<Longrightarrow> strictly_sequenced es"
    and replay_durable: "inv p \<Longrightarrow> p_replay ops r n p = Inr es \<Longrightarrow> e \<in> set es \<Longrightarrow>
        ev_run_id e = r \<and> ev_event_id e \<in> durable p"
begin

definition backed :: "'p sequencer \<Rightarrow> bool" where
  "backed s \<longleftrightarrow> sq_persistence s = Some ops \<and> \<not> sq_memory_only s \<and> inv (sq_store s)"

text \<open>Everything published or held in memory is durable.\<close>

definition persisted :: "'p sequencer \<Rightarrow> bool" where
  "persisted s \<longleftrightarrow> backed s \<and>
     (\<forall>r. \<forall>e\<in>set (seq_log s r) \<union> set (seq_bus s r). ev_event_id e \<in> durable (sq_store s))"

lemma persisted_sequences [simp]: "persisted (s\<lparr>sq_sequences := m\<rparr>) = persisted s"
  by (simp add: persisted_def backed_def seq_simps)

lemma persisted_init: "inv p \<Longrightarrow> persisted (seq_with_persistence ops dir p)"
  by (simp add: persisted_def backed_def seq_with_persistence_def seq_wf_def seq_log_def
      seq_bus_def)

lemma load_persistence_cases:
  obtains (error) err where "load_persistence ops r s = s\<lparr>sq_load_errors := (sq_load_errors s)(r \<mapsto> err)\<rparr>"
  | (loaded) es where "p_replay ops r 0 (sq_store s) = Inr es" "es \<noteq> []"
      "load_persistence ops r s = s\<lparr>sq_sequences := (sq_sequences s)(r \<mapsto> max_sequence es),
         sq_events := (sq_events s)(r \<mapsto> es)\<rparr>"
  | (last) n where "load_persistence ops r s = s\<lparr>sq_sequences := (sq_sequences s)(r \<mapsto> n)\<rparr>"
  | (same) "load_persistence ops r s = s"
proof (cases "p_replay ops r 0 (sq_store s)")
  case (Inl err)
  then show ?thesis by (intro error [of err]) (simp add: load_persistence_def)
next
  case (Inr es)
  show ?thesis
  proof (cases "es = []")
    case False
    with Inr show ?thesis by (intro loaded [of es]) (simp_all add: load_persistence_def)
  next
    case True
    show ?thesis
    proof (cases "p_last ops r (sq_store s)")
      case (Inl err)
      with Inr True show ?thesis by (intro error [of err]) (simp add: load_persistence_def)
    next
      case Inr2: (Inr n)
      show ?thesis
      proof (cases "0 < n")
        case True
        with Inr Inr2 \<open>es = []\<close> show ?thesis by (intro last [of n]) (simp add: load_persistence_def)
      next
        case False
        with Inr Inr2 \<open>es = []\<close> show ?thesis by (intro same) (simp add: load_persistence_def)
      qed
    qed
  qed
qed

lemma ensure_loaded_frame:
  assumes "sq_persistence s = Some ops"
  shows "sq_buses (ensure_loaded r s) = sq_buses s \<and> sq_persistence (ensure_loaded r s) = Some ops
    \<and> sq_memory_only (ensure_loaded r s) = sq_memory_only s \<and> sq_store (ensure_loaded r s) = sq_store s
    \<and> sq_loaded (ensure_loaded r s) r = Some True"
proof (cases "sq_loaded s r = Some True")
  case False
  define s1 where "s1 = s\<lparr>sq_loaded := (sq_loaded s)(r \<mapsto> True)\<rparr>"
  have "ensure_loaded r s = load_persistence ops r s1"
    using assms False by (simp add: ensure_loaded_def s1_def)
  moreover have "sq_buses s1 = sq_buses s \<and> sq_persistence s1 = Some ops
      \<and> sq_memory_only s1 = sq_memory_only s \<and> sq_store s1 = sq_store s \<and> sq_loaded s1 r = Some True"
    using assms by (simp add: s1_def)
  ultimately show ?thesis by (cases rule: load_persistence_cases [of r s1]) simp_all
qed (simp add: ensure_loaded_def assms)

lemma ensure_loaded_persisted_wf:
  assumes "persisted s"
  shows "persisted (ensure_loaded r s) \<and> (seq_wf s \<longrightarrow> seq_wf (ensure_loaded r s))"
proof (cases "sq_loaded s r = Some True")
  case True
  with assms show ?thesis by (simp add: ensure_loaded_def)
next
  case False
  define s1 where "s1 = s\<lparr>sq_loaded := (sq_loaded s)(r \<mapsto> True)\<rparr>"
  from assms have pers: "sq_persistence s = Some ops" and inv: "inv (sq_store s)"
    by (simp_all add: persisted_def backed_def)
  have load: "ensure_loaded r s = load_persistence ops r s1"
    using pers False by (simp add: ensure_loaded_def s1_def)
  have s1: "persisted s1" "seq_wf s \<Longrightarrow> seq_wf s1 \<and> seq_log s1 r = []" using assms False
    by (auto simp: persisted_def backed_def seq_wf_def s1_def seq_simps)
  show ?thesis
  proof (cases rule: load_persistence_cases [of r s1])
    case (loaded es)
    from loaded(1) inv replay_sorted replay_durable
    have "strictly_sequenced es" "\<forall>e\<in>set es. ev_event_id e \<in> durable (sq_store s)"
      by (auto simp: s1_def)
    moreover have "sq_loaded s1 r = Some True" "sq_store s1 = sq_store s" by (simp_all add: s1_def)
    ultimately show ?thesis using s1 max_sequence_ge [of _ es]
      by (auto simp: load loaded(3) persisted_def backed_def seq_wf_def seq_simps)
  qed (use s1 in \<open>auto simp: load persisted_def backed_def seq_wf_def seq_simps\<close>)
qed

lemma persist_event_backed:
  assumes "backed s" and "persist_event r e s = Inr s'"
    and "admissible (ev_event_id e) (effective_run_sequence e)"
  obtains st where "s' = s\<lparr>sq_store := st\<rparr>" "p_append ops e (sq_store s) = Inr st" "inv st"
    "durable (sq_store s) \<subseteq> durable st" "ev_event_id e \<in> durable st"
proof (cases "p_append ops e (sq_store s)")
  case (Inl err)
  with assms show ?thesis by (simp add: persist_event_def backed_def)
next
  case (Inr st)
  with assms have "s' = s\<lparr>sq_store := st\<rparr>" by (simp add: persist_event_def backed_def)
  with Inr that append_inv append_durable append_keeps assms(1,3) show ?thesis
    by (auto simp: backed_def)
qed

text \<open>The ways an append returns: a stand-in for a failure, or the published event.\<close>

lemma seq_append_cases:
  assumes "persisted s" and "seq_append stamp r k s = Some (e, s')"
    and id: "admissible (fst stamp) (seq_last (ensure_loaded r s) r + 1)"
  defines "s0 \<equiv> ensure_loaded r s"
  obtains (failed) "is_persistence_failed (ev_payload e)"
      "s' = s0 \<or> s' = s0\<lparr>sq_sequences := (sq_sequences s0)(r \<mapsto> seq_last s0 r)\<rparr>"
  | (published) k' st where "sanitize_payload k = Some k'"
      "e = run_event_new stamp r (seq_last s0 r + 1) k'"
      "s' = bus_send r e (push_event r e
         (s0\<lparr>sq_sequences := (sq_sequences s0)(r \<mapsto> seq_last s0 r + 1), sq_store := st\<rparr>))"
      "sq_load_errors s0 r = None" "p_append ops e (sq_store s0) = Inr st"
      "inv st" "durable (sq_store s0) \<subseteq> durable st" "fst stamp \<in> durable st"
proof -
  from assms(2) obtain k' where k': "sanitize_payload k = Some k'"
    by (auto simp: seq_append_def bind_eq_Some_conv)
  have bk: "backed s0" using ensure_loaded_persisted_wf [OF assms(1)]
    by (simp add: persisted_def s0_def)
  define ev where "ev = run_event_new stamp r (seq_last s0 r + 1) k'"
  define s1 where "s1 = s0\<lparr>sq_sequences := (sq_sequences s0)(r \<mapsto> seq_last s0 r + 1)\<rparr>"
  note defs = seq_append_def Let_def s0_def [symmetric] seq_simps ev_def [symmetric] s1_def [symmetric] k'
  show ?thesis
  proof (cases "sq_load_errors s0 r")
    case (Some err)
    with assms(2) show ?thesis by (intro failed) (auto simp: defs)
  next
    case None
    show ?thesis
    proof (cases "persist_event r ev s1")
      case (Inl err)
      with assms(2) None show ?thesis by (intro failed) (auto simp: defs)
    next
      case (Inr s2)
      with assms(2) None have ret: "e = ev" "s' = bus_send r ev (push_event r ev s2)"
        by (auto simp: defs)
      have "backed s1" using bk by (simp add: backed_def s1_def)
      have ids: "ev_event_id ev = fst stamp" "effective_run_sequence ev = seq_last s0 r + 1"
        by (simp_all add: ev_def) (simp add: run_event_new_def)
      with id have "admissible (ev_event_id ev) (effective_run_sequence ev)" by (simp add: s0_def)
      from persist_event_backed [OF \<open>backed s1\<close> Inr this] obtain st where st: "s2 = s1\<lparr>sq_store := st\<rparr>"
        "p_append ops ev (sq_store s1) = Inr st" "inv st" "durable (sq_store s1) \<subseteq> durable st"
        "ev_event_id ev \<in> durable st" by blast
      show ?thesis
      proof (rule published [OF k' _ _ None])
        show "e = run_event_new stamp r (seq_last s0 r + 1) k'" by (simp add: ret ev_def)
        show "s' = bus_send r e (push_event r e
           (s0\<lparr>sq_sequences := (sq_sequences s0)(r \<mapsto> seq_last s0 r + 1), sq_store := st\<rparr>))"
          by (simp add: ret st s1_def)
      qed (use st in \<open>simp_all add: ret s1_def ev_def run_event_new_def\<close>)
    qed
  qed
qed

lemma seq_append_persisted:
  assumes "persisted s" and "seq_append stamp r k s = Some (e, s')"
    and "admissible (fst stamp) (seq_last (ensure_loaded r s) r + 1)"
  shows "persisted s'"
proof -
  have s0: "persisted (ensure_loaded r s)" using ensure_loaded_persisted_wf [OF assms(1)] by blast
  from assms show ?thesis
  proof (cases rule: seq_append_cases)
    case failed
    with s0 show ?thesis by auto
  next
    case (published k' st)
    have "ev_event_id e \<in> durable st"
      using published(2,8) by (simp add: run_event_new_def)
    with s0 published(3,6,7) show ?thesis
      by (auto simp: persisted_def backed_def seq_simps subset_iff)
  qed
qed

lemma seq_append_wf:
  assumes "persisted s" "seq_wf s" and "seq_append stamp r k s = Some (e, s')"
    and "admissible (fst stamp) (seq_last (ensure_loaded r s) r + 1)" and "seq_last (ensure_loaded r s) r \<noteq> - 1"
  shows "seq_wf s'"
proof -
  define s0 where "s0 = ensure_loaded r s"
  have wf: "seq_wf s0" using ensure_loaded_persisted_wf [OF assms(1)] assms(2) by (simp add: s0_def)
  have loaded: "sq_loaded s0 r = Some True"
    using ensure_loaded_frame assms(1) by (simp add: s0_def persisted_def backed_def)
  from assms(1,3,4) show ?thesis
  proof (cases rule: seq_append_cases)
    case failed
    with wf show ?thesis by (auto simp: s0_def [symmetric] seq_wf_def seq_simps)
  next
    case (published k' st)
    have lt: "seq_last s0 r < seq_last s0 r + 1"
      using assms(5) by (simp add: s0_def word_less_add_one)
    have "x < seq_last s0 r + 1 \<and> x \<le> seq_last s0 r + 1" if "x \<le> seq_last s0 r" for x
      using order_le_less_trans [OF that lt] by simp
    with wf published(2,3) loaded lt show ?thesis
      by (auto simp: s0_def [symmetric] seq_wf_def seq_simps strictly_sequenced_snoc)
  qed
qed

lemma inject_persisted:
  assumes "persisted s" and "ev_event_id e \<in> durable (sq_store s)"
  shows "persisted (inject_committed e s)"
proof -
  define s0 where "s0 = ensure_loaded (ev_run_id e) s"
  have "persisted s0" using ensure_loaded_persisted_wf [OF assms(1)] by (simp add: s0_def)
  moreover have "sq_store s0 = sq_store s"
    using ensure_loaded_frame assms(1) by (simp add: s0_def persisted_def backed_def)
  ultimately show ?thesis using assms(2)
    by (auto simp: inject_committed_def Let_def s0_def [symmetric] persisted_def backed_def
        seq_simps split: if_splits)
qed

lemma inject_wf:
  assumes "persisted s" and "seq_wf s"
  shows "seq_wf (inject_committed e s)"
proof -
  define s0 where "s0 = ensure_loaded (ev_run_id e) s"
  have wf: "seq_wf s0" using ensure_loaded_persisted_wf [OF assms(1)] assms(2) by (simp add: s0_def)
  have loaded: "sq_loaded s0 (ev_run_id e) = Some True"
    using ensure_loaded_frame assms(1) by (simp add: s0_def persisted_def backed_def)
  show ?thesis
  proof (cases "\<exists>x\<in>set (seq_log s0 (ev_run_id e)). effective_run_sequence x = effective_run_sequence e")
    case True
    with wf show ?thesis
      by (auto simp: inject_committed_def Let_def s0_def [symmetric] seq_wf_def seq_simps
          split: if_splits) (meson order.trans linorder_not_less order.strict_implies_order)+
  next
    case False
    with wf have "strictly_sequenced (sort_key effective_run_sequence (seq_log s0 (ev_run_id e) @ [e]))"
      by (intro strictly_sequenced_insert) (auto simp: seq_wf_def)
    with wf loaded False show ?thesis
      by (auto simp: inject_committed_def Let_def s0_def [symmetric] seq_wf_def seq_simps
          split: if_splits)
        (meson order.trans linorder_not_less order.strict_implies_order)+
  qed
qed

end

end
