(* ===== verification/EventLog.thy ===== *)
theory EventLog
  imports EventSeq
begin

section \<open>The durable event log\<close>

text \<open>
  Models the append and replay of \<open>src-agent-daemon/src/event_log.rs\<close>, the store behind the
  sequencer. The table \<open>run_event\<close> is the list of its rows in insertion order, with the two
  uniqueness constraints of \<open>storage/migrations.rs\<close>: \<open>UNIQUE(run_id, sequence)\<close> and the unique
  index on \<open>event_id\<close>. The \<open>payload\<close> column is the JSON of the stored event; reading it back
  gives the event. The code casts a sequence number to \<open>i64\<close> when it binds it and back when it
  reads it; a column keeps the 64 bits and SQL compares them with the sign (\<open>sint\<close>). The other tables are a state \<open>'x\<close>; the
  settlement of the side-effect ledger and the usage totals, which the append also writes, are
  functions on it, and a failure of a SQL statement is a field of the environment of the call.
\<close>

record event_row =
  er_id :: u64
  er_run_id :: string
  er_sequence :: u64
  er_event_type :: string
  er_payload :: run_event
  er_event_id :: string
  er_turn_id :: "string option"
  er_message_id :: "string option"

record 'x event_db =
  edb_rows :: "event_row list"
  edb_next_id :: u64
  edb_rest :: 'x

record 'x log_env =
  le_uuid :: string
  le_fail_serialize :: "string option"
  le_fail_begin :: "string option"
  le_fail_insert :: "string option"
  le_fail_commit :: "string option"
  le_category :: "string \<Rightarrow> string"
  le_settle :: "string \<Rightarrow> string \<Rightarrow> string \<Rightarrow> bool \<Rightarrow> 'x \<Rightarrow> string + 'x"
  le_usage :: "run_event \<Rightarrow> 'x \<Rightarrow> 'x"

subsection \<open>Append\<close>

definition insert_run_event_row ::
  "'x log_env \<Rightarrow> run_event \<Rightarrow> string \<Rightarrow> u64 \<Rightarrow> string option \<Rightarrow> string option \<Rightarrow> 'x event_db \<Rightarrow>
     string + u64 \<times> 'x event_db" where
  "insert_run_event_row env stored event_id run_seq turn_id message_id db =
     (case le_fail_insert env of
        Some e \<Rightarrow> Inl (''PERSISTENCE_FAILED insert run_event: '' @ e)
      | None \<Rightarrow>
          (if \<exists>r\<in>set (edb_rows db). er_run_id r = ev_run_id stored \<and> er_sequence r = run_seq
              \<or> er_event_id r = event_id
           then Inl (''PERSISTENCE_FAILED insert run_event: '' @ ''UNIQUE constraint failed'')
           else (let row = \<lparr>er_id = edb_next_id db, er_run_id = ev_run_id stored,
                   er_sequence = run_seq, er_event_type = type_name (ev_payload stored),
                   er_payload = stored, er_event_id = event_id, er_turn_id = turn_id,
                   er_message_id = message_id\<rparr>
                 in Inr (edb_next_id db, db\<lparr>edb_rows := edb_rows db @ [row],
                      edb_next_id := edb_next_id db + 1\<rparr>))))"

definition event_message_ids :: "run_event_kind \<Rightarrow> string option \<times> string option" where
  "event_message_ids k =
     (case k of
        EvTurnStarted turn_id \<Rightarrow> (Some turn_id, None)
      | EvTurnCompleted turn_id _ _ _ \<Rightarrow> (Some turn_id, None)
      | EvMessageStarted turn_id message_id _ \<Rightarrow> (Some turn_id, Some message_id)
      | EvMessageDelta turn_id message_id _ \<Rightarrow> (Some turn_id, Some message_id)
      | EvMessageCompleted turn_id message_id _ _ \<Rightarrow> (Some turn_id, Some message_id)
      | _ \<Rightarrow> (None, None))"

text \<open>The transaction of a completed tool call: the row and the ledger settlement, or neither.\<close>

definition insert_tool_completed ::
  "'x log_env \<Rightarrow> run_event \<Rightarrow> string \<Rightarrow> u64 \<Rightarrow> string \<Rightarrow> string \<Rightarrow> bool \<Rightarrow> 'x event_db \<Rightarrow>
     string + u64 \<times> 'x event_db" where
  "insert_tool_completed env stored event_id run_seq call_id name is_error db =
     (case le_fail_begin env of
        Some e \<Rightarrow> Inl (''PERSISTENCE_FAILED begin tool effect commit: '' @ e)
      | None \<Rightarrow>
          (case insert_run_event_row env stored event_id run_seq None None db of
             Inl e \<Rightarrow> Inl e
           | Inr (row_id, db') \<Rightarrow>
               (case le_settle env (ev_run_id stored) call_id
                       (if is_error then ''failed'' else ''completed'')
                       (le_category env name = ''workspace_file'') (edb_rest db') of
                  Inl e \<Rightarrow> Inl (''PERSISTENCE_FAILED settle tool effect: '' @ e)
                | Inr rest \<Rightarrow>
                    (case le_fail_commit env of
                       Some e \<Rightarrow> Inl (''PERSISTENCE_FAILED commit tool effect: '' @ e)
                     | None \<Rightarrow> Inr (row_id, db'\<lparr>edb_rest := rest\<rparr>)))))"

definition write_event_row ::
  "'x log_env \<Rightarrow> run_event \<Rightarrow> 'x event_db \<Rightarrow> string + u64 \<times> 'x event_db" where
  "write_event_row env stored db =
     (case ev_payload stored of
        EvToolCallCompleted call_id name _ is_error _ _ \<Rightarrow>
          insert_tool_completed env stored (ev_event_id stored) (ev_run_sequence stored) call_id name
            is_error db
      | k \<Rightarrow>
          insert_run_event_row env stored (ev_event_id stored) (ev_run_sequence stored)
            (fst (event_message_ids k)) (snd (event_message_ids k)) db)"

definition project_usage :: "'x log_env \<Rightarrow> run_event \<Rightarrow> 'x event_db \<Rightarrow> 'x event_db" where
  "project_usage env event db =
     (case ev_payload event of
        EvUsageUpdated _ _ _ _ _ \<Rightarrow> db\<lparr>edb_rest := le_usage env event (edb_rest db)\<rparr>
      | _ \<Rightarrow> db)"

definition append_event_v2_with_conn ::
  "'x log_env \<Rightarrow> run_event \<Rightarrow> 'x event_db \<Rightarrow> string + u64 \<times> 'x event_db" where
  "append_event_v2_with_conn env event db =
     (let event_id = (if str_trim (ev_event_id event) = [] then le_uuid env else ev_event_id event)
      in case List.find (\<lambda>r. er_event_id r = event_id) (edb_rows db) of
           Some r \<Rightarrow> Inr (er_id r, db)
         | None \<Rightarrow>
             (let stored = event\<lparr>ev_event_id := event_id\<rparr>;
                  stored = set_run_sequence (effective_run_sequence stored) stored
              in case le_fail_serialize env of
                   Some e \<Rightarrow> Inl (''Failed to serialize event: '' @ e)
                 | None \<Rightarrow>
                     (case write_event_row env stored db of
                        Inl e \<Rightarrow> Inl e
                      | Inr (global, db') \<Rightarrow> Inr (global, project_usage env event db'))))"

subsection \<open>Replay\<close>

definition decode_row :: "string \<Rightarrow> event_row \<Rightarrow> run_event" where
  "decode_row run_id row =
     (let ev = with_global_sequence (er_id row)
            (set_run_sequence (er_sequence row) ((er_payload row)\<lparr>ev_run_id := run_id\<rparr>))
      in if er_event_id row \<noteq> [] then ev\<lparr>ev_event_id := er_event_id row\<rparr> else ev)"

definition replay_after_v2 :: "string \<Rightarrow> u64 \<Rightarrow> 'x event_db \<Rightarrow> string + run_event list" where
  "replay_after_v2 run_id after db =
     Inr (List.map (decode_row run_id)
       (sort_key (\<lambda>r. sint (er_sequence r))
         (filter (\<lambda>r. er_run_id r = run_id \<and> sint after < sint (er_sequence r)) (edb_rows db))))"

definition log_last_sequence :: "string \<Rightarrow> 'x event_db \<Rightarrow> string + u64" where
  "log_last_sequence run_id db =
     Inr (case filter (\<lambda>r. er_run_id r = run_id) (edb_rows db) of
            [] \<Rightarrow> 0
          | r # rs \<Rightarrow> fold (\<lambda>r m. if sint m < sint (er_sequence r) then er_sequence r else m) rs
              (er_sequence r))"

text \<open>\<open>impl EventPersistence for EventLog\<close>; the environment of a call may depend on its input.\<close>

definition event_log_ops ::
  "(run_event \<Rightarrow> 'x event_db \<Rightarrow> 'x log_env) \<Rightarrow> 'x event_db persistence_ops" where
  "event_log_ops env =
     \<lparr>p_append = (\<lambda>e db. map_sum id snd (append_event_v2_with_conn (env e db) e db)),
      p_replay = replay_after_v2,
      p_last = log_last_sequence\<rparr>"

subsection \<open>The log keeps what it accepted\<close>

definition db_inv :: "'x event_db \<Rightarrow> bool" where
  "db_inv db \<longleftrightarrow>
     distinct (List.map (\<lambda>r. (er_run_id r, er_sequence r)) (edb_rows db))
     \<and> distinct (List.map er_event_id (edb_rows db))
     \<and> (\<forall>r\<in>set (edb_rows db). er_event_id r \<noteq> [] \<and> 0 < er_sequence r \<and> er_sequence r < 2 ^ 63)"

definition log_admissible :: "string \<Rightarrow> u64 \<Rightarrow> bool" where
  "log_admissible eid n \<longleftrightarrow> str_trim eid \<noteq> [] \<and> 0 < n \<and> n < 2 ^ 63"

definition db_durable :: "'x event_db \<Rightarrow> string set" where
  "db_durable db = er_event_id ` set (edb_rows db)"

lemma insert_row_Inr:
  assumes "insert_run_event_row env stored event_id seq t m db = Inr (g, db')"
  shows "\<exists>row. edb_rows db' = edb_rows db @ [row] \<and> er_run_id row = ev_run_id stored
    \<and> er_sequence row = seq \<and> er_event_id row = event_id \<and> er_payload row = stored
    \<and> (\<forall>r\<in>set (edb_rows db). (er_run_id r, er_sequence r) \<noteq> (ev_run_id stored, seq)
         \<and> er_event_id r \<noteq> event_id)
    \<and> edb_rest db' = edb_rest db"
  using assms by (auto simp: insert_run_event_row_def Let_def split: option.splits if_splits)

lemma project_usage_rows [simp]: "edb_rows (project_usage env event db) = edb_rows db"
  by (auto simp: project_usage_def split: run_event_kind.split)

lemma insert_tool_completed_Inr:
  assumes "insert_tool_completed env stored eid seq c n err db = Inr (g, db')"
  shows "\<exists>db1. insert_run_event_row env stored eid seq None None db = Inr (g, db1)
    \<and> edb_rows db' = edb_rows db1"
  using assms by (auto simp: insert_tool_completed_def split: option.splits sum.splits)

lemma write_event_row_Inr:
  assumes "write_event_row env stored db = Inr (g, db')"
  shows "\<exists>row. edb_rows db' = edb_rows db @ [row] \<and> er_run_id row = ev_run_id stored
    \<and> er_sequence row = ev_run_sequence stored \<and> er_event_id row = ev_event_id stored
    \<and> er_payload row = stored
    \<and> (\<forall>r\<in>set (edb_rows db). (er_run_id r, er_sequence r) \<noteq> (ev_run_id stored, ev_run_sequence stored)
         \<and> er_event_id r \<noteq> ev_event_id stored)"
proof -
  have "\<exists>t m db1. insert_run_event_row env stored (ev_event_id stored) (ev_run_sequence stored) t m db
      = Inr (g, db1) \<and> edb_rows db' = edb_rows db1"
    using assms insert_tool_completed_Inr unfolding write_event_row_def
    by (cases "ev_payload stored") (simp_all, blast+)
  then obtain t m db1 where "insert_run_event_row env stored (ev_event_id stored)
      (ev_run_sequence stored) t m db = Inr (g, db1)" "edb_rows db' = edb_rows db1" by blast
  from insert_row_Inr [OF this(1)] this(2) show ?thesis by auto
qed

lemma append_log_cases:
  assumes "append_event_v2_with_conn env event db = Inr (g, db')"
    and "str_trim (ev_event_id event) \<noteq> []"
  obtains (dup) r where "db' = db" "r \<in> set (edb_rows db)" "er_event_id r = ev_event_id event"
  | (fresh) row where "edb_rows db' = edb_rows db @ [row]" "er_event_id row = ev_event_id event"
      "er_run_id row = ev_run_id event" "er_sequence row = effective_run_sequence event"
      "\<forall>r\<in>set (edb_rows db). (er_run_id r, er_sequence r) \<noteq> (er_run_id row, er_sequence row)
         \<and> er_event_id r \<noteq> er_event_id row"
proof (cases "List.find (\<lambda>r. er_event_id r = ev_event_id event) (edb_rows db)")
  case (Some r)
  then have "r \<in> set (edb_rows db) \<and> er_event_id r = ev_event_id event"
    by (auto simp: find_Some_iff)
  moreover from assms Some have "db' = db" by (simp add: append_event_v2_with_conn_def Let_def)
  ultimately show ?thesis using dup by blast
next
  case None
  define stored where "stored = set_run_sequence (effective_run_sequence event) event"
  have sel: "ev_run_id stored = ev_run_id event" "ev_payload stored = ev_payload event"
    "ev_event_id stored = ev_event_id event" "ev_run_sequence stored = effective_run_sequence event"
    by (simp_all add: stored_def set_run_sequence_def)
  have upd: "event\<lparr>ev_event_id := ev_event_id event\<rparr> = event" by simp
  from assms None obtain db1 where wr: "write_event_row env stored db = Inr (g, db1)"
    and db': "db' = project_usage env event db1"
    by (auto simp: append_event_v2_with_conn_def Let_def stored_def [symmetric]
        split: option.splits sum.splits)
  from write_event_row_Inr [OF wr] db' obtain row where "edb_rows db' = edb_rows db @ [row]"
    "er_run_id row = ev_run_id event" "er_sequence row = effective_run_sequence event"
    "er_event_id row = ev_event_id event"
    "\<forall>r\<in>set (edb_rows db). (er_run_id r, er_sequence r) \<noteq> (er_run_id row, er_sequence row)
         \<and> er_event_id r \<noteq> er_event_id row"
    by (auto simp: sel)
  then show ?thesis using fresh by blast
qed

lemma event_log_append_SomeD:
  assumes "p_append (event_log_ops env) e db = Inr db'"
  obtains g where "append_event_v2_with_conn (env e db) e db = Inr (g, db')"
  using assms by (cases "append_event_v2_with_conn (env e db) e db") (auto simp: event_log_ops_def)

lemma decode_row_simps [simp]:
  "effective_run_sequence (decode_row run_id row) = er_sequence row"
  "ev_run_id (decode_row run_id row) = run_id"
  "er_event_id row \<noteq> [] \<Longrightarrow> ev_event_id (decode_row run_id row) = er_event_id row"
  by (simp_all add: decode_row_def Let_def effective_run_sequence_def set_run_sequence_def
      with_global_sequence_def)

lemma sint_small: "(n :: u64) < 2 ^ 63 \<Longrightarrow> sint n = uint n"
  using signed_take_bit_int_eq_self [of 63 "uint n"] uint_ge_0 [of n]
  by (simp add: sint_uint word_less_def)

lemma db_inv_append_row:
  assumes "db_inv db" "edb_rows db' = edb_rows db @ [row]" "er_event_id row \<noteq> []"
    and "0 < er_sequence row" "er_sequence row < 2 ^ 63"
    and "\<forall>r\<in>set (edb_rows db). (er_run_id r, er_sequence r) \<noteq> (er_run_id row, er_sequence row)
         \<and> er_event_id r \<noteq> er_event_id row"
  shows "db_inv db'"
  using assms by (auto simp: db_inv_def)

lemma replay_strict:
  assumes "db_inv db" and "replay_after_v2 run_id n db = Inr es"
  shows "strictly_sequenced es"
proof -
  define P where "P = (\<lambda>r :: event_row. er_run_id r = run_id \<and> sint n < sint (er_sequence r))"
  define rows where "rows = sort_key (\<lambda>r. sint (er_sequence r)) (filter P (edb_rows db))"
  have es: "es = List.map (decode_row run_id) rows"
    using assms(2) by (simp add: replay_after_v2_def rows_def P_def)
  have small: "sint (er_sequence r) = uint (er_sequence r)" if "r \<in> set rows" for r
    using that assms(1) sint_small by (auto simp: rows_def db_inv_def)
  have "sorted (List.map (\<lambda>r. sint (er_sequence r)) rows)" by (simp add: rows_def)
  then have "sorted (List.map (\<lambda>r. uint (er_sequence r)) rows)"
    using small by (metis (no_types, lifting) map_cong)
  then have "sorted (List.map er_sequence rows)"
    by (simp add: sorted_map word_le_def)
  moreover have "distinct (List.map er_sequence rows)"
  proof -
    have "distinct (List.map (\<lambda>r. (er_run_id r, er_sequence r)) (filter P (edb_rows db)))"
      using assms(1) by (simp add: db_inv_def distinct_map_filter)
    then have "distinct (List.map er_sequence (filter P (edb_rows db)))"
      by (auto simp: distinct_map inj_on_def P_def)
    then show ?thesis by (auto simp: rows_def distinct_map distinct_sort)
  qed
  ultimately show ?thesis
    by (simp add: strictly_sequenced_iff es comp_def)
qed

lemma replay_rows:
  assumes "db_inv db" and "replay_after_v2 run_id n db = Inr es" and "e \<in> set es"
  shows "ev_run_id e = run_id \<and> ev_event_id e \<in> db_durable db"
  using assms by (auto simp: replay_after_v2_def db_inv_def db_durable_def)

lemma trim_Nil [simp]: "str_trim [] = []"
  by code_simp

lemma append_log_laws:
  assumes "db_inv db" "log_admissible (ev_event_id e) (effective_run_sequence e)"
    and "p_append (event_log_ops env) e db = Inr db'"
  shows "db_inv db' \<and> ev_event_id e \<in> db_durable db' \<and> db_durable db \<subseteq> db_durable db'"
proof -
  obtain g where app: "append_event_v2_with_conn (env e db) e db = Inr (g, db')"
    using assms(3) by (rule event_log_append_SomeD)
  have ne: "str_trim (ev_event_id e) \<noteq> []" "ev_event_id e \<noteq> []"
    using assms(2) by (auto simp: log_admissible_def)
  from app ne(1) show ?thesis
  proof (cases rule: append_log_cases)
    case (fresh row)
    have "db_inv db'" by (rule db_inv_append_row [OF assms(1) fresh(1)])
        (use fresh ne assms(2) in \<open>auto simp: log_admissible_def\<close>)
    then show ?thesis using fresh by (auto simp: db_durable_def)
  next
    case (dup r)
    then show ?thesis using assms(1) by (metis db_durable_def image_eqI order_refl)
  qed
qed

text \<open>The event log is a store for the sequencer, whatever statements of SQLite fail.\<close>

interpretation el: event_store "event_log_ops env" log_admissible db_inv db_durable for env
proof
  fix p e p'
  assume "db_inv p" "log_admissible (ev_event_id e) (effective_run_sequence e)"
    "p_append (event_log_ops env) e p = Inr p'"
  from append_log_laws [OF this]
  show "db_inv p'" "ev_event_id e \<in> db_durable p'" "db_durable p \<subseteq> db_durable p'" by blast+
next
  fix p r n es assume "db_inv p" "p_replay (event_log_ops env) r n p = Inr es"
  then show "strictly_sequenced es" by (simp add: event_log_ops_def replay_strict)
next
  fix p r n es e assume "db_inv p" "p_replay (event_log_ops env) r n p = Inr es" "e \<in> set es"
  then show "ev_run_id e = r \<and> ev_event_id e \<in> db_durable p"
    using replay_rows by (simp add: event_log_ops_def)
qed

subsection \<open>The sequencer over the event log\<close>

text \<open>
  The states a sequencer over the log reaches, while other writers of the daemon (the lifecycle
  commits of \<open>RunManager\<close>) change the same database, keeping its invariant and every event, and
  hand their committed rows to \<open>inject_committed\<close>.
\<close>

inductive log_reachable :: "(run_event \<Rightarrow> 'x event_db \<Rightarrow> 'x log_env) \<Rightarrow> 'x event_db sequencer \<Rightarrow> bool"
  for env where
  reach_init: "db_inv db \<Longrightarrow> log_reachable env (seq_with_persistence (event_log_ops env) dir db)"
| reach_append: "log_reachable env s \<Longrightarrow> seq_append stamp r k s = Some (e, s') \<Longrightarrow>
    log_admissible (fst stamp) (seq_last (ensure_loaded r s) r + 1) \<Longrightarrow> log_reachable env s'"
| reach_inject: "log_reachable env s \<Longrightarrow> ev_event_id e \<in> db_durable (sq_store s) \<Longrightarrow>
    log_reachable env (inject_committed e s)"
| reach_load: "log_reachable env s \<Longrightarrow> log_reachable env (ensure_loaded r s)"
| reach_other: "log_reachable env s \<Longrightarrow> db_inv db \<Longrightarrow>
    db_durable (sq_store s) \<subseteq> db_durable db \<Longrightarrow> log_reachable env (s\<lparr>sq_store := db\<rparr>)"

lemma log_reachable_inv: "log_reachable env s \<Longrightarrow> el.persisted env s \<and> seq_wf s"
proof (induction rule: log_reachable.induct)
  case (reach_init db dir)
  moreover have "seq_wf (seq_with_persistence (event_log_ops env) dir db)"
    by (simp add: seq_wf_def seq_log_def seq_with_persistence_def)
  ultimately show ?case by (simp add: el.persisted_init)
next
  case (reach_append s stamp r k e s')
  have "seq_last (ensure_loaded r s) r \<noteq> - 1"
    using reach_append.hyps(3) by (auto simp: log_admissible_def)
  with reach_append show ?case using el.seq_append_persisted el.seq_append_wf by blast
next
  case (reach_inject s e)
  then show ?case using el.inject_persisted el.inject_wf by blast
next
  case (reach_load s r)
  then show ?case using el.ensure_loaded_persisted_wf by blast
next
  case (reach_other s db)
  then show ?case by (auto simp: el.persisted_def el.backed_def seq_wf_def seq_simps subset_iff)
qed

text \<open>A published event is one new row with its id, run and sequence.\<close>

lemma append_writes_row:
  assumes "log_reachable env s" and "seq_append stamp r k s = Some (e, s')"
    and "log_admissible (fst stamp) (seq_last (ensure_loaded r s) r + 1)"
    and "fst stamp \<notin> db_durable (sq_store s)" and "\<not> is_persistence_failed (ev_payload e)"
  obtains row where "edb_rows (sq_store s') = edb_rows (sq_store s) @ [row]"
    "er_event_id row = fst stamp" "er_run_id row = r" "er_sequence row = effective_run_sequence e"
    "ev_event_id e = fst stamp" "effective_run_sequence e = seq_last (ensure_loaded r s) r + 1"
    "seq_log s' r = seq_log (ensure_loaded r s) r @ [e]" "seq_bus s' r = seq_bus s r @ [e]"
proof -
  have inv: "el.persisted env s" using log_reachable_inv [OF assms(1)] ..
  have frame: "sq_store (ensure_loaded r s) = sq_store s" "seq_bus (ensure_loaded r s) r = seq_bus s r"
    using el.ensure_loaded_frame [of s env r] inv
    by (simp_all add: el.persisted_def el.backed_def seq_bus_def)
  from inv assms(2,3) show ?thesis
  proof (cases rule: el.seq_append_cases)
    case failed
    with assms(5) show ?thesis by simp
  next
    case (published k' st)
    have ids: "ev_event_id e = fst stamp" "ev_run_id e = r"
        "effective_run_sequence e = seq_last (ensure_loaded r s) r + 1"
      unfolding published(2) by (simp_all) (simp add: run_event_new_def)
    obtain g where app: "append_event_v2_with_conn (env e (sq_store s)) e (sq_store s) = Inr (g, st)"
      using published(5) frame by (auto elim: event_log_append_SomeD)
    have "str_trim (ev_event_id e) \<noteq> []" using assms(3) ids by (simp add: log_admissible_def)
    with app show ?thesis
    proof (cases rule: append_log_cases)
      case (dup q)
      then show ?thesis using assms(4) ids by (metis db_durable_def image_eqI)
    next
      case (fresh row)
      with ids published(3) frame that show ?thesis by (auto simp: seq_simps)
    qed
  qed
qed

lemma restart_replays_rows:
  assumes "db_inv db" and "row \<in> set (edb_rows db)" and "n < er_sequence row"
  shows "decode_row (er_run_id row) row \<in>
    set (fst (replay_after (er_run_id row) n (seq_with_persistence (event_log_ops env) dir db)))"
proof -
  let ?r = "er_run_id row"
  define es where "es = List.map (decode_row ?r) (sort_key (\<lambda>r. sint (er_sequence r))
      (filter (\<lambda>r. er_run_id r = ?r \<and> 0 < sint (er_sequence r)) (edb_rows db)))"
  have "0 < sint (er_sequence row)"
    using assms(1,2) sint_small [of "er_sequence row"] by (auto simp: db_inv_def word_less_def)
  with assms(2) have mem: "decode_row ?r row \<in> set es" by (auto simp: es_def)
  then have "es \<noteq> []" by auto
  moreover have "p_replay (event_log_ops env) ?r 0 db = Inr es"
    by (simp add: event_log_ops_def replay_after_v2_def es_def)
  ultimately have "seq_log (ensure_loaded ?r (seq_with_persistence (event_log_ops env) dir db)) ?r = es"
    "sq_load_errors (ensure_loaded ?r (seq_with_persistence (event_log_ops env) dir db)) ?r = None"
    by (simp_all add: ensure_loaded_def load_persistence_def seq_with_persistence_def seq_log_def)
  with mem assms(3) show ?thesis
    by (auto simp: replay_after_def replay_after_checked_def Let_def seq_log_def split: option.splits)
qed


subsection \<open>A concrete log\<close>

definition quiet_env :: "run_event \<Rightarrow> unit event_db \<Rightarrow> unit log_env" where
  "quiet_env e db = \<lparr>le_uuid = ''fresh'', le_fail_serialize = None, le_fail_begin = None,
     le_fail_insert = None, le_fail_commit = None, le_category = (\<lambda>_. ''workspace_file''),
     le_settle = (\<lambda>_ _ _ _ x. Inr x), le_usage = (\<lambda>_ x. x)\<rparr>"

definition demo_db :: "unit event_db" where
  "demo_db = \<lparr>edb_rows = [], edb_next_id = 1, edb_rest = ()\<rparr>"

definition demo_seq :: "unit event_db sequencer" where
  "demo_seq = seq_with_persistence (event_log_ops quiet_env) None demo_db"

definition demo_event :: run_event where
  "demo_event = fst (the (seq_append (''e1'', ''t'') ''r'' (EvTurnStarted ''t1'') demo_seq))"

definition demo_seq1 :: "unit event_db sequencer" where
  "demo_seq1 = snd (the (seq_append (''e1'', ''t'') ''r'' (EvTurnStarted ''t1'') demo_seq))"

lemma demo_facts:
  "seq_append (''e1'', ''t'') ''r'' (EvTurnStarted ''t1'') demo_seq \<noteq> None"
  "log_admissible ''e1'' (seq_last (ensure_loaded ''r'' demo_seq) ''r'' + 1)"
  "''e1'' \<notin> db_durable (sq_store demo_seq)"
  "\<not> is_persistence_failed (ev_payload demo_event)"
  "List.map ev_event_id (seq_bus demo_seq1 ''r'') = [''e1'']"
  "List.map ev_event_id (seq_log demo_seq1 ''r'') = [''e1'']"
  "effective_run_sequence demo_event = 1"
  by code_simp+

lemma demo_append:
  "seq_append (''e1'', ''t'') ''r'' (EvTurnStarted ''t1'') demo_seq = Some (demo_event, demo_seq1)"
  using demo_facts(1) by (auto simp: demo_event_def demo_seq1_def)

lemma demo_reachable: "log_reachable quiet_env demo_seq" "log_reachable quiet_env demo_seq1"
proof -
  show "log_reachable quiet_env demo_seq" unfolding demo_seq_def
    by (rule reach_init) (simp add: demo_db_def db_inv_def)
  from reach_append [OF this demo_append] demo_facts(2) show "log_reachable quiet_env demo_seq1"
    by simp
qed

subsection \<open>Properties\<close>

text \<open>
  C5: persist first. In every state the sequencer reaches over the SQLite log, whatever
  statements failed on the way and whatever the daemon's other writers appended, each event
  held in memory or sent to a subscriber of any run is a row of the durable log.
\<close>

theorem published_events_are_durable:
  assumes "log_reachable env s" and "e \<in> set (seq_log s r) \<union> set (seq_bus s r)"
  shows "\<exists>row\<in>set (edb_rows (sq_store s)). er_event_id row = ev_event_id e"
proof -
  have "ev_event_id e \<in> db_durable (sq_store s)"
    using log_reachable_inv [OF assms(1)] assms(2) by (auto simp: el.persisted_def)
  then show ?thesis by (auto simp: db_durable_def)
qed

lemma published_events_are_durable_witness:
  "\<exists>e\<in>set (seq_bus demo_seq1 ''r''). \<exists>row\<in>set (edb_rows (sq_store demo_seq1)).
     er_event_id row = ev_event_id e"
proof -
  obtain e where "e \<in> set (seq_bus demo_seq1 ''r'')"
    using demo_facts(5) by (metis list.simps(15) list.simps(8) list.set_intros(1) map_eq_Cons_D)
  with published_events_are_durable [OF demo_reachable(2), of e "''r''"] show ?thesis by blast
qed

text \<open>
  Order and uniqueness. In every reachable state the log of each run, which the replay
  serves, is strictly increasing in its sequence numbers and none exceeds the counter from
  which the next append counts.
\<close>

theorem reachable_log_ordered:
  assumes "log_reachable env s"
  shows "sorted_wrt (<) (List.map effective_run_sequence (seq_log s r))
    \<and> (\<forall>e\<in>set (seq_log s r). effective_run_sequence e \<le> seq_last s r)"
  using log_reachable_inv [OF assms] by (simp add: seq_wf_def strictly_sequenced_def)

lemma reachable_log_ordered_witness:
  "sorted_wrt (<) (List.map effective_run_sequence (seq_log demo_seq1 ''r''))
    \<and> list_all (\<lambda>e. effective_run_sequence e \<le> seq_last demo_seq1 ''r'') (seq_log demo_seq1 ''r'')"
  unfolding list_all_iff by (rule reachable_log_ordered [OF demo_reachable(2)])

text \<open>
  C12: an accepted append survives a restart. When \<open>append\<close> with a fresh event id hands back the
  event itself, a sequencer created anew over the store replays an event of that id and
  sequence number to every subscriber that asks for what follows an earlier number.
\<close>

theorem accepted_append_survives_restart:
  assumes "log_reachable env s" and "seq_append stamp r k s = Some (e, s')"
    and "log_admissible (fst stamp) (seq_last (ensure_loaded r s) r + 1)"
    and "fst stamp \<notin> db_durable (sq_store s)" and "\<not> is_persistence_failed (ev_payload e)"
    and "n < effective_run_sequence e"
  shows "\<exists>x\<in>set (fst (replay_after r n (seq_with_persistence (event_log_ops env) dir (sq_store s')))).
    ev_event_id x = fst stamp \<and> effective_run_sequence x = effective_run_sequence e \<and> ev_run_id x = r"
proof -
  obtain row where row: "edb_rows (sq_store s') = edb_rows (sq_store s) @ [row]"
    "er_event_id row = fst stamp" "er_run_id row = r" "er_sequence row = effective_run_sequence e"
    using assms(1-5) by (rule append_writes_row)
  have "db_inv (sq_store s')"
    using log_reachable_inv [OF reach_append [OF assms(1-3)]]
    by (simp add: el.persisted_def el.backed_def)
  from restart_replays_rows [OF this, of row n env dir] row assms(6)
  have "decode_row r row \<in>
    set (fst (replay_after r n (seq_with_persistence (event_log_ops env) dir (sq_store s'))))" by simp
  moreover have "fst stamp \<noteq> []" using assms(3) by (auto simp: log_admissible_def)
  ultimately show ?thesis using row by (intro bexI [of _ "decode_row r row"]) auto
qed

lemma accepted_append_survives_restart_witness:
  "\<exists>x\<in>set (fst (replay_after ''r'' 0
      (seq_with_persistence (event_log_ops quiet_env) None (sq_store demo_seq1)))).
    ev_event_id x = ''e1'' \<and> effective_run_sequence x = effective_run_sequence demo_event \<and> ev_run_id x = ''r''"
  using accepted_append_survives_restart [OF demo_reachable(1) demo_append, of 0 None] demo_facts
  by simp



end
