(* ===== verification/LifecycleAuthority.thy ===== *)
theory LifecycleAuthority
  imports RunState
begin

section \<open>The contract of the lifecycle authority\<close>

text \<open>
  The trait \<open>RunLifecycleAuthority\<close> of \<open>run_state.rs\<close> is the one interface through which the
  status of a run changes. The locale states what its documentation promises of \<open>commit\<close> over a
  \<open>view\<close> of the state (status and revision of each run): an accepted commit found the expected
  revision and a legal edge, and moves that run alone; a rejected one changes no run. What
  follows for the history of a run, whatever the requests are, is proved here once;
  \<open>RunManager\<close> shows that the code's \<open>commit_transition\<close> satisfies the contract.
\<close>

primrec drive :: "('q \<Rightarrow> 's \<Rightarrow> 'o \<times> 's) \<Rightarrow> 'q list \<Rightarrow> 's \<Rightarrow> 'o list \<times> 's" where
  "drive step [] s = ([], s)"
| "drive step (q # qs) s =
     (let (out, s1) = step q s; (outs, s2) = drive step qs s1 in (out # outs, s2))"

fun accepted :: "string \<Rightarrow> ('e + committed_transition) list \<Rightarrow> run_status list" where
  "accepted r [] = []"
| "accepted r (Inl e # outs) = accepted r outs"
| "accepted r (Inr ct # outs) = (if ct_run_id ct = r then ct_to ct # accepted r outs else accepted r outs)"

lemma sat_add_one_unat: "unat (sat_add (n :: u64) 1) = min (unat n + 1) (2 ^ 64 - 1)"
  by (simp add: sat_simps)

lemma unat_u64_le: "unat (n :: u64) \<le> 2 ^ 64 - 1"
proof -
  have "unat n < 2 ^ LENGTH(64)" by (rule unsigned_less)
  then show ?thesis by simp
qed

locale lifecycle_authority =
  fixes commit :: "'q \<Rightarrow> 's \<Rightarrow> ('e + committed_transition) \<times> 's"
    and req :: "'q \<Rightarrow> string \<times> u64 \<times> run_status"
    and view :: "'s \<Rightarrow> string \<Rightarrow> (run_status \<times> u64) option"
  assumes commit_ok: "commit q s = (Inr ct, s') \<Longrightarrow> req q = (r, n, t) \<Longrightarrow>
      \<exists>st. view s r = Some (st, n) \<and> transition st t = Inr ()
        \<and> view s' = (view s)(r \<mapsto> (t, sat_add n 1)) \<and> ct_run_id ct = r \<and> ct_to ct = t"
    and commit_err: "commit q s = (Inl e, s') \<Longrightarrow> view s' = view s"
begin

text \<open>One commit, seen from one run.\<close>

lemma commit_step:
  assumes "commit q s = (out, s')" and "view s r = Some (st, n)"
  obtains (kept) "accepted r (out # outs) = accepted r outs" "view s' r = Some (st, n)"
  | (moved) t where "accepted r (out # outs) = t # accepted r outs" "transition st t = Inr ()"
      "view s' r = Some (t, sat_add n 1)"
proof (cases out)
  case (Inl e)
  with assms commit_err show ?thesis by (intro kept) auto
next
  case (Inr ct)
  obtain r' n' t where req: "req q = (r', n', t)" by (cases "req q")
  from commit_ok [OF assms(1) [unfolded Inr] req] obtain st' where ok: "view s r' = Some (st', n')"
    "transition st' t = Inr ()" "view s' = (view s)(r' \<mapsto> (t, sat_add n' 1))"
    "ct_run_id ct = r'" "ct_to ct = t" by blast
  show ?thesis
  proof (cases "r' = r")
    case True
    with ok assms(2) Inr show ?thesis by (intro moved [of t]) auto
  next
    case False
    with ok assms(2) Inr show ?thesis by (intro kept) auto
  qed
qed

text \<open>Whatever is requested, the accepted targets of a run are a path of the state graph.\<close>

lemma drive_path:
  assumes "drive commit qs s = (outs, s')" and "view s r = Some (st, n)"
  shows "\<exists>st' n'. view s' r = Some (st', n') \<and> lifecycle_path st (accepted r outs) st'
    \<and> unat n' = min (unat n + length (accepted r outs)) (2 ^ 64 - 1)"
  using assms
proof (induction qs arbitrary: s outs st n)
  case Nil
  have "unat n \<le> 2 ^ 64 - 1" by (rule unat_u64_le)
  with Nil show ?case by (auto intro: path_nil)
next
  case (Cons q qs)
  obtain out s1 where one: "commit q s = (out, s1)" by (cases "commit q s")
  obtain outs1 s2 where rest: "drive commit qs s1 = (outs1, s2)" by (cases "drive commit qs s1")
  from Cons.prems one rest have outs: "outs = out # outs1" "s' = s2" by simp_all
  note rest = rest [folded outs(2)]
  from one Cons.prems(2) show ?case
  proof (cases rule: commit_step [where outs = outs1])
    case kept
    with Cons.IH [OF rest] show ?thesis by (simp add: outs(1))
  next
    case (moved t)
    from Cons.IH [OF rest moved(3)] obtain st' n' where "view s' r = Some (st', n')"
      "lifecycle_path t (accepted r outs1) st'"
      "unat n' = min (unat (sat_add n 1) + length (accepted r outs1)) (2 ^ 64 - 1)" by blast
    with moved show ?thesis
      by (auto simp: outs(1) sat_add_one_unat intro: path_cons)
  qed
qed

lemma drive_terminal:
  assumes "drive commit qs s = (outs, s')" and "view s r = Some (st, n)" and "is_terminal st"
  shows "accepted r outs = [] \<and> view s' r = Some (st, n)"
proof -
  obtain st' n' where "view s' r = Some (st', n')" "lifecycle_path st (accepted r outs) st'"
    "unat n' = min (unat n + length (accepted r outs)) (2 ^ 64 - 1)"
    using drive_path [OF assms(1,2)] by blast
  moreover from this(2) assms(3) have "accepted r outs = []" "st' = st"
    using lifecycle_path_terminal by blast+
  moreover have "unat n \<le> 2 ^ 64 - 1" by (rule unat_u64_le)
  ultimately show ?thesis by (simp add: word_unat_eq_iff)
qed

text \<open>An expected revision is good for one commit.\<close>

lemma one_winner:
  assumes "commit q s = (Inr ct, s1)" "req q = (r, n, t)" and "n \<noteq> - 1"
    and "drive commit qs s1 = (outs, s2)" and "req q' = (r, n, t')"
  shows "isl (fst (commit q' s2))"
proof (rule ccontr)
  assume "\<not> isl (fst (commit q' s2))"
  moreover obtain out s3 where "commit q' s2 = (out, s3)" by (cases "commit q' s2")
  ultimately obtain ct' where win: "commit q' s2 = (Inr ct', s3)" by (cases out) auto
  from commit_ok [OF assms(1,2)] have "view s1 r = Some (t, sat_add n 1)" by auto
  from drive_path [OF assms(4) this] obtain st' n' where "view s2 r = Some (st', n')"
    "unat n' = min (unat (sat_add n 1) + length (accepted r outs)) (2 ^ 64 - 1)" by blast
  moreover from commit_ok [OF win assms(5)] have "\<exists>st. view s2 r = Some (st, n)" by blast
  ultimately have "unat n = min (unat (sat_add n 1) + length (accepted r outs)) (2 ^ 64 - 1)" by auto
  moreover have "unat n + 1 < 2 ^ 64" using unat_less_max [OF assms(3)] by simp
  ultimately show False by (simp add: sat_add_one_unat)
qed

end

end
