(* ===== verification/RunManager.thy ===== *)
theory RunManager
  imports EventLog LifecycleAuthority
begin

section \<open>The lifecycle authority: committing run transitions\<close>

text \<open>
  Models the lifecycle part of \<open>src-agent-daemon/src/run_manager.rs\<close>: the run record, the event a
  transition writes, \<open>commit_transition\<close> (persist-first compare-and-swap), \<open>commit_status\<close>,
  \<open>commit_outcome\<close>, \<open>fail_run_if_active\<close> and the startup recovery. The state is the run map of
  the manager and its event sequencer; when a data store is present its database is the store of
  the sequencer (\<open>RuntimeCore\<close> builds the sequencer over the event log of the same file), and the
  tables other than \<open>run_event\<close> are the record \<open>run_tables\<close>. The clock, the fresh event id and
  the failures of SQL statements are the environment of a call. Lock poisoning and the JSON
  snapshot file are not modelled. A revision is bound to SQL as \<open>i64\<close>, which keeps its bits.
\<close>

named_theorems rm_simps \<open>field equations of the run manager\<close>

subsection \<open>Runs and tables\<close>

record run_v2 =
  rv_id :: string
  rv_conversation_id :: string
  rv_status :: run_status
  rv_parent_run_id :: "string option"
  rv_agent_profile_id :: "string option"
  rv_provider_id :: string
  rv_key_id :: "string option"
  rv_model_id :: string
  rv_permission_profile :: string
  rv_trigger_message_id :: "string option"
  rv_started_at :: "string option"
  rv_finished_at :: "string option"
  rv_error_code :: "string option"
  rv_step_count :: u32
  rv_max_steps :: u32
  rv_project_path :: "string option"
  rv_project_id :: "string option"
  rv_project_identity_version :: "u32 option"
  rv_retry_count :: u32
  rv_created_at :: "string option"
  rv_last_event_sequence :: u64
  rv_idempotency_key :: "string option"
  rv_effort :: "string option"
  rv_runtime_id :: "string option"
  rv_revision :: u64
  rv_capability_snapshot :: "json option"
  rv_retry_of_run_id :: "string option"
  rv_retry_of_turn_id :: "string option"
  rv_continued_from_run_id :: "string option"
  rv_branch_id :: "string option"
  rv_branch_parent_message_id :: "string option"
  rv_checkpoint_id :: "string option"
  rv_resume_of_run_id :: "string option"

text \<open>The columns of table \<open>run\<close> that a commit reads or writes.\<close>

record run_row =
  rr_status :: string
  rr_revision :: u64
  rr_error_code :: "string option"
  rr_started_at :: "string option"
  rr_finished_at :: "string option"
  rr_step_count :: "u32 option"

record interaction_row =
  ir_run_id :: "string option"
  ir_status :: string
  ir_response :: "string option"
  ir_responded_at :: "string option"

record permission_row =
  pr_run_id :: string
  pr_status :: string

record actor_row =
  ar_active_run_id :: "string option"
  ar_running_prompt_id :: "string option"
  ar_pending_interaction_id :: "string option"
  ar_cancel_and_send_id :: "string option"
  ar_cancel_requested :: bool
  ar_updated_at :: string

record run_tables =
  rt_runs :: "string \<rightharpoonup> run_row"
  rt_interactions :: "interaction_row list"
  rt_permissions :: "permission_row list"
  rt_actors :: "actor_row list"

type_synonym run_db = "run_tables event_db"

record run_manager =
  rm_runs :: "string \<rightharpoonup> run_v2"
  rm_has_store :: bool
  rm_events :: "run_db sequencer"

definition get_run :: "string \<Rightarrow> run_manager \<Rightarrow> run_v2 option" where
  "get_run run_id m = rm_runs m run_id"

definition rm_db :: "run_manager \<Rightarrow> run_db" where
  "rm_db m = sq_store (rm_events m)"

definition run_row_of :: "run_db \<Rightarrow> string \<Rightarrow> run_row option" where
  "run_row_of db run_id = rt_runs (edb_rest db) run_id"

text \<open>The statements that can fail, and the environment of one call.\<close>

datatype commit_site =
    SiteConn | SiteBegin | SiteUpdate | SiteReread | SiteMaxSeq | SiteSerialize | SiteInsert
  | SiteCommit | SiteExpire

record commit_env =
  ce_stamp :: "string \<times> string"
  ce_now :: string
  ce_fault :: "commit_site \<Rightarrow> string option"

definition sql_ok :: "commit_env \<Rightarrow> commit_site \<Rightarrow> commit_error + unit" where
  "sql_ok env site = (case ce_fault env site of None \<Rightarrow> Inr () | Some e \<Rightarrow> Inl (CeStorage e))"

definition and_then :: "'e + 'a \<Rightarrow> ('a \<Rightarrow> 'e + 'b) \<Rightarrow> 'e + 'b" where
  "and_then x f = (case x of Inl e \<Rightarrow> Inl e | Inr a \<Rightarrow> f a)"

lemma and_then_simps [simp]:
  "and_then (Inl e) f = Inl e" "and_then (Inr a) f = f a"
  by (simp_all add: and_then_def)

lemma and_then_Inr: "and_then x f = Inr b \<longleftrightarrow> (\<exists>a. x = Inr a \<and> f a = Inr b)"
  by (cases x) simp_all

subsection \<open>The lifecycle event of a transition\<close>

definition lifecycle_reason :: "transition_metadata \<Rightarrow> string" where
  "lifecycle_reason metadata =
     (case tm_reason metadata of
        Some (c # cs) \<Rightarrow> c # cs
      | _ \<Rightarrow> (case tm_lifecycle_hint metadata of Some h \<Rightarrow> h | None \<Rightarrow> []))"

definition or_default :: "string \<Rightarrow> string \<Rightarrow> string" where
  "or_default reason d = (if reason = [] then d else reason)"

fun lifecycle_event_for :: "run_status \<Rightarrow> transition_metadata \<Rightarrow> run_event_kind" where
  "lifecycle_event_for Queued metadata = EvQueued"
| "lifecycle_event_for Preparing metadata = EvPreparing"
| "lifecycle_event_for Running metadata = EvStarted"
| "lifecycle_event_for WaitingPermission metadata =
     EvProgress (or_default (lifecycle_reason metadata) ''waiting_permission'') None"
| "lifecycle_event_for WaitingSubagent metadata =
     EvProgress (or_default (lifecycle_reason metadata) ''waiting_subagent'') None"
| "lifecycle_event_for Cancelling metadata =
     EvProgress (or_default (lifecycle_reason metadata) ''cancelling'') None"
| "lifecycle_event_for Completed metadata =
     EvCompleted (or_default (lifecycle_reason metadata) ''stop'')"
| "lifecycle_event_for Failed metadata =
     EvFailed (or_default (lifecycle_reason metadata) ''failed'')
       (case tm_error_code metadata of Some c \<Rightarrow> c | None \<Rightarrow> ''failed'')"
| "lifecycle_event_for Cancelled metadata =
     EvCancelled (or_default (lifecycle_reason metadata) ''cancelled'')"
| "lifecycle_event_for Interrupted metadata =
     EvInterrupted (or_default (lifecycle_reason metadata) ''interrupted'')"
| "lifecycle_event_for Created metadata = EvQueued"

definition apply_transition_metadata ::
  "string \<Rightarrow> run_status \<Rightarrow> transition_metadata \<Rightarrow> run_v2 \<Rightarrow> run_v2" where
  "apply_transition_metadata now target metadata run =
     (let run = (case tm_error_code metadata of
            Some code \<Rightarrow> run\<lparr>rv_error_code := Some code\<rparr> | None \<Rightarrow> run);
          run = (case tm_step_count metadata of
            Some steps \<Rightarrow> run\<lparr>rv_step_count := steps\<rparr> | None \<Rightarrow> run);
          run = (if target \<in> {Preparing, Running} \<and> rv_started_at run = None
            then run\<lparr>rv_started_at := Some now\<rparr> else run)
      in if is_terminal target then run\<lparr>rv_finished_at := Some now\<rparr> else run)"

subsection \<open>\<open>commit_transition\<close>, phase by phase\<close>

text \<open>Reading the run under the lock, the terminal and revision checks, and the edge.\<close>

definition commit_check ::
  "string \<Rightarrow> u64 \<Rightarrow> run_status \<Rightarrow> (string \<rightharpoonup> run_v2) \<Rightarrow> commit_error + run_status" where
  "commit_check run_id expected target runs =
     (case runs run_id of
        None \<Rightarrow> Inl (CeNotFound run_id)
      | Some run \<Rightarrow>
          (let from = rv_status run; current = rv_revision run
           in if is_terminal from then Inl (CeAlreadyTerminal run_id from current)
              else if current \<noteq> expected then Inl (CeCasConflict run_id expected current from)
              else (case transition from target of
                      Inl e \<Rightarrow> Inl (CeIllegal e)
                    | Inr _ \<Rightarrow> Inr from)))"

text \<open>The compare-and-swap \<open>UPDATE\<close>: \<open>None\<close> when no row matched.\<close>

definition cas_row :: "string \<Rightarrow> u64 \<Rightarrow> run_status \<Rightarrow> transition_metadata \<Rightarrow> run_row \<Rightarrow> run_row" where
  "cas_row now expected target metadata row =
     \<lparr>rr_status = status_str target,
      rr_revision = sat_add expected 1,
      rr_error_code = (case tm_error_code metadata of Some c \<Rightarrow> Some c | None \<Rightarrow> rr_error_code row),
      rr_started_at = (case rr_started_at row of Some t \<Rightarrow> Some t
         | None \<Rightarrow> if target \<in> {Preparing, Running} then Some now else None),
      rr_finished_at = (if is_terminal target then Some now else rr_finished_at row),
      rr_step_count = (case tm_step_count metadata of Some n \<Rightarrow> Some n | None \<Rightarrow> rr_step_count row)\<rparr>"

definition set_run_row :: "string \<Rightarrow> run_row \<Rightarrow> run_db \<Rightarrow> run_db" where
  "set_run_row run_id row db =
     db\<lparr>edb_rest := (edb_rest db)\<lparr>rt_runs := (rt_runs (edb_rest db))(run_id \<mapsto> row)\<rparr>\<rparr>"

definition cas_update_run ::
  "string \<Rightarrow> string \<Rightarrow> u64 \<Rightarrow> run_status \<Rightarrow> transition_metadata \<Rightarrow> run_db \<Rightarrow> run_db option" where
  "cas_update_run now run_id expected target metadata db =
     (case run_row_of db run_id of
        None \<Rightarrow> None
      | Some row \<Rightarrow>
          (if rr_revision row \<noteq> expected then None
           else Some (set_run_row run_id (cas_row now expected target metadata row) db)))"

definition cas_miss_error :: "commit_env \<Rightarrow> string \<Rightarrow> u64 \<Rightarrow> run_db \<Rightarrow> commit_error" where
  "cas_miss_error env run_id expected db =
     (case ce_fault env SiteReread of
        Some e \<Rightarrow> CeStorage e
      | None \<Rightarrow>
          (case run_row_of db run_id of
             None \<Rightarrow> CeStorage ''Query returned no rows''
           | Some row \<Rightarrow>
               (let status = run_status_from_db (rr_status row)
                in if is_terminal status then CeAlreadyTerminal run_id status (rr_revision row)
                   else CeCasConflict run_id expected (rr_revision row) status)))"

definition insert_lifecycle_event :: "run_event \<Rightarrow> run_db \<Rightarrow> (u64 \<times> run_db) option" where
  "insert_lifecycle_event event db =
     (if \<exists>r\<in>set (edb_rows db). er_run_id r = ev_run_id event \<and> er_sequence r = ev_run_sequence event
         \<or> er_event_id r = ev_event_id event
      then None
      else Some (edb_next_id db, db\<lparr>edb_rows := edb_rows db @
             [\<lparr>er_id = edb_next_id db, er_run_id = ev_run_id event, er_sequence = ev_run_sequence event,
               er_event_type = type_name (ev_payload event), er_payload = event,
               er_event_id = ev_event_id event, er_turn_id = None, er_message_id = None\<rparr>],
             edb_next_id := edb_next_id db + 1\<rparr>))"

text \<open>
  The transaction: it returns the committed event with the new database, or an error, and then
  nothing of it is in the database.
\<close>

definition commit_durable ::
  "commit_env \<Rightarrow> string \<Rightarrow> u64 \<Rightarrow> run_status \<Rightarrow> transition_metadata \<Rightarrow> run_db \<Rightarrow>
     commit_error + run_event \<times> run_db" where
  "commit_durable env run_id expected target metadata db =
     and_then (sql_ok env SiteConn) (\<lambda>_.
     and_then (sql_ok env SiteBegin) (\<lambda>_.
     and_then (sql_ok env SiteUpdate) (\<lambda>_.
     (case cas_update_run (ce_now env) run_id expected target metadata db of
        None \<Rightarrow> Inl (cas_miss_error env run_id expected db)
      | Some db1 \<Rightarrow>
          and_then (sql_ok env SiteMaxSeq) (\<lambda>_.
          and_then (map_sum CeStorage id (log_last_sequence run_id db1)) (\<lambda>max_seq.
          and_then (sql_ok env SiteSerialize) (\<lambda>_.
          and_then (sql_ok env SiteInsert) (\<lambda>_.
          (let event = run_event_new (ce_stamp env) run_id (max_seq + 1) (lifecycle_event_for target metadata)
           in case insert_lifecycle_event event db1 of
                None \<Rightarrow> Inl (CeStorage ''UNIQUE constraint failed'')
              | Some (global, db2) \<Rightarrow>
                  and_then (sql_ok env SiteCommit) (\<lambda>_.
                    Inr (with_global_sequence global event, db2)))))))))))"

text \<open>The second critical section on the run map, with its own compare-and-swap.\<close>

definition commit_cache ::
  "string \<Rightarrow> string \<Rightarrow> u64 \<Rightarrow> run_status \<Rightarrow> transition_metadata \<Rightarrow> (string \<rightharpoonup> run_v2) \<Rightarrow>
     commit_error + (string \<rightharpoonup> run_v2)" where
  "commit_cache now run_id expected target metadata runs =
     (case runs run_id of
        None \<Rightarrow> Inl (CeNotFound run_id)
      | Some run \<Rightarrow>
          (if rv_revision run \<noteq> expected
           then (if is_terminal (rv_status run)
                 then Inl (CeAlreadyTerminal run_id (rv_status run) (rv_revision run))
                 else Inl (CeCasConflict run_id expected (rv_revision run) (rv_status run)))
           else Inr (runs(run_id \<mapsto> apply_transition_metadata now target metadata
                   (run\<lparr>rv_status := target, rv_revision := sat_add expected 1\<rparr>)))))"

definition commit_transition ::
  "commit_env \<Rightarrow> string \<Rightarrow> u64 \<Rightarrow> run_status \<Rightarrow> transition_metadata \<Rightarrow> run_manager \<Rightarrow>
     (commit_error + committed_transition) \<times> run_manager" where
  "commit_transition env run_id expected target metadata m =
     (case commit_check run_id expected target (rm_runs m) of
        Inl e \<Rightarrow> (Inl e, m)
      | Inr from \<Rightarrow>
          (let (committed, m) =
             (if rm_has_store m
              then (case commit_durable env run_id expected target metadata (rm_db m) of
                      Inl e \<Rightarrow> (Inl e, m)
                    | Inr (event, db) \<Rightarrow>
                        (Inr event, m\<lparr>rm_events := (rm_events m)\<lparr>sq_store := db\<rparr>\<rparr>))
              else (case last_sequence run_id (rm_events m) of
                      (n, events) \<Rightarrow>
                        (Inr (run_event_new (ce_stamp env) run_id (sat_add n 1)
                            (lifecycle_event_for target metadata)), m\<lparr>rm_events := events\<rparr>)))
           in case committed of
                Inl e \<Rightarrow> (Inl e, m)
              | Inr event \<Rightarrow>
                  (case commit_cache (ce_now env) run_id expected target metadata (rm_runs m) of
                     Inl e \<Rightarrow> (Inl e, m)
                   | Inr runs \<Rightarrow>
                       (Inr \<lparr>ct_run_id = run_id, ct_from = from, ct_to = target,
                             ct_revision = sat_add expected 1, ct_idempotent = False\<rparr>,
                        m\<lparr>rm_runs := runs, rm_events := inject_committed event (rm_events m)\<rparr>))))"

subsection \<open>Committing by target and by outcome\<close>

text \<open>
  \<open>commit_status\<close> and \<open>commit_outcome\<close> report errors as text; the model keeps the value the text
  is formatted from. A commit reads \<open>env\<close>, one environment per call of \<open>commit_transition\<close>.
\<close>

datatype status_error = SeNotFound string | SeDisappeared | SeCommit commit_error

definition found_run :: "status_error \<Rightarrow> string \<Rightarrow> run_manager \<Rightarrow> status_error + run_v2" where
  "found_run e run_id m = (case get_run run_id m of None \<Rightarrow> Inl e | Some run \<Rightarrow> Inr run)"

definition commit_status ::
  "commit_env \<Rightarrow> string \<Rightarrow> run_status \<Rightarrow> transition_metadata \<Rightarrow> run_manager \<Rightarrow>
     (status_error + run_v2) \<times> run_manager" where
  "commit_status env run_id target metadata m =
     (case rm_runs m run_id of
        None \<Rightarrow> (Inl (SeNotFound run_id), m)
      | Some run \<Rightarrow>
          (if rv_status run = target \<or> is_terminal (rv_status run) then (Inr run, m)
           else (case commit_transition env run_id (rv_revision run) target metadata m of
                   (Inr _, m) \<Rightarrow> (found_run SeDisappeared run_id m, m)
                 | (Inl (CeAlreadyTerminal _ _ _), m) \<Rightarrow> (found_run (SeNotFound run_id) run_id m, m)
                 | (Inl (CeCasConflict r x c status), m) \<Rightarrow>
                     (if is_terminal status then (found_run (SeNotFound run_id) run_id m, m)
                      else (Inl (SeCommit (CeCasConflict r x c status)), m))
                 | (Inl e, m) \<Rightarrow> (Inl (SeCommit e), m))))"

definition status_or :: "run_status \<Rightarrow> string \<Rightarrow> run_manager \<Rightarrow> run_status" where
  "status_or d run_id m = (case get_run run_id m of None \<Rightarrow> d | Some run \<Rightarrow> rv_status run)"

definition drop_run :: "(status_error + run_v2) \<times> run_manager \<Rightarrow> (status_error + unit) \<times> run_manager" where
  "drop_run p = (map_sum id (\<lambda>_. ()) (fst p), snd p)"

text \<open>Its two commits have an environment each.\<close>

definition ensure_running_before_terminal ::
  "commit_env \<Rightarrow> commit_env \<Rightarrow> string \<Rightarrow> run_status \<Rightarrow> run_manager \<Rightarrow>
     (status_error + unit) \<times> run_manager" where
  "ensure_running_before_terminal env1 env2 run_id target m =
     (let status = status_or Running run_id m
      in if is_terminal status \<or> status = Running then (Inr (), m)
         else if target \<notin> {Completed, Failed, Interrupted, WaitingPermission, WaitingSubagent, Cancelling}
         then (Inr (), m)
         else (let (res, m) =
                 (if status = Queued
                  then drop_run (commit_status env1 run_id Preparing
                      (with_lifecycle_hint ''preparing'' tm_empty) m)
                  else (Inr (), m))
               in case res of
                    Inl e \<Rightarrow> (Inl e, m)
                  | Inr _ \<Rightarrow>
                      (if status_or Preparing run_id m = Preparing
                       then drop_run (commit_status env2 run_id Running
                           (with_lifecycle_hint ''started'' tm_empty) m)
                       else (Inr (), m))))"

definition outcome_request :: "run_status \<Rightarrow> engine_outcome \<Rightarrow> run_status \<times> transition_metadata" where
  "outcome_request status outcome =
     (case outcome of
        OutCancelled \<Rightarrow>
          (if status = Cancelling
           then (Cancelled, with_lifecycle_hint ''cancelled'' (with_reason ''cancelled'' tm_empty))
           else (Interrupted, with_lifecycle_hint ''interrupted'' (with_reason ''cancelled'' tm_empty)))
      | _ \<Rightarrow> outcome_commit_parts outcome)"

definition commit_outcome ::
  "commit_env \<Rightarrow> commit_env \<Rightarrow> commit_env \<Rightarrow> string \<Rightarrow> engine_outcome \<Rightarrow> run_manager \<Rightarrow>
     (status_error + run_v2) \<times> run_manager" where
  "commit_outcome env1 env2 env3 run_id outcome m =
     (let status = status_or Running run_id m
      in if is_terminal status then (found_run (SeNotFound run_id) run_id m, m)
         else (let (target, meta) = outcome_request status outcome
               in case ensure_running_before_terminal env1 env2 run_id target m of
                    (Inl e, m) \<Rightarrow> (Inl e, m)
                  | (Inr _, m) \<Rightarrow> commit_status env3 run_id target meta m))"

text \<open>\<open>fail_run_if_active\<close>: \<open>None\<close> when the redaction of the error text panics.\<close>

definition fail_run_if_active ::
  "commit_env \<Rightarrow> string \<Rightarrow> string \<Rightarrow> string \<Rightarrow> run_manager \<Rightarrow> run_manager option" where
  "fail_run_if_active env run_id error code m =
     map_option (\<lambda>error.
       let code = (if str_trim code = [] then ''START_FAILED'' else code);
           meta = with_lifecycle_hint ''failed'' (with_reason error (with_error_code code tm_empty))
       in snd (commit_status env run_id Failed meta m))
     (redact_secrets error)"

subsection \<open>Startup recovery\<close>

definition active_db_statuses :: "string list" where
  "active_db_statuses = [''created'', ''queued'', ''preparing'', ''running'', ''waiting_permission'',
     ''waiting_subagent'', ''cancelling'']"

definition row_active :: "run_row \<Rightarrow> bool" where
  "row_active row \<longleftrightarrow> rr_status row \<in> set active_db_statuses"

definition interrupt_row :: "string \<Rightarrow> run_row \<Rightarrow> run_row" where
  "interrupt_row now row = row\<lparr>rr_status := ''interrupted'', rr_error_code := Some ''daemon_restarted'',
     rr_finished_at := Some now, rr_revision := rr_revision row + 1\<rparr>"

definition recovery_reason :: string where
  "recovery_reason = CHR 0x7B # CHR 0x22 # ''reason'' @ CHR 0x22 # '':'' @ CHR 0x22 # ''daemon_restarted'' @ [CHR 0x22, CHR 0x7D]"

definition expire_interaction :: "string \<Rightarrow> interaction_row \<Rightarrow> interaction_row" where
  "expire_interaction now i = i\<lparr>ir_status := ''expired'', ir_response := Some recovery_reason,
     ir_responded_at := Some now\<rparr>"

definition was_restarted :: "run_tables \<Rightarrow> string \<Rightarrow> bool" where
  "was_restarted t run_id = (case rt_runs t run_id of None \<Rightarrow> False | Some row \<Rightarrow>
     rr_status row = ''interrupted'' \<and> rr_error_code row = Some ''daemon_restarted'')"

text \<open>The runs of the table in the order in which the query returns them are the list \<open>ids\<close>.\<close>

definition active_ids :: "string list \<Rightarrow> run_tables \<Rightarrow> string list" where
  "active_ids ids t = filter (\<lambda>i. case rt_runs t i of None \<Rightarrow> False | Some row \<Rightarrow> row_active row) ids"

definition recover_tables :: "string \<Rightarrow> string list \<Rightarrow> run_tables \<Rightarrow> nat \<times> run_tables" where
  "recover_tables now ids t =
     (let active = active_ids ids t;
          t1 = t\<lparr>rt_runs := (\<lambda>i. map_option (\<lambda>row. if row_active row then interrupt_row now row else row)
                  (rt_runs t i))\<rparr>;
          t2 = (if active \<noteq> []
                then t1\<lparr>rt_interactions := List.map (\<lambda>i. if ir_status i = ''pending'' \<and>
                            (case ir_run_id i of None \<Rightarrow> False | Some r \<Rightarrow> r \<in> set active)
                          then expire_interaction now i else i) (rt_interactions t1),
                        rt_permissions := List.map (\<lambda>p. if pr_status p = ''pending'' \<and> pr_run_id p \<in> set active
                          then p\<lparr>pr_status := ''expired''\<rparr> else p) (rt_permissions t1)\<rparr>
                else t1\<lparr>rt_interactions := List.map (\<lambda>i. if ir_status i = ''pending'' \<and>
                            (case ir_run_id i of None \<Rightarrow> True | Some r \<Rightarrow> was_restarted t1 r)
                          then expire_interaction now i else i) (rt_interactions t1)\<rparr>);
          t3 = t2\<lparr>rt_actors := List.map (\<lambda>a. a\<lparr>ar_active_run_id := None, ar_running_prompt_id := None,
                  ar_pending_interaction_id := None, ar_cancel_and_send_id := None,
                  ar_cancel_requested := False, ar_updated_at := now\<rparr>) (rt_actors t2)\<rparr>
      in (length active, t3))"

definition interrupt_active_sqlite_runs ::
  "commit_env \<Rightarrow> string list \<Rightarrow> run_manager \<Rightarrow> (commit_error + nat) \<times> run_manager" where
  "interrupt_active_sqlite_runs env ids m =
     (if \<not> rm_has_store m then (Inr 0, m)
      else case
        and_then (sql_ok env SiteConn) (\<lambda>_.
        and_then (sql_ok env SiteBegin) (\<lambda>_.
        and_then (sql_ok env SiteReread) (\<lambda>_.
        and_then (sql_ok env SiteUpdate) (\<lambda>_.
        and_then (sql_ok env SiteExpire) (\<lambda>_.
        and_then (sql_ok env SiteCommit) (\<lambda>_.
          Inr (recover_tables (ce_now env) ids (edb_rest (rm_db m))))))))) of
        Inl e \<Rightarrow> (Inl e, m)
      | Inr (changed, t) \<Rightarrow>
          (Inr changed, m\<lparr>rm_events := (rm_events m)\<lparr>sq_store := (rm_db m)\<lparr>edb_rest := t\<rparr>\<rparr>\<rparr>))"

subsection \<open>What a commit does\<close>

definition run_view :: "run_manager \<Rightarrow> string \<Rightarrow> (run_status \<times> u64) option" where
  "run_view m r = map_option (\<lambda>run. (rv_status run, rv_revision run)) (rm_runs m r)"

text \<open>With a store, the run map and the table agree on status and revision of every run.\<close>

definition agree :: "run_manager \<Rightarrow> bool" where
  "agree m \<longleftrightarrow> (rm_has_store m \<longrightarrow> (\<forall>r run. rm_runs m r = Some run \<longrightarrow>
     (\<exists>row. run_row_of (rm_db m) r = Some row \<and> rr_status row = status_str (rv_status run)
        \<and> rr_revision row = rv_revision run)))"

lemma apply_metadata_sel [simp]:
  "rv_status (apply_transition_metadata now t meta run) = rv_status run"
  "rv_revision (apply_transition_metadata now t meta run) = rv_revision run"
  by (simp_all add: apply_transition_metadata_def Let_def split: option.split)

lemma commit_check_Inr:
  "commit_check r n t runs = Inr from \<longleftrightarrow>
     (\<exists>run. runs r = Some run \<and> rv_status run = from \<and> rv_revision run = n \<and> can_transition from t)"
  using can_transition_not_terminal
  by (auto simp: commit_check_def Let_def transition_cases split: option.splits if_splits)

lemma commit_check_Inl:
  "commit_check r n t runs = Inl e \<longleftrightarrow>
     (case runs r of None \<Rightarrow> e = CeNotFound r
      | Some run \<Rightarrow>
          if is_terminal (rv_status run) then e = CeAlreadyTerminal r (rv_status run) (rv_revision run)
          else if rv_revision run \<noteq> n then e = CeCasConflict r n (rv_revision run) (rv_status run)
          else \<not> can_transition (rv_status run) t \<and> e = CeIllegal (TeIllegal (rv_status run) t))"
  by (auto simp: commit_check_def Let_def transition_cases split: option.splits if_splits)

lemma set_run_row_sel [simp]:
  "edb_rows (set_run_row r row db) = edb_rows db"
  "edb_next_id (set_run_row r row db) = edb_next_id db"
  "run_row_of (set_run_row r row db) = (run_row_of db)(r \<mapsto> row)"
  by (simp_all add: set_run_row_def run_row_of_def fun_eq_iff)

lemma log_last_set_run_row [simp]:
  "log_last_sequence q (set_run_row r row db) = log_last_sequence q db"
  by (simp add: log_last_sequence_def)

lemma insert_lifecycle_Some:
  assumes "insert_lifecycle_event e db = Some (g, db')"
  obtains erow where "edb_rows db' = edb_rows db @ [erow]" "er_id erow = g" "er_payload erow = e"
    "er_run_id erow = ev_run_id e" "er_sequence erow = ev_run_sequence e" "er_event_id erow = ev_event_id e"
    "run_row_of db' = run_row_of db"
    "\<forall>q\<in>set (edb_rows db). (er_run_id q, er_sequence q) \<noteq> (ev_run_id e, ev_run_sequence e)
        \<and> er_event_id q \<noteq> ev_event_id e"
proof
  let ?row = "\<lparr>er_id = edb_next_id db, er_run_id = ev_run_id e, er_sequence = ev_run_sequence e,
    er_event_type = type_name (ev_payload e), er_payload = e, er_event_id = ev_event_id e,
    er_turn_id = None, er_message_id = None\<rparr>"
  have free: "\<not> (\<exists>r\<in>set (edb_rows db). er_run_id r = ev_run_id e \<and> er_sequence r = ev_run_sequence e
      \<or> er_event_id r = ev_event_id e)"
    and g: "g = edb_next_id db"
    and db': "db' = db\<lparr>edb_rows := edb_rows db @ [?row], edb_next_id := edb_next_id db + 1\<rparr>"
    using assms by (auto simp: insert_lifecycle_event_def split: if_splits)
  show "edb_rows db' = edb_rows db @ [?row]" "er_id ?row = g" "run_row_of db' = run_row_of db"
    by (simp_all add: db' g run_row_of_def fun_eq_iff)
  show "\<forall>q\<in>set (edb_rows db). (er_run_id q, er_sequence q) \<noteq> (ev_run_id e, ev_run_sequence e)
        \<and> er_event_id q \<noteq> ev_event_id e" using free by auto
qed simp_all

text \<open>What one committed transaction left in the database.\<close>

definition committed_in ::
  "commit_env \<Rightarrow> string \<Rightarrow> u64 \<Rightarrow> run_status \<Rightarrow> transition_metadata \<Rightarrow> run_db \<Rightarrow> run_event \<Rightarrow> run_db \<Rightarrow> bool" where
  "committed_in env r n t meta db ev db' \<longleftrightarrow>
     (\<exists>row erow max_seq. run_row_of db r = Some row \<and> rr_revision row = n
        \<and> run_row_of db' = (run_row_of db)(r \<mapsto> cas_row (ce_now env) n t meta row)
        \<and> edb_rows db' = edb_rows db @ [erow] \<and> log_last_sequence r db = Inr max_seq
        \<and> er_run_id erow = r \<and> er_sequence erow = max_seq + 1 \<and> er_event_id erow = fst (ce_stamp env)
        \<and> er_payload erow = run_event_new (ce_stamp env) r (max_seq + 1) (lifecycle_event_for t meta)
        \<and> ev = with_global_sequence (er_id erow) (er_payload erow)
        \<and> (\<forall>q\<in>set (edb_rows db). (er_run_id q, er_sequence q) \<noteq> (r, max_seq + 1)
              \<and> er_event_id q \<noteq> fst (ce_stamp env)))"

lemma commit_durable_Inr:
  assumes "commit_durable env r n t meta db = Inr (ev, db')"
  shows "committed_in env r n t meta db ev db'"
proof -
  from assms obtain db1 where upd: "cas_update_run (ce_now env) r n t meta db = Some db1"
    by (auto simp: commit_durable_def and_then_Inr split: option.splits)
  then obtain row where row: "run_row_of db r = Some row" "rr_revision row = n"
    and db1: "db1 = set_run_row r (cas_row (ce_now env) n t meta row) db"
    by (auto simp: cas_update_run_def split: option.splits if_splits)
  obtain max_seq where max: "log_last_sequence r db = Inr max_seq"
    by (simp add: log_last_sequence_def)
  define e where "e = run_event_new (ce_stamp env) r (max_seq + 1) (lifecycle_event_for t meta)"
  have e_sel: "ev_run_id e = r" "ev_run_sequence e = max_seq + 1" "ev_event_id e = fst (ce_stamp env)"
    by (simp_all add: e_def run_event_new_def)
  from assms obtain g where ins: "insert_lifecycle_event e db1 = Some (g, db')"
    and ev: "ev = with_global_sequence g e"
    by (auto simp: commit_durable_def and_then_Inr upd db1 max Let_def e_def [symmetric]
        split: option.splits)
  from ins obtain erow where "edb_rows db' = edb_rows db @ [erow]" "er_id erow = g" "er_payload erow = e"
    "er_run_id erow = r" "er_sequence erow = max_seq + 1" "er_event_id erow = fst (ce_stamp env)"
    "run_row_of db' = run_row_of db1"
    "\<forall>q\<in>set (edb_rows db). (er_run_id q, er_sequence q) \<noteq> (r, max_seq + 1)
        \<and> er_event_id q \<noteq> fst (ce_stamp env)"
    by (rule insert_lifecycle_Some) (simp add: e_sel db1)
  with row max ev show ?thesis
    unfolding committed_in_def e_def [symmetric] by (intro exI [of _ row] exI [of _ erow] exI [of _ max_seq])
      (simp add: db1 e_def [symmetric])
qed

text \<open>In sequence the cache always follows the check: the run cannot change in between.\<close>

lemma commit_cache_after_check:
  assumes "commit_check r n t runs = Inr frm"
  obtains run where "runs r = Some run" "rv_status run = frm" "rv_revision run = n"
    "can_transition frm t"
    "commit_cache now r n t meta runs = Inr (runs(r \<mapsto> apply_transition_metadata now t meta
       (run\<lparr>rv_status := t, rv_revision := sat_add n 1\<rparr>)))"
  using assms by (auto simp: commit_check_Inr commit_cache_def)

definition committed_as :: "string \<Rightarrow> run_status \<Rightarrow> run_status \<Rightarrow> u64 \<Rightarrow> committed_transition" where
  "committed_as r from t n = \<lparr>ct_run_id = r, ct_from = from, ct_to = t, ct_revision = sat_add n 1,
     ct_idempotent = False\<rparr>"

lemma commit_transition_cases:
  obtains (refused) e where "commit_transition env r n t meta m = (Inl e, m)"
      "commit_check r n t (rm_runs m) = Inl e"
  | (storage) frm e where "commit_transition env r n t meta m = (Inl e, m)" "rm_has_store m"
      "commit_check r n t (rm_runs m) = Inr frm"
      "commit_durable env r n t meta (rm_db m) = Inl e"
  | (durable) run ev db where "rm_has_store m" "rm_runs m r = Some run" "rv_revision run = n"
      "can_transition (rv_status run) t" "committed_in env r n t meta (rm_db m) ev db"
      "commit_transition env r n t meta m = (Inr (committed_as r (rv_status run) t n),
         m\<lparr>rm_runs := (rm_runs m)(r \<mapsto> apply_transition_metadata (ce_now env) t meta
              (run\<lparr>rv_status := t, rv_revision := sat_add n 1\<rparr>)),
           rm_events := inject_committed ev ((rm_events m)\<lparr>sq_store := db\<rparr>)\<rparr>)"
  | (memory) run ev s where "\<not> rm_has_store m" "rm_runs m r = Some run" "rv_revision run = n"
      "can_transition (rv_status run) t" "s = snd (last_sequence r (rm_events m))"
      "ev = run_event_new (ce_stamp env) r (sat_add (fst (last_sequence r (rm_events m))) 1)
         (lifecycle_event_for t meta)"
      "commit_transition env r n t meta m = (Inr (committed_as r (rv_status run) t n),
         m\<lparr>rm_runs := (rm_runs m)(r \<mapsto> apply_transition_metadata (ce_now env) t meta
              (run\<lparr>rv_status := t, rv_revision := sat_add n 1\<rparr>)),
           rm_events := inject_committed ev s\<rparr>)"
proof (cases "commit_check r n t (rm_runs m)")
  case (Inl e)
  then show ?thesis by (intro refused [of e]) (simp_all add: commit_transition_def)
next
  case (Inr frm)
  then obtain run where run: "rm_runs m r = Some run" "rv_status run = frm" "rv_revision run = n"
    "can_transition frm t"
    "commit_cache (ce_now env) r n t meta (rm_runs m) = Inr ((rm_runs m)(r \<mapsto>
       apply_transition_metadata (ce_now env) t meta (run\<lparr>rv_status := t, rv_revision := sat_add n 1\<rparr>)))"
    by (rule commit_cache_after_check)
  show ?thesis
  proof (cases "rm_has_store m")
    case True
    show ?thesis
    proof (cases "commit_durable env r n t meta (rm_db m)")
      case (Inl e)
      with True Inr show ?thesis by (intro storage [of e frm]) (simp_all add: commit_transition_def)
    next
      case durable_ok: (Inr p)
      obtain ev db where p: "p = (ev, db)" by (cases p)
      from durable_ok p have "committed_in env r n t meta (rm_db m) ev db"
        by (simp add: commit_durable_Inr)
      with run True Inr durable_ok p show ?thesis
        by (intro durable [of run ev db]) (simp_all add: commit_transition_def committed_as_def)
    qed
  next
    case False
    obtain k s where ls: "last_sequence r (rm_events m) = (k, s)" by (cases "last_sequence r (rm_events m)")
    from run False Inr ls show ?thesis
      by (intro memory [of run s]) (simp_all add: commit_transition_def committed_as_def)
  qed
qed

lemma sq_store_inject [simp]:
  "sq_store (load_persistence ops q s) = sq_store s"
  "sq_store (load_dir d q s) = sq_store s"
  "sq_store (ensure_loaded q s) = sq_store s"
  "sq_store (inject_committed ev s) = sq_store s"
proof -
  show lp: "sq_store (load_persistence ops q s) = sq_store s" for ops q s
    by (simp add: load_persistence_def split: sum.split)
  show ld: "sq_store (load_dir d q s) = sq_store s" for d q s
    by (simp add: load_dir_def split: sum.split option.split)
  show el: "sq_store (ensure_loaded q s) = sq_store s" for q s
    by (simp add: ensure_loaded_def Let_def lp ld split: option.split)
  show "sq_store (inject_committed ev s) = sq_store s"
    by (simp add: inject_committed_def Let_def bus_send_def el)
qed

lemma rm_db_upd [simp]:
  "rm_db (m\<lparr>rm_runs := x\<rparr>) = rm_db m"
  "rm_db (m\<lparr>rm_events := s\<rparr>) = sq_store s"
  by (simp_all add: rm_db_def)

lemma agree_commit:
  assumes "agree m"
  shows "agree (snd (commit_transition env r n t meta m))"
proof (cases rule: commit_transition_cases [of env r n t meta m])
  case (durable run ev db)
  then show ?thesis using assms
    by (auto simp: agree_def committed_in_def cas_row_def)
next
  case (memory run ev s)
  then show ?thesis by (simp add: agree_def)
qed (use assms in simp_all)

lemma commit_ok_view:
  assumes "commit_transition env r n t meta m = (Inr ct, m')"
  shows "\<exists>from. run_view m r = Some (from, n) \<and> transition from t = Inr ()
    \<and> run_view m' = (run_view m)(r \<mapsto> (t, sat_add n 1)) \<and> ct = committed_as r from t n"
  using assms
  by (cases rule: commit_transition_cases [of env r n t meta m])
    (auto simp: run_view_def fun_eq_iff transition_ok_iff)

lemma commit_err_same: "commit_transition env r n t meta m = (Inl e, m') \<Longrightarrow> m' = m"
  by (cases rule: commit_transition_cases [of env r n t meta m]) auto

text \<open>A call as one value: environment, run, expected revision, target, metadata.\<close>

type_synonym commit_call = "commit_env \<times> string \<times> u64 \<times> run_status \<times> transition_metadata"

fun commit_call :: "commit_call \<Rightarrow> run_manager \<Rightarrow> (commit_error + committed_transition) \<times> run_manager" where
  "commit_call (env, r, n, t, meta) m = commit_transition env r n t meta m"

fun call_request :: "commit_call \<Rightarrow> string \<times> u64 \<times> run_status" where
  "call_request (env, r, n, t, meta) = (r, n, t)"

interpretation rm: lifecycle_authority commit_call call_request run_view
proof
  fix q m ct m' r n t assume "commit_call q m = (Inr ct, m')" and req: "call_request q = (r, n, t)"
  then obtain env meta where "commit_transition env r n t meta m = (Inr ct, m')"
    by (cases q) auto
  from commit_ok_view [OF this] show "\<exists>st. run_view m r = Some (st, n) \<and> transition st t = Inr ()
      \<and> run_view m' = (run_view m)(r \<mapsto> (t, sat_add n 1)) \<and> ct_run_id ct = r \<and> ct_to ct = t"
    by (auto simp: committed_as_def)
next
  fix q m e m' assume "commit_call q m = (Inl e, m')"
  then show "run_view m' = run_view m" by (cases q) (auto dest: commit_err_same)
qed

lemma drive_agree:
  "drive commit_call qs m = (outs, m') \<Longrightarrow> agree m \<Longrightarrow> agree m'"
proof (induction qs arbitrary: m outs)
  case (Cons q qs)
  obtain env r n t meta where q: "q = (env, r, n, t, meta)" by (cases q)
  obtain out m1 where one: "commit_call q m = (out, m1)" by (cases "commit_call q m")
  obtain outs1 m2 where rest: "drive commit_call qs m1 = (outs1, m2)" by (cases "drive commit_call qs m1")
  from Cons.prems(1) one rest have "m2 = m'" by simp
  moreover have "agree m1" using agree_commit [OF Cons.prems(2), of env r n t meta] one q by simp
  ultimately show ?case using Cons.IH rest by blast
qed simp

subsection \<open>Commits and the event log\<close>

lemma last_sequence_bound:
  assumes "db_inv db" and "log_last_sequence r db = Inr mx" and "q \<in> set (edb_rows db)" and "er_run_id q = r"
  shows "sint (er_sequence q) \<le> sint mx"
proof -
  have mono: "sint a \<le> sint (fold pick qs a) \<and> (\<forall>q\<in>set qs. sint (er_sequence q) \<le> sint (fold pick qs a))"
    if "\<And>q m. sint m \<le> sint (pick q m) \<and> sint (er_sequence q) \<le> sint (pick q m)"
    for pick :: "event_row \<Rightarrow> u64 \<Rightarrow> u64" and qs a
  proof (induction qs arbitrary: a)
    case (Cons x qs)
    from Cons.IH [of "pick x a"] that [of a x] show ?case by fastforce
  qed simp
  from assms(3,4) have "q \<in> set (filter (\<lambda>x. er_run_id x = r) (edb_rows db))" by simp
  moreover from this obtain x xs where xs: "filter (\<lambda>x. er_run_id x = r) (edb_rows db) = x # xs"
    by (cases "filter (\<lambda>x. er_run_id x = r) (edb_rows db)") auto
  moreover have "sint (er_sequence x) \<le> sint mx \<and> (\<forall>q\<in>set xs. sint (er_sequence q) \<le> sint mx)"
    using mono [of "\<lambda>r m. if sint m < sint (er_sequence r) then er_sequence r else m" "er_sequence x" xs]
      assms(2) xs by (simp add: log_last_sequence_def)
  ultimately show ?thesis by auto
qed

lemma last_sequence_small:
  assumes "db_inv db" and "log_last_sequence r db = Inr mx"
  shows "mx < 2 ^ 63"
proof (cases "filter (\<lambda>q. er_run_id q = r) (edb_rows db)")
  case Nil
  with assms(2) show ?thesis by (simp add: log_last_sequence_def)
next
  case (Cons x xs)
  have in_set: "fold (\<lambda>r m. if sint m < sint (er_sequence r) then er_sequence r else m) qs a
      \<in> insert a (er_sequence ` set qs)" for qs :: "event_row list" and a
    by (induction qs arbitrary: a) (auto split: if_splits)
  from Cons assms(2) in_set [of xs "er_sequence x"] have "mx \<in> er_sequence ` set (x # xs)"
    by (auto simp: log_last_sequence_def)
  also have "\<dots> \<subseteq> er_sequence ` set (edb_rows db)"
    using Cons by (metis (no_types, lifting) image_mono filter_is_subset)
  finally show ?thesis using assms(1) by (auto simp: db_inv_def)
qed

lemma committed_keeps_log:
  assumes "committed_in env r n t meta db ev db'" and "db_inv db"
    and "fst (ce_stamp env) \<noteq> []" and "log_last_sequence r db \<noteq> Inr (2 ^ 63 - 1)"
  shows "db_inv db' \<and> db_durable db \<subseteq> db_durable db' \<and> ev_event_id ev \<in> db_durable db'"
proof -
  from assms(1) obtain row erow mx where c: "edb_rows db' = edb_rows db @ [erow]"
    "log_last_sequence r db = Inr mx" "er_run_id erow = r" "er_sequence erow = mx + 1"
    "er_event_id erow = fst (ce_stamp env)"
    "er_payload erow = run_event_new (ce_stamp env) r (mx + 1) (lifecycle_event_for t meta)"
    "ev = with_global_sequence (er_id erow) (er_payload erow)"
    "\<forall>q\<in>set (edb_rows db). (er_run_id q, er_sequence q) \<noteq> (r, mx + 1) \<and> er_event_id q \<noteq> fst (ce_stamp env)"
    unfolding committed_in_def by blast
  have "mx < 2 ^ 63 - 1" using last_sequence_small [OF assms(2) c(2)] assms(4) c(2)
    by (auto simp: word_less_nat_alt word_unat_eq_iff)
  then have "0 < mx + 1" "mx + 1 < 2 ^ 63"
    by (simp_all add: word_less_nat_alt unat_word_ariths)
  then have "db_inv db'" by (intro db_inv_append_row [OF assms(2) c(1)]) (use c assms(3) in auto)
  moreover have "ev_event_id ev = fst (ce_stamp env)"
    unfolding c(7) c(6) by (simp add: run_event_new_def with_global_sequence_def)
  ultimately show ?thesis using c by (auto simp: db_durable_def)
qed

subsection \<open>When a commit succeeds\<close>

text \<open>
  \<open>calm envs r m\<close>: no statement of the calls \<open>envs\<close> fails, their event ids are fresh, and the
  sequence numbers of the run have room for them.
\<close>

definition calm :: "commit_env list \<Rightarrow> string \<Rightarrow> run_manager \<Rightarrow> bool" where
  "calm envs r m \<longleftrightarrow> (rm_has_store m \<longrightarrow> db_inv (rm_db m)
     \<and> (\<forall>e\<in>set envs. (\<forall>site. ce_fault e site = None) \<and> fst (ce_stamp e) \<noteq> []
          \<and> fst (ce_stamp e) \<notin> db_durable (rm_db m))
     \<and> distinct (List.map (\<lambda>e. fst (ce_stamp e)) envs)
     \<and> (\<exists>mx. log_last_sequence r (rm_db m) = Inr mx \<and> unat mx + length envs < 2 ^ 63))"

lemma calm_tail: "calm (e # es) r m \<Longrightarrow> calm es r m"
  by (auto simp: calm_def)

lemma last_sequence_snoc:
  assumes "edb_rows db' = edb_rows db @ [erow]" "er_run_id erow = r" "er_sequence erow = mx + 1"
    and "log_last_sequence r db = Inr mx" "mx < 2 ^ 63 - 1"
  shows "log_last_sequence r db' = Inr (mx + 1)"
proof -
  have up: "mx + 1 < 2 ^ 63" "uint (mx + 1) = uint mx + 1" "mx < 2 ^ 63"
    using assms(5) by (simp_all add: word_less_def uint_word_ariths)
  then have "sint mx < sint (mx + 1)" using sint_small by simp
  with assms show ?thesis
    by (cases "filter (\<lambda>x. er_run_id x = r) (edb_rows db)") (simp_all add: log_last_sequence_def)
qed

lemma commit_durable_ok:
  assumes inv: "db_inv db" and "run_row_of db r = Some row" and "rr_revision row = n"
    and faults: "\<forall>site. ce_fault env site = None" and fresh: "fst (ce_stamp env) \<notin> db_durable db"
    and last: "log_last_sequence r db = Inr mx" "mx < 2 ^ 63 - 1"
  shows "\<exists>ev db'. commit_durable env r n t meta db = Inr (ev, db')"
proof -
  define db1 where "db1 = set_run_row r (cas_row (ce_now env) n t meta row) db"
  define e where "e = run_event_new (ce_stamp env) r (mx + 1) (lifecycle_event_for t meta)"
  have sel: "ev_run_id e = r" "ev_run_sequence e = mx + 1" "ev_event_id e = fst (ce_stamp env)"
    by (simp_all add: e_def run_event_new_def)
  have upd: "cas_update_run (ce_now env) r n t meta db = Some db1"
    using assms(2,3) by (simp add: cas_update_run_def db1_def)
  have mx: "mx + 1 < 2 ^ 63" "uint (mx + 1) = uint mx + 1" "mx < 2 ^ 63"
    using last(2) by (simp_all add: word_less_def uint_word_ariths)
  have "er_sequence q \<noteq> mx + 1" if "q \<in> set (edb_rows db)" "er_run_id q = r" for q
    using last_sequence_bound [OF inv last(1) that] sint_small [OF mx(1)] sint_small [OF mx(3)] mx(2) by auto
  moreover have "er_event_id q \<noteq> fst (ce_stamp env)" if "q \<in> set (edb_rows db)" for q
    using fresh that unfolding db_durable_def by (metis image_eqI)
  ultimately obtain g db' where "insert_lifecycle_event e db1 = Some (g, db')"
    by (auto simp: insert_lifecycle_event_def sel db1_def)
  moreover have "sql_ok env site = Inr ()" for site using faults by (simp add: sql_ok_def)
  moreover have "log_last_sequence r db1 = Inr mx" using last(1) by (simp add: db1_def)
  ultimately show ?thesis by (simp add: commit_durable_def upd Let_def e_def [symmetric])
qed

lemma commit_succeeds:
  assumes "agree m" and "calm (env # es) r m" and "rm_runs m r = Some run"
    and "can_transition (rv_status run) t"
  obtains m' run' where
    "commit_transition env r (rv_revision run) t meta m = (Inr (committed_as r (rv_status run) t (rv_revision run)), m')"
    "rm_runs m' r = Some run'" "rv_status run' = t" "rv_revision run' = sat_add (rv_revision run) 1"
    "agree m'" "calm es r m'"
proof -
  have check: "commit_check r (rv_revision run) t (rm_runs m) = Inr (rv_status run)"
    using assms(3,4) by (simp add: commit_check_Inr)
  have agr: "agree (snd (commit_transition env r (rv_revision run) t meta m))"
    by (rule agree_commit [OF assms(1)])
  show ?thesis
  proof (cases rule: commit_transition_cases [of env r "rv_revision run" t meta m])
    case (refused e)
    with check show ?thesis by simp
  next
    case (storage frm e)
    from assms(1,3) storage(2) obtain row where row: "run_row_of (rm_db m) r = Some row"
      "rr_revision row = rv_revision run" by (auto simp: agree_def)
    from assms(2) storage(2) obtain mx where calm: "db_inv (rm_db m)" "\<forall>site. ce_fault env site = None"
      "fst (ce_stamp env) \<notin> db_durable (rm_db m)" "log_last_sequence r (rm_db m) = Inr mx"
      "unat mx + Suc (length es) < 2 ^ 63" by (auto simp: calm_def)
    then have "mx < 2 ^ 63 - 1" by (simp add: word_less_nat_alt)
    from commit_durable_ok [OF calm(1) row calm(2-4) this, of t meta] storage(4) show ?thesis by auto
  next
    case (durable run0 ev db)
    then have run0: "run0 = run" using assms(3) by simp
    from assms(2) durable(1) obtain mx where calm: "db_inv (rm_db m)" "fst (ce_stamp env) \<noteq> []"
      "log_last_sequence r (rm_db m) = Inr mx" "unat mx + Suc (length es) < 2 ^ 63"
      by (auto simp: calm_def)
    then have mx: "mx < 2 ^ 63 - 1" "mx \<noteq> 2 ^ 63 - 1" by (auto simp: word_less_nat_alt)
    have log: "db_inv db" "db_durable (rm_db m) \<subseteq> db_durable db"
      using committed_keeps_log [OF durable(5) calm(1,2)] calm(3) mx(2) by auto
    from durable(5) calm(3) obtain erow where rows: "edb_rows db = edb_rows (rm_db m) @ [erow]"
      "er_run_id erow = r" "er_sequence erow = mx + 1" "er_event_id erow = fst (ce_stamp env)"
      unfolding committed_in_def by auto
    have "log_last_sequence r db = Inr (mx + 1)" "unat (mx + 1) = unat mx + 1"
      using last_sequence_snoc [OF rows(1-3) calm(3) mx(1)] calm(4) by (simp_all add: unat_word_ariths)
    moreover have "db_durable db = insert (fst (ce_stamp env)) (db_durable (rm_db m))"
      using rows by (auto simp: db_durable_def)
    ultimately have "calm es r (snd (commit_transition env r (rv_revision run) t meta m))"
      using assms(2) durable(1,6) log calm(4) by (auto simp: calm_def) (metis image_eqI)
    with durable agr run0 show ?thesis
      by (intro that [where run' = "apply_transition_metadata (ce_now env) t meta
        (run\<lparr>rv_status := t, rv_revision := sat_add (rv_revision run) 1\<rparr>)"]) simp_all
  next
    case (memory run0 ev s)
    then have run0: "run0 = run" using assms(3) by simp
    show ?thesis
      by (rule that [OF memory(7) [unfolded run0], where run' = "apply_transition_metadata (ce_now env) t meta
        (run\<lparr>rv_status := t, rv_revision := sat_add (rv_revision run) 1\<rparr>)"])
        (use memory(1,7) run0 agr in \<open>simp_all add: calm_def\<close>)
  qed
qed

lemma commit_status_ok:
  assumes "agree m" and "calm (env # es) r m" and "rm_runs m r = Some run"
    and "can_transition (rv_status run) t"
  obtains m' run' where "commit_status env r t meta m = (Inr run', m')" "rm_runs m' r = Some run'"
    "rv_status run' = t" "agree m'" "calm es r m'"
proof -
  obtain m' run' where c: "commit_transition env r (rv_revision run) t meta m
      = (Inr (committed_as r (rv_status run) t (rv_revision run)), m')"
    "rm_runs m' r = Some run'" "rv_status run' = t" "agree m'" "calm es r m'"
    by (rule commit_succeeds [OF assms])
  have "rv_status run \<noteq> t \<and> \<not> is_terminal (rv_status run)"
    using assms(4) can_transition_irrefl can_transition_not_terminal by metis
  with c assms(3) show ?thesis
    by (intro that [of run' m']) (simp_all add: commit_status_def found_run_def get_run_def)
qed

lemma commit_status_illegal:
  assumes "rm_runs m r = Some run" and "\<not> is_terminal (rv_status run)" and "rv_status run \<noteq> t"
    and "\<not> can_transition (rv_status run) t"
  shows "commit_status env r t meta m = (Inl (SeCommit (CeIllegal (TeIllegal (rv_status run) t))), m)"
proof -
  have "commit_check r (rv_revision run) t (rm_runs m) = Inl (CeIllegal (TeIllegal (rv_status run) t))"
    using assms by (simp add: commit_check_Inl)
  then show ?thesis using assms by (simp add: commit_status_def commit_transition_def)
qed

text \<open>The status in which \<open>commit_outcome\<close> wants to leave the run.\<close>

definition outcome_target :: "run_status \<Rightarrow> engine_outcome \<Rightarrow> run_status" where
  "outcome_target st outcome = (case outcome of
     OutCancelled \<Rightarrow> (if st = Cancelling then Cancelled else Interrupted)
   | _ \<Rightarrow> target_status outcome)"

lemma outcome_target_terminal: "is_terminal (outcome_target st outcome)"
  by (cases outcome) (simp_all add: outcome_target_def is_terminal_def)

lemma outcome_request_target: "fst (outcome_request st outcome) = outcome_target st outcome"
  by (cases outcome) (simp_all add: outcome_request_def outcome_target_def outcome_commit_parts_def)

lemma commit_outcome_eq:
  assumes "rm_runs m r = Some run" and "\<not> is_terminal (rv_status run)"
  shows "commit_outcome e1 e2 e3 r outcome m =
    (case ensure_running_before_terminal e1 e2 r (outcome_target (rv_status run) outcome) m of
       (Inl e, m) \<Rightarrow> (Inl e, m)
     | (Inr _, m) \<Rightarrow> commit_status e3 r (outcome_target (rv_status run) outcome)
         (snd (outcome_request (rv_status run) outcome)) m)"
  using assms outcome_request_target [of "rv_status run" outcome]
  by (cases "outcome_request (rv_status run) outcome")
    (simp add: commit_outcome_def status_or_def get_run_def Let_def split: prod.split sum.split)

text \<open>The bridge leaves the run in a state from which the target is a legal edge, if there is one.\<close>

lemma bridge_ok:
  assumes "agree m" and "calm [e1, e2, e3] r m" and "rm_runs m r = Some run"
    and "\<not> is_terminal (rv_status run)" and t: "t \<in> {Completed, Failed, Interrupted, Cancelled}"
  obtains m' run' where "ensure_running_before_terminal e1 e2 r t m = (Inr (), m')"
    "rm_runs m' r = Some run'" "agree m'" "calm [e3] r m'"
    "rv_status run' = (if t \<noteq> Cancelled \<and> rv_status run \<in> {Queued, Preparing} then Running else rv_status run)"
    "rv_status run' = rv_status run \<longrightarrow> m' = m"
proof -
  note defs = ensure_running_before_terminal_def status_or_def get_run_def Let_def drop_run_def
  consider (same) "t = Cancelled \<or> rv_status run \<notin> {Queued, Preparing}"
    | (queued) "t \<noteq> Cancelled" "rv_status run = Queued"
    | (preparing) "t \<noteq> Cancelled" "rv_status run = Preparing" by auto
  then show ?thesis
  proof cases
    case same
    have "calm [e3] r m" using calm_tail [OF calm_tail [OF assms(2)]] .
    with same assms show ?thesis by (intro that [of m run]) (auto simp: defs)
  next
    case queued
    then have "can_transition (rv_status run) Preparing" by (simp add: can_transition_def)
    from commit_status_ok [OF assms(1-3) this]
    obtain m1 run1 where c1: "commit_status e1 r Preparing (with_lifecycle_hint ''preparing'' tm_empty) m = (Inr run1, m1)"
      "rm_runs m1 r = Some run1" "rv_status run1 = Preparing" "agree m1" "calm [e2, e3] r m1" by metis
    from c1(3) have "can_transition (rv_status run1) Running" by (simp add: can_transition_def)
    from commit_status_ok [OF c1(4,5,2) this]
    obtain m2 run2 where c2: "commit_status e2 r Running (with_lifecycle_hint ''started'' tm_empty) m1 = (Inr run2, m2)"
      "rm_runs m2 r = Some run2" "rv_status run2 = Running" "agree m2" "calm [e3] r m2" by metis
    from queued t c1 c2 assms(3) show ?thesis
      by (intro that [of m2 run2]) (auto simp: defs is_terminal_def)
  next
    case preparing
    have calm: "calm (e2 # [e3]) r m" using calm_tail [OF assms(2)] .
    from preparing have "can_transition (rv_status run) Running" by (simp add: can_transition_def)
    from commit_status_ok [OF assms(1) calm assms(3) this]
    obtain m2 run2 where c2: "commit_status e2 r Running (with_lifecycle_hint ''started'' tm_empty) m = (Inr run2, m2)"
      "rm_runs m2 r = Some run2" "rv_status run2 = Running" "agree m2" "calm [e3] r m2" by metis
    from preparing t c2 assms(3) show ?thesis
      by (intro that [of m2 run2]) (auto simp: defs is_terminal_def)
  qed
qed

lemma bridged_edge:
  assumes "\<not> is_terminal st" and "t = outcome_target st outcome"
    and "st' = (if t \<noteq> Cancelled \<and> st \<in> {Queued, Preparing} then Running else st)"
  shows "can_transition st' t \<longleftrightarrow> \<not> (st = Created \<and> t \<noteq> Failed \<or> st = Cancelling \<and> t = Completed)"
    and "\<not> is_terminal st'" and "t \<in> {Completed, Failed, Interrupted, Cancelled}"
    and "st' \<noteq> t" and "st = Created \<or> st = Cancelling \<longrightarrow> st' = st"
  unfolding assms(2,3) using assms(1)
  by (cases st; cases outcome; simp add: is_terminal_def outcome_target_def can_transition_def)+

lemma bridge_created: "rm_runs m r = Some run \<Longrightarrow> rv_status run \<in> {Created, Cancelling} \<Longrightarrow>
    ensure_running_before_terminal e1 e2 r t m = (Inr (), m)"
  by (auto simp: ensure_running_before_terminal_def status_or_def get_run_def Let_def)

subsection \<open>A concrete manager\<close>

definition demo_run :: run_v2 where
  "demo_run = \<lparr>rv_id = ''r'', rv_conversation_id = ''c'', rv_status = Queued, rv_parent_run_id = None,
     rv_agent_profile_id = None, rv_provider_id = ''p'', rv_key_id = None, rv_model_id = ''m'',
     rv_permission_profile = ''ask'', rv_trigger_message_id = None, rv_started_at = None,
     rv_finished_at = None, rv_error_code = None, rv_step_count = 0, rv_max_steps = 50,
     rv_project_path = None, rv_project_id = None, rv_project_identity_version = None,
     rv_retry_count = 0, rv_created_at = None, rv_last_event_sequence = 0, rv_idempotency_key = None,
     rv_effort = None, rv_runtime_id = None, rv_revision = 1, rv_capability_snapshot = None,
     rv_retry_of_run_id = None, rv_retry_of_turn_id = None, rv_continued_from_run_id = None,
     rv_branch_id = None, rv_branch_parent_message_id = None, rv_checkpoint_id = None,
     rv_resume_of_run_id = None\<rparr>"

definition demo_run_db :: run_db where
  "demo_run_db = \<lparr>edb_rows = [], edb_next_id = 1,
     edb_rest = \<lparr>rt_runs = [''r'' \<mapsto> \<lparr>rr_status = ''queued'', rr_revision = 1, rr_error_code = None,
         rr_started_at = None, rr_finished_at = None, rr_step_count = Some 0\<rparr>],
       rt_interactions = [\<lparr>ir_run_id = Some ''r'', ir_status = ''pending'', ir_response = None, ir_responded_at = None\<rparr>,
         \<lparr>ir_run_id = None, ir_status = ''pending'', ir_response = None, ir_responded_at = None\<rparr>],
       rt_permissions = [], rt_actors = []\<rparr>\<rparr>"

definition run_env :: "run_event \<Rightarrow> run_db \<Rightarrow> run_tables log_env" where
  "run_env e db = \<lparr>le_uuid = ''fresh'', le_fail_serialize = None, le_fail_begin = None,
     le_fail_insert = None, le_fail_commit = None, le_category = (\<lambda>_. ''workspace_file''),
     le_settle = (\<lambda>_ _ _ _ x. Inr x), le_usage = (\<lambda>_ x. x)\<rparr>"

definition demo_manager :: run_manager where
  "demo_manager = \<lparr>rm_runs = [''r'' \<mapsto> demo_run], rm_has_store = True,
     rm_events = seq_with_persistence (event_log_ops run_env) None demo_run_db\<rparr>"

definition demo_env :: "string \<Rightarrow> commit_env" where
  "demo_env eid = \<lparr>ce_stamp = (eid, ''t''), ce_now = ''now'', ce_fault = (\<lambda>_. None)\<rparr>"

lemma demo_agree: "agree demo_manager"
  by (auto simp: agree_def demo_manager_def rm_db_def seq_with_persistence_def demo_run_db_def
      run_row_of_def demo_run_def split: if_splits)

lemma demo_calm: "calm [demo_env ''a'', demo_env ''b'', demo_env ''c''] ''r'' demo_manager"
  by (auto simp: calm_def demo_env_def demo_manager_def rm_db_def seq_with_persistence_def demo_run_db_def
      log_last_sequence_def db_inv_def db_durable_def)

lemma demo_lookup: "rm_runs demo_manager ''r'' = Some demo_run" "rv_status demo_run = Queued"
    "rv_revision demo_run = 1" "rm_has_store demo_manager"
  by (simp_all add: demo_manager_def demo_run_def)

subsection \<open>Properties\<close>

text \<open>
  C1: an accepted commit is one atomic step. With the table and the run map in agreement, a
  commit that returns \<open>Ok\<close> found the expected revision and a legal edge; the run's row has the
  new status and revision, exactly one event row was added, which is the lifecycle event of
  the target under the next sequence number of the run, no other row of the run table changed,
  and the run map follows.
\<close>

theorem commit_ok_is_atomic:
  assumes "agree m" and "rm_has_store m"
    and "commit_transition env r n t meta m = (Inr ct, m')"
  shows "\<exists>run row' erow mx. rm_runs m r = Some run \<and> rv_revision run = n \<and> transition (rv_status run) t = Inr ()
    \<and> run_row_of (rm_db m') = (run_row_of (rm_db m))(r \<mapsto> row')
    \<and> rr_status row' = status_str t \<and> rr_revision row' = sat_add n 1
    \<and> edb_rows (rm_db m') = edb_rows (rm_db m) @ [erow]
    \<and> log_last_sequence r (rm_db m) = Inr mx \<and> er_run_id erow = r \<and> er_sequence erow = mx + 1
    \<and> ev_payload (er_payload erow) = lifecycle_event_for t meta
    \<and> run_view m' = (run_view m)(r \<mapsto> (t, sat_add n 1)) \<and> agree m'"
proof -
  have agr: "agree m'" using agree_commit [OF assms(1), of env r n t meta] assms(3) by simp
  have view: "run_view m' = (run_view m)(r \<mapsto> (t, sat_add n 1))"
    using commit_ok_view [OF assms(3)] by blast
  from assms(2,3) obtain run ev db where d: "rm_runs m r = Some run" "rv_revision run = n"
    "can_transition (rv_status run) t" "committed_in env r n t meta (rm_db m) ev db" "rm_db m' = db"
    by (cases rule: commit_transition_cases [of env r n t meta m]) auto
  from d(4) obtain row erow mx where c: "run_row_of db = (run_row_of (rm_db m))(r \<mapsto> cas_row (ce_now env) n t meta row)"
    "edb_rows db = edb_rows (rm_db m) @ [erow]" "log_last_sequence r (rm_db m) = Inr mx"
    "er_run_id erow = r" "er_sequence erow = mx + 1"
    "er_payload erow = run_event_new (ce_stamp env) r (mx + 1) (lifecycle_event_for t meta)"
    unfolding committed_in_def by blast
  have "rr_status (cas_row (ce_now env) n t meta row) = status_str t"
    "rr_revision (cas_row (ce_now env) n t meta row) = sat_add n 1" by (simp_all add: cas_row_def)
  moreover have "ev_payload (er_payload erow) = lifecycle_event_for t meta" by (simp add: c(6))
  ultimately show ?thesis using d(1-3,5) c(1-5) agr view transition_ok_iff by blast
qed

lemma commit_ok_is_atomic_witness:
  "\<exists>m' row' erow. snd (commit_transition (demo_env ''a'') ''r'' 1 Preparing tm_empty demo_manager) = m'
    \<and> run_row_of (rm_db m') ''r'' = Some row' \<and> rr_status row' = ''preparing''
    \<and> edb_rows (rm_db m') = [erow] \<and> ev_payload (er_payload erow) = EvPreparing"
proof -
  have "can_transition (rv_status demo_run) Preparing" by (simp add: demo_lookup can_transition_def)
  from commit_succeeds [OF demo_agree demo_calm demo_lookup(1) this]
  obtain m' where c: "commit_transition (demo_env ''a'') ''r'' 1 Preparing tm_empty demo_manager
      = (Inr (committed_as ''r'' Queued Preparing 1), m')"
    using demo_lookup by metis
  have "edb_rows (rm_db demo_manager) = []"
    by (simp add: demo_manager_def rm_db_def seq_with_persistence_def demo_run_db_def)
  with commit_ok_is_atomic [OF demo_agree demo_lookup(4) c] c show ?thesis by fastforce
qed

text \<open>
  A refused commit changes nothing. Whatever the reason (unknown or finished run, revision
  conflict, illegal edge, failure of any statement), a commit that returns an error leaves the
  run map, the database and the event bus as they were.
\<close>

theorem commit_error_changes_nothing:
  assumes "commit_transition env r n t meta m = (Inl e, m')"
  shows "m' = m"
  using assms by (rule commit_err_same)

lemma commit_error_changes_nothing_witness:
  "snd (commit_transition (demo_env ''a'') ''r'' 1 Completed tm_empty demo_manager) = demo_manager"
proof -
  have "commit_check ''r'' 1 Completed (rm_runs demo_manager) = Inl (CeIllegal (TeIllegal Queued Completed))"
    by (simp add: commit_check_Inl demo_lookup is_terminal_def can_transition_def)
  then have "commit_transition (demo_env ''a'') ''r'' 1 Completed tm_empty demo_manager
      = (Inl (CeIllegal (TeIllegal Queued Completed)), demo_manager)"
    by (simp add: commit_transition_def)
  from commit_error_changes_nothing [OF this] this show ?thesis by simp
qed

text \<open>
  C2: the history of a run is a path of the state graph. After any sequence of commits, for any
  runs and with any failures, the accepted targets of a run lead from its first status to its
  last along legal edges, its revision counts them, the table shows its status, and a run
  that was terminal at the start had none accepted.
\<close>

theorem run_history_is_lifecycle_path:
  assumes "agree m" and "rm_runs m r = Some run" and "drive commit_call calls m = (outs, m')"
  shows "\<exists>run'. rm_runs m' r = Some run' \<and> lifecycle_path (rv_status run) (accepted r outs) (rv_status run')
    \<and> unat (rv_revision run') = min (unat (rv_revision run) + length (accepted r outs)) (2 ^ 64 - 1)
    \<and> (rm_has_store m' \<longrightarrow> (\<exists>row. run_row_of (rm_db m') r = Some row \<and> rr_status row = status_str (rv_status run')))
    \<and> (is_terminal (rv_status run) \<longrightarrow> accepted r outs = [])"
proof -
  have "run_view m r = Some (rv_status run, rv_revision run)" using assms(2) by (simp add: run_view_def)
  from rm.drive_path [OF assms(3) this] rm.drive_terminal [OF assms(3) this] obtain st' n' where
    "run_view m' r = Some (st', n')" "lifecycle_path (rv_status run) (accepted r outs) st'"
    "unat n' = min (unat (rv_revision run) + length (accepted r outs)) (2 ^ 64 - 1)"
    "is_terminal (rv_status run) \<longrightarrow> accepted r outs = []" by blast
  then obtain run' where "rm_runs m' r = Some run'" "lifecycle_path (rv_status run) (accepted r outs) (rv_status run')"
    "unat (rv_revision run') = min (unat (rv_revision run) + length (accepted r outs)) (2 ^ 64 - 1)"
    "is_terminal (rv_status run) \<longrightarrow> accepted r outs = []" by (auto simp: run_view_def)
  moreover have "agree m'" using drive_agree [OF assms(3,1)] .
  ultimately show ?thesis by (auto simp: agree_def)
qed

lemma run_history_is_lifecycle_path_witness:
  "\<exists>outs m' run'. drive commit_call [(demo_env ''a'', ''r'', 1, Preparing, tm_empty)] demo_manager = (outs, m')
    \<and> rm_runs m' ''r'' = Some run' \<and> lifecycle_path Queued (accepted ''r'' outs) (rv_status run')"
proof -
  obtain outs m' where d: "drive commit_call [(demo_env ''a'', ''r'', 1, Preparing, tm_empty)] demo_manager = (outs, m')"
    by (cases "drive commit_call [(demo_env ''a'', ''r'', 1, Preparing, tm_empty)] demo_manager")
  from run_history_is_lifecycle_path [OF demo_agree demo_lookup(1) this] d demo_lookup(2) show ?thesis by auto
qed

text \<open>
  An expected revision wins once. After a commit with some expected revision was accepted,
  and whatever else was committed since, every further commit of that run that expects the
  same revision is refused.
\<close>

theorem revision_commits_once:
  assumes "commit_transition env r n t meta m = (Inr ct, m1)" and "n \<noteq> - 1"
    and "drive commit_call calls m1 = (outs, m2)"
  shows "isl (fst (commit_transition env' r n t' meta' m2))"
  using rm.one_winner [of "(env, r, n, t, meta)" m ct m1 r n t calls outs m2 "(env', r, n, t', meta')" t']
    assms by simp

lemma revision_commits_once_witness:
  "isl (fst (commit_transition (demo_env ''b'') ''r'' 1 Cancelling tm_empty
     (snd (commit_transition (demo_env ''a'') ''r'' 1 Preparing tm_empty demo_manager))))"
proof -
  have "can_transition (rv_status demo_run) Preparing" by (simp add: demo_lookup can_transition_def)
  from commit_succeeds [OF demo_agree demo_calm demo_lookup(1) this]
  obtain m' where c: "commit_transition (demo_env ''a'') ''r'' 1 Preparing tm_empty demo_manager
      = (Inr (committed_as ''r'' Queued Preparing 1), m')"
    using demo_lookup by metis
  from revision_commits_once [OF c, of "[]" "[]" m'] c show ?thesis by simp
qed

text \<open>
  C17: how an engine's outcome ends a run. When no statement fails, \<open>commit_outcome\<close> of an active
  run brings it to the outcome's terminal status (a cancelled engine interrupts the run unless
  it was cancelling), through preparing and running where needed, with two exceptions that
  report the illegal edge and change nothing: a created run accepts only a failure, and a
  cancelling run does not accept a completion. A terminal run is returned unchanged.
\<close>

theorem commit_outcome_lands:
  fixes outcome :: engine_outcome
  assumes "agree m" and "calm [e1, e2, e3] r m" and "rm_runs m r = Some run"
  defines "st \<equiv> rv_status run" and "t \<equiv> outcome_target (rv_status run) outcome"
  shows "if is_terminal st then commit_outcome e1 e2 e3 r outcome m = (Inr run, m)
    else if st = Created \<and> t \<noteq> Failed \<or> st = Cancelling \<and> t = Completed
    then commit_outcome e1 e2 e3 r outcome m = (Inl (SeCommit (CeIllegal (TeIllegal st t))), m)
    else \<exists>run' m'. commit_outcome e1 e2 e3 r outcome m = (Inr run', m')
      \<and> rm_runs m' r = Some run' \<and> rv_status run' = t \<and> is_terminal t \<and> agree m'"
proof (cases "is_terminal st")
  case True
  with assms(3) show ?thesis
    by (simp add: st_def commit_outcome_def status_or_def found_run_def get_run_def)
next
  case False
  note nt = False [unfolded st_def]
  have edge: "t \<in> {Completed, Failed, Interrupted, Cancelled}"
    using bridged_edge(3) [OF nt refl refl] by (simp add: t_def)
  from bridge_ok [OF assms(1-3) nt edge] obtain m1 run1 where
    b: "ensure_running_before_terminal e1 e2 r t m = (Inr (), m1)" "rm_runs m1 r = Some run1"
    "agree m1" "calm [e3] r m1"
    "rv_status run1 = (if t \<noteq> Cancelled \<and> rv_status run \<in> {Queued, Preparing} then Running else rv_status run)"
    "rv_status run1 = rv_status run \<longrightarrow> m1 = m" by metis
  have t: "t = outcome_target (rv_status run) outcome" by (simp add: t_def)
  note step = bridged_edge [OF nt t b(5)]
  have out: "commit_outcome e1 e2 e3 r outcome m
      = commit_status e3 r t (snd (outcome_request (rv_status run) outcome)) m1"
    using commit_outcome_eq [OF assms(3) nt] b(1) by (simp add: t_def)
  show ?thesis
  proof (cases "st = Created \<and> t \<noteq> Failed \<or> st = Cancelling \<and> t = Completed")
    case True
    with step(1,5) b(6) have same: "m1 = m" "rv_status run1 = rv_status run"
      "\<not> can_transition (rv_status run1) t" by (auto simp: st_def)
    with b(2) assms(3) have "run1 = run" by simp
    with commit_status_illegal [OF assms(3) nt] same step(4) out True False show ?thesis
      by (simp add: st_def)
  next
    case False
    with step(1) have "can_transition (rv_status run1) t" by (auto simp: st_def)
    from commit_status_ok [OF b(3,4,2) this] obtain m' run' where
      "commit_status e3 r t (snd (outcome_request (rv_status run) outcome)) m1 = (Inr run', m')"
      "rm_runs m' r = Some run'" "rv_status run' = t" "agree m'" by metis
    with False \<open>\<not> is_terminal st\<close> out outcome_target_terminal show ?thesis by (simp add: t_def)
  qed
qed

lemma commit_outcome_lands_witness:
  "\<exists>run' m'. commit_outcome (demo_env ''a'') (demo_env ''b'') (demo_env ''c'') ''r'' (OutCompleted ''stop'') demo_manager
      = (Inr run', m') \<and> rm_runs m' ''r'' = Some run' \<and> rv_status run' = Completed"
  using commit_outcome_lands [OF demo_agree demo_calm demo_lookup(1), of "OutCompleted ''stop''"]
  by (simp add: demo_lookup is_terminal_def outcome_target_def) blast

text \<open>
  The lifecycle commits keep the log of the sequencer. From a reachable sequencer over the
  manager's database, a commit with a fresh event id leads to a reachable one again, so that
  every event any subscriber was sent, its lifecycle event included, is a row of the table.
\<close>

theorem commit_keeps_log:
  assumes "log_reachable env0 (rm_events m)" and "agree m" and "rm_has_store m"
    and "commit_transition env r n t meta m = (Inr ct, m')"
    and "fst (ce_stamp env) \<noteq> []" and "log_last_sequence r (rm_db m) \<noteq> Inr (2 ^ 63 - 1)"
  shows "log_reachable env0 (rm_events m')
    \<and> (\<forall>q. \<forall>e\<in>set (seq_bus (rm_events m') q). ev_event_id e \<in> er_event_id ` set (edb_rows (rm_db m')))"
proof -
  have inv: "db_inv (rm_db m)" using log_reachable_inv [OF assms(1)]
    by (simp add: el.persisted_def el.backed_def rm_db_def)
  from assms(3,4) obtain ev db where d: "committed_in env r n t meta (rm_db m) ev db"
    "rm_events m' = inject_committed ev ((rm_events m)\<lparr>sq_store := db\<rparr>)"
    by (cases rule: commit_transition_cases [of env r n t meta m]) auto
  from committed_keeps_log [OF d(1) inv assms(5,6)] have k: "db_inv db"
    "db_durable (rm_db m) \<subseteq> db_durable db" "ev_event_id ev \<in> db_durable db" by auto
  have "log_reachable env0 ((rm_events m)\<lparr>sq_store := db\<rparr>)"
    by (rule reach_other [OF assms(1)]) (use k in \<open>simp_all add: rm_db_def\<close>)
  then have reach: "log_reachable env0 (rm_events m')"
    unfolding d(2) by (rule reach_inject) (use k in simp)
  then show ?thesis
    using log_reachable_inv [OF reach] unfolding el.persisted_def db_durable_def rm_db_def by blast
qed

lemma commit_keeps_log_witness:
  "log_reachable run_env (rm_events (snd (commit_transition (demo_env ''a'') ''r'' 1 Preparing tm_empty demo_manager)))"
proof -
  have "can_transition (rv_status demo_run) Preparing" by (simp add: demo_lookup can_transition_def)
  from commit_succeeds [OF demo_agree demo_calm demo_lookup(1) this]
  obtain m' where c: "commit_transition (demo_env ''a'') ''r'' 1 Preparing tm_empty demo_manager
      = (Inr (committed_as ''r'' Queued Preparing 1), m')"
    using demo_lookup by metis
  have "log_reachable run_env (rm_events demo_manager)"
    by (simp add: demo_manager_def) (rule reach_init, simp add: demo_run_db_def db_inv_def)
  moreover have "log_last_sequence ''r'' (rm_db demo_manager) \<noteq> Inr (2 ^ 63 - 1)"
    by (simp add: demo_manager_def rm_db_def seq_with_persistence_def demo_run_db_def log_last_sequence_def)
  ultimately show ?thesis
    using commit_keeps_log [OF _ demo_agree demo_lookup(4) c] c by (simp add: demo_env_def)
qed

end
