(* ===== verification/RunConcurrency.thy ===== *)
theory RunConcurrency
  imports RunManager
begin

section \<open>Concurrent commits\<close>

text \<open>
  \<open>commit_transition\<close> takes no lock across its phases: it checks under the lock of the run map,
  writes in a database transaction, updates the run map under its lock again, and then, with that
  lock released, hands its event to the sequencer, which has a lock of its own. Here any number of
  calls interleave at those four points, together with any other step on the sequencer and its
  database that leaves the run table alone (the event log). A transaction and a critical section are
  atomic; a phase that reports an error ends the call. The bound on the expected revision only
  excludes runs with \<open>2 ^ 64 - 1\<close> committed transitions, where the saturating increment stops.
  \<open>rc_committed\<close> and \<open>rc_published\<close> are not part of the code's state: they list the events in the order of
  their transactions, and in the order in which \<open>inject_committed\<close> was called with them.
\<close>

datatype phase =
    Idle
  | Checked commit_env string u64 run_status transition_metadata run_status
  | Written commit_env string u64 run_status transition_metadata run_status run_event
  | Cached run_event

record race =
  rc_runs :: "string \<rightharpoonup> run_v2"
  rc_events :: "run_db sequencer"
  rc_phase :: "nat \<Rightarrow> phase"
  rc_committed :: "run_event list"
  rc_published :: "run_event list"

definition rc_db :: "race \<Rightarrow> run_db" where
  "rc_db s = sq_store (rc_events s)"

inductive race_step :: "race \<Rightarrow> race \<Rightarrow> bool" where
  step_check: "rc_phase s i = Idle \<Longrightarrow> n \<noteq> - 1 \<Longrightarrow> commit_check r n t (rc_runs s) = Inr frm \<Longrightarrow>
    race_step s (s\<lparr>rc_phase := (rc_phase s)(i := Checked env r n t meta frm)\<rparr>)"
| step_write: "rc_phase s i = Checked env r n t meta frm \<Longrightarrow>
    commit_durable env r n t meta (rc_db s) = Inr (ev, db) \<Longrightarrow>
    race_step s (s\<lparr>rc_events := (rc_events s)\<lparr>sq_store := db\<rparr>, rc_phase := (rc_phase s)(i := Written env r n t meta frm ev),
      rc_committed := rc_committed s @ [ev]\<rparr>)"
| step_write_error: "rc_phase s i = Checked env r n t meta frm \<Longrightarrow>
    commit_durable env r n t meta (rc_db s) = Inl e \<Longrightarrow>
    race_step s (s\<lparr>rc_phase := (rc_phase s)(i := Idle)\<rparr>)"
| step_cache: "rc_phase s i = Written env r n t meta frm ev \<Longrightarrow>
    commit_cache (ce_now env) r n t meta (rc_runs s) = Inr runs \<Longrightarrow>
    race_step s (s\<lparr>rc_runs := runs, rc_phase := (rc_phase s)(i := Cached ev)\<rparr>)"
| step_cache_error: "rc_phase s i = Written env r n t meta frm ev \<Longrightarrow>
    commit_cache (ce_now env) r n t meta (rc_runs s) = Inl e \<Longrightarrow>
    race_step s (s\<lparr>rc_phase := (rc_phase s)(i := Idle)\<rparr>)"
| step_publish: "rc_phase s i = Cached ev \<Longrightarrow>
    race_step s (s\<lparr>rc_events := inject_committed ev (rc_events s), rc_phase := (rc_phase s)(i := Idle),
      rc_published := rc_published s @ [ev]\<rparr>)"
| step_other: "run_row_of (sq_store sq) = run_row_of (rc_db s) \<Longrightarrow> race_step s (s\<lparr>rc_events := sq\<rparr>)"

lemma rc_db_simps [simp]:
  "rc_db (s\<lparr>rc_events := sq\<rparr>) = sq_store sq"
  "rc_db (s\<lparr>rc_runs := runs\<rparr>) = rc_db s"
  "rc_db (s\<lparr>rc_phase := ph\<rparr>) = rc_db s"
  "rc_db (s\<lparr>rc_committed := evs\<rparr>) = rc_db s"
  "rc_db (s\<lparr>rc_published := evs\<rparr>) = rc_db s"
  by (simp_all add: rc_db_def)

definition race_agree :: "race \<Rightarrow> bool" where
  "race_agree s \<longleftrightarrow> (\<forall>r run. rc_runs s r = Some run \<longrightarrow>
     (\<exists>row. run_row_of (rc_db s) r = Some row \<and> rr_status row = status_str (rv_status run)
        \<and> rr_revision row = rv_revision run))"

inductive race_reachable :: "race \<Rightarrow> bool" where
  race_init: "race_agree s \<Longrightarrow> (\<forall>i. rc_phase s i = Idle) \<Longrightarrow> rc_committed s = [] \<Longrightarrow> rc_published s = [] \<Longrightarrow>
    race_reachable s"
| race_next: "race_reachable s \<Longrightarrow> race_step s s' \<Longrightarrow> race_reachable s'"

subsection \<open>The invariant\<close>

text \<open>A run no call is writing: the run map and the table agree.\<close>

definition settled :: "race \<Rightarrow> string \<Rightarrow> bool" where
  "settled s r \<longleftrightarrow> (\<forall>run. rc_runs s r = Some run \<longrightarrow>
     (\<exists>row. run_row_of (rc_db s) r = Some row \<and> rr_status row = status_str (rv_status run)
        \<and> rr_revision row = rv_revision run))"

text \<open>A run that a call has written but not yet cached: the table is one revision ahead.\<close>

definition ahead :: "race \<Rightarrow> string \<Rightarrow> u64 \<Rightarrow> run_status \<Rightarrow> run_status \<Rightarrow> run_event \<Rightarrow> bool" where
  "ahead s r n t frm ev \<longleftrightarrow> n \<noteq> - 1 \<and> ev_run_id ev = r \<and> can_transition frm t
     \<and> (\<exists>run row. rc_runs s r = Some run \<and> rv_revision run = n \<and> rv_status run = frm
          \<and> run_row_of (rc_db s) r = Some row \<and> rr_revision row = n + 1 \<and> rr_status row = status_str t)"

definition writing :: "race \<Rightarrow> nat \<Rightarrow> string \<Rightarrow> bool" where
  "writing s i r \<longleftrightarrow> (\<exists>env n t meta frm ev. rc_phase s i = Written env r n t meta frm ev)"

definition race_inv :: "race \<Rightarrow> bool" where
  "race_inv s \<longleftrightarrow>
     (\<forall>r. (\<forall>i. \<not> writing s i r) \<longrightarrow> settled s r)
     \<and> (\<forall>i env r n t meta frm ev. rc_phase s i = Written env r n t meta frm ev \<longrightarrow> ahead s r n t frm ev)
     \<and> (\<forall>i j r. writing s i r \<longrightarrow> writing s j r \<longrightarrow> i = j)
     \<and> (\<forall>i env r n t meta frm. rc_phase s i = Checked env r n t meta frm \<longrightarrow> n \<noteq> - 1 \<and> can_transition frm t
          \<and> (\<exists>run. rc_runs s r = Some run \<and> (n < rv_revision run \<or> rv_revision run = n \<and> rv_status run = frm)))"

lemma race_invD:
  assumes "race_inv s"
  shows "(\<And>i. \<not> writing s i r) \<Longrightarrow> settled s r"
    and "rc_phase s i = Written env r n t meta frm ev \<Longrightarrow> ahead s r n t frm ev"
    and "writing s i r \<Longrightarrow> writing s j r \<Longrightarrow> i = j"
    and "rc_phase s i = Checked env r n t meta frm \<Longrightarrow> n \<noteq> - 1 \<and> can_transition frm t
          \<and> (\<exists>run. rc_runs s r = Some run \<and> (n < rv_revision run \<or> rv_revision run = n \<and> rv_status run = frm))"
  using assms unfolding race_inv_def by blast+

lemma race_invI:
  assumes "\<And>r. (\<And>i. \<not> writing s i r) \<Longrightarrow> settled s r"
    and "\<And>i env r n t meta frm ev. rc_phase s i = Written env r n t meta frm ev \<Longrightarrow> ahead s r n t frm ev"
    and "\<And>i j r. writing s i r \<Longrightarrow> writing s j r \<Longrightarrow> i = j"
    and "\<And>i env r n t meta frm. rc_phase s i = Checked env r n t meta frm \<Longrightarrow> n \<noteq> - 1 \<and> can_transition frm t
          \<and> (\<exists>run. rc_runs s r = Some run \<and> (n < rv_revision run \<or> rv_revision run = n \<and> rv_status run = frm))"
  shows "race_inv s"
  using assms unfolding race_inv_def by blast

text \<open>With revisions below the bound, the increment is exact.\<close>

lemma sat_add_one: "(n :: u64) \<noteq> - 1 \<Longrightarrow> sat_add n 1 = n + 1"
  using unat_less_max [of n] by (simp add: word_unat_eq_iff sat_simps unat_word_ariths)

lemma committed_ahead:
  assumes "committed_in env r n t meta db ev db'"
  shows "ev_run_id ev = r" and "\<exists>row. run_row_of db r = Some row \<and> rr_revision row = n"
    and "\<exists>row'. run_row_of db' = (run_row_of db)(r \<mapsto> row') \<and> rr_status row' = status_str t
      \<and> rr_revision row' = sat_add n 1"
proof -
  from assms obtain row and erow :: event_row and mx where c: "run_row_of db r = Some row" "rr_revision row = n"
    "run_row_of db' = (run_row_of db)(r \<mapsto> cas_row (ce_now env) n t meta row)"
    "er_payload erow = run_event_new (ce_stamp env) r (mx + 1) (lifecycle_event_for t meta)"
    "ev = with_global_sequence (er_id erow) (er_payload erow)"
    unfolding committed_in_def by blast
  show "ev_run_id ev = r" by (simp add: c(4,5))
  show "\<exists>row. run_row_of db r = Some row \<and> rr_revision row = n" using c(1,2) by blast
  show "\<exists>row'. run_row_of db' = (run_row_of db)(r \<mapsto> row') \<and> rr_status row' = status_str t
      \<and> rr_revision row' = sat_add n 1"
    using c(3) by (intro exI [of _ "cas_row (ce_now env) n t meta row"]) (simp add: cas_row_def)
qed

text \<open>A call whose compare-and-swap on the table succeeds is the only one writing its run.\<close>

lemma write_alone:
  assumes inv: "race_inv s" and ph: "rc_phase s i = Checked env r n t meta frm"
    and com: "committed_in env r n t meta (rc_db s) ev db"
  shows "\<not> writing s j r" and "\<exists>run. rc_runs s r = Some run \<and> rv_revision run = n \<and> rv_status run = frm"
proof -
  from race_invD(4) [OF inv ph] obtain run where run: "n \<noteq> - 1" "rc_runs s r = Some run"
    "n < rv_revision run \<or> rv_revision run = n \<and> rv_status run = frm" by blast
  from committed_ahead(2) [OF com] obtain row where row: "run_row_of (rc_db s) r = Some row"
    "rr_revision row = n" by blast
  have none: "\<not> writing s j r" for j
  proof
    assume "writing s j r"
    then obtain env' n' t' meta' frm' ev' where "rc_phase s j = Written env' r n' t' meta' frm' ev'"
      by (auto simp: writing_def)
    from race_invD(2) [OF inv this] run(2) row have "n = rv_revision run + 1" "rv_revision run \<noteq> - 1"
      by (auto simp: ahead_def)
    with run(3) word_less_add_one [of "rv_revision run"] show False by auto
  qed
  then show "\<not> writing s j r" .
  from race_invD(1) [OF inv none] run row show "\<exists>run. rc_runs s r = Some run \<and> rv_revision run = n \<and> rv_status run = frm"
    by (auto simp: settled_def)
qed

lemma writing_upd:
  "writing (s\<lparr>rc_phase := (rc_phase s)(i := p)\<rparr>) j r \<longleftrightarrow>
     (if j = i then (\<exists>env n t meta frm ev. p = Written env r n t meta frm ev) else writing s j r)"
  by (simp add: writing_def)

lemma inv_check:
  assumes inv: "race_inv s" and idle: "\<not> (\<exists>r. writing s i r)"
    and p: "p = Idle \<or> (\<exists>env r n t meta frm. p = Checked env r n t meta frm \<and> n \<noteq> - 1
        \<and> can_transition frm t \<and> (\<exists>run. rc_runs s r = Some run \<and> rv_revision run = n \<and> rv_status run = frm))"
  shows "race_inv (s\<lparr>rc_phase := (rc_phase s)(i := p)\<rparr>)"
proof (rule race_invI)
  have w: "writing (s\<lparr>rc_phase := (rc_phase s)(i := p)\<rparr>) j r = writing s j r" for j r
    using idle p by (auto simp: writing_upd)
  fix r assume "\<And>j. \<not> writing (s\<lparr>rc_phase := (rc_phase s)(i := p)\<rparr>) j r"
  with race_invD(1) [OF inv, of r] show "settled (s\<lparr>rc_phase := (rc_phase s)(i := p)\<rparr>) r"
    by (simp add: w settled_def)
next
  fix j env r n t meta frm ev
  assume "rc_phase (s\<lparr>rc_phase := (rc_phase s)(i := p)\<rparr>) j = Written env r n t meta frm ev"
  with p have "rc_phase s j = Written env r n t meta frm ev" by (auto split: if_splits)
  from race_invD(2) [OF inv this] show "ahead (s\<lparr>rc_phase := (rc_phase s)(i := p)\<rparr>) r n t frm ev"
    by (simp add: ahead_def)
next
  fix j k r
  assume "writing (s\<lparr>rc_phase := (rc_phase s)(i := p)\<rparr>) j r" "writing (s\<lparr>rc_phase := (rc_phase s)(i := p)\<rparr>) k r"
  with race_invD(3) [OF inv] p show "j = k" by (auto simp: writing_upd split: if_splits)
next
  fix j env r n t meta frm
  assume "rc_phase (s\<lparr>rc_phase := (rc_phase s)(i := p)\<rparr>) j = Checked env r n t meta frm"
  with p race_invD(4) [OF inv, of j env r n t meta frm]
  show "n \<noteq> - 1 \<and> can_transition frm t \<and> (\<exists>run. rc_runs (s\<lparr>rc_phase := (rc_phase s)(i := p)\<rparr>) r = Some run
      \<and> (n < rv_revision run \<or> rv_revision run = n \<and> rv_status run = frm))"
    by (auto split: if_splits)
qed

lemma inv_write:
  assumes inv: "race_inv s" and ph: "rc_phase s i = Checked env r n t meta frm"
    and com: "committed_in env r n t meta (rc_db s) ev db"
  shows "race_inv (s\<lparr>rc_events := (rc_events s)\<lparr>sq_store := db\<rparr>, rc_phase := (rc_phase s)(i := Written env r n t meta frm ev),
      rc_committed := rc_committed s @ [ev]\<rparr>)" (is "race_inv ?s")
proof (rule race_invI)
  note alone = write_alone [OF inv ph com]
  note ev = committed_ahead(1) [OF com]
  obtain row' where row': "run_row_of db = (run_row_of (rc_db s))(r \<mapsto> row')" "rr_status row' = status_str t"
    "rr_revision row' = sat_add n 1" using committed_ahead(3) [OF com] by blast
  have n: "n \<noteq> - 1" "can_transition frm t" using race_invD(4) [OF inv ph] by blast+
  have w: "writing ?s j q \<longleftrightarrow> (if j = i then q = r else writing s j q)" for j q
    by (auto simp: writing_def)
  have wi: "\<not> writing s i q" for q using ph by (simp add: writing_def)
  { fix q assume no: "\<And>j. \<not> writing ?s j q"
    then have "q \<noteq> r" using w [of i q] by auto
    moreover have "\<not> writing s j q" for j using no [of j] wi [of q] w [of j q] by (cases "j = i") auto
    ultimately show "settled ?s q"
      using race_invD(1) [OF inv, of q] row'(1) ev by (simp add: settled_def) }
  { fix j env' q n' t' meta' frm' ev'
    assume j: "rc_phase ?s j = Written env' q n' t' meta' frm' ev'"
    show "ahead ?s q n' t' frm' ev'"
    proof (cases "j = i")
      case True
      have "settled s r" using race_invD(1) [OF inv] alone(1) by blast
      with True j alone(2) n ev row' sat_add_one [OF n(1)] show ?thesis
        by (auto simp: ahead_def settled_def)
    next
      case False
      with j have "rc_phase s j = Written env' q n' t' meta' frm' ev'" by simp
      moreover from this alone(1) [of j] have "q \<noteq> r" by (auto simp: writing_def)
      ultimately show ?thesis using race_invD(2) [OF inv, of j] row'(1) ev by (auto simp: ahead_def)
    qed }
  { fix j k q assume "writing ?s j q" "writing ?s k q"
    then have "(if j = i then q = r else writing s j q)" "(if k = i then q = r else writing s k q)"
      by (simp_all only: w)
    with alone(1) [of j] alone(1) [of k] race_invD(3) [OF inv, of j q k] show "j = k"
      by (cases "j = i"; cases "k = i") simp_all }
  { fix j env' q n' t' meta' frm'
    assume "rc_phase ?s j = Checked env' q n' t' meta' frm'"
    then have "rc_phase s j = Checked env' q n' t' meta' frm'" by (auto split: if_splits)
    from race_invD(4) [OF inv this] show "n' \<noteq> - 1 \<and> can_transition frm' t' \<and> (\<exists>run. rc_runs ?s q = Some run
      \<and> (n' < rv_revision run \<or> rv_revision run = n' \<and> rv_status run = frm'))" by simp }
qed

lemma inv_cache:
  assumes inv: "race_inv s" and ph: "rc_phase s i = Written env r n t meta frm ev"
    and run: "rc_runs s r = Some run"
    and runs: "runs = (rc_runs s)(r \<mapsto> run')" "rv_status run' = t" "rv_revision run' = n + 1"
  shows "race_inv (s\<lparr>rc_runs := runs, rc_phase := (rc_phase s)(i := Cached ev)\<rparr>)" (is "race_inv ?s")
proof (rule race_invI)
  note ah = race_invD(2) [OF inv ph, unfolded ahead_def]
  have w: "writing ?s j q \<longleftrightarrow> j \<noteq> i \<and> writing s j q" for j q
    by (auto simp: writing_def)
  have wi: "writing s i r" using ph by (auto simp: writing_def)
  { fix q assume no: "\<And>j. \<not> writing ?s j q"
    show "settled ?s q"
    proof (cases "q = r")
      case True
      with ah runs show ?thesis by (auto simp: settled_def)
    next
      case False
      have "\<not> writing s j q" for j using no [of j] w [of j q] ph False by (auto simp: writing_def)
      with race_invD(1) [OF inv, of q] False runs(1) ah show ?thesis by (simp add: settled_def)
    qed }
  { fix j env' q n' t' meta' frm' ev'
    assume "rc_phase ?s j = Written env' q n' t' meta' frm' ev'"
    then have j: "j \<noteq> i" "rc_phase s j = Written env' q n' t' meta' frm' ev'" by (auto split: if_splits)
    then have "writing s j q" by (auto simp: writing_def)
    with race_invD(3) [OF inv] wi j(1) have "q \<noteq> r" by blast
    with race_invD(2) [OF inv j(2)] runs(1) ah show "ahead ?s q n' t' frm' ev'" by (auto simp: ahead_def) }
  { fix j k q assume "writing ?s j q" "writing ?s k q"
    with w race_invD(3) [OF inv] show "j = k" by blast }
  { fix j env' q n' t' meta' frm'
    assume "rc_phase ?s j = Checked env' q n' t' meta' frm'"
    then have "rc_phase s j = Checked env' q n' t' meta' frm'" by (auto split: if_splits)
    from race_invD(4) [OF inv this] obtain run0 where old: "n' \<noteq> - 1" "can_transition frm' t'"
      "rc_runs s q = Some run0" "n' < rv_revision run0 \<or> rv_revision run0 = n' \<and> rv_status run0 = frm'" by blast
    have "n' < n + 1" if "q = r"
    proof -
      from that old ah have "n' \<le> n" by auto
      with ah word_less_add_one [of n] show ?thesis by auto
    qed
    with old runs show "n' \<noteq> - 1 \<and> can_transition frm' t' \<and> (\<exists>run. rc_runs ?s q = Some run
      \<and> (n' < rv_revision run \<or> rv_revision run = n' \<and> rv_status run = frm'))" by auto }
qed

text \<open>Once written, the cache update finds the revision it expects.\<close>

lemma cache_succeeds:
  assumes "race_inv s" and "rc_phase s i = Written env r n t meta frm ev"
  obtains run where "rc_runs s r = Some run" "n \<noteq> - 1"
    "commit_cache (ce_now env) r n t meta (rc_runs s) = Inr ((rc_runs s)(r \<mapsto>
       apply_transition_metadata (ce_now env) t meta (run\<lparr>rv_status := t, rv_revision := sat_add n 1\<rparr>)))"
  using race_invD(2) [OF assms] by (auto simp: ahead_def commit_cache_def intro: that)

lemma race_inv_reachable: "race_reachable s \<Longrightarrow> race_inv s"
proof (induction rule: race_reachable.induct)
  case (race_init s)
  then show ?case
    by (intro race_invI) (auto simp: writing_def settled_def race_agree_def)
next
  case (race_next s s')
  from race_next.hyps(2) race_next.IH show ?case
  proof (cases rule: race_step.cases)
    case (step_check i n r t frm env meta)
    then show ?thesis using race_next.IH
      by (auto intro!: inv_check simp: writing_def commit_check_Inr)
  next
    case (step_write i env r n t meta frm ev db)
    then show ?thesis using inv_write [OF race_next.IH] commit_durable_Inr by simp
  next
    case (step_write_error i env r n t meta frm e)
    then show ?thesis using race_next.IH by (auto intro!: inv_check simp: writing_def)
  next
    case (step_cache i env r n t meta frm ev runs)
    from race_next.IH step_cache(2) obtain run where run: "rc_runs s r = Some run" "n \<noteq> - 1"
      "commit_cache (ce_now env) r n t meta (rc_runs s) = Inr ((rc_runs s)(r \<mapsto>
       apply_transition_metadata (ce_now env) t meta (run\<lparr>rv_status := t, rv_revision := sat_add n 1\<rparr>)))"
      by (rule cache_succeeds)
    show ?thesis unfolding step_cache(1)
      by (rule inv_cache [OF race_next.IH step_cache(2) run(1)])
        (use run step_cache(3) sat_add_one in auto)
  next
    case (step_cache_error i env r n t meta frm ev e)
    from race_next.IH step_cache_error(2) show ?thesis
      by (rule cache_succeeds) (use step_cache_error(3) in simp)
  next
    case (step_publish i ev)
    have "race_inv (s\<lparr>rc_phase := (rc_phase s)(i := Idle)\<rparr>)"
      using race_next.IH step_publish(2) by (intro inv_check) (auto simp: writing_def)
    moreover have "settled s' r = settled (s\<lparr>rc_phase := (rc_phase s)(i := Idle)\<rparr>) r"
      "ahead s' r n t frm ev = ahead (s\<lparr>rc_phase := (rc_phase s)(i := Idle)\<rparr>) r n t frm ev"
      "writing s' j r = writing (s\<lparr>rc_phase := (rc_phase s)(i := Idle)\<rparr>) j r"
      "rc_phase s' = rc_phase (s\<lparr>rc_phase := (rc_phase s)(i := Idle)\<rparr>)"
      "rc_runs s' = rc_runs (s\<lparr>rc_phase := (rc_phase s)(i := Idle)\<rparr>)" for r n t frm ev j
      by (simp_all add: step_publish(1) settled_def ahead_def writing_def rc_db_def)
    ultimately show ?thesis by (simp only: race_inv_def)
  next
    case (step_other sq)
    have "settled s' r = settled s r" "ahead s' r n t frm ev = ahead s r n t frm ev" "writing s' i r = writing s i r"
      "rc_phase s' = rc_phase s" "rc_runs s' = rc_runs s" for r n t frm ev i
      using step_other by (simp_all add: settled_def ahead_def writing_def)
    with race_next.IH show ?thesis by (simp only: race_inv_def)
  qed
qed

subsection \<open>A concrete race\<close>

definition demo_race :: race where
  "demo_race = \<lparr>rc_runs = rm_runs demo_manager, rc_events = rm_events demo_manager, rc_phase = (\<lambda>_. Idle),
     rc_committed = [], rc_published = []\<rparr>"

text \<open>One call has written; a second one passed its check before that.\<close>

lemma demo_race_written:
  obtains s ev where "race_reachable s"
    "rc_phase s 0 = Written (demo_env ''a'') ''r'' 1 Preparing tm_empty Queued ev"
    "rc_phase s 1 = Checked (demo_env ''b'') ''r'' 1 Cancelling tm_empty Queued"
    "rc_db s \<noteq> rm_db demo_manager"
proof -
  have 0: "race_reachable demo_race"
    using demo_agree by (intro race_init) (simp_all add: demo_race_def race_agree_def agree_def demo_lookup rc_db_def rm_db_def)
  define s1 where "s1 = demo_race\<lparr>rc_phase := (rc_phase demo_race)(1 := Checked (demo_env ''b'') ''r'' 1 Cancelling tm_empty Queued)\<rparr>"
  have chk: "commit_check ''r'' 1 t (rc_runs demo_race) = Inr Queued" if "can_transition Queued t" for t
    using that by (simp add: commit_check_Inr demo_race_def demo_lookup)
  have 1: "race_reachable s1" unfolding s1_def
    by (rule race_next [OF 0], rule step_check) (simp_all add: chk can_transition_def, simp add: demo_race_def)
  define s2 where "s2 = s1\<lparr>rc_phase := (rc_phase s1)(0 := Checked (demo_env ''a'') ''r'' 1 Preparing tm_empty Queued)\<rparr>"
  have 2: "race_reachable s2" unfolding s2_def
    by (rule race_next [OF 1], rule step_check)
      (simp_all add: chk can_transition_def s1_def, simp add: demo_race_def)
  have db: "rc_db s2 = rm_db demo_manager" by (simp add: s2_def s1_def demo_race_def rc_db_def rm_db_def)
  have row: "\<exists>row. run_row_of (rm_db demo_manager) ''r'' = Some row \<and> rr_revision row = 1"
    using demo_agree demo_lookup unfolding agree_def by metis
  have inv: "db_inv (rm_db demo_manager)" "\<forall>site. ce_fault (demo_env ''a'') site = None"
    "fst (ce_stamp (demo_env ''a'')) \<notin> db_durable (rm_db demo_manager)"
    using demo_calm demo_lookup(4) by (auto simp: calm_def)
  have last: "log_last_sequence ''r'' (rm_db demo_manager) = Inr 0"
    by (simp add: demo_manager_def rm_db_def seq_with_persistence_def demo_run_db_def log_last_sequence_def)
  from row commit_durable_ok [OF inv(1) _ _ inv(2,3) last] obtain ev db where
    w: "commit_durable (demo_env ''a'') ''r'' 1 Preparing tm_empty (rc_db s2) = Inr (ev, db)"
    unfolding db by force
  define s3 where "s3 = s2\<lparr>rc_events := (rc_events s2)\<lparr>sq_store := db\<rparr>, rc_phase := (rc_phase s2)(0 := Written (demo_env ''a'') ''r'' 1 Preparing tm_empty Queued ev),
      rc_committed := rc_committed s2 @ [ev]\<rparr>"
  have 3: "race_reachable s3" unfolding s3_def
    by (rule race_next [OF 2], rule step_write [OF _ w]) (simp add: s2_def)
  from commit_durable_Inr [OF w] have "edb_rows db \<noteq> edb_rows (rm_db demo_manager)"
    unfolding committed_in_def db by auto
  then show ?thesis by (intro that [OF 3]) (auto simp: s3_def s2_def s1_def)
qed

subsection \<open>Properties\<close>

text \<open>
  C3: concurrent commits serialise on the table. In every state that interleaved commits and log
  writers reach: at most one call is between writing the table and updating the run map of a
  given run, its cache update cannot fail, and the table is then exactly one revision ahead;
  when no call is there, table and run map agree on the run's status and revision.
\<close>

theorem concurrent_commits_serialise:
  assumes "race_reachable s"
  shows "(writing s i r \<and> writing s j r \<longrightarrow> i = j)
    \<and> (rc_phase s i = Written env r n t meta frm ev \<longrightarrow>
         \<not> isl (commit_cache (ce_now env) r n t meta (rc_runs s))
         \<and> (\<exists>run row. rc_runs s r = Some run \<and> run_row_of (rc_db s) r = Some row
              \<and> rr_revision row = rv_revision run + 1 \<and> transition (rv_status run) t = Inr ()
              \<and> rr_status row = status_str t))
    \<and> ((\<forall>k. \<not> writing s k r) \<longrightarrow> (\<forall>run. rc_runs s r = Some run \<longrightarrow>
         (\<exists>row. run_row_of (rc_db s) r = Some row \<and> rr_status row = status_str (rv_status run)
            \<and> rr_revision row = rv_revision run)))"
proof (intro conjI impI)
  note inv = race_inv_reachable [OF assms]
  show "i = j" if "writing s i r \<and> writing s j r" using race_invD(3) [OF inv] that by blast
  assume w: "rc_phase s i = Written env r n t meta frm ev"
  from inv w show "\<not> isl (commit_cache (ce_now env) r n t meta (rc_runs s))"
    by (rule cache_succeeds) simp
  from race_invD(2) [OF inv w] show "\<exists>run row. rc_runs s r = Some run \<and> run_row_of (rc_db s) r = Some row
      \<and> rr_revision row = rv_revision run + 1 \<and> transition (rv_status run) t = Inr ()
      \<and> rr_status row = status_str t"
    by (auto simp: ahead_def transition_ok_iff)
next
  assume "\<forall>k. \<not> writing s k r"
  with race_invD(1) [OF race_inv_reachable [OF assms], of r]
  show "\<forall>run. rc_runs s r = Some run \<longrightarrow> (\<exists>row. run_row_of (rc_db s) r = Some row
      \<and> rr_status row = status_str (rv_status run) \<and> rr_revision row = rv_revision run)"
    by (simp add: settled_def)
qed

lemma concurrent_commits_serialise_witness:
  "\<exists>s ev. race_reachable s \<and> rc_phase s 0 = Written (demo_env ''a'') ''r'' 1 Preparing tm_empty Queued ev
    \<and> \<not> isl (commit_cache ''now'' ''r'' 1 Preparing tm_empty (rc_runs s))"
proof (rule demo_race_written)
  fix s ev assume s: "race_reachable s"
    "rc_phase s 0 = Written (demo_env ''a'') ''r'' 1 Preparing tm_empty Queued ev"
  with concurrent_commits_serialise [OF s(1), of 0 "''r''" 0 "demo_env ''a''" 1 Preparing tm_empty Queued ev]
  have "\<not> isl (commit_cache ''now'' ''r'' 1 Preparing tm_empty (rc_runs s))"
    by (simp add: demo_env_def)
  with s show ?thesis by blast
qed

subsection \<open>Publication\<close>

text \<open>
  The interleavings in which the event log keeps its invariant, no row leaves the table and no number leaves
  the sequencer's memory. The steps of a commit do so by themselves, if its event id is not blank and the
  sequence numbers of its run are below \<open>2 ^ 63\<close> (\<open>write_keeps_log\<close>, \<open>publish_keeps_log\<close>).
\<close>

definition seq_numbers :: "'p sequencer \<Rightarrow> string \<Rightarrow> u64 set" where
  "seq_numbers s r = effective_run_sequence ` set (seq_log s r)"

definition log_kept :: "race \<Rightarrow> race \<Rightarrow> bool" where
  "log_kept s s' \<longleftrightarrow> db_inv (rc_db s') \<and> set (edb_rows (rc_db s)) \<subseteq> set (edb_rows (rc_db s'))
     \<and> (\<forall>r. seq_numbers (rc_events s) r \<subseteq> seq_numbers (rc_events s') r)"

inductive race_logged :: "race \<Rightarrow> bool" where
  logged_init: "race_agree s \<Longrightarrow> (\<forall>i. rc_phase s i = Idle) \<Longrightarrow> rc_committed s = [] \<Longrightarrow> rc_published s = [] \<Longrightarrow>
    db_inv (rc_db s) \<Longrightarrow> race_logged s"
| logged_next: "race_logged s \<Longrightarrow> race_step s s' \<Longrightarrow> log_kept s s' \<Longrightarrow> race_logged s'"

lemma race_logged_reachable: "race_logged s \<Longrightarrow> race_reachable s"
  by (induction rule: race_logged.induct) (auto intro: race_reachable.intros)

lemma race_logged_db: "race_logged s \<Longrightarrow> db_inv (rc_db s)"
  by (induction rule: race_logged.induct) (auto simp: log_kept_def)

lemma write_keeps_log:
  assumes "db_inv (rc_db s)" and "commit_durable env r n t meta (rc_db s) = Inr (ev, db)"
    and "fst (ce_stamp env) \<noteq> []" and "log_last_sequence r (rc_db s) \<noteq> Inr (2 ^ 63 - 1)"
  shows "log_kept s (s\<lparr>rc_events := (rc_events s)\<lparr>sq_store := db\<rparr>, rc_phase := ph, rc_committed := evs\<rparr>)"
proof -
  note c = commit_durable_Inr [OF assms(2)]
  then have "set (edb_rows (rc_db s)) \<subseteq> set (edb_rows db)" unfolding committed_in_def by auto
  with committed_keeps_log [OF c assms(1,3,4)] show ?thesis by (simp add: log_kept_def seq_numbers_def seq_simps)
qed

lemma load_numbers:
  assumes "seq_wf sq"
  shows "seq_numbers sq q \<subseteq> seq_numbers (ensure_loaded p sq) q"
proof (cases "sq_loaded sq p = Some True")
  case True
  then show ?thesis by (simp add: ensure_loaded_def)
next
  case False
  with assms have "seq_log sq p = []" by (auto simp: seq_wf_def)
  moreover have "seq_log (ensure_loaded p sq) q = seq_log sq q" if "q \<noteq> p"
    using that by (auto simp: ensure_loaded_def load_persistence_def load_dir_def Let_def seq_log_def
        split: option.split sum.split)
  ultimately show ?thesis by (cases "q = p") (simp_all add: seq_numbers_def)
qed

lemma seq_log_inject:
  defines "s0 \<equiv> \<lambda>ev sq. ensure_loaded (ev_run_id ev) sq"
  shows "seq_log (inject_committed ev sq) q =
     (if q = ev_run_id ev \<and> \<not> (\<exists>e\<in>set (seq_log (s0 ev sq) q). effective_run_sequence e = effective_run_sequence ev)
      then sort_key effective_run_sequence (seq_log (s0 ev sq) q @ [ev]) else seq_log (s0 ev sq) q)"
  by (cases "sq_events (ensure_loaded (ev_run_id ev) sq) (ev_run_id ev)")
    (auto simp: inject_committed_def s0_def Let_def seq_log_def bus_send_def)

lemma inject_numbers:
  assumes "seq_wf sq"
  shows "seq_numbers sq r \<subseteq> seq_numbers (inject_committed ev sq) r"
  using load_numbers [OF assms, of r "ev_run_id ev"] by (auto simp: seq_numbers_def seq_log_inject)

lemma inject_numbers_loaded:
  assumes "sq_loaded sq (ev_run_id ev) = Some True"
  shows "seq_numbers sq r \<subseteq> seq_numbers (inject_committed ev sq) r"
proof -
  have load: "ensure_loaded (ev_run_id ev) sq = sq" using assms by (simp add: ensure_loaded_def)
  have "set (seq_log sq r) \<subseteq> set (seq_log (inject_committed ev sq) r)" unfolding seq_log_inject load by auto
  then show ?thesis unfolding seq_numbers_def by (rule image_mono)
qed

lemma inject_has_number: "effective_run_sequence ev \<in> seq_numbers (inject_committed ev sq) (ev_run_id ev)"
proof (cases "\<exists>e\<in>set (seq_log (ensure_loaded (ev_run_id ev) sq) (ev_run_id ev)). effective_run_sequence e = effective_run_sequence ev")
  case True
  then have "seq_log (inject_committed ev sq) (ev_run_id ev) = seq_log (ensure_loaded (ev_run_id ev) sq) (ev_run_id ev)"
    unfolding seq_log_inject by argo
  with True show ?thesis unfolding seq_numbers_def by (metis imageI)
next
  case False
  then show ?thesis by (simp add: seq_numbers_def seq_log_inject)
qed

lemma publish_keeps_log:
  assumes "db_inv (rc_db s)" and "seq_wf (rc_events s)"
  shows "log_kept s (s\<lparr>rc_events := inject_committed ev (rc_events s), rc_phase := ph, rc_published := evs\<rparr>)"
  using assms inject_numbers [OF assms(2)] by (simp add: log_kept_def rc_db_def)

text \<open>The events that a call has written and not yet handed to the sequencer.\<close>

definition in_flight :: "race \<Rightarrow> nat \<Rightarrow> run_event \<Rightarrow> bool" where
  "in_flight s i ev \<longleftrightarrow> rc_phase s i = Cached ev \<or> (\<exists>env r n t meta frm. rc_phase s i = Written env r n t meta frm ev)"

definition events_of :: "string \<Rightarrow> run_event list \<Rightarrow> run_event list" where
  "events_of r evs = filter (\<lambda>e. ev_run_id e = r) evs"

lemma events_of_append [simp]:
  "events_of r (xs @ [e]) = events_of r xs @ (if ev_run_id e = r then [e] else [])"
  by (simp add: events_of_def)

definition stored_event :: "run_db \<Rightarrow> run_event \<Rightarrow> bool" where
  "stored_event db ev \<longleftrightarrow> (\<exists>row\<in>set (edb_rows db). er_run_id row = ev_run_id ev
     \<and> er_sequence row = effective_run_sequence ev \<and> er_event_id row = ev_event_id ev)"

definition pub_inv :: "race \<Rightarrow> bool" where
  "pub_inv s \<longleftrightarrow>
     (\<forall>r. strictly_sequenced (events_of r (rc_committed s)))
     \<and> (\<forall>ev\<in>set (rc_committed s). stored_event (rc_db s) ev)
     \<and> distinct (rc_published s)
     \<and> (\<forall>ev. ev \<in> set (rc_published s) \<longrightarrow> ev \<in> set (rc_committed s) \<and> effective_run_sequence ev \<in> seq_numbers (rc_events s) (ev_run_id ev))
     \<and> (\<forall>ev\<in>set (rc_committed s). ev \<in> set (rc_published s) \<or> (\<exists>i. in_flight s i ev))
     \<and> (\<forall>i ev. in_flight s i ev \<longrightarrow> ev \<in> set (rc_committed s) \<and> ev \<notin> set (rc_published s))
     \<and> (\<forall>i j ev. in_flight s i ev \<longrightarrow> in_flight s j ev \<longrightarrow> i = j)"

lemma pub_inv_step:
  assumes "pub_inv s" and "log_kept s s'" and "\<And>j ev. in_flight s' j ev = in_flight s j ev"
    and "rc_committed s' = rc_committed s" and "rc_published s' = rc_published s"
  shows "pub_inv s'"
proof -
  have "stored_event (rc_db s') ev" if "stored_event (rc_db s) ev" for ev
    using that assms(2) by (auto simp: stored_event_def log_kept_def)
  moreover have "effective_run_sequence ev \<in> seq_numbers (rc_events s') (ev_run_id ev)"
    if "effective_run_sequence ev \<in> seq_numbers (rc_events s) (ev_run_id ev)" for ev
    using that assms(2) by (auto simp: log_kept_def)
  ultimately show ?thesis using assms(1) unfolding pub_inv_def assms(3-5) by blast
qed

text \<open>A commit takes a number above every number of its run.\<close>

lemma committed_above:
  assumes "committed_in env r n t meta db ev db'" and "db_inv db" and "db_inv db'"
  shows "stored_event db' ev" and "set (edb_rows db) \<subseteq> set (edb_rows db')" and "ev_run_id ev = r"
    and "row \<in> set (edb_rows db) \<Longrightarrow> er_run_id row = r \<Longrightarrow> er_sequence row < effective_run_sequence ev"
proof -
  from assms(1) obtain erow mx where c: "edb_rows db' = edb_rows db @ [erow]"
    "log_last_sequence r db = Inr mx" "er_run_id erow = r" "er_sequence erow = mx + 1"
    "er_event_id erow = fst (ce_stamp env)"
    "er_payload erow = run_event_new (ce_stamp env) r (mx + 1) (lifecycle_event_for t meta)"
    "ev = with_global_sequence (er_id erow) (er_payload erow)"
    unfolding committed_in_def by blast
  have ev: "ev_run_id ev = r" "effective_run_sequence ev = mx + 1" "ev_event_id ev = fst (ce_stamp env)"
    unfolding c(7) c(6) by (simp_all add: run_event_new_def with_global_sequence_def effective_run_sequence_def)
  show "ev_run_id ev = r" by (rule ev(1))
  show "stored_event db' ev" unfolding stored_event_def using c(1,3-5) ev by (intro bexI [of _ erow]) simp_all
  show "set (edb_rows db) \<subseteq> set (edb_rows db')" by (simp add: c(1) subset_insertI)
  assume row: "row \<in> set (edb_rows db)" "er_run_id row = r"
  have new: "0 < mx + 1" "mx + 1 < 2 ^ 63" using assms(3) c(1,4) by (auto simp: db_inv_def)
  then have "mx \<noteq> - 1" by auto
  then have up: "uint (mx + 1) = uint mx + 1"
    using uint_plus_simple [OF word_less_add_one [THEN less_imp_le]] by simp
  then have "mx < 2 ^ 63" using new(2) by (simp add: word_less_def)
  moreover have "er_sequence row < 2 ^ 63" using assms(2) row(1) by (auto simp: db_inv_def)
  ultimately have "uint (er_sequence row) \<le> uint mx"
    using last_sequence_bound [OF assms(2) c(2) row] sint_small by simp
  then show "er_sequence row < effective_run_sequence ev" by (simp add: ev(2) word_less_def up)
qed

lemma pub_inv_write:
  assumes inv: "pub_inv s" and kept: "log_kept s s'" and db: "db_inv (rc_db s)"
    and ph: "rc_phase s i = Checked env r n t meta frm" and com: "committed_in env r n t meta (rc_db s) ev db"
    and s': "s' = s\<lparr>rc_events := (rc_events s)\<lparr>sq_store := db\<rparr>, rc_phase := (rc_phase s)(i := Written env r n t meta frm ev),
      rc_committed := rc_committed s @ [ev]\<rparr>"
  shows "pub_inv s'"
proof -
  have "db_inv db" using kept by (simp add: log_kept_def s')
  note above = committed_above [OF com db this]
  have below: "effective_run_sequence e < effective_run_sequence ev" if "e \<in> set (rc_committed s)" "ev_run_id e = r" for e
  proof -
    from inv that obtain row where "row \<in> set (edb_rows (rc_db s))" "er_run_id row = r" "er_sequence row = effective_run_sequence e"
      by (auto simp: pub_inv_def stored_event_def)
    with above(4) [of row] show ?thesis by simp
  qed
  then have fresh: "ev \<notin> set (rc_committed s)" using above(3) by blast
  have flight: "in_flight s' j e \<longleftrightarrow> (if j = i then e = ev else in_flight s j e)" for j e
    by (auto simp: in_flight_def s')
  have idle: "\<not> in_flight s i e" for e using ph by (simp add: in_flight_def)
  have upd: "rc_committed s' = rc_committed s @ [ev]" "rc_published s' = rc_published s" "rc_db s' = db"
    "seq_numbers (rc_events s') = seq_numbers (rc_events s)"
    by (simp_all add: s' seq_numbers_def seq_simps fun_eq_iff)
  have "stored_event db e" if "stored_event (rc_db s) e" for e
    using that above(2) by (auto simp: stored_event_def)
  with inv above(1) have "\<forall>e\<in>set (rc_committed s'). stored_event (rc_db s') e" by (auto simp: pub_inv_def upd)
  moreover have "strictly_sequenced (events_of q (rc_committed s'))" for q
  proof -
    have "strictly_sequenced (events_of q (rc_committed s))" using inv by (simp add: pub_inv_def)
    then show ?thesis using below above(3) by (auto simp: upd strictly_sequenced_snoc events_of_def)
  qed
  moreover have "e \<in> set (rc_published s') \<or> (\<exists>j. in_flight s' j e)" if "e \<in> set (rc_committed s')" for e
  proof (cases "e = ev")
    case True
    then show ?thesis using flight [of i e] by auto
  next
    case False
    with that inv have "e \<in> set (rc_published s) \<or> (\<exists>j. in_flight s j e)" by (auto simp: upd pub_inv_def)
    then show ?thesis using idle flight by (metis upd(2))
  qed
  moreover have "e \<in> set (rc_committed s') \<and> e \<notin> set (rc_published s')" if "in_flight s' j e" for j e
    using that inv fresh unfolding flight upd pub_inv_def by (auto split: if_splits)
  moreover have "j = k" if "in_flight s' j e" "in_flight s' k e" for j k e
    using that inv fresh unfolding flight pub_inv_def by (metis (full_types))
  ultimately show ?thesis using inv unfolding pub_inv_def upd by simp
qed

lemma pub_inv_publish:
  assumes inv: "pub_inv s" and kept: "log_kept s s'" and ph: "rc_phase s i = Cached ev"
    and s': "s' = s\<lparr>rc_events := inject_committed ev (rc_events s), rc_phase := (rc_phase s)(i := Idle),
      rc_published := rc_published s @ [ev]\<rparr>"
  shows "pub_inv s'"
proof -
  have flying: "in_flight s i ev" using ph by (simp add: in_flight_def)
  have flight: "in_flight s' j e \<longleftrightarrow> j \<noteq> i \<and> in_flight s j e" for j e by (auto simp: in_flight_def s')
  have only: "e = ev" if "in_flight s i e" for e using that ph by (simp add: in_flight_def)
  have upd: "rc_committed s' = rc_committed s" "rc_published s' = rc_published s @ [ev]" by (simp_all add: s')
  have "stored_event (rc_db s') e" if "stored_event (rc_db s) e" for e
    using that kept by (auto simp: stored_event_def log_kept_def)
  moreover have "effective_run_sequence e \<in> seq_numbers (rc_events s') (ev_run_id e)"
    if "effective_run_sequence e \<in> seq_numbers (rc_events s) (ev_run_id e)" for e
    using that kept by (auto simp: log_kept_def)
  moreover have "effective_run_sequence ev \<in> seq_numbers (rc_events s') (ev_run_id ev)"
    by (simp add: s' inject_has_number)
  moreover have "e \<in> set (rc_published s') \<or> (\<exists>j. in_flight s' j e)" if "e \<in> set (rc_committed s)" for e
  proof (cases "e = ev")
    case False
    from that inv have "e \<in> set (rc_published s) \<or> (\<exists>j. in_flight s j e)" by (auto simp: pub_inv_def)
    then show ?thesis unfolding upd flight using False only by (metis UnCI set_append)
  qed (simp add: upd)
  moreover have "e \<in> set (rc_committed s) \<and> e \<notin> set (rc_published s')" if "in_flight s' j e" for j e
  proof -
    from that have j: "j \<noteq> i" "in_flight s j e" by (simp_all add: flight)
    then have "e \<noteq> ev" using inv flying unfolding pub_inv_def by blast
    then show ?thesis using j(2) inv by (auto simp: upd pub_inv_def)
  qed
  moreover have "j = k" if "in_flight s' j e" "in_flight s' k e" for j k e
    using that inv unfolding flight pub_inv_def by blast
  moreover have "ev \<in> set (rc_committed s)" "ev \<notin> set (rc_published s)" using inv flying unfolding pub_inv_def by blast+
  ultimately show ?thesis using inv unfolding pub_inv_def upd by simp
qed

lemma pub_inv_logged: "race_logged s \<Longrightarrow> pub_inv s"
proof (induction rule: race_logged.induct)
  case (logged_init s)
  then show ?case by (auto simp: pub_inv_def events_of_def in_flight_def)
next
  case (logged_next s s')
  note db = race_logged_db [OF logged_next.hyps(1)] and kept = logged_next.hyps(3) and inv = logged_next.IH
  from logged_next.hyps(2) show ?case
  proof (cases rule: race_step.cases)
    case (step_check i n r t frm env meta)
    then show ?thesis by (intro pub_inv_step [OF inv kept]) (auto simp: in_flight_def)
  next
    case (step_write i env r n t meta frm ev db)
    then show ?thesis using pub_inv_write [OF inv kept db] commit_durable_Inr by blast
  next
    case (step_write_error i env r n t meta frm e)
    then show ?thesis by (intro pub_inv_step [OF inv kept]) (auto simp: in_flight_def)
  next
    case (step_cache i env r n t meta frm ev runs)
    then show ?thesis by (intro pub_inv_step [OF inv kept]) (auto simp: in_flight_def)
  next
    case (step_cache_error i env r n t meta frm ev e)
    have "race_inv s" by (rule race_inv_reachable [OF race_logged_reachable [OF logged_next.hyps(1)]])
    from this step_cache_error(2) show ?thesis by (rule cache_succeeds) (use step_cache_error(3) in simp)
  next
    case (step_publish i ev)
    then show ?thesis using pub_inv_publish [OF inv kept] by blast
  next
    case (step_other sq)
    then show ?thesis by (intro pub_inv_step [OF inv kept]) (auto simp: in_flight_def)
  qed
qed

text \<open>
  C18: a committed lifecycle event is published exactly once. In every reachable interleaving that keeps the log,
  the events of a run were committed with strictly growing sequence numbers; no event was handed to
  \<open>inject_committed\<close> twice, and only committed ones were; a committed event that was not is in the hands of exactly
  one call that is still under way, so none is lost; and the number of every event that was handed over is in the
  sequencer's memory, for replays. Nothing is claimed of the order of the broadcasts:
  \<open>broadcasts_can_overtake\<close>.
\<close>

theorem committed_events_published_once:
  assumes "race_logged s"
  shows "strictly_sequenced (events_of r (rc_committed s))
    \<and> distinct (rc_published s) \<and> set (rc_published s) \<subseteq> set (rc_committed s)
    \<and> (\<forall>ev\<in>set (rc_committed s). ev \<notin> set (rc_published s) \<longleftrightarrow> (\<exists>!i. in_flight s i ev))
    \<and> (\<forall>ev\<in>set (rc_published s). effective_run_sequence ev \<in> seq_numbers (rc_events s) (ev_run_id ev))"
proof -
  have inv: "pub_inv s" by (rule pub_inv_logged [OF assms])
  have "ev \<notin> set (rc_published s) \<longleftrightarrow> (\<exists>!i. in_flight s i ev)" if "ev \<in> set (rc_committed s)" for ev
    using inv that unfolding pub_inv_def by metis
  with inv show ?thesis unfolding pub_inv_def by blast
qed

text \<open>A call that is alone on a run, and meets no error, commits.\<close>

lemma commit_alone:
  fixes env :: commit_env
  assumes s: "race_logged s" "rc_phase s i = Idle" "settled s r" and run: "rc_runs s r = Some run" "rv_revision run \<noteq> - 1"
    and edge: "can_transition (rv_status run) t"
    and env: "\<forall>site. ce_fault env site = None" "fst (ce_stamp env) \<noteq> []" "fst (ce_stamp env) \<notin> db_durable (rc_db s)"
    and num: "log_last_sequence r (rc_db s) = Inr mx" "mx < 2 ^ 63 - 1"
  shows "\<exists>s' ev db run'. race_logged s' \<and> rc_phase s' = (rc_phase s)(i := Cached ev) \<and> rc_committed s' = rc_committed s @ [ev]
    \<and> rc_published s' = rc_published s \<and> rc_runs s' = (rc_runs s)(r \<mapsto> run') \<and> rv_status run' = t
    \<and> rv_revision run' = rv_revision run + 1 \<and> rc_events s' = (rc_events s)\<lparr>sq_store := db\<rparr> \<and> settled s' r
    \<and> ev_run_id ev = r \<and> effective_run_sequence ev = mx + 1 \<and> log_last_sequence r db = Inr (mx + 1)
    \<and> db_durable db = insert (fst (ce_stamp env)) (db_durable (rc_db s))"
proof -
  let ?n = "rv_revision run" and ?frm = "rv_status run" 
  note db = race_logged_db [OF s(1)]
  from s(3) run obtain row where row: "run_row_of (rc_db s) r = Some row" "rr_revision row = ?n" by (auto simp: settled_def)
  obtain ev db where w: "commit_durable env r ?n t tm_empty (rc_db s) = Inr (ev, db)"
    using commit_durable_ok [of "rc_db s" r row ?n env mx t tm_empty] db row env(1,3) num by blast
  define s1 where "s1 = s\<lparr>rc_phase := (rc_phase s)(i := Checked env r ?n t tm_empty ?frm)\<rparr>"
  have 1: "race_logged s1" unfolding s1_def
    by (rule logged_next [OF s(1)], rule step_check)
      (use s run edge db in \<open>simp_all add: commit_check_Inr log_kept_def\<close>)
  define s2 where "s2 = s1\<lparr>rc_events := (rc_events s1)\<lparr>sq_store := db\<rparr>, rc_phase := (rc_phase s1)(i := Written env r ?n t tm_empty ?frm ev),
      rc_committed := rc_committed s1 @ [ev]\<rparr>"
  have w1: "commit_durable env r ?n t tm_empty (rc_db s1) = Inr (ev, db)" using w by (simp add: s1_def)
  have "race_step s1 s2" unfolding s2_def by (rule step_write [OF _ w1]) (simp add: s1_def)
  moreover have "log_kept s1 s2" unfolding s2_def
    by (rule write_keeps_log [OF _ w1 env(2)]) (use db num in \<open>auto simp: s1_def\<close>)
  ultimately have 2: "race_logged s2" by (rule logged_next [OF 1])
  define run' where "run' = apply_transition_metadata (ce_now env) t tm_empty (run\<lparr>rv_status := t, rv_revision := sat_add ?n 1\<rparr>)"
  have run': "rv_status run' = t" "rv_revision run' = ?n + 1" using sat_add_one [OF run(2)] by (simp_all add: run'_def)
  define s3 where "s3 = s2\<lparr>rc_runs := (rc_runs s)(r \<mapsto> run'), rc_phase := (rc_phase s2)(i := Cached ev)\<rparr>"
  have "race_step s2 s3" unfolding s3_def
    by (rule step_cache [of _ i env r ?n t tm_empty ?frm]) (use run in \<open>simp_all add: s2_def s1_def commit_cache_def run'_def\<close>)
  moreover have "log_kept s2 s3" using race_logged_db [OF 2] by (simp add: log_kept_def s3_def)
  ultimately have 3: "race_logged s3" by (rule logged_next [OF 2])
  note com = commit_durable_Inr [OF w]
  from com obtain erow mx' where c: "edb_rows db = edb_rows (rc_db s) @ [erow]"
    "log_last_sequence r (rc_db s) = Inr mx'" "er_run_id erow = r" "er_sequence erow = mx' + 1"
    "er_event_id erow = fst (ce_stamp env)"
    "er_payload erow = run_event_new (ce_stamp env) r (mx' + 1) (lifecycle_event_for t tm_empty)"
    "ev = with_global_sequence (er_id erow) (er_payload erow)"
    unfolding committed_in_def by blast
  have mx: "mx' = mx" using c(2) num(1) by simp
  have ev: "ev_run_id ev = r" "effective_run_sequence ev = mx + 1"
    unfolding c(7) c(6) mx by (simp_all add: run_event_new_def with_global_sequence_def effective_run_sequence_def)
  have last: "log_last_sequence r db = Inr (mx + 1)"
    using last_sequence_snoc [OF c(1,3) c(4) [unfolded mx] num] .
  have "settled s3 r" using committed_ahead(3) [OF com] run' sat_add_one [OF run(2)]
    by (auto simp: settled_def s3_def s2_def)
  then show ?thesis using 3 run' ev last c(1,5)
    by (intro exI [of _ s3] exI [of _ ev] exI [of _ db] exI [of _ run'])
      (simp add: s3_def s2_def s1_def db_durable_def)
qed

lemma seq_bus_inject:
  assumes "sq_loaded sq (ev_run_id ev) = Some True" and "effective_run_sequence ev \<notin> seq_numbers sq (ev_run_id ev)"
  shows "seq_bus (inject_committed ev sq) (ev_run_id ev) = seq_bus sq (ev_run_id ev) @ [ev]"
    and "seq_numbers (inject_committed ev sq) (ev_run_id ev) = insert (effective_run_sequence ev) (seq_numbers sq (ev_run_id ev))"
    and "sq_loaded (inject_committed ev sq) = sq_loaded sq"
proof -
  have load: "ensure_loaded (ev_run_id ev) sq = sq" using assms(1) by (simp add: ensure_loaded_def)
  have "effective_run_sequence ev \<notin> effective_run_sequence ` set (case sq_events sq (ev_run_id ev) of None \<Rightarrow> [] | Some es \<Rightarrow> es)"
    using assms(2) by (simp add: seq_numbers_def seq_log_def)
  then have new: "\<forall>e\<in>set (case sq_events sq (ev_run_id ev) of None \<Rightarrow> [] | Some es \<Rightarrow> es). effective_run_sequence e \<noteq> effective_run_sequence ev"
    by (metis imageI)
  show "seq_bus (inject_committed ev sq) (ev_run_id ev) = seq_bus sq (ev_run_id ev) @ [ev]"
    using new by (cases "sq_events sq (ev_run_id ev)") (auto simp: inject_committed_def Let_def load bus_send_def seq_bus_def)
  show "seq_numbers (inject_committed ev sq) (ev_run_id ev) = insert (effective_run_sequence ev) (seq_numbers sq (ev_run_id ev))"
    using new by (cases "sq_events sq (ev_run_id ev)") (auto simp: inject_committed_def Let_def load bus_send_def seq_numbers_def seq_log_def)
  show "sq_loaded (inject_committed ev sq) = sq_loaded sq"
    using new by (cases "sq_events sq (ev_run_id ev)") (auto simp: inject_committed_def Let_def load bus_send_def)
qed

definition demo_log :: "run_db sequencer" where
  "demo_log = ensure_loaded ''r'' (rm_events demo_manager)"

text \<open>
  The second of two commits of a run may publish before the first: the lock of the run map is released in
  between. Both events reach the subscribers, the later one first.
\<close>

lemma broadcasts_can_overtake:
  "\<exists>s ev ev'. race_logged s \<and> rc_committed s = [ev, ev'] \<and> effective_run_sequence ev < effective_run_sequence ev'
     \<and> rc_published s = [ev', ev] \<and> seq_bus (rc_events s) ''r'' = [ev', ev]"
proof -
  have d: "sq_loaded demo_log ''r'' = Some True" "sq_store demo_log = rm_db demo_manager"
    "seq_numbers demo_log ''r'' = {}" "seq_bus demo_log ''r'' = []"
    by (simp_all add: demo_log_def demo_manager_def rm_db_def ensure_loaded_def seq_with_persistence_def
        load_persistence_def event_log_ops_def replay_after_v2_def log_last_sequence_def demo_run_db_def
        seq_numbers_def seq_log_def seq_bus_def)
  have last: "log_last_sequence ''r'' (rm_db demo_manager) = Inr 0" and rows: "edb_rows (rm_db demo_manager) = []"
    by (simp_all add: demo_manager_def rm_db_def seq_with_persistence_def demo_run_db_def log_last_sequence_def)
  define s0 where "s0 = demo_race\<lparr>rc_events := demo_log\<rparr>"
  have s0: "rc_db s0 = rm_db demo_manager" "rc_runs s0 = rm_runs demo_manager" "rc_events s0 = demo_log"
    "rc_phase s0 = (\<lambda>_. Idle)" "rc_committed s0 = []" "rc_published s0 = []"
    by (simp_all add: s0_def demo_race_def d(2) rc_db_def)
  have agree: "race_agree s0" using demo_agree demo_lookup(4) by (simp add: race_agree_def agree_def s0)
  have inv: "db_inv (rm_db demo_manager)" using demo_calm demo_lookup(4) by (auto simp: calm_def)
  have 0: "race_logged s0" using agree inv by (intro logged_init) (simp_all add: s0)
  have settled: "settled s0 ''r''" using agree by (simp add: settled_def race_agree_def)
  have durable: "db_durable (rm_db demo_manager) = {}" by (simp add: db_durable_def rows)
  have env: "\<forall>site. ce_fault (demo_env e) site = None" "fst (ce_stamp (demo_env e)) = e" for e
    by (simp_all add: demo_env_def)
  have num: "log_last_sequence ''r'' (rc_db s0) = Inr 0" by (simp add: s0 last)
  obtain s1 ev1 db1 run1 where 1: "race_logged s1" "rc_phase s1 = (rc_phase s0)(0 := Cached ev1)"
    "rc_committed s1 = rc_committed s0 @ [ev1]" "rc_published s1 = rc_published s0"
    "rc_runs s1 = (rc_runs s0)(''r'' \<mapsto> run1)" "rv_status run1 = Preparing" "rv_revision run1 = rv_revision demo_run + 1"
    "rc_events s1 = (rc_events s0)\<lparr>sq_store := db1\<rparr>" "settled s1 ''r''" "ev_run_id ev1 = ''r''"
    "effective_run_sequence ev1 = 0 + 1" "log_last_sequence ''r'' db1 = Inr (0 + 1)"
    "db_durable db1 = insert (fst (ce_stamp (demo_env ''a''))) (db_durable (rc_db s0))"
    using commit_alone [OF 0, of 0 "''r''" demo_run Preparing "demo_env ''a''" 0] settled num demo_lookup
    by (auto simp: s0 env durable can_transition_def)
  have db1: "rc_db s1 = db1" by (simp add: rc_db_def 1(8))
  obtain s2 ev2 db2 run2 where 2: "race_logged s2" "rc_phase s2 = (rc_phase s1)(1 := Cached ev2)"
    "rc_committed s2 = rc_committed s1 @ [ev2]" "rc_published s2 = rc_published s1"
    "rc_events s2 = (rc_events s1)\<lparr>sq_store := db2\<rparr>" "ev_run_id ev2 = ''r''"
    "effective_run_sequence ev2 = 0 + 1 + 1" "settled s2 ''r''"
    using commit_alone [OF 1(1), of 1 "''r''" run1 Running "demo_env ''b''" "0 + 1"] 1 demo_lookup
    by (auto simp: s0 env durable can_transition_def db1)
  define s3 where "s3 = s2\<lparr>rc_events := inject_committed ev2 (rc_events s2), rc_phase := (rc_phase s2)(1 := Idle),
      rc_published := rc_published s2 @ [ev2]\<rparr>"
  define s4 where "s4 = s3\<lparr>rc_events := inject_committed ev1 (rc_events s3), rc_phase := (rc_phase s3)(0 := Idle),
      rc_published := rc_published s3 @ [ev1]\<rparr>"
  have e2: "rc_events s2 = demo_log\<lparr>sq_store := db2\<rparr>" by (simp add: 2(5) 1(8) s0)
  have l2: "sq_loaded (rc_events s2) (ev_run_id ev2) = Some True" "seq_numbers (rc_events s2) ''r'' = {}" "seq_bus (rc_events s2) ''r'' = []"
    using d by (simp_all add: e2 2(6) seq_numbers_def seq_simps)
  have "effective_run_sequence ev2 \<notin> seq_numbers (rc_events s2) (ev_run_id ev2)" by (simp add: 2(6) l2)
  note i2 = seq_bus_inject [OF l2(1) this, unfolded 2(6) l2]
  have e3: "rc_events s3 = inject_committed ev2 (rc_events s2)" by (simp add: s3_def)
  have l3: "sq_loaded (rc_events s3) (ev_run_id ev1) = Some True" using l2(1) i2(3) by (simp add: e3 1(10) 2(6))
  have "effective_run_sequence ev1 \<notin> seq_numbers (rc_events s3) (ev_run_id ev1)"
    by (simp add: e3 1(10) i2(2)) (simp add: 1(11) 2(7))
  note i3 = seq_bus_inject [OF l3 this, unfolded 1(10)]
  have "log_kept s2 s3" using race_logged_db [OF 2(1)] inject_numbers_loaded [OF l2(1)]
    by (simp add: log_kept_def s3_def rc_db_def)
  then have 3: "race_logged s3" unfolding s3_def by (intro logged_next [OF 2(1) step_publish]) (simp_all add: 2(2))
  have "log_kept s3 s4" using race_logged_db [OF 3] inject_numbers_loaded [OF l3]
    by (simp add: log_kept_def s4_def rc_db_def)
  then have 4: "race_logged s4" unfolding s4_def
    by (intro logged_next [OF 3 step_publish]) (simp_all add: s3_def 2(2) 1(2))
  have "rc_committed s4 = [ev1, ev2]" "rc_published s4 = [ev2, ev1]"
    by (simp_all add: s4_def s3_def 2(3,4) 1(3,4) s0)
  moreover have "seq_bus (rc_events s4) ''r'' = [ev2, ev1]" using i2(1) i3(1) by (simp add: s4_def e3)
  moreover have "effective_run_sequence ev1 < effective_run_sequence ev2" by (simp add: 1(11) 2(7))
  ultimately show ?thesis using 4 by blast
qed

lemma committed_events_published_once_witness:
  "\<exists>s. race_logged s \<and> length (rc_committed s) = 2 \<and> distinct (rc_published s)"
proof -
  obtain s ev ev' where s: "race_logged s" "rc_committed s = [ev, ev']" using broadcasts_can_overtake by blast
  with committed_events_published_once [OF s(1), of "''r''"] show ?thesis by auto
qed

subsection \<open>An append between a commit and its injection\<close>

text \<open>No statement of the event log fails on its own.\<close>

definition quiet_log :: "('x log_env) \<Rightarrow> bool" where
  "quiet_log env \<longleftrightarrow> le_fail_serialize env = None \<and> le_fail_begin env = None \<and> le_fail_insert env = None
     \<and> le_fail_commit env = None"

lemma insert_row_taken:
  assumes "quiet_log env" and "row \<in> set (edb_rows db)" "er_run_id row = ev_run_id stored" "er_sequence row = seq"
  shows "insert_run_event_row env stored eid seq t m db
    = Inl ''PERSISTENCE_FAILED insert run_event: UNIQUE constraint failed''"
  using assms by (auto simp: insert_run_event_row_def quiet_log_def)

lemma log_append_taken:
  assumes "quiet_log (env e db)" and "row \<in> set (edb_rows db)" "er_run_id row = ev_run_id e"
    and "er_sequence row = effective_run_sequence e"
    and "str_trim (ev_event_id e) \<noteq> []" "ev_event_id e \<notin> db_durable db"
  shows "p_append (event_log_ops env) e db = Inl ''PERSISTENCE_FAILED insert run_event: UNIQUE constraint failed''"
proof -
  define stored where "stored = set_run_sequence (effective_run_sequence e) e"
  have sel: "ev_run_id stored = ev_run_id e" "ev_run_sequence stored = effective_run_sequence e"
    by (simp_all add: stored_def set_run_sequence_def)
  have upd: "e\<lparr>ev_event_id := ev_event_id e\<rparr> = e" by simp
  have ins: "insert_run_event_row (env e db) stored eid (ev_run_sequence stored) t m db
      = Inl ''PERSISTENCE_FAILED insert run_event: UNIQUE constraint failed''" for eid t m
    by (rule insert_row_taken [OF assms(1,2)]) (simp_all add: sel assms(3,4))
  have "write_event_row (env e db) stored db = Inl ''PERSISTENCE_FAILED insert run_event: UNIQUE constraint failed''"
    using assms(1) unfolding write_event_row_def
    by (cases "ev_payload stored") (simp_all add: ins insert_tool_completed_def quiet_log_def)
  moreover have "List.find (\<lambda>r. er_event_id r = ev_event_id e) (edb_rows db) = None"
    using assms(6) unfolding find_None_iff db_durable_def by (metis image_eqI)
  ultimately show ?thesis using assms(1,5)
    by (simp add: event_log_ops_def append_event_v2_with_conn_def Let_def stored_def [symmetric]
        quiet_log_def)
qed

text \<open>
  An append loses a race against a commit. A commit takes its sequence number from the table
  and publishes later; the sequencer counts in memory. While a committed transition is not yet
  injected, any append to that run takes the number the commit took: the insert violates the
  uniqueness of \<open>(run_id, sequence)\<close>, and although no statement failed on its own the caller is
  handed a \<open>PERSISTENCE_FAILED\<close> failure and its event is neither stored nor published.
\<close>

theorem append_fails_during_commit:
  assumes "sq_persistence s = Some (event_log_ops env)" "\<not> sq_memory_only s"
    and "sq_loaded s r = Some True" "sq_load_errors s r = None"
    and "log_last_sequence r (sq_store s) = Inr (seq_last s r)"
    and "committed_in cenv r n t meta (sq_store s) ev db"
    and "\<forall>e d. quiet_log (env e d)" and "str_trim (fst stamp) \<noteq> []" "fst stamp \<notin> db_durable db"
    and "sanitize_payload k \<noteq> None"
  shows "\<exists>msg s'. seq_append stamp r k (s\<lparr>sq_store := db\<rparr>)
      = Some (run_event_new stamp r (seq_last s r + 1) (EvFailed msg ''PERSISTENCE_FAILED''), s')
    \<and> sq_store s' = db \<and> sq_buses s' = sq_buses s \<and> sq_events s' = sq_events s"
proof -
  from assms(6) obtain row mx where "edb_rows db = edb_rows (sq_store s) @ [row]"
    "log_last_sequence r (sq_store s) = Inr mx" "er_run_id row = r" "er_sequence row = mx + 1"
    unfolding committed_in_def by blast
  with assms(5) have row: "row \<in> set (edb_rows db)" "er_run_id row = r" "er_sequence row = seq_last s r + 1"
    by auto
  obtain k' where k': "sanitize_payload k = Some k'" using assms(10) by auto
  define e where "e = run_event_new stamp r (seq_last s r + 1) k'"
  have e: "ev_run_id e = r" "effective_run_sequence e = seq_last s r + 1" "ev_event_id e = fst stamp"
    by (simp_all add: e_def) (simp add: run_event_new_def)
  have loaded: "ensure_loaded r (s\<lparr>sq_store := db\<rparr>) = s\<lparr>sq_store := db\<rparr>"
    using assms(3) by (simp add: ensure_loaded_def)
  have fail: "p_append (event_log_ops env) e db = Inl ''PERSISTENCE_FAILED insert run_event: UNIQUE constraint failed''"
    by (rule log_append_taken [OF _ row(1)]) (use assms row e in auto)
  have "is_ascii ''PERSISTENCE_FAILED insert run_event: UNIQUE constraint failed''" by code_simp
  then obtain msg where "redact_secrets ''PERSISTENCE_FAILED insert run_event: UNIQUE constraint failed'' = Some msg"
    using redact_total_ascii by blast
  moreover have "persist_event r e (s\<lparr>sq_store := db, sq_sequences := (sq_sequences s)(r \<mapsto> seq_last s r + 1)\<rparr>)
      = Inl ''PERSISTENCE_FAILED insert run_event: UNIQUE constraint failed''"
    using assms(1,2) fail by (simp add: persist_event_def)
  moreover have "seq_append stamp r k (s\<lparr>sq_store := db\<rparr>)
      = (case persist_event r e (s\<lparr>sq_store := db, sq_sequences := (sq_sequences s)(r \<mapsto> seq_last s r + 1)\<rparr>) of
           Inl error \<Rightarrow> map_option (\<lambda>msg. (run_event_new stamp r (seq_last s r + 1) (EvFailed msg persistence_failed),
             s\<lparr>sq_store := db, sq_sequences := (sq_sequences s)(r \<mapsto> seq_last s r)\<rparr>)) (redact_secrets error)
         | Inr s \<Rightarrow> Some (e, bus_send r e (push_event r e s)))"
    using assms(4) by (simp add: seq_append_def k' Let_def loaded e_def seq_last_def cong: sum.case_cong)
  ultimately show ?thesis by (simp add: persistence_failed_def) blast
qed

lemma append_fails_during_commit_witness:
  "\<exists>ev db. commit_durable (demo_env ''a'') ''r'' 1 Preparing tm_empty (sq_store demo_log) = Inr (ev, db)
    \<and> (\<exists>msg s'. seq_append (''e1'', ''t'') ''r'' (EvTurnStarted ''t1'') (demo_log\<lparr>sq_store := db\<rparr>)
          = Some (run_event_new (''e1'', ''t'') ''r'' (seq_last demo_log ''r'' + 1) (EvFailed msg ''PERSISTENCE_FAILED''), s')
        \<and> sq_store s' = db \<and> sq_buses s' = sq_buses demo_log \<and> sq_events s' = sq_events demo_log)"
proof -
  have d: "sq_persistence demo_log = Some (event_log_ops run_env)" "\<not> sq_memory_only demo_log"
    "sq_loaded demo_log ''r'' = Some True" "sq_load_errors demo_log ''r'' = None"
    "sq_store demo_log = rm_db demo_manager" "seq_last demo_log ''r'' = 0"
    by (simp_all add: demo_log_def demo_manager_def rm_db_def ensure_loaded_def seq_with_persistence_def
        load_persistence_def event_log_ops_def replay_after_v2_def log_last_sequence_def demo_run_db_def seq_last_def)
  have last: "log_last_sequence ''r'' (rm_db demo_manager) = Inr 0"
    by (simp add: demo_manager_def rm_db_def seq_with_persistence_def demo_run_db_def log_last_sequence_def)
  have inv: "db_inv (rm_db demo_manager)" "\<forall>site. ce_fault (demo_env ''a'') site = None"
    "fst (ce_stamp (demo_env ''a'')) \<notin> db_durable (rm_db demo_manager)"
    using demo_calm demo_lookup(4) by (auto simp: calm_def)
  have "\<exists>row. run_row_of (rm_db demo_manager) ''r'' = Some row \<and> rr_revision row = 1"
    using demo_agree demo_lookup unfolding agree_def by metis
  with commit_durable_ok [OF inv(1) _ _ inv(2,3) last] obtain ev db where
    w: "commit_durable (demo_env ''a'') ''r'' 1 Preparing tm_empty (rm_db demo_manager) = Inr (ev, db)" by force
  note c = commit_durable_Inr [OF w]
  have "edb_rows (rm_db demo_manager) = []"
    by (simp add: demo_manager_def rm_db_def seq_with_persistence_def demo_run_db_def)
  with c have "db_durable db = {''a''}" unfolding committed_in_def
    by (auto simp: db_durable_def demo_env_def)
  moreover have "str_trim ''e1'' \<noteq> []" by code_simp
  ultimately show ?thesis
    using append_fails_during_commit [OF d(1-4), of "demo_env ''a''" 1 Preparing tm_empty ev db "(''e1'', ''t'')" "EvTurnStarted ''t1''"]
      w c d(5,6) last by (simp add: quiet_log_def run_env_def)
qed

end
