(* ===== verification/RunRecovery.thy ===== *)
theory RunRecovery
  imports RunManager
begin

section \<open>Startup recovery\<close>

text \<open>
  What \<open>interrupt_active_sqlite_runs\<close> (modelled in \<open>RunManager\<close>) leaves in the tables.
\<close>

lemma interrupt_row_inactive [simp]: "\<not> row_active (interrupt_row now row)"
  by (simp add: row_active_def interrupt_row_def active_db_statuses_def)

lemma row_active_status: "row_active row \<longleftrightarrow> rr_status row \<in> status_str ` {s. \<not> is_terminal s}"
proof -
  have "{s. \<not> is_terminal s} = {Created, Queued, Preparing, Running, WaitingPermission, WaitingSubagent, Cancelling}"
    using set_all_statuses by (auto simp: is_terminal_def all_statuses_def)
  then show ?thesis by (simp add: row_active_def active_db_statuses_def)
qed

lemma recover_runs:
  "rt_runs (snd (recover_tables now ids t)) r
    = map_option (\<lambda>row. if row_active row then interrupt_row now row else row) (rt_runs t r)"
  by (simp add: recover_tables_def Let_def)

lemma recover_interactions:
  assumes "active_ids ids t \<noteq> []"
  shows "rt_interactions (snd (recover_tables now ids t)) = List.map (\<lambda>i. if ir_status i = ''pending'' \<and>
      (case ir_run_id i of None \<Rightarrow> False | Some r \<Rightarrow> r \<in> set (active_ids ids t))
    then expire_interaction now i else i) (rt_interactions t)"
  using assms by (simp add: recover_tables_def Let_def)

lemma recover_permissions:
  assumes "active_ids ids t \<noteq> []"
  shows "rt_permissions (snd (recover_tables now ids t)) = List.map (\<lambda>p. if pr_status p = ''pending''
      \<and> pr_run_id p \<in> set (active_ids ids t) then p\<lparr>pr_status := ''expired''\<rparr> else p) (rt_permissions t)"
  using assms by (simp add: recover_tables_def Let_def)

lemma active_ids_all: "set ids = dom (rt_runs t) \<Longrightarrow>
    r \<in> set (active_ids ids t) \<longleftrightarrow> (\<exists>row. rt_runs t r = Some row \<and> row_active row)"
  by (auto simp: active_ids_def split: option.splits)

text \<open>A run whose status in the table is not terminal.\<close>

definition was_active :: "run_tables \<Rightarrow> string \<Rightarrow> bool" where
  "was_active t r \<longleftrightarrow> (\<exists>row. rt_runs t r = Some row \<and> \<not> is_terminal (run_status_from_db (rr_status row)))"

lemma row_active_terminal: "row_active row \<longleftrightarrow> \<not> is_terminal (run_status_from_db (rr_status row))"
  by (simp add: row_active_def active_db_statuses_def run_status_from_db_def is_terminal_def)

lemma active_ids_was_active: "set ids = dom (rt_runs t) \<Longrightarrow> r \<in> set (active_ids ids t) \<longleftrightarrow> was_active t r"
  by (simp add: active_ids_all was_active_def row_active_terminal)

lemma active_ids_empty: "set ids = dom (rt_runs t) \<Longrightarrow> active_ids ids t = [] \<longleftrightarrow> (\<forall>r. \<not> was_active t r)"
  using active_ids_was_active by fastforce

lemma recover_stale_interactions:
  assumes "active_ids ids t = []" and "set ids = dom (rt_runs t)"
  shows "rt_interactions (snd (recover_tables now ids t)) = List.map (\<lambda>i. if ir_status i = ''pending'' \<and>
      (case ir_run_id i of None \<Rightarrow> True | Some r \<Rightarrow> was_restarted t r) then expire_interaction now i else i) (rt_interactions t)"
    and "rt_permissions (snd (recover_tables now ids t)) = rt_permissions t"
proof -
  have "map_option (\<lambda>row. if row_active row then interrupt_row now row else row) (rt_runs t r) = rt_runs t r" for r
    using assms active_ids_all [OF assms(2), of r] by (cases "rt_runs t r") auto
  then have "(\<lambda>i. map_option (\<lambda>row. if row_active row then interrupt_row now row else row) (rt_runs t i)) = rt_runs t" by blast
  then show "rt_interactions (snd (recover_tables now ids t)) = List.map (\<lambda>i. if ir_status i = ''pending'' \<and>
      (case ir_run_id i of None \<Rightarrow> True | Some r \<Rightarrow> was_restarted t r) then expire_interaction now i else i) (rt_interactions t)"
    by (simp add: recover_tables_def Let_def assms(1))
  show "rt_permissions (snd (recover_tables now ids t)) = rt_permissions t"
    by (simp add: recover_tables_def Let_def assms(1))
qed

lemma recover_actors_cleared:
  "rt_actors (snd (recover_tables now ids t)) = List.map (\<lambda>a. a\<lparr>ar_active_run_id := None, ar_running_prompt_id := None,
     ar_pending_interaction_id := None, ar_cancel_and_send_id := None, ar_cancel_requested := False, ar_updated_at := now\<rparr>) (rt_actors t)"
  by (simp add: recover_tables_def Let_def)

text \<open>
  C19: what the recovery at startup leaves. A run whose status is not terminal is interrupted with
  \<open>daemon_restarted\<close>, one revision later, from \<open>created\<close> and \<open>queued\<close> too, from which the state graph has no such
  edge; every other run is unchanged, so that no run is active any more. Every pending interaction and every pending
  permission request of a run that was active becomes expired and nothing else of those tables changes, except
  that when no run was active the pending interactions without a run, or of a run interrupted by an earlier
  restart, expire. Every session actor loses its pointers to a run, a prompt and an interaction.
\<close>

theorem recovery_interrupts_all:
  assumes "set ids = dom (rt_runs t)" and "recover_tables now ids t = (k, t')"
  shows "(\<forall>r. \<not> was_active t' r)
    \<and> (\<forall>r row. rt_runs t r = Some row \<longrightarrow> rt_runs t' r =
          (if \<not> is_terminal (run_status_from_db (rr_status row))
           then Some (row\<lparr>rr_status := ''interrupted'', rr_error_code := Some ''daemon_restarted'',
                  rr_finished_at := Some now, rr_revision := rr_revision row + 1\<rparr>) else Some row))
    \<and> dom (rt_runs t') = dom (rt_runs t)
    \<and> rt_interactions t' = List.map (\<lambda>i.
          if ir_status i = ''pending'' \<and>
             (if \<exists>r. was_active t r then (\<exists>r. ir_run_id i = Some r \<and> was_active t r)
              else (case ir_run_id i of None \<Rightarrow> True | Some r \<Rightarrow> was_restarted t r))
          then i\<lparr>ir_status := ''expired'', ir_response := Some recovery_reason, ir_responded_at := Some now\<rparr> else i) (rt_interactions t)
    \<and> rt_permissions t' = List.map (\<lambda>p.
          if pr_status p = ''pending'' \<and> was_active t (pr_run_id p) then p\<lparr>pr_status := ''expired''\<rparr> else p) (rt_permissions t)
    \<and> rt_actors t' = List.map (\<lambda>a. a\<lparr>ar_active_run_id := None, ar_running_prompt_id := None,
          ar_pending_interaction_id := None, ar_cancel_and_send_id := None, ar_cancel_requested := False,
          ar_updated_at := now\<rparr>) (rt_actors t)"
proof -
  have t': "t' = snd (recover_tables now ids t)" using assms(2) by simp
  note mem = active_ids_was_active [OF assms(1)] and empty = active_ids_empty [OF assms(1)]
  have runs: "rt_runs t' r = map_option (\<lambda>row. if row_active row then interrupt_row now row else row) (rt_runs t r)" for r
    by (simp add: t' recover_runs)
  have "\<forall>r. \<not> was_active t' r" by (auto simp: was_active_def runs row_active_terminal [symmetric])
  moreover have "\<forall>r row. rt_runs t r = Some row \<longrightarrow> rt_runs t' r =
        (if \<not> is_terminal (run_status_from_db (rr_status row))
         then Some (row\<lparr>rr_status := ''interrupted'', rr_error_code := Some ''daemon_restarted'',
                rr_finished_at := Some now, rr_revision := rr_revision row + 1\<rparr>) else Some row)"
    by (simp add: runs interrupt_row_def row_active_terminal)
  moreover have "dom (rt_runs t') = dom (rt_runs t)" by (auto simp: runs)
  moreover have "rt_interactions t' = List.map (\<lambda>i.
          if ir_status i = ''pending'' \<and>
             (if \<exists>r. was_active t r then (\<exists>r. ir_run_id i = Some r \<and> was_active t r)
              else (case ir_run_id i of None \<Rightarrow> True | Some r \<Rightarrow> was_restarted t r))
          then i\<lparr>ir_status := ''expired'', ir_response := Some recovery_reason, ir_responded_at := Some now\<rparr> else i) (rt_interactions t)"
  proof (cases "active_ids ids t = []")
    case True
    then have "\<not> (\<exists>r. was_active t r)" using empty by simp
    then show ?thesis unfolding t' recover_stale_interactions(1) [OF True assms(1)] by (simp add: expire_interaction_def)
  next
    case False
    then have "\<exists>r. was_active t r" using empty by simp
    then show ?thesis unfolding t' recover_interactions [OF False]
      by (auto simp: expire_interaction_def mem split: option.splits)
  qed
  moreover have "rt_permissions t' = List.map (\<lambda>p.
          if pr_status p = ''pending'' \<and> was_active t (pr_run_id p) then p\<lparr>pr_status := ''expired''\<rparr> else p) (rt_permissions t)"
  proof (cases "active_ids ids t = []")
    case True
    then have "\<not> was_active t r" for r using empty by simp
    then show ?thesis unfolding t' recover_stale_interactions(2) [OF True assms(1)] by simp
  next
    case False
    then show ?thesis unfolding t' recover_permissions [OF False] by (simp add: mem)
  qed
  moreover note recover_actors_cleared [of now ids t, folded t']
  ultimately show ?thesis by blast
qed

lemma recovery_interrupts_all_witness:
  "\<exists>row. rt_runs (snd (recover_tables ''now'' [''r''] (edb_rest demo_run_db))) ''r'' = Some row
    \<and> rr_status row = ''interrupted''"
proof -
  have "set [''r''] = dom (rt_runs (edb_rest demo_run_db))" by (simp add: demo_run_db_def)
  moreover have "\<not> is_terminal (run_status_from_db ''queued'')"
    by (simp add: run_status_from_db_def is_terminal_def)
  moreover obtain row where "rt_runs (edb_rest demo_run_db) ''r'' = Some row" "rr_status row = ''queued''"
    by (simp add: demo_run_db_def)
  moreover obtain k t' where "recover_tables ''now'' [''r''] (edb_rest demo_run_db) = (k, t')"
    by (cases "recover_tables ''now'' [''r''] (edb_rest demo_run_db)")
  ultimately show ?thesis using recovery_interrupts_all [of "[''r'']" "edb_rest demo_run_db" "''now''" k t']
    by auto
qed

text \<open>
  An interaction bound to no run survives the recovery exactly when some run was active. With
  no active run the fallback statement expires every pending interaction whose run is unknown;
  with an active run only the interactions of the active runs are expired, and one that names
  no run stays pending.
\<close>

theorem unbound_interaction_kept_iff_active:
  assumes "ir_run_id i = None" and "ir_status i = ''pending''" and "rt_interactions t = [i]"
  shows "rt_interactions (snd (recover_tables now ids t))
    = [if active_ids ids t \<noteq> [] then i else expire_interaction now i]"
  using assms by (simp add: recover_tables_def Let_def)

lemma unbound_interaction_kept_iff_active_witness:
  "rt_interactions (snd (recover_tables ''now'' [''r''] ((edb_rest demo_run_db)
      \<lparr>rt_interactions := [\<lparr>ir_run_id = None, ir_status = ''pending'', ir_response = None, ir_responded_at = None\<rparr>]\<rparr>)))
    = [\<lparr>ir_run_id = None, ir_status = ''pending'', ir_response = None, ir_responded_at = None\<rparr>]"
  by (subst unbound_interaction_kept_iff_active)
    (auto simp: active_ids_def demo_run_db_def row_active_def active_db_statuses_def)

end
