(* ===== verification/SessionActor.thy ===== *)
theory SessionActor
  imports Prelude "HOL-Library.Multiset"
begin

section \<open>The session coordinator\<close>

text \<open>
  Models \<open>crates/harness-core/src/session_actor.rs\<close>: one actor per conversation with its prompt
  queue, its pending interjection, and the cancel-and-send and drain-on-finish rules. Each
  operation is a function on the actor; \<open>with_actor\<close> lifts it to the map of conversations. The
  mutex makes every operation atomic. A fresh id with the clock reading, and the iteration
  order of a hash map, are arguments. Queue positions (\<open>i64\<close>) are integers.
\<close>

named_theorems actor_defs \<open>operations of the session actor\<close>

subsection \<open>Data\<close>

datatype safe_point = ProviderBatchBoundary | BeforeTool | AfterTool | AfterPermissionResolved

datatype prompt_source = SrcUser | SrcScheduler | SrcBackgroundWake | SrcSystem | SrcInterjection

fun source_str :: "prompt_source \<Rightarrow> string" where
  "source_str SrcUser = ''user''"
| "source_str SrcScheduler = ''scheduler''"
| "source_str SrcBackgroundWake = ''background_wake''"
| "source_str SrcSystem = ''system''"
| "source_str SrcInterjection = ''interjection''"

definition source_parse :: "string \<Rightarrow> prompt_source" where
  "source_parse s =
     (if s = ''scheduler'' then SrcScheduler
      else if s = ''background_wake'' then SrcBackgroundWake
      else if s = ''system'' then SrcSystem
      else if s = ''interjection'' then SrcInterjection
      else SrcUser)"

datatype item_status = StQueued | StRunning | StSent | StCancelled | StFailed

fun item_status_str :: "item_status \<Rightarrow> string" where
  "item_status_str StQueued = ''queued''"
| "item_status_str StRunning = ''running''"
| "item_status_str StSent = ''sent''"
| "item_status_str StCancelled = ''cancelled''"
| "item_status_str StFailed = ''failed''"

definition item_status_parse :: "string \<Rightarrow> item_status" where
  "item_status_parse s =
     (if s = ''running'' then StRunning
      else if s = ''sent'' then StSent
      else if s = ''cancelled'' then StCancelled
      else if s = ''failed'' then StFailed
      else StQueued)"

record queue_item =
  qi_id :: string
  qi_conversation_id :: string
  qi_content :: string
  qi_source :: prompt_source
  qi_position :: int
  qi_client_temp_id :: "string option"
  qi_created_at :: string
  qi_status :: item_status

datatype coordinator_action =
    ActNone
  | ActInject string
  | ActStart queue_item
  | ActCancelThenStart queue_item

record actor_snapshot =
  as_conversation_id :: string
  as_active_run_id :: "string option"
  as_running_prompt_id :: "string option"
  as_pending_interjection :: "string option"
  as_pending_interaction_id :: "string option"
  as_cancel_and_send_id :: "string option"
  as_cancel_requested :: bool
  as_drain_on_finish :: bool
  as_version :: u64

record actor =
  ac_running_prompt :: "string option"
  ac_running_run_id :: "string option"
  ac_running_prompt_id :: "string option"
  ac_queue :: "queue_item list"
  ac_interjection :: "string option"
  ac_interaction :: "string option"
  ac_cancel_requested :: bool
  ac_drain :: bool
  ac_after_cancel :: "queue_item option"
  ac_version :: u64

definition actor_default :: actor where
  "actor_default = \<lparr>ac_running_prompt = None, ac_running_run_id = None, ac_running_prompt_id = None,
     ac_queue = [], ac_interjection = None, ac_interaction = None, ac_cancel_requested = False,
     ac_drain = False, ac_after_cancel = None, ac_version = 0\<rparr>"

type_synonym coordinator = "string \<rightharpoonup> actor"

definition actor_of :: "coordinator \<Rightarrow> string \<Rightarrow> actor" where
  "actor_of m c = (case m c of None \<Rightarrow> actor_default | Some a \<Rightarrow> a)"

definition with_actor :: "string \<Rightarrow> (actor \<Rightarrow> 'r \<times> actor) \<Rightarrow> coordinator \<Rightarrow> 'r \<times> coordinator" where
  "with_actor c f m = (case f (actor_of m c) of (r, a) \<Rightarrow> (r, m(c \<mapsto> a)))"

definition bump :: "actor \<Rightarrow> actor" where
  "bump a = a\<lparr>ac_version := sat_add (ac_version a) 1\<rparr>"

definition set_status :: "item_status \<Rightarrow> queue_item \<Rightarrow> queue_item" where
  "set_status st q = q\<lparr>qi_status := st\<rparr>"

definition set_position :: "int \<Rightarrow> queue_item \<Rightarrow> queue_item" where
  "set_position p q = q\<lparr>qi_position := p\<rparr>"

text \<open>\<open>for (i, q) in queue.iter_mut().enumerate() { q.position = i }\<close>\<close>

definition number_queue :: "queue_item list \<Rightarrow> queue_item list" where
  "number_queue = renumber set_position 0"

definition is_queued :: "queue_item \<Rightarrow> bool" where
  "is_queued q \<longleftrightarrow> qi_status q = StQueued"

subsection \<open>Queue operations\<close>

definition enqueue ::
  "string \<times> string \<Rightarrow> string \<Rightarrow> string \<Rightarrow> prompt_source \<Rightarrow> string option \<Rightarrow> string option \<Rightarrow>
     actor \<Rightarrow> queue_item \<times> actor" where
  "enqueue stamp c content source client_temp_id iid a =
     (let position = (if ac_queue a = [] then 0 else qi_position (last (ac_queue a)) + 1);
          item = \<lparr>qi_id = (case iid of Some i \<Rightarrow> i | None \<Rightarrow> fst stamp), qi_conversation_id = c,
            qi_content = content, qi_source = source, qi_position = position,
            qi_client_temp_id = client_temp_id, qi_created_at = snd stamp, qi_status = StQueued\<rparr>
      in (item, (bump a)\<lparr>ac_queue := ac_queue a @ [item], ac_drain := True\<rparr>))"

text \<open>The loop of \<open>reload_queue\<close>: running rows become queued again, finished ones are dropped.\<close>

fun reload_items :: "queue_item list \<Rightarrow> queue_item list" where
  "reload_items [] = []"
| "reload_items (q # qs) =
     (let q = (if qi_status q = StRunning then set_status StQueued q else q)
      in if qi_status q = StQueued then q # reload_items qs else reload_items qs)"

definition reload_queue :: "queue_item list \<Rightarrow> actor \<Rightarrow> actor" where
  "reload_queue items a =
     (let queue = number_queue (reload_items (sort_key qi_position items))
      in bump (a\<lparr>ac_queue := queue, ac_drain := (queue \<noteq> [])\<rparr>))"

definition restore_snapshot :: "actor_snapshot \<Rightarrow> actor \<Rightarrow> actor" where
  "restore_snapshot snap a =
     (let a = a\<lparr>ac_interjection := as_pending_interjection snap,
            ac_interaction := as_pending_interaction_id snap,
            ac_drain := as_drain_on_finish snap,
            ac_version := max (as_version snap) (ac_version a)\<rparr>;
          a = (case as_cancel_and_send_id snap of
                 None \<Rightarrow> a
               | Some i \<Rightarrow>
                   (case List.find (\<lambda>q. qi_id q = i) (ac_queue a) of
                      None \<Rightarrow> a
                    | Some item \<Rightarrow> a\<lparr>ac_after_cancel := Some item, ac_cancel_requested := True\<rparr>));
          a = a\<lparr>ac_running_run_id := None, ac_running_prompt := None, ac_running_prompt_id := None\<rparr>
      in if ac_after_cancel a = None then a\<lparr>ac_cancel_requested := False\<rparr> else a)"

definition snapshot :: "string \<Rightarrow> actor \<Rightarrow> actor_snapshot" where
  "snapshot c a =
     \<lparr>as_conversation_id = c, as_active_run_id = ac_running_run_id a,
      as_running_prompt_id = ac_running_prompt_id a, as_pending_interjection = ac_interjection a,
      as_pending_interaction_id = ac_interaction a,
      as_cancel_and_send_id = map_option qi_id (ac_after_cancel a),
      as_cancel_requested = ac_cancel_requested a, as_drain_on_finish = ac_drain a,
      as_version = ac_version a\<rparr>"

definition not_found :: "string \<Rightarrow> string" where
  "not_found i = ''queue item not found: '' @ i"

definition update_item :: "string \<Rightarrow> string \<Rightarrow> actor \<Rightarrow> (string + queue_item) \<times> actor" where
  "update_item i content a =
     (case List.find (\<lambda>q. qi_id q = i) (ac_queue a) of
        None \<Rightarrow> (Inl (not_found i), a)
      | Some q \<Rightarrow>
          (if qi_status q \<noteq> StQueued then (Inl ''only queued items can be edited'', a)
           else (Inr (q\<lparr>qi_content := content\<rparr>),
                 bump (a\<lparr>ac_queue := update_first (\<lambda>q. qi_id q = i) (\<lambda>q. q\<lparr>qi_content := content\<rparr>) (ac_queue a)\<rparr>))))"

definition remove_item :: "string \<Rightarrow> actor \<Rightarrow> (string + unit) \<times> actor" where
  "remove_item i a =
     (let queue = filter (\<lambda>q. qi_id q \<noteq> i) (ac_queue a)
      in if length queue = length (ac_queue a) then (Inl (not_found i), a\<lparr>ac_queue := queue\<rparr>)
         else (let a = a\<lparr>ac_queue := queue\<rparr>;
                   a = (case ac_after_cancel a of
                          Some pending \<Rightarrow> if qi_id pending = i then a\<lparr>ac_after_cancel := None\<rparr> else a
                        | None \<Rightarrow> a)
               in (Inr (), bump a)))"

definition requeue :: "queue_item \<Rightarrow> actor \<Rightarrow> actor" where
  "requeue item a =
     (let reset = (\<lambda>q. set_position 0 (set_status StQueued q));
          queue = (if \<exists>q\<in>set (ac_queue a). qi_id q = qi_id item
             then update_first (\<lambda>q. qi_id q = qi_id item) reset (ac_queue a)
             else reset item # ac_queue a)
      in bump (a\<lparr>ac_queue := number_queue queue, ac_running_prompt := None, ac_running_run_id := None,
           ac_running_prompt_id := None, ac_after_cancel := None, ac_cancel_requested := False,
           ac_drain := True\<rparr>))"

text \<open>
  \<open>reorder\<close>: the queue is collected into a map by id (the last of equal ids stays), the listed
  ids are taken out in their order, and the rest follows sorted by its old positions; \<open>iter\<close> is
  the order in which the hash map yields that rest.
\<close>

fun hash_collect :: "queue_item list \<Rightarrow> queue_item list" where
  "hash_collect [] = []"
| "hash_collect (q # qs) =
     (if \<exists>x\<in>set qs. qi_id x = qi_id q then hash_collect qs else q # hash_collect qs)"

fun reorder_listed :: "int \<Rightarrow> string list \<Rightarrow> queue_item list \<Rightarrow> queue_item list \<times> queue_item list" where
  "reorder_listed pos [] m = ([], m)"
| "reorder_listed pos (i # ids) m =
     (case take_first (\<lambda>q. qi_id q = i) m of
        None \<Rightarrow> reorder_listed (pos + 1) ids m
      | Some (q, m) \<Rightarrow>
          (case reorder_listed (pos + 1) ids m of (ordered, rest) \<Rightarrow> (set_position pos q # ordered, rest)))"

definition reorder ::
  "(queue_item list \<Rightarrow> queue_item list) \<Rightarrow> string list \<Rightarrow> actor \<Rightarrow> (string + queue_item list) \<times> actor" where
  "reorder iter ids a =
     (case reorder_listed 0 ids (hash_collect (ac_queue a)) of
        (ordered, rest) \<Rightarrow>
          (let queue = ordered @ renumber set_position (int (length ordered)) (sort_key qi_position (iter rest))
           in (Inr queue, bump (a\<lparr>ac_queue := queue\<rparr>))))"

subsection \<open>Running, finishing, sending\<close>

definition mark_running :: "string \<Rightarrow> string \<Rightarrow> actor \<Rightarrow> actor" where
  "mark_running run_id prompt a =
     (let a = a\<lparr>ac_running_prompt := Some prompt, ac_running_run_id := Some run_id,
            ac_cancel_requested := False\<rparr>
      in case List.find (\<lambda>q. qi_content q = prompt \<and> qi_status q = StQueued) (ac_queue a) of
           None \<Rightarrow> a
         | Some item \<Rightarrow>
             a\<lparr>ac_queue := update_first (\<lambda>q. qi_content q = prompt \<and> qi_status q = StQueued)
                 (set_status StRunning) (ac_queue a),
               ac_running_prompt_id := Some (qi_id item)\<rparr>)"

definition mark_running_item :: "string \<Rightarrow> string option \<Rightarrow> string \<Rightarrow> actor \<Rightarrow> actor" where
  "mark_running_item run_id queue_item_id prompt a =
     (let a = a\<lparr>ac_running_prompt := Some prompt, ac_running_run_id := Some run_id,
            ac_cancel_requested := False, ac_running_prompt_id := queue_item_id\<rparr>
      in case queue_item_id of
           None \<Rightarrow> a
         | Some pid \<Rightarrow>
             a\<lparr>ac_queue := update_first (\<lambda>q. qi_id q = pid) (set_status StRunning) (ac_queue a)\<rparr>)"

text \<open>Taking the first queued item out, with renumbering: shared by the two drain points.\<close>

definition pop_queued :: "actor \<Rightarrow> (queue_item \<times> actor) option" where
  "pop_queued a =
     (case take_first (\<lambda>q. qi_status q = StQueued) (ac_queue a) of
        None \<Rightarrow> None
      | Some (item, queue) \<Rightarrow>
          Some (item, bump (a\<lparr>ac_queue := number_queue queue, ac_running_prompt := Some (qi_content item)\<rparr>)))"

text \<open>\<open>finish_actor\<close>: settle the running item, clear the run, then choose what starts next.\<close>

definition settle_running :: "bool \<Rightarrow> actor \<Rightarrow> actor" where
  "settle_running success a =
     (let a = (case ac_running_prompt_id a of
            None \<Rightarrow> a
          | Some pid \<Rightarrow>
              a\<lparr>ac_running_prompt_id := None,
                ac_queue := filter is_queued (update_first (\<lambda>q. qi_id q = pid)
                  (set_status (if success then StSent else StFailed)) (ac_queue a))\<rparr>)
      in a\<lparr>ac_running_prompt := None, ac_running_run_id := None, ac_cancel_requested := False,
           ac_interaction := None\<rparr>)"

definition take_next :: "actor \<Rightarrow> coordinator_action \<times> actor" where
  "take_next a =
     (case ac_after_cancel a of
        Some item \<Rightarrow>
          (ActStart item, bump (a\<lparr>ac_after_cancel := None, ac_running_prompt := Some (qi_content item)\<rparr>))
      | None \<Rightarrow>
          (if ac_drain a
           then (case pop_queued a of Some (item, a) \<Rightarrow> (ActStart item, a) | None \<Rightarrow> (ActNone, a))
           else (ActNone, a)))"

definition finish_actor :: "bool \<Rightarrow> actor \<Rightarrow> coordinator_action \<times> actor" where
  "finish_actor success a = take_next (settle_running success a)"

definition finish_run :: "string \<Rightarrow> bool \<Rightarrow> actor \<Rightarrow> coordinator_action option \<times> actor" where
  "finish_run expected_run_id success a =
     (if ac_running_run_id a = Some expected_run_id
      then (case finish_actor success a of (act, a) \<Rightarrow> (Some act, a))
      else (None, a))"

definition mark_finished :: "actor \<Rightarrow> coordinator_action \<times> actor" where
  "mark_finished a = finish_actor True a"

definition send_now :: "string \<Rightarrow> actor \<Rightarrow> (string + coordinator_action) \<times> actor" where
  "send_now i a =
     (case take_first (\<lambda>q. qi_id q = i) (ac_queue a) of
        None \<Rightarrow> (Inl (not_found i), a)
      | Some (item, queue) \<Rightarrow>
          (let a = bump (a\<lparr>ac_queue := number_queue queue\<rparr>)
           in if ac_running_run_id a \<noteq> None
              then (Inr (ActCancelThenStart item),
                    a\<lparr>ac_cancel_requested := True, ac_after_cancel := Some item, ac_drain := False\<rparr>)
              else (Inr (ActStart item), a\<lparr>ac_running_prompt := Some (qi_content item)\<rparr>)))"

definition cancel_and_send :: "string \<Rightarrow> actor \<Rightarrow> (string + coordinator_action) \<times> actor" where
  "cancel_and_send i a = send_now i a"

definition interject :: "string \<Rightarrow> actor \<Rightarrow> actor" where
  "interject content a = bump (a\<lparr>ac_interjection := Some content\<rparr>)"

definition set_pending_interaction :: "string option \<Rightarrow> actor \<Rightarrow> actor" where
  "set_pending_interaction i a = bump (a\<lparr>ac_interaction := i\<rparr>)"

definition on_safe_point :: "safe_point \<Rightarrow> actor \<Rightarrow> coordinator_action \<times> actor" where
  "on_safe_point point a =
     (case ac_interjection a of
        Some content \<Rightarrow> (ActInject content, bump (a\<lparr>ac_interjection := None\<rparr>))
      | None \<Rightarrow>
          (if ac_running_run_id a = None \<and> ac_drain a
           then (case pop_queued a of Some (item, a) \<Rightarrow> (ActStart item, a) | None \<Rightarrow> (ActNone, a))
           else (ActNone, a)))"

definition restore_interjection :: "string \<Rightarrow> actor \<Rightarrow> actor" where
  "restore_interjection content a =
     (if ac_interjection a = None then bump (a\<lparr>ac_interjection := Some content\<rparr>) else a)"

definition clear_conversation :: "string \<Rightarrow> coordinator \<Rightarrow> coordinator" where
  "clear_conversation c m = m(c := None)"

definition is_parallel_safe_tool :: "string \<Rightarrow> bool" where
  "is_parallel_safe_tool name \<longleftrightarrow> name \<in> {''read_file'', ''list_dir'', ''grep'', ''search_files'',
     ''task_output'', ''memory_search'', ''memory_get''}"

subsection \<open>Well-formed actors\<close>

text \<open>Queue items have distinct ids and are queued or running; nothing finished stays.\<close>

definition live_status :: "queue_item \<Rightarrow> bool" where
  "live_status q \<longleftrightarrow> qi_status q = StQueued \<or> qi_status q = StRunning"

definition queue_ids :: "queue_item list \<Rightarrow> string list" where
  "queue_ids qs = List.map qi_id qs"

definition actor_wf :: "actor \<Rightarrow> bool" where
  "actor_wf a \<longleftrightarrow> distinct (queue_ids (ac_queue a)) \<and> (\<forall>q\<in>set (ac_queue a). live_status q)"

lemma bump_sel [simp]:
  "ac_queue (bump a) = ac_queue a" "ac_running_run_id (bump a) = ac_running_run_id a"
  "ac_running_prompt_id (bump a) = ac_running_prompt_id a" "ac_interjection (bump a) = ac_interjection a"
  "ac_after_cancel (bump a) = ac_after_cancel a" "ac_drain (bump a) = ac_drain a"
  "ac_cancel_requested (bump a) = ac_cancel_requested a"
  by (simp_all add: bump_def)

lemma item_upd_sel [simp]:
  "qi_id (set_status st q) = qi_id q" "qi_id (set_position p q) = qi_id q"
  "qi_content (set_status st q) = qi_content q" "qi_content (set_position p q) = qi_content q"
  "qi_status (set_status st q) = st" "qi_status (set_position p q) = qi_status q"
  "qi_position (set_position p q) = p" "qi_position (set_status st q) = qi_position q"
  by (simp_all add: set_status_def set_position_def)

lemma queue_ids_simps [simp]:
  "queue_ids [] = []" "queue_ids (q # qs) = qi_id q # queue_ids qs"
  "queue_ids (xs @ ys) = queue_ids xs @ queue_ids ys"
  "queue_ids (renumber set_position i qs) = queue_ids qs"
  "queue_ids (number_queue qs) = queue_ids qs"
  "queue_ids (update_first P (set_status st) qs) = queue_ids qs"
  by (simp_all add: queue_ids_def number_queue_def list_upd_simps)

lemma set_queue_ids: "set (queue_ids qs) = qi_id ` set qs"
  by (simp add: queue_ids_def)

lemma distinct_ids_filter: "distinct (queue_ids qs) \<Longrightarrow> distinct (queue_ids (filter P qs))"
  by (simp add: queue_ids_def distinct_map_filter)

lemma live_renumber: "\<forall>q\<in>set qs. live_status q \<Longrightarrow> \<forall>q\<in>set (renumber set_position i qs). live_status q"
  by (induction qs arbitrary: i) (auto simp: live_status_def)

lemma live_update_first:
  "\<forall>q\<in>set qs. live_status q \<Longrightarrow> (\<And>q. live_status (f q)) \<Longrightarrow> \<forall>q\<in>set (update_first P f qs). live_status q"
  by (induction qs) auto

lemma take_first_queue:
  assumes "take_first P qs = Some (q, rest)" and "distinct (queue_ids qs)" and "\<forall>q\<in>set qs. live_status q"
  shows "distinct (queue_ids rest)" and "\<forall>q\<in>set rest. live_status q" and "live_status q"
    and "qi_id q \<notin> set (queue_ids rest)"
  using take_first_SomeD [OF assms(1)] assms(2,3) by (auto simp: set_queue_ids)

lemma reload_items_live: "\<forall>q\<in>set (reload_items qs). live_status q"
  by (induction qs rule: reload_items.induct) (auto simp: Let_def live_status_def)

lemma reload_items_ids: "set (queue_ids (reload_items qs)) \<subseteq> set (queue_ids qs)"
  by (induction qs rule: reload_items.induct) (auto simp: Let_def)

lemma reload_items_distinct: "distinct (queue_ids qs) \<Longrightarrow> distinct (queue_ids (reload_items qs))"
  using reload_items_ids by (induction qs rule: reload_items.induct) (auto simp: Let_def subset_iff)

lemma hash_collect_distinct: "distinct (queue_ids qs) \<Longrightarrow> hash_collect qs = qs"
  by (induction qs) (auto simp: set_queue_ids image_iff)

lemma reorder_listed_mset:
  "reorder_listed pos ids m = (ordered, rest) \<Longrightarrow>
     mset (queue_ids ordered) + mset (queue_ids rest) = mset (queue_ids m)
     \<and> ((\<forall>q\<in>set m. live_status q) \<longrightarrow> (\<forall>q\<in>set ordered \<union> set rest. live_status q))"
proof (induction ids arbitrary: pos m ordered rest)
  case (Cons i ids)
  show ?case
  proof (cases "take_first (\<lambda>q. qi_id q = i) m")
    case None
    with Cons show ?thesis by simp
  next
    case (Some p)
    obtain q m' where p: "p = (q, m')" by (cases p)
    obtain ordered' where ord: "reorder_listed (pos + 1) ids m' = (ordered', rest)"
      "ordered = set_position pos q # ordered'"
      using Cons.prems Some p by (auto split: prod.splits)
    from take_first_SomeD [OF Some [unfolded p]] obtain xs ys where "m = xs @ q # ys" "m' = xs @ ys" by blast
    with Cons.IH [OF ord(1)] ord(2) show ?thesis by (auto simp: live_status_def)
  qed
qed simp

lemma queue_ids_sort_iter:
  assumes "mset (iter rest) = mset rest"
  shows "mset (queue_ids (sort_key qi_position (iter rest))) = mset (queue_ids rest)"
  by (simp add: queue_ids_def mset_map assms)

text \<open>A reorder keeps the items, whatever order the hash map yields.\<close>

lemma reorder_queue:
  assumes "distinct (queue_ids (ac_queue a))" and iter: "\<And>xs. mset (iter xs) = mset xs"
  shows "mset (queue_ids (ac_queue (snd (reorder iter ids a)))) = mset (queue_ids (ac_queue a))"
    and "(\<forall>q\<in>set (ac_queue a). live_status q) \<Longrightarrow> \<forall>q\<in>set (ac_queue (snd (reorder iter ids a))). live_status q"
proof -
  obtain ordered rest where r: "reorder_listed 0 ids (ac_queue a) = (ordered, rest)"
    by (cases "reorder_listed 0 ids (ac_queue a)")
  have q: "ac_queue (snd (reorder iter ids a))
      = ordered @ renumber set_position (int (length ordered)) (sort_key qi_position (iter rest))"
    using assms(1) by (simp add: reorder_def hash_collect_distinct r Let_def)
  from reorder_listed_mset [OF r] queue_ids_sort_iter [of iter rest, OF iter]
  show "mset (queue_ids (ac_queue (snd (reorder iter ids a)))) = mset (queue_ids (ac_queue a))"
    unfolding q by simp
  assume "\<forall>q\<in>set (ac_queue a). live_status q"
  with reorder_listed_mset [OF r] have "\<forall>q\<in>set ordered \<union> set rest. live_status q" by blast
  moreover have "set (iter rest) = set rest" using iter mset_eq_setD by blast
  ultimately show "\<forall>q\<in>set (ac_queue (snd (reorder iter ids a))). live_status q"
    unfolding q using live_renumber [of "sort_key qi_position (iter rest)" "int (length ordered)"]
    by (simp add: ball_Un)
qed

text \<open>Every operation of the coordinator, as one step of an actor.\<close>

datatype actor_op =
    OpEnqueue "string \<times> string" string string prompt_source "string option" "string option"
  | OpReload "queue_item list"
  | OpRestore actor_snapshot
  | OpUpdate string string
  | OpRemove string
  | OpRequeue queue_item
  | OpReorder "queue_item list \<Rightarrow> queue_item list" "string list"
  | OpMarkRunning string string
  | OpMarkItem string "string option" string
  | OpFinish bool
  | OpFinishRun string bool
  | OpSendNow string
  | OpInterject string
  | OpSetInteraction "string option"
  | OpSafePoint safe_point
  | OpRestoreInterjection string

fun actor_step :: "actor_op \<Rightarrow> actor \<Rightarrow> actor" where
  "actor_step (OpEnqueue stamp c content src ctid iid) a = snd (enqueue stamp c content src ctid iid a)"
| "actor_step (OpReload items) a = reload_queue items a"
| "actor_step (OpRestore snap) a = restore_snapshot snap a"
| "actor_step (OpUpdate i content) a = snd (update_item i content a)"
| "actor_step (OpRemove i) a = snd (remove_item i a)"
| "actor_step (OpRequeue item) a = requeue item a"
| "actor_step (OpReorder iter ids) a = snd (reorder iter ids a)"
| "actor_step (OpMarkRunning r p) a = mark_running r p a"
| "actor_step (OpMarkItem r i p) a = mark_running_item r i p a"
| "actor_step (OpFinish ok) a = snd (finish_actor ok a)"
| "actor_step (OpFinishRun r ok) a = snd (finish_run r ok a)"
| "actor_step (OpSendNow i) a = snd (send_now i a)"
| "actor_step (OpInterject x) a = interject x a"
| "actor_step (OpSetInteraction i) a = set_pending_interaction i a"
| "actor_step (OpSafePoint p) a = snd (on_safe_point p a)"
| "actor_step (OpRestoreInterjection x) a = restore_interjection x a"

text \<open>
  What the callers provide: an id not in the queue for a new item, rows with distinct ids for a
  reload, and a hash map that yields each of its values once.
\<close>

fun op_ok :: "actor \<Rightarrow> actor_op \<Rightarrow> bool" where
  "op_ok a (OpEnqueue stamp c content src ctid iid) =
     ((case iid of Some i \<Rightarrow> i | None \<Rightarrow> fst stamp) \<notin> set (queue_ids (ac_queue a)))"
| "op_ok a (OpReload items) = distinct (queue_ids items)"
| "op_ok a (OpReorder iter ids) = (\<forall>xs. mset (iter xs) = mset xs)"
| "op_ok a _ = True"

lemma update_first_ids [simp]:
  "queue_ids (update_first P (\<lambda>q. q\<lparr>qi_content := x\<rparr>) qs) = queue_ids qs"
  "queue_ids (update_first P (\<lambda>q. set_position p (set_status st q)) qs) = queue_ids qs"
  by (simp_all add: queue_ids_def list_upd_simps)

lemma live_set_content: "\<forall>q\<in>set qs. live_status q \<Longrightarrow>
    \<forall>q\<in>set (update_first P (\<lambda>q. q\<lparr>qi_content := x\<rparr>) qs). live_status q"
  by (induction qs) (auto simp: live_status_def)

lemma pop_queued_Some:
  assumes "pop_queued a = Some (item, a')"
  obtains rest where "take_first (\<lambda>q. qi_status q = StQueued) (ac_queue a) = Some (item, rest)"
    "ac_queue a' = number_queue rest"
    "a' = bump (a\<lparr>ac_queue := number_queue rest, ac_running_prompt := Some (qi_content item)\<rparr>)"
proof (cases "take_first (\<lambda>q. qi_status q = StQueued) (ac_queue a)")
  case None
  with assms show ?thesis by (simp add: pop_queued_def)
next
  case (Some p)
  with assms have "item = fst p"
    "a' = bump (a\<lparr>ac_queue := number_queue (snd p), ac_running_prompt := Some (qi_content (fst p))\<rparr>)"
    by (auto simp: pop_queued_def split_beta)
  with Some that [of "snd p"] show ?thesis by simp
qed

lemma actor_wf_queue: "ac_queue a' = ac_queue a \<Longrightarrow> actor_wf a' = actor_wf a"
  by (simp add: actor_wf_def)

lemma actor_wf_taken:
  assumes "actor_wf a" "take_first P (ac_queue a) = Some (item, rest)" "ac_queue a' = number_queue rest"
  shows "actor_wf a'"
proof -
  from assms(1) have "distinct (queue_ids (ac_queue a))" "\<forall>q\<in>set (ac_queue a). live_status q"
    unfolding actor_wf_def by blast+
  from take_first_queue(1,2) [OF assms(2) this]
  have "distinct (queue_ids rest)" "\<forall>q\<in>set rest. live_status q" .
  with live_renumber [OF this(2)] show ?thesis by (simp add: actor_wf_def assms(3) number_queue_def)
qed

lemma pop_queued_wf: "actor_wf a \<Longrightarrow> pop_queued a = Some (item, a') \<Longrightarrow> actor_wf a'"
  by (erule pop_queued_Some) (rule actor_wf_taken)

lemma settle_running_wf: "actor_wf a \<Longrightarrow> actor_wf (settle_running ok a)"
  by (auto simp: settle_running_def Let_def actor_wf_def distinct_ids_filter is_queued_def live_status_def
      split: option.splits)

lemma take_next_wf: "actor_wf a \<Longrightarrow> actor_wf (snd (take_next a))"
  using pop_queued_wf [of a] by (auto simp: take_next_def actor_wf_def split: option.splits)

lemma send_now_wf: "actor_wf a \<Longrightarrow> actor_wf (snd (send_now i a))"
  using actor_wf_taken [of a "\<lambda>q. qi_id q = i"]
  by (auto simp: send_now_def Let_def split: option.splits)

lemma on_safe_point_wf: "actor_wf a \<Longrightarrow> actor_wf (snd (on_safe_point p a))"
  using pop_queued_wf [of a] by (auto simp: on_safe_point_def actor_wf_def split: option.splits)

lemma requeue_wf: "actor_wf a \<Longrightarrow> actor_wf (requeue item a)"
proof -
  assume wf: "actor_wf a"
  let ?reset = "\<lambda>q. set_position 0 (set_status StQueued q)"
  define queue where "queue = (if \<exists>q\<in>set (ac_queue a). qi_id q = qi_id item
      then update_first (\<lambda>q. qi_id q = qi_id item) ?reset (ac_queue a) else ?reset item # ac_queue a)"
  have "distinct (queue_ids queue)"
    using wf by (auto simp: queue_def actor_wf_def set_queue_ids)
  moreover have "\<forall>q\<in>set queue. live_status q"
    using wf live_update_first [of "ac_queue a" ?reset "\<lambda>q. qi_id q = qi_id item"]
    by (auto simp: queue_def actor_wf_def live_status_def)
  moreover have "ac_queue (requeue item a) = number_queue queue"
    by (simp add: requeue_def queue_def Let_def)
  ultimately show ?thesis using live_renumber [of queue 0] by (simp add: actor_wf_def number_queue_def)
qed

text \<open>Every operation keeps the actor well formed.\<close>

lemma actor_step_wf:
  assumes wf: "actor_wf a" and ok: "op_ok a op"
  shows "actor_wf (actor_step op a)"
proof -
  have running: "\<forall>q\<in>set (update_first P (set_status StRunning) (ac_queue a)). live_status q" for P
    using wf by (intro live_update_first) (simp_all add: actor_wf_def live_status_def)
  show ?thesis
proof (cases op)
  case (OpEnqueue stamp c content src ctid iid)
  with wf ok show ?thesis by (auto simp: enqueue_def Let_def actor_wf_def live_status_def)
next
  case (OpReload items)
  have "distinct (queue_ids (sort_key qi_position items))"
    using ok OpReload by (simp add: queue_ids_def distinct_map distinct_sort)
  with OpReload reload_items_distinct live_renumber [OF reload_items_live] show ?thesis
    by (simp add: reload_queue_def Let_def actor_wf_def number_queue_def)
next
  case (OpRestore snap)
  have "ac_queue (restore_snapshot snap a) = ac_queue a"
    by (simp add: restore_snapshot_def Let_def split: option.split)
  with OpRestore wf show ?thesis by (simp add: actor_wf_def)
next
  case (OpUpdate i content)
  with wf live_set_content [of "ac_queue a"] show ?thesis
    by (auto simp: update_item_def actor_wf_def split: option.splits)
next
  case (OpRemove i)
  have "ac_queue (snd (remove_item i a)) = filter (\<lambda>q. qi_id q \<noteq> i) (ac_queue a)"
    by (simp add: remove_item_def Let_def split: option.split)
  with OpRemove wf show ?thesis by (simp add: actor_wf_def distinct_ids_filter)
next
  case (OpReorder iter ids)
  with ok have iter: "\<And>xs. mset (iter xs) = mset xs" by simp
  from wf have d: "distinct (queue_ids (ac_queue a))" "\<forall>q\<in>set (ac_queue a). live_status q"
    by (simp_all add: actor_wf_def)
  have "distinct (queue_ids (ac_queue (snd (reorder iter ids a))))"
    using reorder_queue(1) [OF d(1) iter, of ids] d(1) mset_eq_imp_distinct_iff by blast
  with reorder_queue(2) [OF d(1) iter d(2), of ids] OpReorder show ?thesis by (simp add: actor_wf_def)
next
  case (OpMarkRunning r p)
  have "ac_queue (mark_running r p a) = ac_queue a
      \<or> ac_queue (mark_running r p a) = update_first (\<lambda>q. qi_content q = p \<and> qi_status q = StQueued)
          (set_status StRunning) (ac_queue a)"
    by (simp add: mark_running_def Let_def split: option.split)
  with OpMarkRunning wf running show ?thesis by (auto simp: actor_wf_def)
next
  case (OpMarkItem r i p)
  have "ac_queue (mark_running_item r i p a) = (case i of None \<Rightarrow> ac_queue a
      | Some pid \<Rightarrow> update_first (\<lambda>q. qi_id q = pid) (set_status StRunning) (ac_queue a))"
    by (simp add: mark_running_item_def Let_def split: option.split)
  with OpMarkItem wf running show ?thesis by (auto simp: actor_wf_def split: option.split)
next
  case (OpFinish ok')
  with wf show ?thesis by (simp add: finish_actor_def take_next_wf settle_running_wf)
next
  case (OpFinishRun r ok')
  with wf take_next_wf [OF settle_running_wf [OF wf], of ok'] show ?thesis
    by (auto simp: finish_run_def finish_actor_def split: prod.splits)
qed (use wf send_now_wf [OF wf] requeue_wf [OF wf] on_safe_point_wf [OF wf] in \<open>simp_all add: interject_def
    set_pending_interaction_def restore_interjection_def actor_wf_def\<close>)
qed

subsection \<open>Draining a queue\<close>

text \<open>
  What the daemon relies on when it runs a conversation's queue: as long as it asks for the next
  item, it gets the waiting ones one at a time, in their order, and then none.
\<close>

fun drain_loop :: "('s \<Rightarrow> ('a \<times> 's) option) \<Rightarrow> nat \<Rightarrow> 's \<Rightarrow> 'a list" where
  "drain_loop next_item 0 s = []"
| "drain_loop next_item (Suc n) s =
     (case next_item s of None \<Rightarrow> [] | Some (x, s') \<Rightarrow> x # drain_loop next_item n s')"

locale drain_source =
  fixes next_item :: "'s \<Rightarrow> ('a \<times> 's) option"
    and waiting :: "'s \<Rightarrow> 'a list"
    and ready :: "'s \<Rightarrow> bool"
  assumes next_some: "ready s \<Longrightarrow> waiting s = x # xs \<Longrightarrow>
      \<exists>s'. next_item s = Some (x, s') \<and> waiting s' = xs \<and> ready s'"
    and next_none: "ready s \<Longrightarrow> waiting s = [] \<Longrightarrow> next_item s = None"
begin

lemma drain_all:
  "ready s \<Longrightarrow> length (waiting s) \<le> n \<Longrightarrow> drain_loop next_item n s = waiting s"
proof (induction n arbitrary: s)
  case (Suc n)
  show ?case
  proof (cases "waiting s")
    case Nil
    with Suc.prems next_none show ?thesis by simp
  next
    case (Cons x xs)
    from next_some [OF Suc.prems(1) Cons] obtain s' where "next_item s = Some (x, s')"
      "waiting s' = xs" "ready s'" by blast
    with Suc Cons show ?thesis by simp
  qed
qed simp

lemma drain_terminates: "ready s \<Longrightarrow> \<exists>n. \<forall>k\<ge>n. drain_loop next_item k s = waiting s"
  using drain_all by blast

end

text \<open>
  One round of the daemon: the active run finishes, and the prompt the coordinator hands out is
  marked running under a new run.
\<close>

definition next_prompt :: "bool \<Rightarrow> actor \<Rightarrow> (string \<times> actor) option" where
  "next_prompt success a =
     (case finish_actor success a of
        (ActStart item, a) \<Rightarrow>
          Some (qi_id item, mark_running_item (''run-'' @ qi_id item) (Some (qi_id item)) (qi_content item) a)
      | _ \<Rightarrow> None)"

definition waiting_ids :: "actor \<Rightarrow> string list" where
  "waiting_ids a = queue_ids (filter is_queued (ac_queue a))"

definition drain_ready :: "actor \<Rightarrow> bool" where
  "drain_ready a \<longleftrightarrow> actor_wf a \<and> ac_drain a \<and> ac_after_cancel a = None
     \<and> (\<forall>pid. ac_running_prompt_id a = Some pid \<longrightarrow> pid \<notin> set (waiting_ids a))"

lemma filter_queued_renumber:
  "queue_ids (filter is_queued (renumber set_position i qs)) = queue_ids (filter is_queued qs)"
  by (induction qs arbitrary: i) (simp_all add: is_queued_def)

lemma filter_queued_settle:
  "pid \<notin> set (queue_ids (filter is_queued qs)) \<Longrightarrow> st \<noteq> StQueued \<Longrightarrow>
     filter is_queued (update_first (\<lambda>q. qi_id q = pid) (set_status st) qs) = filter is_queued qs"
  by (induction qs) (auto simp: is_queued_def split: if_splits)

lemma update_first_absent: "pid \<notin> set (queue_ids qs) \<Longrightarrow> update_first (\<lambda>q. qi_id q = pid) f qs = qs"
  by (auto simp: set_queue_ids intro!: update_first_none)

lemma take_first_queued:
  assumes "take_first (\<lambda>q. qi_status q = StQueued) qs = Some (item, rest)"
  shows "filter is_queued qs = item # filter is_queued rest"
proof -
  from take_first_SomeD [OF assms] obtain xs ys where "qs = xs @ item # ys" "rest = xs @ ys"
    "qi_status item = StQueued" "\<forall>x\<in>set xs. qi_status x \<noteq> StQueued" by blast
  moreover from this(4) have "filter is_queued xs = []" by (simp add: is_queued_def filter_empty_conv)
  ultimately show ?thesis by (simp add: is_queued_def)
qed

lemma settle_ready:
  assumes "drain_ready a"
  shows "waiting_ids (settle_running ok a) = waiting_ids a" and "ac_drain (settle_running ok a)"
    and "ac_after_cancel (settle_running ok a) = None" and "actor_wf (settle_running ok a)"
proof -
  have "filter is_queued (ac_queue (settle_running ok a)) = filter is_queued (ac_queue a)"
    using assms filter_queued_settle [of _ "ac_queue a"]
    by (auto simp: settle_running_def Let_def drain_ready_def waiting_ids_def split: option.split)
  then show "waiting_ids (settle_running ok a) = waiting_ids a" by (simp add: waiting_ids_def)
  show "ac_drain (settle_running ok a)" "ac_after_cancel (settle_running ok a) = None"
    using assms by (simp_all add: settle_running_def Let_def drain_ready_def split: option.split)
  show "actor_wf (settle_running ok a)" using assms settle_running_wf by (simp add: drain_ready_def)
qed

interpretation pq: drain_source "next_prompt success" waiting_ids drain_ready for success
proof
  fix a x xs assume ready: "drain_ready a" and wait: "waiting_ids a = x # xs"
  define a1 where "a1 = settle_running success a"
  note s = settle_ready [OF ready, of success, folded a1_def]
  have "take_first (\<lambda>q. qi_status q = StQueued) (ac_queue a1) \<noteq> None"
    using s(1) wait by (auto simp: take_first_None waiting_ids_def is_queued_def filter_empty_conv
        queue_ids_def Cons_eq_map_conv filter_eq_Cons_iff)
  then obtain item rest where t: "take_first (\<lambda>q. qi_status q = StQueued) (ac_queue a1) = Some (item, rest)"
    by auto
  note q = take_first_queued [OF t]
  from s(4) have d: "distinct (queue_ids (ac_queue a1))" "\<forall>q\<in>set (ac_queue a1). live_status q"
    unfolding actor_wf_def by blast+
  note tf = take_first_queue [OF t d]
  define a2 where "a2 = bump (a1\<lparr>ac_queue := number_queue rest, ac_running_prompt := Some (qi_content item)\<rparr>)"
  have fin: "finish_actor success a = (ActStart item, a2)"
    using s(2,3) t by (simp add: finish_actor_def a1_def [symmetric] take_next_def pop_queued_def a2_def)
  define a3 where "a3 = mark_running_item (''run-'' @ qi_id item) (Some (qi_id item)) (qi_content item) a2"
  have queue: "ac_queue a3 = number_queue rest"
    using tf(4) by (simp add: a3_def mark_running_item_def Let_def a2_def update_first_absent)
  have "x = qi_id item" "xs = queue_ids (filter is_queued rest)"
    using s(1) wait q by (simp_all add: waiting_ids_def)
  moreover have "waiting_ids a3 = queue_ids (filter is_queued rest)"
    by (simp add: waiting_ids_def queue number_queue_def filter_queued_renumber)
  moreover have "drain_ready a3"
  proof -
    have "actor_wf a3" using actor_wf_taken [OF s(4) t queue] .
    moreover have "qi_id item \<notin> set (waiting_ids a3)"
      using tf(4) \<open>waiting_ids a3 = _\<close> by (auto simp: set_queue_ids)
    moreover have "ac_drain a3" "ac_after_cancel a3 = None" "ac_running_prompt_id a3 = Some (qi_id item)"
      using s(2,3) by (simp_all add: a3_def mark_running_item_def Let_def a2_def)
    ultimately show ?thesis by (simp add: drain_ready_def)
  qed
  ultimately show "\<exists>a'. next_prompt success a = Some (x, a') \<and> waiting_ids a' = xs \<and> drain_ready a'"
    using fin by (auto simp: next_prompt_def a3_def)
next
  fix a assume ready: "drain_ready a" and none: "waiting_ids a = []"
  define a1 where "a1 = settle_running success a"
  note s = settle_ready [OF ready, of success, folded a1_def]
  have "take_first (\<lambda>q. qi_status q = StQueued) (ac_queue a1) = None"
    using s(1) none by (simp add: take_first_None waiting_ids_def queue_ids_def is_queued_def filter_empty_conv)
  then show "next_prompt success a = None"
    using s(2,3) by (simp add: next_prompt_def finish_actor_def a1_def [symmetric] take_next_def pop_queued_def)
qed

inductive actor_reachable :: "actor \<Rightarrow> bool" where
  actor_start: "actor_reachable actor_default"
| actor_op: "actor_reachable a \<Longrightarrow> op_ok a op \<Longrightarrow> actor_reachable (actor_step op a)"

subsection \<open>Reordering\<close>

lemma reorder_listed_ids:
  assumes "reorder_listed pos ids m = (ordered, rest)" and "distinct ids" and "distinct (queue_ids m)"
  shows "queue_ids ordered = filter (\<lambda>i. i \<in> set (queue_ids m)) ids"
  using assms
proof (induction ids arbitrary: pos m ordered rest)
  case (Cons i ids)
  show ?case
  proof (cases "take_first (\<lambda>q. qi_id q = i) m")
    case None
    then have "i \<notin> set (queue_ids m)" by (auto simp: take_first_None set_queue_ids)
    with Cons None show ?thesis by simp
  next
    case (Some p)
    obtain q m' where p: "p = (q, m')" by (cases p)
    obtain ordered' where ord: "reorder_listed (pos + 1) ids m' = (ordered', rest)"
      "ordered = set_position pos q # ordered'"
      using Cons.prems(1) Some p by (auto split: prod.splits)
    from take_first_SomeD [OF Some [unfolded p]] obtain xs ys where m: "m = xs @ q # ys" "m' = xs @ ys"
      "qi_id q = i" by blast
    have "distinct (queue_ids m')" using Cons.prems(3) m by simp
    with Cons.IH [OF ord(1)] Cons.prems(2)
    have "queue_ids ordered' = filter (\<lambda>j. j \<in> set (queue_ids m')) ids" by simp
    also have "\<dots> = filter (\<lambda>j. j \<in> set (queue_ids m)) ids"
      using Cons.prems(2) m by (intro filter_cong) auto
    finally show ?thesis using ord(2) m by simp
  qed
qed simp

subsection \<open>Properties\<close>

text \<open>
  Queues stay well formed. Whatever operations a conversation receives, as long as new items
  bring fresh ids and reloaded rows distinct ones, the items of its queue have distinct ids and
  each is queued or running: nothing sent, failed or cancelled stays in the queue.
\<close>

theorem reachable_queue_well_formed:
  assumes "actor_reachable a"
  shows "distinct (List.map qi_id (ac_queue a))
    \<and> (\<forall>q\<in>set (ac_queue a). qi_status q = StQueued \<or> qi_status q = StRunning)"
proof -
  from assms have "actor_wf a"
  proof (induction rule: actor_reachable.induct)
    case actor_start
    then show ?case by (simp add: actor_wf_def actor_default_def)
  qed (rule actor_step_wf)
  then show ?thesis by (simp add: actor_wf_def queue_ids_def live_status_def)
qed

definition demo_op :: "string \<Rightarrow> actor_op" where
  "demo_op i = OpEnqueue (''u'', ''0'') ''c'' (''prompt '' @ i) SrcUser None (Some i)"

definition demo_actor :: actor where
  "demo_actor = actor_step (demo_op ''b'') (actor_step (demo_op ''a'') actor_default)"

lemma demo_actor_reachable: "actor_reachable demo_actor"
  unfolding demo_actor_def
  by (intro actor_op actor_start) (simp_all add: demo_op_def enqueue_def Let_def actor_default_def)

lemma demo_actor_queue: "queue_ids (ac_queue demo_actor) = [''a'', ''b'']" "drain_ready demo_actor"
  "ac_running_run_id demo_actor = None"
  by (simp_all add: demo_actor_def demo_op_def enqueue_def Let_def actor_default_def drain_ready_def
      actor_wf_def live_status_def bump_def)

lemma reachable_queue_well_formed_witness:
  "distinct (List.map qi_id (ac_queue demo_actor))
    \<and> list_all (\<lambda>q. qi_status q = StQueued \<or> qi_status q = StRunning) (ac_queue demo_actor)"
  unfolding list_all_iff by (rule reachable_queue_well_formed [OF demo_actor_reachable])

text \<open>
  C23: prompts start in queue order. With draining on and nothing pending after a cancel, repeatedly
  finishing the active run and starting what the coordinator hands out starts exactly the
  queued prompts, each once, in the order of the queue, and then hands out nothing more; a
  prompt enqueued meanwhile comes after those already waiting.
\<close>

theorem prompts_start_in_order:
  assumes "drain_ready a" and "length (waiting_ids a) \<le> n"
  shows "drain_loop (next_prompt success) n a = waiting_ids a
    \<and> waiting_ids (snd (enqueue stamp c content src ctid iid a))
        = waiting_ids a @ [qi_id (fst (enqueue stamp c content src ctid iid a))]"
  using pq.drain_all [OF assms]
  by (simp add: enqueue_def Let_def waiting_ids_def is_queued_def)

lemma prompts_start_in_order_witness:
  "drain_loop (next_prompt True) 5 demo_actor = [''a'', ''b'']"
proof -
  have "waiting_ids demo_actor = [''a'', ''b'']"
    by (simp add: waiting_ids_def demo_actor_def demo_op_def enqueue_def Let_def actor_default_def is_queued_def)
  with prompts_start_in_order [OF demo_actor_queue(2), of 5 True] show ?thesis by simp
qed

text \<open>
  A terminal run is claimed once. \<open>finish_run\<close> acts only for the run recorded as active; after
  it acted, no further call claims any run until another run is marked running.
\<close>

theorem finish_run_claims_once:
  assumes "finish_run r ok a = (res, a')"
  shows "(res \<noteq> None \<longleftrightarrow> ac_running_run_id a = Some r)
    \<and> (res = None \<longrightarrow> a' = a)
    \<and> (res \<noteq> None \<longrightarrow> finish_run r' ok' a' = (None, a'))"
proof -
  have "ac_running_run_id (snd (finish_actor ok a)) = None"
  proof -
    have "ac_running_run_id (settle_running ok a) = None"
      by (simp add: settle_running_def Let_def)
    then show ?thesis
      by (auto simp: finish_actor_def take_next_def split: option.split elim!: pop_queued_Some)
  qed
  then show ?thesis using assms by (auto simp: finish_run_def split: prod.splits if_splits)
qed

lemma finish_run_claims_once_witness:
  "fst (finish_run ''r1'' True (mark_running ''r1'' ''p'' actor_default)) \<noteq> None
    \<and> fst (finish_run ''r1'' True (snd (finish_run ''r1'' True (mark_running ''r1'' ''p'' actor_default)))) = None"
proof -
  obtain res a' where f: "finish_run ''r1'' True (mark_running ''r1'' ''p'' actor_default) = (res, a')"
    by (cases "finish_run ''r1'' True (mark_running ''r1'' ''p'' actor_default)")
  have "ac_running_run_id (mark_running ''r1'' ''p'' actor_default) = Some ''r1''"
    by (simp add: mark_running_def actor_default_def)
  with finish_run_claims_once [OF f, of "''r1''" True] f show ?thesis by auto
qed

text \<open>
  The latest interjection wins and is injected once. Of several interjections before a safe
  point only the last is injected, there and at no later safe point; one that the host puts
  back after a failure does not replace a newer one; and an interjection goes before the queue.
\<close>

theorem latest_interjection_injected_once:
  "fst (on_safe_point p (interject y (interject x a))) = ActInject y
    \<and> ac_interjection (snd (on_safe_point p (interject y a))) = None
    \<and> fst (on_safe_point p' (snd (on_safe_point p (interject y a)))) \<noteq> ActInject z
    \<and> ac_interjection (restore_interjection x (interject y a)) = Some y
    \<and> ac_queue (snd (on_safe_point p (interject y a))) = ac_queue a"
proof -
  have "ac_interjection (snd (on_safe_point p (interject y a))) = None"
    by (simp add: on_safe_point_def interject_def bump_def)
  moreover from this have "fst (on_safe_point p' (snd (on_safe_point p (interject y a)))) \<noteq> ActInject z"
    by (simp add: on_safe_point_def [of p'] split: option.split)
  ultimately show ?thesis
    by (simp add: on_safe_point_def interject_def bump_def restore_interjection_def)
qed

text \<open>
  A reorder permutes the queue. For any order in which the hash map yields its values, the
  queue keeps exactly its items; those named come first, in the order named, and unknown ids
  are skipped.
\<close>

theorem reorder_permutes:
  assumes "distinct (queue_ids (ac_queue a))" and "distinct ids" and "\<And>xs. mset (iter xs) = mset xs"
  shows "mset (queue_ids (ac_queue (snd (reorder iter ids a)))) = mset (queue_ids (ac_queue a))
    \<and> (\<exists>others. queue_ids (ac_queue (snd (reorder iter ids a)))
          = filter (\<lambda>i. i \<in> set (queue_ids (ac_queue a))) ids @ others)"
proof
  show "mset (queue_ids (ac_queue (snd (reorder iter ids a)))) = mset (queue_ids (ac_queue a))"
    by (rule reorder_queue(1)) (use assms in auto)
  obtain ordered rest where r: "reorder_listed 0 ids (ac_queue a) = (ordered, rest)"
    by (cases "reorder_listed 0 ids (ac_queue a)")
  have "queue_ids (ac_queue (snd (reorder iter ids a)))
      = queue_ids ordered @ queue_ids (sort_key qi_position (iter rest))"
    using assms(1) by (simp add: reorder_def hash_collect_distinct r Let_def)
  with reorder_listed_ids [OF r assms(2,1)]
  show "\<exists>others. queue_ids (ac_queue (snd (reorder iter ids a)))
      = filter (\<lambda>i. i \<in> set (queue_ids (ac_queue a))) ids @ others" by auto
qed

lemma reorder_permutes_witness:
  "mset (queue_ids (ac_queue (snd (reorder rev [''b'', ''zz''] demo_actor)))) = mset [''a'', ''b'']
    \<and> (\<exists>others. queue_ids (ac_queue (snd (reorder rev [''b'', ''zz''] demo_actor))) = ''b'' # others)"
  using reorder_permutes [of demo_actor "[''b'', ''zz'']" rev] by (simp add: demo_actor_queue)

text \<open>
  A reorder that names an unknown id numbers two items alike. The position of a named item is
  its index in the request, unknown ids included, while the rest is numbered from the count of
  the named items that exist.
\<close>

theorem reorder_unknown_id_collides:
  assumes "ac_queue a = [x, y]" and "qi_id x \<noteq> qi_id y" and "u \<notin> {qi_id x, qi_id y}"
    and "\<And>xs. mset (iter xs) = mset xs"
  shows "List.map qi_position (ac_queue (snd (reorder iter [u, qi_id x] a))) = [1, 1]"
proof -
  have "mset (iter [y]) = {#y#}" using assms(4) by simp
  then have "iter [y] = [y]" by (metis mset.simps(1,2) mset_single_iff_right)
  with assms(1-3) show ?thesis by (auto simp: reorder_def Let_def)
qed

lemma reorder_unknown_id_collides_witness:
  "List.map qi_position (ac_queue (snd (reorder rev [''zz'', ''a''] demo_actor))) = [1, 1]"
proof -
  obtain x y where q: "ac_queue demo_actor = [x, y]" "qi_id x = ''a''" "qi_id y = ''b''"
    using demo_actor_queue(1) by (auto simp: queue_ids_def map_eq_Cons_conv)
  from reorder_unknown_id_collides [OF q(1), of "''zz''" rev] q(2,3) show ?thesis by simp
qed

text \<open>
  A second cancel-and-send forgets the first prompt. While a run is active, sending one queued
  prompt now and then another leaves the first neither in the queue nor pending: when the run
  ends, the second starts and the first is gone from the actor.
\<close>

theorem second_send_now_drops_first:
  assumes "ac_running_run_id a = Some r" and "ac_queue a = [x, y]" and "qi_id x \<noteq> qi_id y"
  defines "a2 \<equiv> snd (send_now (qi_id y) (snd (send_now (qi_id x) a)))"
  shows "ac_queue a2 = [] \<and> (\<exists>p. ac_after_cancel a2 = Some (set_position p y))
    \<and> (\<exists>p. fst (finish_actor ok a2) = ActStart (set_position p y))"
proof -
  have "ac_after_cancel a2 = Some (set_position 0 y)" "ac_queue a2 = []"
    using assms(1-3) by (simp_all add: a2_def send_now_def Let_def number_queue_def bump_def)
  moreover from this(1) have "ac_after_cancel (settle_running ok a2) = Some (set_position 0 y)"
    by (simp add: settle_running_def Let_def split: option.split)
  ultimately show ?thesis by (auto simp: finish_actor_def take_next_def)
qed

lemma second_send_now_drops_first_witness:
  "ac_queue (snd (send_now ''b'' (snd (send_now ''a'' (mark_running_item ''r1'' None ''p'' demo_actor))))) = []"
proof -
  define a where "a = mark_running_item ''r1'' None ''p'' demo_actor"
  have a: "ac_running_run_id a = Some ''r1''" "ac_queue a = ac_queue demo_actor"
    by (simp_all add: a_def mark_running_item_def Let_def)
  obtain x y where q: "ac_queue a = [x, y]" "qi_id x = ''a''" "qi_id y = ''b''"
    using demo_actor_queue(1) a(2) by (auto simp: queue_ids_def map_eq_Cons_conv)
  from second_send_now_drops_first [OF a(1) q(1)] q show ?thesis by (simp add: a_def)
qed

end
