(* ===== verification/Subagents.thy ===== *)
theory Subagents
  imports LifecycleAuthority "HOL-Library.AList"
begin

section \<open>Sub-agents: scope, budgets, reservations\<close>

text \<open>
  Models \<open>crates/agent-core/src/subagents.rs\<close>: how a child run's permission and tool surface are
  derived from its parent's, the failure policy, and the manager with its reservation ledger.
  The manager's three locks are always taken in sequence inside one async function; each
  function is one step here. Counters are the \<open>u32\<close>/\<open>u64\<close> of the code with its saturating
  operations. The table of agents is an association list, whose order stands for the order in
  which the hash map yields its values. Errors are values; the code's texts are formatted from
  their arguments.
\<close>

named_theorems sub_defs \<open>operations of the sub-agent manager\<close>

subsection \<open>Permission and tool surface of a child\<close>

definition default_subagent_tool_allowlist :: "string list" where
  "default_subagent_tool_allowlist = [''read_file'', ''list_dir'', ''grep'']"

definition permission_rank :: "string \<Rightarrow> nat" where
  "permission_rank profile =
     (let p = str_trim profile
      in if p = ''readonly'' \<or> p = ''read_only'' then 0
         else if p = ''full_access'' \<or> p = ''autonomous'' \<or> p = ''full'' then 2
         else 1)"

definition permission_label :: "nat \<Rightarrow> string" where
  "permission_label r = (if r = 0 then ''readonly'' else if r = 2 then ''full_access'' else ''ask'')"

definition cap_child_permission :: "string \<Rightarrow> string \<Rightarrow> string" where
  "cap_child_permission parent requested =
     permission_label (min (permission_rank parent) (permission_rank requested))"

definition tool_list_allows :: "string list \<Rightarrow> string \<Rightarrow> bool" where
  "tool_list_allows tools name \<longleftrightarrow>
     (if name \<in> set tools then True
      else if starts_with name ''mcp__'' then \<exists>t\<in>set tools. t = ''mcp_call'' \<or> t = name
      else False)"

definition non_empty_trim :: "string option \<Rightarrow> string option" where
  "non_empty_trim v = (case v of None \<Rightarrow> None | Some s \<Rightarrow> if str_trim s = [] then None else Some (str_trim s))"

definition resolve_child_permission :: "string \<Rightarrow> string option \<Rightarrow> string option \<Rightarrow> string" where
  "resolve_child_permission parent requested profile_mode =
     (let requested = (case non_empty_trim requested of None \<Rightarrow> ''ask'' | Some r \<Rightarrow> r);
          requested = (case non_empty_trim profile_mode of
             None \<Rightarrow> requested | Some mode \<Rightarrow> cap_child_permission requested mode)
      in cap_child_permission parent requested)"

text \<open>\<open>retain(|t| seen.insert(t))\<close>: the first of equal entries stays.\<close>

fun retain_first :: "'a set \<Rightarrow> 'a list \<Rightarrow> 'a list" where
  "retain_first seen [] = []"
| "retain_first seen (x # xs) =
     (if x \<in> seen then retain_first seen xs else x # retain_first (insert x seen) xs)"

definition resolve_child_tool_allowlist ::
  "string list option \<Rightarrow> string list option \<Rightarrow> string list option \<Rightarrow> string list option \<Rightarrow> string list" where
  "resolve_child_tool_allowlist parent requested profile_tools profile_disallowed =
     (let out = (case requested of
            Some r \<Rightarrow> r
          | None \<Rightarrow> (case profile_tools of
                Some tools \<Rightarrow> tools
              | None \<Rightarrow> (case parent of Some p \<Rightarrow> p | None \<Rightarrow> default_subagent_tool_allowlist)));
          out = (case profile_disallowed of
             None \<Rightarrow> out | Some denied \<Rightarrow> filter (\<lambda>tool. tool \<notin> set denied) out);
          out = (case parent of None \<Rightarrow> out | Some p \<Rightarrow> filter (tool_list_allows p) out)
      in retain_first {} out)"

subsection \<open>Failure policy\<close>

datatype failure_policy = Isolate | FailFast | RequireAll | Retry

datatype child_failure_effect = EffIsolate | EffFailParent | EffRetry

definition failure_policy_parse :: "string \<Rightarrow> failure_policy" where
  "failure_policy_parse s =
     (let t = ascii_lower (str_trim s)
      in if t = ''fail_fast'' \<or> t = ''failfast'' then FailFast
         else if t = ''require_all'' \<or> t = ''requireall'' then RequireAll
         else if t = ''retry'' \<or> t = ''retry_failed'' then Retry
         else Isolate)"

fun failure_policy_str :: "failure_policy \<Rightarrow> string" where
  "failure_policy_str Isolate = ''isolate''"
| "failure_policy_str FailFast = ''fail_fast''"
| "failure_policy_str RequireAll = ''require_all''"
| "failure_policy_str Retry = ''retry''"

fun on_child_failed :: "failure_policy \<Rightarrow> bool \<Rightarrow> u32 \<Rightarrow> child_failure_effect" where
  "on_child_failed Isolate all_terminal retries = EffIsolate"
| "on_child_failed FailFast all_terminal retries = EffFailParent"
| "on_child_failed RequireAll all_terminal retries = (if all_terminal then EffFailParent else EffIsolate)"
| "on_child_failed Retry all_terminal retries = (if 0 < retries then EffRetry else EffIsolate)"

subsection \<open>The manager\<close>

record sub_config =
  sc_max_concurrent :: u32
  sc_max_concurrent_global :: u32
  sc_max_concurrent_per_parent :: u32
  sc_max_tasks_per_parent_total :: u32
  sc_max_depth :: u32
  sc_max_tokens_per_sub :: u64
  sc_max_tokens_per_child :: u64
  sc_max_tokens_per_tree :: u64
  sc_max_tool_calls_per_child :: u32
  sc_max_tool_calls_per_tree :: u32
  sc_child_timeout_ms :: u64
  sc_failure_policy :: failure_policy

definition sub_config_default :: sub_config where
  "sub_config_default = \<lparr>sc_max_concurrent = 3, sc_max_concurrent_global = 3,
     sc_max_concurrent_per_parent = 3, sc_max_tasks_per_parent_total = 32, sc_max_depth = 5,
     sc_max_tokens_per_sub = 100000, sc_max_tokens_per_child = 100000, sc_max_tokens_per_tree = 500000,
     sc_max_tool_calls_per_child = 200, sc_max_tool_calls_per_tree = 1000,
     sc_child_timeout_ms = 600000, sc_failure_policy = Isolate\<rparr>"

record ledger =
  lg_concurrent_global :: u32
  lg_concurrent_per_parent :: "string \<rightharpoonup> u32"
  lg_tasks_per_parent :: "string \<rightharpoonup> u32"
  lg_tokens_child :: "string \<rightharpoonup> u64"
  lg_tokens_tree :: "string \<rightharpoonup> u64"
  lg_tools_child :: "string \<rightharpoonup> u32"
  lg_tools_tree :: "string \<rightharpoonup> u32"
  lg_depth_of :: "string \<rightharpoonup> u32"

datatype sub_status = SubQueued | SubRunning | SubCompleted | SubFailed string | SubCancelled

record sub_agent =
  sa_id :: string
  sa_run_id :: string
  sa_parent_run_id :: string
  sa_agent_profile_id :: "string option"
  sa_provider_id :: string
  sa_key_id :: string
  sa_model_id :: string
  sa_permission_profile :: string
  sa_tool_allowlist :: "string list"
  sa_task :: string
  sa_status :: sub_status
  sa_depth :: u32
  sa_created_at :: string
  sa_isolation_mode :: string
  sa_working_directory :: "string option"
  sa_resume_from :: "string option"

record sub_manager =
  sm_config :: sub_config
  sm_agents :: "(string \<times> sub_agent) list"
  sm_children :: "string \<rightharpoonup> string list"
  sm_ledger :: ledger

definition ledger_empty :: ledger where
  "ledger_empty = \<lparr>lg_concurrent_global = 0, lg_concurrent_per_parent = Map.empty,
     lg_tasks_per_parent = Map.empty, lg_tokens_child = Map.empty, lg_tokens_tree = Map.empty,
     lg_tools_child = Map.empty, lg_tools_tree = Map.empty, lg_depth_of = Map.empty\<rparr>"

text \<open>The caps \<open>new\<close> settles on: the stricter of the global cap and its legacy alias.\<close>

definition normalize_config :: "sub_config \<Rightarrow> sub_config" where
  "normalize_config cfg =
     (let cfg = (if sc_max_concurrent cfg = 0
            then cfg\<lparr>sc_max_concurrent := max (sc_max_concurrent_global cfg) 1\<rparr> else cfg);
          cfg = (if sc_max_concurrent_global cfg = 0
            then cfg\<lparr>sc_max_concurrent_global := max (sc_max_concurrent cfg) 1\<rparr> else cfg);
          cfg = cfg\<lparr>sc_max_concurrent_global := min (sc_max_concurrent_global cfg) (sc_max_concurrent cfg)\<rparr>
      in cfg\<lparr>sc_max_concurrent := sc_max_concurrent_global cfg\<rparr>)"

definition sub_manager_new :: "sub_config \<Rightarrow> sub_manager" where
  "sub_manager_new cfg = \<lparr>sm_config = normalize_config cfg, sm_agents = [], sm_children = Map.empty,
     sm_ledger = ledger_empty\<rparr>"

definition or_zero :: "'n::zero option \<Rightarrow> 'n" where
  "or_zero x = (case x of None \<Rightarrow> 0 | Some n \<Rightarrow> n)"

definition depth_for_child :: "string \<Rightarrow> ledger \<Rightarrow> u32" where
  "depth_for_child parent l = or_zero (lg_depth_of l parent) + 1"

definition register_root_depth :: "string \<Rightarrow> ledger \<Rightarrow> ledger" where
  "register_root_depth run_id l =
     (case lg_depth_of l run_id of
        Some _ \<Rightarrow> l
      | None \<Rightarrow> l\<lparr>lg_depth_of := (lg_depth_of l)(run_id \<mapsto> 0)\<rparr>)"

datatype sub_error =
    SuMaxConcurrent u32 u32
  | SuMaxPerParent u32
  | SuMaxTasks u32
  | SuChildTokens u64 u64
  | SuTreeTokens u64 u64
  | SuChildTools u32 u32
  | SuTreeTools u32 u32
  | SuSelfParent
  | SuCycle
  | SuBlocksAncestor
  | SuMissingIdentity
  | SuMissingId
  | SuMaxDepth u32 u32
  | SuNotFound string

text \<open>\<open>reserve_batch\<close>: all checks first, then the three counters together.\<close>

definition reserve_batch :: "sub_config \<Rightarrow> string \<Rightarrow> u32 \<Rightarrow> ledger \<Rightarrow> (sub_error + unit) \<times> ledger" where
  "reserve_batch cfg parent n l =
     (if n = 0 then (Inr (), l)
      else (let cap = max (sc_max_concurrent_global cfg) (sc_max_concurrent cfg);
                per_parent = or_zero (lg_concurrent_per_parent l parent);
                total = or_zero (lg_tasks_per_parent l parent)
            in if cap < sat_add (lg_concurrent_global l) n then (Inl (SuMaxConcurrent cap n), l)
               else if sc_max_concurrent_per_parent cfg < sat_add per_parent n
               then (Inl (SuMaxPerParent (sc_max_concurrent_per_parent cfg)), l)
               else if sc_max_tasks_per_parent_total cfg < sat_add total n
               then (Inl (SuMaxTasks (sc_max_tasks_per_parent_total cfg)), l)
               else (Inr (), l\<lparr>lg_concurrent_global := sat_add (lg_concurrent_global l) n,
                      lg_concurrent_per_parent := (lg_concurrent_per_parent l)(parent \<mapsto> per_parent + n),
                      lg_tasks_per_parent := (lg_tasks_per_parent l)(parent \<mapsto> total + n)\<rparr>)))"

definition release_batch_reservation :: "string \<Rightarrow> u32 \<Rightarrow> ledger \<Rightarrow> ledger" where
  "release_batch_reservation parent n l =
     (if n = 0 then l
      else l\<lparr>lg_concurrent_global := sat_sub (lg_concurrent_global l) n,
             lg_concurrent_per_parent := (case lg_concurrent_per_parent l parent of
                None \<Rightarrow> lg_concurrent_per_parent l
              | Some v \<Rightarrow> (lg_concurrent_per_parent l)(parent \<mapsto> sat_sub v n)),
             lg_tasks_per_parent := (case lg_tasks_per_parent l parent of
                None \<Rightarrow> lg_tasks_per_parent l
              | Some v \<Rightarrow> (lg_tasks_per_parent l)(parent \<mapsto> sat_sub v n))\<rparr>)"

definition release_concurrent_slot :: "string \<Rightarrow> ledger \<Rightarrow> ledger" where
  "release_concurrent_slot parent l =
     l\<lparr>lg_concurrent_global := sat_sub (lg_concurrent_global l) 1,
       lg_concurrent_per_parent := (case lg_concurrent_per_parent l parent of
          None \<Rightarrow> lg_concurrent_per_parent l
        | Some v \<Rightarrow> (lg_concurrent_per_parent l)(parent \<mapsto> sat_sub v 1))\<rparr>"

definition settle_tokens :: "sub_config \<Rightarrow> string \<Rightarrow> string \<Rightarrow> u64 \<Rightarrow> ledger \<Rightarrow> (sub_error + unit) \<times> ledger" where
  "settle_tokens cfg child root tokens l =
     (let used = sat_add (or_zero (lg_tokens_child l child)) tokens;
          l = l\<lparr>lg_tokens_child := (lg_tokens_child l)(child \<mapsto> used)\<rparr>;
          cap = min (sc_max_tokens_per_child cfg) (sc_max_tokens_per_sub cfg)
      in if cap < used then (Inl (SuChildTokens used cap), l)
         else (let tree = sat_add (or_zero (lg_tokens_tree l root)) tokens;
                   l = l\<lparr>lg_tokens_tree := (lg_tokens_tree l)(root \<mapsto> tree)\<rparr>
               in if sc_max_tokens_per_tree cfg < tree
                  then (Inl (SuTreeTokens tree (sc_max_tokens_per_tree cfg)), l)
                  else (Inr (), l)))"

definition consume_tool_call :: "sub_config \<Rightarrow> string \<Rightarrow> string \<Rightarrow> ledger \<Rightarrow> (sub_error + unit) \<times> ledger" where
  "consume_tool_call cfg child root l =
     (let used = sat_add (or_zero (lg_tools_child l child)) 1;
          l = l\<lparr>lg_tools_child := (lg_tools_child l)(child \<mapsto> used)\<rparr>
      in if sc_max_tool_calls_per_child cfg < used
         then (Inl (SuChildTools used (sc_max_tool_calls_per_child cfg)), l)
         else (let tree = sat_add (or_zero (lg_tools_tree l root)) 1;
                   l = l\<lparr>lg_tools_tree := (lg_tools_tree l)(root \<mapsto> tree)\<rparr>
               in if sc_max_tool_calls_per_tree cfg < tree
                  then (Inl (SuTreeTools tree (sc_max_tool_calls_per_tree cfg)), l)
                  else (Inr (), l)))"

subsection \<open>Parents and children\<close>

definition agent_of_run :: "(string \<times> sub_agent) list \<Rightarrow> string \<Rightarrow> sub_agent option" where
  "agent_of_run agents run_id = List.find (\<lambda>a. sa_run_id a = run_id) (List.map snd agents)"

text \<open>The walk up the parents; each further step visits a run id of the table not seen before.\<close>

function cycle_walk ::
  "(string \<times> sub_agent) list \<Rightarrow> string \<Rightarrow> string set \<Rightarrow> string \<Rightarrow> sub_error + unit" where
  "cycle_walk agents child seen i =
     (if i \<in> seen then Inl SuCycle
      else if i = child then Inl SuBlocksAncestor
      else (case agent_of_run agents i of
              None \<Rightarrow> Inr ()
            | Some a \<Rightarrow> cycle_walk agents child (insert i seen) (sa_parent_run_id a)))"
  by pat_completeness auto
termination
proof (relation "measure (\<lambda>(agents, child, seen, i). card (sa_run_id ` snd ` set agents - seen))")
  fix agents child seen i a
  assume "i \<notin> seen" "agent_of_run agents i = Some a"
  then have "i \<in> sa_run_id ` snd ` set agents - seen"
    by (force simp: agent_of_run_def find_Some_iff in_set_conv_nth)
  then have "card (sa_run_id ` snd ` set agents - insert i seen) < card (sa_run_id ` snd ` set agents - seen)"
    by (intro psubset_card_mono) auto
  then show "((agents, child, insert i seen, sa_parent_run_id a), agents, child, seen, i)
      \<in> measure (\<lambda>(agents, child, seen, i). card (sa_run_id ` snd ` set agents - seen))" by simp
qed simp

declare cycle_walk.simps [simp del]

definition assert_no_parent_cycle ::
  "(string \<times> sub_agent) list \<Rightarrow> string \<Rightarrow> string \<Rightarrow> sub_error + unit" where
  "assert_no_parent_cycle agents parent child =
     (if parent = child then Inl SuSelfParent else cycle_walk agents child {} parent)"

text \<open>The fields of a new child that the caller provides.\<close>

record child_scope =
  cs_task :: string
  cs_depth :: u32
  cs_provider_id :: string
  cs_key_id :: string
  cs_model_id :: string
  cs_permission_profile :: string
  cs_tool_allowlist :: "string list"
  cs_agent_profile_id :: "string option"
  cs_isolation_mode :: "string option"
  cs_working_directory :: "string option"

definition new_child :: "string \<Rightarrow> string \<Rightarrow> string \<Rightarrow> string \<Rightarrow> u32 \<Rightarrow> child_scope \<Rightarrow> sub_agent" where
  "new_child now i run_id parent depth c =
     \<lparr>sa_id = i, sa_run_id = run_id, sa_parent_run_id = parent,
      sa_agent_profile_id = cs_agent_profile_id c, sa_provider_id = cs_provider_id c,
      sa_key_id = cs_key_id c, sa_model_id = cs_model_id c,
      sa_permission_profile = cs_permission_profile c, sa_tool_allowlist = cs_tool_allowlist c,
      sa_task = cs_task c, sa_status = SubQueued, sa_depth = depth, sa_created_at = now,
      sa_isolation_mode = (case cs_isolation_mode c of Some m \<Rightarrow> m | None \<Rightarrow> ''none''),
      sa_working_directory = cs_working_directory c, sa_resume_from = None\<rparr>"

definition register ::
  "string \<Rightarrow> string \<Rightarrow> string \<Rightarrow> string \<Rightarrow> child_scope \<Rightarrow> sub_manager \<Rightarrow> (sub_error + sub_agent) \<times> sub_manager" where
  "register now i run_id parent c m =
     (if str_trim (cs_provider_id c) = [] \<or> str_trim (cs_key_id c) = [] \<or> str_trim (cs_model_id c) = []
      then (Inl SuMissingIdentity, m)
      else if str_trim i = [] \<or> str_trim run_id = [] then (Inl SuMissingId, m)
      else case assert_no_parent_cycle (sm_agents m) parent run_id of
        Inl e \<Rightarrow> (Inl e, m)
      | Inr _ \<Rightarrow>
          (let parent_depth = or_zero (lg_depth_of (sm_ledger m) parent);
               depth = max (cs_depth c) (sat_add parent_depth 1)
           in if sc_max_depth (sm_config m) < depth
              then (Inl (SuMaxDepth (sc_max_depth (sm_config m)) depth), m)
              else case reserve_batch (sm_config m) parent 1 (sm_ledger m) of
                (Inl e, l) \<Rightarrow> (Inl e, m\<lparr>sm_ledger := l\<rparr>)
              | (Inr _, l) \<Rightarrow>
                  (let sub = new_child now i run_id parent depth c
                   in (Inr sub, m\<lparr>sm_agents := AList.update i sub (sm_agents m),
                         sm_ledger := l\<lparr>lg_depth_of := (lg_depth_of l)(run_id \<mapsto> depth)\<rparr>,
                         sm_children := (sm_children m)(parent \<mapsto>
                           (case sm_children m parent of None \<Rightarrow> [] | Some is \<Rightarrow> is) @ [i])\<rparr>))))"

text \<open>\<open>spawn\<close>: \<open>register\<close> with two fresh ids.\<close>

definition spawn ::
  "string \<Rightarrow> string \<times> string \<Rightarrow> string \<Rightarrow> child_scope \<Rightarrow> sub_manager \<Rightarrow> (sub_error + sub_agent) \<times> sub_manager" where
  "spawn now ids parent c m = register now (fst ids) (snd ids) parent c m"

definition get_agent :: "string \<Rightarrow> sub_manager \<Rightarrow> sub_agent option" where
  "get_agent i m = map_of (sm_agents m) i"

definition get_children :: "string \<Rightarrow> sub_manager \<Rightarrow> sub_agent list" where
  "get_children parent m =
     (case sm_children m parent of
        None \<Rightarrow> [] | Some is \<Rightarrow> List.map_filter (\<lambda>i. get_agent i m) is)"

text \<open>
  \<open>list_descendants\<close>: the queue is a stack whose top is the head of \<open>queue\<close>; a run is expanded
  once. The children map has finitely many entries, listed by \<open>keys\<close>, for the termination.
\<close>

function descend ::
  "string list \<Rightarrow> sub_manager \<Rightarrow> string list \<Rightarrow> string set \<Rightarrow> sub_agent list \<Rightarrow> sub_agent list" where
  "descend keys m [] seen out = out"
| "descend keys m (pid # queue) seen out =
     (if pid \<in> seen then descend keys m queue seen out
      else if pid \<notin> set keys then descend keys m queue (insert pid seen) out
      else (let cs = get_children pid m
            in descend keys m (rev (List.map sa_run_id cs) @ queue) (insert pid seen) (out @ cs)))"
  by pat_completeness auto
termination
proof (relation "measures [\<lambda>(keys, m, queue, seen, out). card (set keys - seen),
    \<lambda>(keys, m, queue, seen, out). length queue]", goal_cases)
  case (4 keys m pid queue seen out cs)
  then have "card (set keys - insert pid seen) < card (set keys - seen)"
    by (intro psubset_card_mono) auto
  then show ?case by simp
next
  case (3 keys m pid queue seen out)
  then have "set keys - insert pid seen = set keys - seen" by auto
  then show ?case by simp
qed simp_all

declare descend.simps [simp del]

definition list_descendants :: "string list \<Rightarrow> string \<Rightarrow> sub_manager \<Rightarrow> sub_agent list" where
  "list_descendants keys parent m = descend keys m [parent] {} []"

definition sub_terminal :: "sub_status \<Rightarrow> bool" where
  "sub_terminal st \<longleftrightarrow> (case st of SubCompleted \<Rightarrow> True | SubFailed _ \<Rightarrow> True | SubCancelled \<Rightarrow> True | _ \<Rightarrow> False)"

definition sub_active :: "sub_status \<Rightarrow> bool" where
  "sub_active st \<longleftrightarrow> st = SubQueued \<or> st = SubRunning"

definition update_status :: "string \<Rightarrow> sub_status \<Rightarrow> sub_manager \<Rightarrow> (sub_error + unit) \<times> sub_manager" where
  "update_status i status m =
     (case get_agent i m of
        None \<Rightarrow> (Inl (SuNotFound i), m)
      | Some agent \<Rightarrow>
          (let m' = m\<lparr>sm_agents := AList.update i (agent\<lparr>sa_status := status\<rparr>) (sm_agents m)\<rparr>
           in (Inr (), if sub_active (sa_status agent) \<and> sub_terminal status
                       then m'\<lparr>sm_ledger := release_concurrent_slot (sa_parent_run_id agent) (sm_ledger m')\<rparr>
                       else m')))"

definition update_run_id :: "string \<Rightarrow> string \<Rightarrow> sub_manager \<Rightarrow> (sub_error + unit) \<times> sub_manager" where
  "update_run_id i new_run_id m =
     (case get_agent i m of
        None \<Rightarrow> (Inl (SuNotFound i), m)
      | Some agent \<Rightarrow>
          (if sa_run_id agent = new_run_id then (Inr (), m)
           else (let l = sm_ledger m
                 in (Inr (), m\<lparr>sm_agents := AList.update i (agent\<lparr>sa_run_id := new_run_id\<rparr>) (sm_agents m),
                      sm_ledger := (case lg_depth_of l (sa_run_id agent) of
                         None \<Rightarrow> l
                       | Some d \<Rightarrow> l\<lparr>lg_depth_of := ((lg_depth_of l)(sa_run_id agent := None))(new_run_id \<mapsto> d)\<rparr>)\<rparr>))))"

text \<open>The loop of \<open>cascade_cancel_metadata\<close> over the descendants it listed before.\<close>

fun cascade :: "sub_agent list \<Rightarrow> sub_manager \<Rightarrow> nat \<Rightarrow> nat \<times> sub_manager" where
  "cascade [] m count = (count, m)"
| "cascade (d # ds) m count =
     (case get_agent (sa_id d) m of
        None \<Rightarrow> cascade ds m count
      | Some a \<Rightarrow>
          (if sub_terminal (sa_status a) then cascade ds m count
           else cascade ds (snd (update_status (sa_id d) SubCancelled m)) (count + 1)))"

definition cascade_cancel_metadata :: "string list \<Rightarrow> string \<Rightarrow> sub_manager \<Rightarrow> nat \<times> sub_manager" where
  "cascade_cancel_metadata keys parent m = cascade (list_descendants keys parent m) m 0"

definition active_agents :: "sub_manager \<Rightarrow> sub_agent list" where
  "active_agents m = filter (\<lambda>a. sub_active (sa_status a)) (List.map snd (sm_agents m))"

definition active_count :: "sub_manager \<Rightarrow> nat" where
  "active_count m = length (active_agents m)"

definition running_count :: "sub_manager \<Rightarrow> nat" where
  "running_count m = length (filter (\<lambda>a. sa_status a = SubRunning) (List.map snd (sm_agents m)))"

subsection \<open>Budgets\<close>

lemma drive_last: "drive f (qs @ [q]) s = (outs, s') \<Longrightarrow> \<exists>outs1 s1 out. f q s1 = (out, s') \<and> outs = outs1 @ [out]"
proof (induction qs arbitrary: s outs)
  case Nil
  then show ?case by (auto simp: Let_def split: prod.splits)
next
  case (Cons p qs)
  then show ?case by (fastforce simp: Let_def split: prod.splits)
qed

lemma drive_snoc:
  assumes "drive f (qs @ [q]) s = (outs, s')"
  obtains outs1 s1 out where "f q s1 = (out, s')" "outs = outs1 @ [out]"
  using drive_last [OF assms] that by blast

text \<open>
  The contract the engine relies on before it lets a child spend: what was used never shrinks, and
  a charge to the account is only accepted while its total stays within the limit. Charges to other
  accounts may come in between.
\<close>

locale budget =
  fixes charge :: "'q \<Rightarrow> 's \<Rightarrow> ('e + unit) \<times> 's"
    and mine :: "'q \<Rightarrow> bool"
    and used :: "'s \<Rightarrow> nat"
    and limit :: nat
  assumes used_mono: "used s \<le> used (snd (charge q s))"
    and ok_within: "mine q \<Longrightarrow> charge q s = (Inr u, s') \<Longrightarrow> used s' \<le> limit"
begin

lemma drive_mono: "drive charge qs s = (outs, s') \<Longrightarrow> used s \<le> used s'"
proof (induction qs arbitrary: s outs)
  case (Cons q qs)
  obtain out s1 where one: "charge q s = (out, s1)" by (cases "charge q s")
  obtain outs1 s2 where rest: "drive charge qs s1 = (outs1, s2)" by (cases "drive charge qs s1")
  from Cons one rest used_mono [of s q] show ?case by (auto intro: le_trans)
qed simp

lemma accepted_within:
  assumes "drive charge (qs @ [q]) s = (outs, s')" and "mine q" and "\<not> isl (last outs)"
  shows "used s' \<le> limit"
proof -
  from assms(1) obtain outs1 s1 out where "charge q s1 = (out, s')" "outs = outs1 @ [out]"
    by (rule drive_snoc)
  then show ?thesis using assms(2,3) ok_within [of q s1] by (cases out) auto
qed

text \<open>Once the limit is passed, no charge to the account is accepted any more.\<close>

lemma exhausted:
  assumes "limit < used s" and "drive charge (qs @ [q]) s = (outs, s')" and "mine q"
  shows "isl (last outs)"
  using accepted_within [OF assms(2,3)] drive_mono [OF assms(2)] assms(1) by auto

end

text \<open>Charging tokens and tool calls to the children of a tree, in any order.\<close>

definition child_token_cap :: "sub_config \<Rightarrow> nat" where
  "child_token_cap cfg = unat (min (sc_max_tokens_per_child cfg) (sc_max_tokens_per_sub cfg))"

definition token_charge :: "sub_config \<Rightarrow> string \<Rightarrow> string \<times> u64 \<Rightarrow> ledger \<Rightarrow> (sub_error + unit) \<times> ledger" where
  "token_charge cfg root q = (case q of (child, n) \<Rightarrow> settle_tokens cfg child root n)"

definition tool_charge :: "sub_config \<Rightarrow> string \<Rightarrow> string \<Rightarrow> ledger \<Rightarrow> (sub_error + unit) \<times> ledger" where
  "tool_charge cfg root child = consume_tool_call cfg child root"

text \<open>A charge that its child's own cap does not refuse is booked on the tree as well.\<close>

definition reaches_tree :: "sub_error + unit \<Rightarrow> bool" where
  "reaches_tree out = (case out of Inl (SuChildTokens _ _) \<Rightarrow> False | Inl (SuChildTools _ _) \<Rightarrow> False | _ \<Rightarrow> True)"

lemma counter_top: "unat (x :: u64) \<le> 18446744073709551615" "unat (y :: u32) \<le> 4294967295"
  using unsigned_less [of x, where 'a = nat] unsigned_less [of y, where 'a = nat] by simp_all

lemma capped_add: "min (min a m + b) m = min (a + b) m" for a :: nat
  by (simp add: min_def)

lemma token_charge_step:
  assumes "token_charge cfg root (child, n) l = (out, l')"
  shows "unat (or_zero (lg_tokens_child l' c)) =
      (if c = child then min (unat (or_zero (lg_tokens_child l c)) + unat n) (2 ^ 64 - 1) else unat (or_zero (lg_tokens_child l c)))"
    and "unat (or_zero (lg_tokens_tree l' root)) =
      (if reaches_tree out then min (unat (or_zero (lg_tokens_tree l root)) + unat n) (2 ^ 64 - 1) else unat (or_zero (lg_tokens_tree l root)))"
    and "\<not> isl out \<longleftrightarrow> unat (or_zero (lg_tokens_child l' child)) \<le> child_token_cap cfg
      \<and> unat (or_zero (lg_tokens_tree l' root)) \<le> unat (sc_max_tokens_per_tree cfg)"
  using assms
  by (auto simp: token_charge_def settle_tokens_def Let_def reaches_tree_def child_token_cap_def or_zero_def word_le_nat_alt
      not_less word_less_nat_alt sat_simps split: if_splits)

lemma tool_charge_step:
  assumes "tool_charge cfg root child l = (out, l')"
  shows "unat (or_zero (lg_tools_child l' c)) =
      (if c = child then min (unat (or_zero (lg_tools_child l c)) + 1) (2 ^ 32 - 1) else unat (or_zero (lg_tools_child l c)))"
    and "unat (or_zero (lg_tools_tree l' root)) =
      (if reaches_tree out then min (unat (or_zero (lg_tools_tree l root)) + 1) (2 ^ 32 - 1) else unat (or_zero (lg_tools_tree l root)))"
    and "\<not> isl out \<longleftrightarrow> unat (or_zero (lg_tools_child l' child)) \<le> unat (sc_max_tool_calls_per_child cfg)
      \<and> unat (or_zero (lg_tools_tree l' root)) \<le> unat (sc_max_tool_calls_per_tree cfg)"
  using assms
  by (auto simp: tool_charge_def consume_tool_call_def Let_def reaches_tree_def or_zero_def word_le_nat_alt
      not_less word_less_nat_alt sat_simps split: if_splits)

lemma token_charges_counted:
  "drive (token_charge cfg root) qs l = (outs, l') \<Longrightarrow>
     unat (or_zero (lg_tokens_child l' c)) =
       min (unat (or_zero (lg_tokens_child l c)) + (\<Sum>(child, n)\<leftarrow>qs. if child = c then unat n else 0)) (2 ^ 64 - 1)
     \<and> unat (or_zero (lg_tokens_tree l' root)) =
       min (unat (or_zero (lg_tokens_tree l root)) + (\<Sum>((child, n), out)\<leftarrow>zip qs outs. if reaches_tree out then unat n else 0)) (2 ^ 64 - 1)"
proof (induction qs arbitrary: l outs)
  case Nil
  then show ?case by (simp add: min_absorb1 counter_top)
next
  case (Cons q qs)
  obtain child n where q: "q = (child, n)" by (cases q)
  obtain out l1 where one: "token_charge cfg root q l = (out, l1)" by (cases "token_charge cfg root q l")
  obtain outs1 l2 where rest: "drive (token_charge cfg root) qs l1 = (outs1, l2)" by (cases "drive (token_charge cfg root) qs l1")
  have outs: "outs = out # outs1" "l' = l2" using Cons.prems one rest by simp_all
  show ?case using Cons.IH [OF rest [folded outs(2)]] token_charge_step(1,2) [OF one [unfolded q]] by (auto simp: outs(1) q capped_add add.assoc)
qed

lemma tool_charges_counted:
  "drive (tool_charge cfg root) cs l = (outs, l') \<Longrightarrow>
     unat (or_zero (lg_tools_child l' c)) = min (unat (or_zero (lg_tools_child l c)) + count_list cs c) (2 ^ 32 - 1)
     \<and> unat (or_zero (lg_tools_tree l' root)) =
       min (unat (or_zero (lg_tools_tree l root)) + length (filter reaches_tree outs)) (2 ^ 32 - 1)"
proof (induction cs arbitrary: l outs)
  case Nil
  then show ?case by (simp add: min_absorb1 counter_top)
next
  case (Cons q cs)
  obtain out l1 where one: "tool_charge cfg root q l = (out, l1)" by (cases "tool_charge cfg root q l")
  obtain outs1 l2 where rest: "drive (tool_charge cfg root) cs l1 = (outs1, l2)" by (cases "drive (tool_charge cfg root) cs l1")
  have outs: "outs = out # outs1" "l' = l2" using Cons.prems one rest by simp_all
  show ?case using Cons.IH [OF rest [folded outs(2)]] tool_charge_step(1,2) [OF one] by (auto simp: outs(1) capped_add add.assoc)
qed

interpretation tok: budget "token_charge cfg root" "\<lambda>q. fst q = child"
    "\<lambda>l. unat (or_zero (lg_tokens_child l child))" "child_token_cap cfg" for cfg child root
proof
  fix q :: "string \<times> u64" and l
  show "unat (or_zero (lg_tokens_child l child)) \<le> unat (or_zero (lg_tokens_child (snd (token_charge cfg root q l)) child))"
    using token_charge_step(1) [of cfg root "fst q" "snd q" l, OF prod.collapse [symmetric], of child] by (simp add: counter_top)
next
  fix q :: "string \<times> u64" and l u l'
  assume "fst q = child" "token_charge cfg root q l = (Inr u, l')"
  then show "unat (or_zero (lg_tokens_child l' child)) \<le> child_token_cap cfg"
    using token_charge_step(3) [of cfg root "fst q" "snd q" l "Inr u" l'] by (cases q) simp
qed

interpretation tok_tree: budget "token_charge cfg root" "\<lambda>_. True"
    "\<lambda>l. unat (or_zero (lg_tokens_tree l root))" "unat (sc_max_tokens_per_tree cfg)" for cfg root
proof
  fix q :: "string \<times> u64" and l
  show "unat (or_zero (lg_tokens_tree l root)) \<le> unat (or_zero (lg_tokens_tree (snd (token_charge cfg root q l)) root))"
    using token_charge_step(2) [of cfg root "fst q" "snd q" l, OF prod.collapse [symmetric]] by (simp add: counter_top)
next
  fix q :: "string \<times> u64" and l u l'
  assume "token_charge cfg root q l = (Inr u, l')"
  then show "unat (or_zero (lg_tokens_tree l' root)) \<le> unat (sc_max_tokens_per_tree cfg)"
    using token_charge_step(3) [of cfg root "fst q" "snd q" l "Inr u" l'] by (cases q) simp
qed

interpretation tools: budget "tool_charge cfg root" "\<lambda>q. q = child"
    "\<lambda>l. unat (or_zero (lg_tools_child l child))" "unat (sc_max_tool_calls_per_child cfg)" for cfg child root
proof
  fix q l
  show "unat (or_zero (lg_tools_child l child)) \<le> unat (or_zero (lg_tools_child (snd (tool_charge cfg root q l)) child))"
    using tool_charge_step(1) [of cfg root q l, OF prod.collapse [symmetric], of child]
      counter_top(2) [of "or_zero (lg_tools_child l child)"] by (auto simp: min_def)
next
  fix q l u l'
  assume "q = child" "tool_charge cfg root q l = (Inr u, l')"
  then show "unat (or_zero (lg_tools_child l' child)) \<le> unat (sc_max_tool_calls_per_child cfg)"
    using tool_charge_step(3) [of cfg root q l "Inr u" l'] by simp
qed

interpretation tools_tree: budget "tool_charge cfg root" "\<lambda>_. True"
    "\<lambda>l. unat (or_zero (lg_tools_tree l root))" "unat (sc_max_tool_calls_per_tree cfg)" for cfg root
proof
  fix q l
  show "unat (or_zero (lg_tools_tree l root)) \<le> unat (or_zero (lg_tools_tree (snd (tool_charge cfg root q l)) root))"
    using tool_charge_step(2) [of cfg root q l, OF prod.collapse [symmetric]]
      counter_top(2) [of "or_zero (lg_tools_tree l root)"] by (auto simp: min_def)
next
  fix q l u l'
  assume "tool_charge cfg root q l = (Inr u, l')"
  then show "unat (or_zero (lg_tools_tree l' root)) \<le> unat (sc_max_tool_calls_per_tree cfg)"
    using tool_charge_step(3) [of cfg root q l "Inr u" l'] by simp
qed

subsection \<open>Cycles\<close>

text \<open>The runs on the way up from \<open>i\<close>, as far as the table knows them.\<close>

inductive above :: "(string \<times> sub_agent) list \<Rightarrow> string \<Rightarrow> string \<Rightarrow> bool" for agents where
  above_self: "above agents i i"
| above_step: "agent_of_run agents i = Some a \<Longrightarrow> above agents (sa_parent_run_id a) j \<Longrightarrow> above agents i j"

inductive_cases aboveE: "above agents i j"

lemma cycle_walk_sound:
  "cycle_walk agents child seen i = Inr () \<Longrightarrow> above agents i j \<Longrightarrow> j \<noteq> child \<and> j \<notin> seen"
proof (induction agents child seen i rule: cycle_walk.induct)
  case (1 agents child seen i)
  from "1.prems"(1) have i: "i \<notin> seen" "i \<noteq> child"
    by (auto simp: cycle_walk.simps [of agents child seen i] split: if_splits)
  from "1.prems"(2) show ?case
  proof (rule aboveE)
    assume "j = i"
    with i show ?thesis by simp
  next
    fix a assume 2: "agent_of_run agents i = Some a" "above agents (sa_parent_run_id a) j"
    with "1.prems"(1) i have "cycle_walk agents child (insert i seen) (sa_parent_run_id a) = Inr ()"
      by (simp add: cycle_walk.simps [of agents child seen i])
    from "1.IH" [OF i 2(1) this 2(2)] show ?thesis by blast
  qed
qed

lemma cycle_walk_seen:
  assumes "cycle_walk agents child seen i = Inr ()" and "above agents i j"
    and "agent_of_run agents j = Some a"
  shows "\<exists>seen'. j \<in> seen' \<and> cycle_walk agents child seen' (sa_parent_run_id a) = Inr ()"
  using assms
proof (induction agents child seen i rule: cycle_walk.induct)
  case (1 agents child seen i)
  from "1.prems"(1) have i: "i \<notin> seen" "i \<noteq> child"
    by (auto simp: cycle_walk.simps [of agents child seen i] split: if_splits)
  have step: "cycle_walk agents child (insert i seen) (sa_parent_run_id b) = Inr ()"
    if "agent_of_run agents i = Some b" for b
    using "1.prems"(1) i that by (simp add: cycle_walk.simps [of agents child seen i])
  from "1.prems"(2) show ?case
  proof (rule aboveE)
    assume "j = i"
    with step "1.prems"(3) show ?thesis by blast
  next
    fix b assume 2: "agent_of_run agents i = Some b" "above agents (sa_parent_run_id b) j"
    from "1.IH" [OF i 2(1) step [OF 2(1)] 2(2) "1.prems"(3)] show ?thesis .
  qed
qed

lemma cycle_walk_acyclic:
  assumes "cycle_walk agents child seen i = Inr ()" and "above agents i j"
    and "agent_of_run agents j = Some a"
  shows "\<not> above agents (sa_parent_run_id a) j"
proof
  assume up: "above agents (sa_parent_run_id a) j"
  from cycle_walk_seen [OF assms] obtain seen' where "j \<in> seen'"
    "cycle_walk agents child seen' (sa_parent_run_id a) = Inr ()" by blast
  with cycle_walk_sound [OF _ up] show False by blast
qed

lemma above_trans: "above agents i j \<Longrightarrow> above agents j k \<Longrightarrow> above agents i k"
  by (induction rule: above.induct) (auto intro: above_step)

lemma cycle_walk_complete:
  "cycle_walk agents child seen i = Inl e \<Longrightarrow>
     (e = SuBlocksAncestor \<and> above agents i child) \<or> (e = SuCycle \<and> (\<exists>j. above agents i j \<and> (j \<in> seen \<or>
        (\<exists>a. agent_of_run agents j = Some a \<and> above agents (sa_parent_run_id a) j))))"
proof (induction agents child seen i rule: cycle_walk.induct)
  case (1 agents child seen i)
  show ?case
  proof (cases "i \<in> seen \<or> i = child")
    case True
    with "1.prems" show ?thesis
      by (auto simp: cycle_walk.simps [of agents child seen i] intro: above_self split: if_splits)
  next
    case False
    with "1.prems" obtain a where a: "agent_of_run agents i = Some a"
      "cycle_walk agents child (insert i seen) (sa_parent_run_id a) = Inl e"
      by (auto simp: cycle_walk.simps [of agents child seen i] split: option.splits)
    from False "1.IH" [OF _ _ a] above_step [OF a(1)] a(1) show ?thesis
      by (metis insert_iff)
  qed
qed

subsection \<open>The reservation ledger\<close>

definition caps_ok :: "sub_config \<Rightarrow> bool" where
  "caps_ok cfg \<longleftrightarrow> sc_max_concurrent_global cfg = sc_max_concurrent cfg \<and> sc_max_concurrent_global cfg \<noteq> - 1"

text \<open>
  The slots in use are the active agents, in total and per parent, and they respect both caps.
\<close>

definition slots_wf :: "sub_manager \<Rightarrow> bool" where
  "slots_wf m \<longleftrightarrow> caps_ok (sm_config m) \<and> distinct (List.map fst (sm_agents m))
     \<and> unat (lg_concurrent_global (sm_ledger m)) = active_count m
     \<and> (\<forall>p. unat (or_zero (lg_concurrent_per_parent (sm_ledger m) p))
            = length (filter (\<lambda>a. sa_parent_run_id a = p) (active_agents m)))
     \<and> active_count m \<le> unat (sc_max_concurrent_global (sm_config m))
     \<and> (\<forall>p. length (filter (\<lambda>a. sa_parent_run_id a = p) (active_agents m))
            \<le> unat (sc_max_concurrent_per_parent (sm_config m)))"

lemma update_fresh: "i \<notin> fst ` set al \<Longrightarrow> AList.update i v al = al @ [(i, v)]"
  by (induction al) auto

lemma update_split:
  assumes "distinct (List.map fst al)" and "map_of al i = Some a"
  shows "\<exists>xs ys. al = xs @ (i, a) # ys \<and> (\<forall>v. AList.update i v al = xs @ (i, v) # ys)"
  using assms
proof (induction al)
  case (Cons kv al)
  obtain k w where kv: "kv = (k, w)" by (cases kv)
  show ?case
  proof (cases "k = i")
    case True
    with Cons.prems kv show ?thesis by (intro exI [of _ "[]"] exI [of _ al]) simp
  next
    case False
    with Cons kv obtain xs ys where "al = xs @ (i, a) # ys" "\<forall>v. AList.update i v al = xs @ (i, v) # ys" by auto
    with False kv show ?thesis by (intro exI [of _ "(k, w) # xs"] exI [of _ ys]) simp
  qed
qed simp

lemma slots_wf_ledger:
  assumes "slots_wf m" and "lg_concurrent_global l = lg_concurrent_global (sm_ledger m)"
    and "lg_concurrent_per_parent l = lg_concurrent_per_parent (sm_ledger m)"
  shows "slots_wf (m\<lparr>sm_ledger := l\<rparr>)"
  using assms by (simp add: slots_wf_def active_count_def active_agents_def)

lemma unat_add_one_le:
  assumes "sat_add (n :: u32) 1 \<le> cap" and "n \<noteq> - 1"
  shows "unat (n + 1) = unat n + 1" and "unat n + 1 \<le> unat cap"
proof -
  have "unat n + 1 < 2 ^ 32" using unat_less_max [OF assms(2)] by simp
  moreover from this have "unat (sat_add n 1) = unat n + 1" by (simp add: sat_simps)
  ultimately show "unat (n + 1) = unat n + 1" "unat n + 1 \<le> unat cap"
    using assms(1) by (simp_all add: unat_word_ariths word_le_nat_alt)
qed

lemma sat_add_one_unat32: "n \<noteq> - 1 \<Longrightarrow> unat (sat_add (n :: u32) 1) = unat (n + 1)"
  using unat_less_max [of n] by (simp add: sat_simps unat_word_ariths)

lemma reserve_one_Inr:
  assumes wf: "slots_wf m" and r: "reserve_batch (sm_config m) p 1 (sm_ledger m) = (Inr (), l)"
  shows "unat (lg_concurrent_global l) = active_count m + 1"
    and "unat (or_zero (lg_concurrent_per_parent l q)) = unat (or_zero (lg_concurrent_per_parent (sm_ledger m) q)) + of_bool (q = p)"
    and "active_count m + 1 \<le> unat (sc_max_concurrent_global (sm_config m))"
    and "unat (or_zero (lg_concurrent_per_parent (sm_ledger m) p)) + 1 \<le> unat (sc_max_concurrent_per_parent (sm_config m))"
proof -
  let ?cfg = "sm_config m" let ?l = "sm_ledger m"
  let ?pp = "or_zero (lg_concurrent_per_parent ?l p)"
  from r wf have chk: "sat_add (lg_concurrent_global ?l) 1 \<le> sc_max_concurrent_global ?cfg"
    "sat_add ?pp 1 \<le> sc_max_concurrent_per_parent ?cfg"
    and l: "lg_concurrent_global l = sat_add (lg_concurrent_global ?l) 1"
    "lg_concurrent_per_parent l = (lg_concurrent_per_parent ?l)(p \<mapsto> ?pp + 1)"
    by (auto simp: reserve_batch_def Let_def slots_wf_def caps_ok_def not_less split: if_splits)
  have cap: "sc_max_concurrent_global ?cfg \<noteq> - 1" using wf unfolding slots_wf_def caps_ok_def by blast
  have "lg_concurrent_global ?l \<noteq> - 1"
  proof
    assume "lg_concurrent_global ?l = - 1"
    with wf cap have "unat (- 1 :: u32) \<le> unat (sc_max_concurrent_global ?cfg)"
      by (simp add: slots_wf_def)
    with unat_less_max [OF cap] show False by (simp add: sat_simps)
  qed
  note g = unat_add_one_le [OF chk(1) this] sat_add_one_unat32 [OF this]
  have "length (filter (\<lambda>a. sa_parent_run_id a = p) (active_agents m)) \<le> active_count m"
    by (simp add: active_count_def)
  with wf have "unat ?pp \<le> unat (sc_max_concurrent_global ?cfg)" by (simp add: slots_wf_def)
  with unat_less_max [OF cap] have "?pp \<noteq> - 1" by (auto simp: sat_simps)
  note pp = unat_add_one_le [OF chk(2) this]
  have "unat (lg_concurrent_global ?l) = active_count m" using wf by (simp add: slots_wf_def)
  with g l(1) show "unat (lg_concurrent_global l) = active_count m + 1"
    "active_count m + 1 \<le> unat (sc_max_concurrent_global ?cfg)"
    by simp_all
  show "unat (or_zero (lg_concurrent_per_parent l q)) = unat (or_zero (lg_concurrent_per_parent ?l q)) + of_bool (q = p)"
    using pp(1) by (simp add: l(2) or_zero_def)
  show "unat ?pp + 1 \<le> unat (sc_max_concurrent_per_parent ?cfg)" using pp(2) .
qed

lemma register_wf:
  assumes wf: "slots_wf m" and fresh: "i \<notin> fst ` set (sm_agents m)"
  shows "slots_wf (snd (register now i run_id p c m))"
proof (cases "\<exists>sub. fst (register now i run_id p c m) = Inr sub")
  case False
  have "slots_wf (m\<lparr>sm_ledger := l\<rparr>)" if "reserve_batch (sm_config m) p 1 (sm_ledger m) = (Inl e, l)" for e l
    using that wf by (intro slots_wf_ledger) (auto simp: reserve_batch_def Let_def split: if_splits)
  with False wf show ?thesis
    by (auto simp: register_def Let_def split: sum.splits prod.splits if_splits)
next
  case True
  then obtain l depth where r: "reserve_batch (sm_config m) p 1 (sm_ledger m) = (Inr (), l)"
    and m': "snd (register now i run_id p c m) = m\<lparr>sm_agents := AList.update i (new_child now i run_id p depth c) (sm_agents m),
       sm_ledger := l\<lparr>lg_depth_of := (lg_depth_of l)(run_id \<mapsto> depth)\<rparr>,
       sm_children := (sm_children m)(p \<mapsto> (case sm_children m p of None \<Rightarrow> [] | Some is \<Rightarrow> is) @ [i])\<rparr>"
    by (auto simp: register_def Let_def split: sum.splits prod.splits if_splits)
  define sub where "sub = new_child now i run_id p depth c"
  have sub: "sa_status sub = SubQueued" "sa_parent_run_id sub = p" by (simp_all add: sub_def new_child_def)
  have act: "active_agents (snd (register now i run_id p c m)) = active_agents m @ [sub]"
    using fresh by (simp add: m' active_agents_def update_fresh sub_def [symmetric] sub sub_active_def)
  show ?thesis using wf reserve_one_Inr [OF wf r] fresh unfolding slots_wf_def
    by (simp add: act active_count_def) (simp add: m' sub update_fresh)
qed

lemma sat_sub_one_unat: "unat (sat_sub (n :: u32) 1) = unat n - 1"
  by (simp add: sat_simps)

lemma update_status_wf:
  assumes wf: "slots_wf m"
    and ok: "\<And>a. get_agent i m = Some a \<Longrightarrow> sub_active (sa_status a) \<or> \<not> sub_active st"
  shows "slots_wf (snd (update_status i st m))"
proof (cases "get_agent i m")
  case None
  with wf show ?thesis by (simp add: update_status_def)
next
  case (Some a)
  have terminal: "sub_terminal st \<longleftrightarrow> \<not> sub_active st"
    by (cases st) (simp_all add: sub_terminal_def sub_active_def)
  from wf Some obtain xs ys where split: "sm_agents m = xs @ (i, a) # ys"
    "\<And>v. AList.update i v (sm_agents m) = xs @ (i, v) # ys"
    using update_split [of "sm_agents m" i a] by (auto simp: slots_wf_def get_agent_def)
  define xa where "xa = filter (\<lambda>a. sub_active (sa_status a)) (List.map snd xs)"
  define ya where "ya = filter (\<lambda>a. sub_active (sa_status a)) (List.map snd ys)"
  define a' where "a' = a\<lparr>sa_status := st\<rparr>"
  have a': "sa_status a' = st" "sa_parent_run_id a' = sa_parent_run_id a" by (simp_all add: a'_def)
  define m' where "m' = snd (update_status i st m)"
  have agents: "sm_agents m' = xs @ (i, a') # ys" "sm_config m' = sm_config m"
    using Some split by (simp_all add: m'_def update_status_def Let_def a'_def)
  have ledger: "sm_ledger m' = (if sub_active (sa_status a) \<and> \<not> sub_active st
      then release_concurrent_slot (sa_parent_run_id a) (sm_ledger m) else sm_ledger m)"
    using Some terminal by (simp add: m'_def update_status_def Let_def)
  have act: "active_agents m = xa @ (if sub_active (sa_status a) then [a] else []) @ ya"
    "active_agents m' = xa @ (if sub_active st then [a'] else []) @ ya"
    using agents split(1) a' by (simp_all add: active_agents_def xa_def ya_def)
  have keys: "List.map fst (sm_agents m') = List.map fst (sm_agents m)" using agents split(1) by simp
  from wf have slots: "unat (lg_concurrent_global (sm_ledger m)) = active_count m"
    "\<And>p. unat (or_zero (lg_concurrent_per_parent (sm_ledger m) p))
        = length (filter (\<lambda>a. sa_parent_run_id a = p) (active_agents m))" by (simp_all add: slots_wf_def)
  show ?thesis
  proof (cases "sub_active (sa_status a) \<and> \<not> sub_active st")
    case True
    define p where "p = sa_parent_run_id a"
    have pos: "unat (or_zero (lg_concurrent_per_parent (sm_ledger m) p)) \<noteq> 0"
      using slots(2) [of p] act(1) True by (simp add: p_def)
    then obtain v where v: "lg_concurrent_per_parent (sm_ledger m) p = Some v"
      by (cases "lg_concurrent_per_parent (sm_ledger m) p") (auto simp: or_zero_def)
    have l: "unat (lg_concurrent_global (sm_ledger m')) = active_count m - 1"
      "unat (or_zero (lg_concurrent_per_parent (sm_ledger m') q))
        = unat (or_zero (lg_concurrent_per_parent (sm_ledger m) q)) - of_bool (q = p)" for q
      using True ledger slots(1) v
      by (simp_all add: release_concurrent_slot_def sat_sub_one_unat p_def [symmetric] or_zero_def)
    have "active_count m' = active_count m - 1" using act True by (simp add: active_count_def)
    moreover have "length (filter (\<lambda>a. sa_parent_run_id a = q) (active_agents m'))
        = length (filter (\<lambda>a. sa_parent_run_id a = q) (active_agents m)) - of_bool (q = p)" for q
      using act True by (simp add: p_def)
    ultimately show ?thesis using wf l slots(2) keys agents(2)
      unfolding m'_def [symmetric] slots_wf_def by (auto intro: le_trans [OF diff_le_self])
  next
    case False
    with ok [OF Some] have same: "sub_active (sa_status a) = sub_active st" by blast
    have "active_count m' = active_count m" using act same by (simp add: active_count_def)
    moreover have "length (filter (\<lambda>a. sa_parent_run_id a = q) (active_agents m'))
        = length (filter (\<lambda>a. sa_parent_run_id a = q) (active_agents m))" for q
      using act same a'(2) by simp
    ultimately show ?thesis using wf ledger False keys agents(2)
      unfolding m'_def [symmetric] slots_wf_def by simp
  qed
qed

inductive manager_reachable :: "sub_manager \<Rightarrow> bool" where
  mgr_new: "caps_ok (normalize_config cfg) \<Longrightarrow> manager_reachable (sub_manager_new cfg)"
| mgr_register: "manager_reachable m \<Longrightarrow> i \<notin> fst ` set (sm_agents m) \<Longrightarrow>
    manager_reachable (snd (register now i run_id p c m))"
| mgr_status: "manager_reachable m \<Longrightarrow>
    (\<And>a. get_agent i m = Some a \<Longrightarrow> sub_active (sa_status a) \<or> \<not> sub_active st) \<Longrightarrow>
    manager_reachable (snd (update_status i st m))"
| mgr_tokens: "manager_reachable m \<Longrightarrow>
    manager_reachable (m\<lparr>sm_ledger := snd (settle_tokens (sm_config m) child root n (sm_ledger m))\<rparr>)"
| mgr_tools: "manager_reachable m \<Longrightarrow>
    manager_reachable (m\<lparr>sm_ledger := snd (consume_tool_call (sm_config m) child root (sm_ledger m))\<rparr>)"
| mgr_root: "manager_reachable m \<Longrightarrow>
    manager_reachable (m\<lparr>sm_ledger := register_root_depth run_id (sm_ledger m)\<rparr>)"

lemma manager_reachable_wf: "manager_reachable m \<Longrightarrow> slots_wf m"
proof (induction rule: manager_reachable.induct)
  case (mgr_new cfg)
  then show ?case
    by (simp add: slots_wf_def sub_manager_new_def ledger_empty_def active_count_def active_agents_def or_zero_def)
next
  case (mgr_register m i now run_id p c)
  then show ?case by (intro register_wf)
next
  case (mgr_status m i st)
  then show ?case by (intro update_status_wf)
next
  case (mgr_tokens m child root n)
  then show ?case by (intro slots_wf_ledger) (simp_all add: settle_tokens_def Let_def)
next
  case (mgr_tools m child root)
  then show ?case by (intro slots_wf_ledger) (simp_all add: consume_tool_call_def Let_def)
next
  case (mgr_root m run_id)
  then show ?case by (intro slots_wf_ledger) (simp_all add: register_root_depth_def split: option.split)
qed

subsection \<open>The tree below a run\<close>

inductive descendant :: "sub_manager \<Rightarrow> string \<Rightarrow> sub_agent \<Rightarrow> bool" for m p where
  desc_child: "a \<in> set (get_children p m) \<Longrightarrow> descendant m p a"
| desc_step: "descendant m p b \<Longrightarrow> a \<in> set (get_children (sa_run_id b) m) \<Longrightarrow> descendant m p a"

text \<open>The walk ends with a set of runs closed under children, all of whose children are listed.\<close>

lemma descend_closed:
  assumes "\<forall>p. p \<notin> set keys \<longrightarrow> get_children p m = []"
    and "\<forall>p\<in>seen. set (get_children p m) \<subseteq> set out \<and> sa_run_id ` set (get_children p m) \<subseteq> seen \<union> set queue"
  shows "\<exists>S. seen \<union> set queue \<subseteq> S \<and> set out \<subseteq> set (descend keys m queue seen out)
    \<and> (\<forall>p\<in>S. set (get_children p m) \<subseteq> set (descend keys m queue seen out)
          \<and> sa_run_id ` set (get_children p m) \<subseteq> S)"
  using assms
proof (induction keys m queue seen out rule: descend.induct)
  case (1 keys m seen out)
  then show ?case by (intro exI [of _ seen]) (simp add: descend.simps)
next
  case (2 keys m pid queue seen out)
  note step = descend.simps(2) [of keys m pid queue seen out]
  consider (seen) "pid \<in> seen" | (leaf) "pid \<notin> seen" "pid \<notin> set keys"
    | (node) "pid \<notin> seen" "pid \<in> set keys" by blast
  then show ?case
  proof cases
    case seen
    have "\<forall>p\<in>seen. set (get_children p m) \<subseteq> set out \<and> sa_run_id ` set (get_children p m) \<subseteq> seen \<union> set queue"
      using "2.prems"(2) seen by auto
    from "2.IH"(1) [OF seen "2.prems"(1) this] obtain S where "seen \<union> set queue \<subseteq> S"
      "set out \<subseteq> set (descend keys m queue seen out)"
      "\<forall>p\<in>S. set (get_children p m) \<subseteq> set (descend keys m queue seen out) \<and> sa_run_id ` set (get_children p m) \<subseteq> S"
      by blast
    moreover have "descend keys m (pid # queue) seen out = descend keys m queue seen out"
      using seen step by simp
    ultimately show ?thesis using seen by (intro exI [of _ S]) auto
  next
    case leaf
    have "get_children pid m = []" using "2.prems"(1) leaf by blast
    with "2.prems"(2) have "\<forall>p\<in>insert pid seen. set (get_children p m) \<subseteq> set out
        \<and> sa_run_id ` set (get_children p m) \<subseteq> insert pid seen \<union> set queue" by auto
    from "2.IH"(2) [OF leaf "2.prems"(1) this] obtain S where "insert pid seen \<union> set queue \<subseteq> S"
      "set out \<subseteq> set (descend keys m queue (insert pid seen) out)"
      "\<forall>p\<in>S. set (get_children p m) \<subseteq> set (descend keys m queue (insert pid seen) out) \<and> sa_run_id ` set (get_children p m) \<subseteq> S"
      by blast
    moreover have "descend keys m (pid # queue) seen out = descend keys m queue (insert pid seen) out"
      using leaf step by simp
    ultimately show ?thesis by (intro exI [of _ S]) auto
  next
    case node
    let ?cs = "get_children pid m"
    have "\<forall>p\<in>insert pid seen. set (get_children p m) \<subseteq> set (out @ ?cs)
        \<and> sa_run_id ` set (get_children p m) \<subseteq> insert pid seen \<union> set (rev (List.map sa_run_id ?cs) @ queue)"
      using "2.prems"(2) by (auto simp: image_subset_iff)
    from "2.IH"(3) [OF node(1) _ refl "2.prems"(1) this] node(2) obtain S where
      "insert pid seen \<union> set (rev (List.map sa_run_id ?cs) @ queue) \<subseteq> S"
      "set (out @ ?cs) \<subseteq> set (descend keys m (rev (List.map sa_run_id ?cs) @ queue) (insert pid seen) (out @ ?cs))"
      "\<forall>p\<in>S. set (get_children p m) \<subseteq> set (descend keys m (rev (List.map sa_run_id ?cs) @ queue) (insert pid seen) (out @ ?cs))
        \<and> sa_run_id ` set (get_children p m) \<subseteq> S" by blast
    moreover have "descend keys m (pid # queue) seen out
        = descend keys m (rev (List.map sa_run_id ?cs) @ queue) (insert pid seen) (out @ ?cs)"
      using node step by (simp add: Let_def)
    ultimately show ?thesis by (intro exI [of _ S]) auto
  qed
qed

lemma descendant_listed:
  assumes "\<forall>p. p \<notin> set keys \<longrightarrow> get_children p m = []" and "descendant m parent a"
  shows "a \<in> set (list_descendants keys parent m)"
proof -
  from descend_closed [OF assms(1), of "{}" "[]" "[parent]"] obtain S where S: "parent \<in> S"
    "\<forall>p\<in>S. set (get_children p m) \<subseteq> set (list_descendants keys parent m) \<and> sa_run_id ` set (get_children p m) \<subseteq> S"
    by (auto simp: list_descendants_def)
  from assms(2) have "a \<in> set (list_descendants keys parent m) \<and> sa_run_id a \<in> S"
  proof (induction rule: descendant.induct)
    case (desc_child a)
    with S show ?case by auto
  next
    case (desc_step b a)
    with S(2) show ?case by blast
  qed
  then show ?thesis ..
qed

lemma get_agent_update: "get_agent i (snd (update_status j st m)) =
    (if i = j then map_option (\<lambda>a. a\<lparr>sa_status := st\<rparr>) (get_agent j m) else get_agent i m)"
  by (simp add: update_status_def get_agent_def Let_def update_conv split: option.split)

lemma update_status_slots: "lg_concurrent_global (sm_ledger (snd (update_status i st m))) =
    (case get_agent i m of
       None \<Rightarrow> lg_concurrent_global (sm_ledger m)
     | Some a \<Rightarrow> if sub_active (sa_status a) \<and> sub_terminal st
         then sat_sub (lg_concurrent_global (sm_ledger m)) 1 else lg_concurrent_global (sm_ledger m))"
  by (simp add: update_status_def Let_def release_concurrent_slot_def split: option.split)

lemma cascade_terminal:
  assumes "\<forall>d\<in>done'. \<forall>a. get_agent (sa_id d) m = Some a \<longrightarrow> sub_terminal (sa_status a)"
  shows "\<forall>d\<in>done' \<union> set ds. \<forall>a. get_agent (sa_id d) (snd (cascade ds m k)) = Some a \<longrightarrow> sub_terminal (sa_status a)"
  using assms
proof (induction ds m k arbitrary: done' rule: cascade.induct)
  case (2 d ds m count)
  show ?case
  proof (cases "get_agent (sa_id d) m")
    case None
    with "2.IH"(1) [OF None, of "insert d done'"] "2.prems" show ?thesis by auto
  next
    case (Some a)
    show ?thesis
    proof (cases "sub_terminal (sa_status a)")
      case True
      with "2.IH"(2) [OF Some True, of "insert d done'"] "2.prems" Some show ?thesis by auto
    next
      case False
      define m1 where "m1 = snd (update_status (sa_id d) SubCancelled m)"
      have "\<forall>x\<in>insert d done'. \<forall>a. get_agent (sa_id x) m1 = Some a \<longrightarrow> sub_terminal (sa_status a)"
        using "2.prems" by (auto simp: m1_def get_agent_update sub_terminal_def)
      with "2.IH"(3) [OF Some False, of "insert d done'"] False Some show ?thesis by (simp add: m1_def)
    qed
  qed
qed simp

lemma cascade_reachable: "manager_reachable m \<Longrightarrow> manager_reachable (snd (cascade ds m k))"
proof (induction ds m k rule: cascade.induct)
  case (2 d ds m count)
  have "manager_reachable (snd (update_status (sa_id d) SubCancelled m))"
    by (rule mgr_status [OF "2.prems"]) (simp add: sub_active_def)
  with 2 show ?case by (simp split: option.split)
qed simp

subsection \<open>Properties\<close>

lemma rank_label [simp]: "r \<le> 2 \<Longrightarrow> permission_rank (permission_label r) = r"
proof -
  assume "r \<le> 2"
  then consider "r = 0" | "r = 1" | "r = 2" by linarith
  then show ?thesis by cases (simp_all, code_simp+)
qed

lemma rank_le_2 [simp]: "permission_rank p \<le> 2"
  by (simp add: permission_rank_def Let_def)

lemma rank_cap [simp]:
  "permission_rank (cap_child_permission parent requested) = min (permission_rank parent) (permission_rank requested)"
  by (simp add: cap_child_permission_def min_le_iff_disj)

text \<open>
  A child never outranks. In the order readonly, ask, full access, the permission resolved for
  a child is at most its parent's, at most what was requested (ask when nothing was), and at
  most what the chosen agent profile declares.
\<close>

theorem child_permission_bounded:
  "permission_rank (resolve_child_permission parent requested mode) \<le> permission_rank parent
    \<and> permission_rank (resolve_child_permission parent requested mode)
        \<le> (case non_empty_trim requested of None \<Rightarrow> 1 | Some r \<Rightarrow> permission_rank r)
    \<and> (\<forall>md. non_empty_trim mode = Some md \<longrightarrow>
        permission_rank (resolve_child_permission parent requested mode) \<le> permission_rank md)"
proof -
  have ask: "permission_rank ''ask'' = 1" by code_simp
  show ?thesis
    by (auto simp: resolve_child_permission_def Let_def ask split: option.split)
qed

lemma child_permission_bounded_witness:
  "permission_rank (resolve_child_permission ''full_access'' (Some ''full_access'') (Some '' readonly '')) \<le> permission_rank ''readonly''"
proof -
  have "non_empty_trim (Some '' readonly '') = Some ''readonly''" by code_simp
  with child_permission_bounded [of "''full_access''" "Some ''full_access''" "Some '' readonly ''"] show ?thesis
    by blast
qed

lemma set_retain_first: "set (retain_first seen xs) = set xs - seen"
  by (induction xs arbitrary: seen) auto

lemma retain_first_distinct: "distinct (retain_first seen xs)"
  by (induction xs arbitrary: seen) (auto simp: set_retain_first)

text \<open>
  C34: a child's tools are within its parent's. Whatever was requested and whatever the profile
  lists, every tool name the child's surface admits (the names it lists and, through
  \<open>mcp_call\<close>, every MCP tool) is admitted by the parent's surface; nothing the profile
  disallows is listed, and nothing twice.
\<close>

theorem child_tools_within_parent:
  assumes "tool_list_allows (resolve_child_tool_allowlist (Some p) req tools denied) name"
  shows "tool_list_allows p name
    \<and> (\<forall>d. denied = Some d \<longrightarrow> set (resolve_child_tool_allowlist (Some p) req tools denied) \<inter> set d = {})
    \<and> distinct (resolve_child_tool_allowlist (Some p) req tools denied)"
proof (intro conjI)
  define out where "out = resolve_child_tool_allowlist (Some p) req tools denied"
  have all: "tool_list_allows p t" if "t \<in> set out" for t
    using that by (auto simp: out_def resolve_child_tool_allowlist_def Let_def set_retain_first)
  have "\<not> starts_with ''mcp_call'' ''mcp__''" by code_simp
  with all have mcp: "''mcp_call'' \<in> set out \<Longrightarrow> ''mcp_call'' \<in> set p"
    by (metis tool_list_allows_def)
  from assms have "name \<in> set out \<or> starts_with name ''mcp__'' \<and> ''mcp_call'' \<in> set out"
    by (auto simp: out_def [symmetric] tool_list_allows_def split: if_splits)
  then show "tool_list_allows p name"
  proof
    assume "starts_with name ''mcp__'' \<and> ''mcp_call'' \<in> set out"
    with mcp show ?thesis by (auto simp: tool_list_allows_def)
  qed (rule all)
  show "\<forall>d. denied = Some d \<longrightarrow> set (resolve_child_tool_allowlist (Some p) req tools denied) \<inter> set d = {}"
    by (auto simp: resolve_child_tool_allowlist_def Let_def set_retain_first)
  show "distinct (resolve_child_tool_allowlist (Some p) req tools denied)"
    by (simp add: resolve_child_tool_allowlist_def Let_def retain_first_distinct)
qed

lemma child_tools_within_parent_witness:
  "tool_list_allows [''mcp_call'', ''grep''] ''mcp__fs__read''"
proof -
  have "tool_list_allows (resolve_child_tool_allowlist (Some [''mcp_call'', ''grep'']) (Some [''mcp__fs__read'', ''bash'']) None None) ''mcp__fs__read''"
    by code_simp
  from child_tools_within_parent [OF this] show ?thesis ..
qed

text \<open>A concrete manager with one child.\<close>

definition demo_scope :: child_scope where
  "demo_scope = \<lparr>cs_task = ''t'', cs_depth = 0, cs_provider_id = ''p'', cs_key_id = ''k'', cs_model_id = ''m'',
     cs_permission_profile = ''ask'', cs_tool_allowlist = [''grep''], cs_agent_profile_id = None,
     cs_isolation_mode = None, cs_working_directory = None\<rparr>"

definition demo_mgr :: sub_manager where
  "demo_mgr = snd (register ''now'' ''s1'' ''run1'' ''root'' demo_scope (sub_manager_new sub_config_default))"

lemma demo_mgr_reachable: "manager_reachable demo_mgr"
  unfolding demo_mgr_def
  by (intro mgr_register mgr_new)
    (simp_all add: caps_ok_def normalize_config_def sub_config_default_def sub_manager_new_def Let_def)

lemma demo_mgr_facts:
  "active_count demo_mgr = 1" "List.map sa_run_id (get_children ''root'' demo_mgr) = [''run1'']"
  "sm_children demo_mgr = Map.empty(''root'' \<mapsto> [''s1''])" "sm_config demo_mgr = sub_config_default"
  "lg_concurrent_global (sm_ledger demo_mgr) = 1" "agent_of_run (sm_agents demo_mgr) ''root'' = None"
proof -
  show "active_count demo_mgr = 1" "List.map sa_run_id (get_children ''root'' demo_mgr) = [''run1'']"
    "lg_concurrent_global (sm_ledger demo_mgr) = 1" "agent_of_run (sm_agents demo_mgr) ''root'' = None"
    by code_simp+
  have reg: "fst (register ''now'' ''s1'' ''run1'' ''root'' demo_scope (sub_manager_new sub_config_default))
      = Inr (new_child ''now'' ''s1'' ''run1'' ''root'' 1 demo_scope)" by code_simp
  then show "sm_children demo_mgr = Map.empty(''root'' \<mapsto> [''s1''])"
    by (auto simp: demo_mgr_def register_def Let_def sub_manager_new_def split: sum.splits prod.splits if_splits)
  from reg show "sm_config demo_mgr = sub_config_default"
    by (auto simp: demo_mgr_def register_def Let_def sub_manager_new_def normalize_config_def sub_config_default_def
        split: sum.splits prod.splits if_splits)
qed



text \<open>
  Reviving a finished child frees a slot twice. \<open>update_status\<close> takes no slot when it moves a
  finished child back to running, but finishing it again releases one: from any state, after
  finish, revive and finish the global count is two lower (or zero), although one child stopped.
\<close>

theorem revived_child_releases_twice:
  assumes "get_agent i m = Some a" and "sub_active (sa_status a)"
  defines "m3 \<equiv> snd (update_status i SubCompleted (snd (update_status i SubRunning (snd (update_status i SubCompleted m)))))"
  shows "unat (lg_concurrent_global (sm_ledger m3)) = unat (lg_concurrent_global (sm_ledger m)) - 2"
proof -
  define m1 where "m1 = snd (update_status i SubCompleted m)"
  define m2 where "m2 = snd (update_status i SubRunning m1)"
  have 1: "get_agent i m1 = Some (a\<lparr>sa_status := SubCompleted\<rparr>)"
    "lg_concurrent_global (sm_ledger m1) = sat_sub (lg_concurrent_global (sm_ledger m)) 1"
    using assms(1,2) by (simp_all add: m1_def get_agent_update update_status_slots sub_terminal_def)
  have 2: "get_agent i m2 = Some (a\<lparr>sa_status := SubRunning\<rparr>)"
    "lg_concurrent_global (sm_ledger m2) = lg_concurrent_global (sm_ledger m1)"
    using 1(1) by (simp_all add: m2_def get_agent_update update_status_slots sub_active_def)
  have "lg_concurrent_global (sm_ledger m3) = sat_sub (lg_concurrent_global (sm_ledger m2)) 1"
    using 2(1) by (simp add: m3_def m1_def [symmetric] m2_def [symmetric] update_status_slots
        sub_active_def sub_terminal_def)
  with 1(2) 2(2) show ?thesis by (simp add: sat_sub_one_unat)
qed

lemma revived_child_releases_twice_witness:
  "\<exists>m :: sub_manager. get_agent ''s1'' m \<noteq> None \<and> lg_concurrent_global (sm_ledger m) = 2
    \<and> unat (lg_concurrent_global (sm_ledger (snd (update_status ''s1'' SubCompleted
        (snd (update_status ''s1'' SubRunning (snd (update_status ''s1'' SubCompleted m)))))))) = 0"
proof -
  define m where "m = snd (register ''now'' ''s2'' ''run2'' ''root'' demo_scope demo_mgr)"
  have f: "map_option sa_status (get_agent ''s1'' m) = Some SubQueued" "lg_concurrent_global (sm_ledger m) = 2"
    unfolding m_def by code_simp+
  then obtain a where "get_agent ''s1'' m = Some a" "sub_active (sa_status a)"
    by (auto simp: sub_active_def)
  from revived_child_releases_twice [OF this] f(2) this show ?thesis by (intro exI [of _ m]) simp
qed

text \<open>
  C35: token and tool budgets hold, per child and per tree. Whatever charges are made to the children of a tree, in
  any order: what a child is charged is added up (to the maximum of the counter), refused charges included, and what
  its own cap does not refuse is added up for the tree; the last charge is accepted exactly when with it both
  the child's and the tree's total are within their caps. A child or a tree whose total was
  over its cap gets no further charge accepted. For tokens and for tool calls.
\<close>

theorem budgets_enforced:
  assumes "drive (token_charge cfg root) (qs @ [(c, n)]) l = (outs, l')"
    and "drive (tool_charge cfg root) (cs @ [d]) l = (outs2, l2)"
  shows "unat (or_zero (lg_tokens_child l' c)) =
        min (unat (or_zero (lg_tokens_child l c)) + (\<Sum>(child, k)\<leftarrow>qs @ [(c, n)]. if child = c then unat k else 0)) (2 ^ 64 - 1)
    \<and> unat (or_zero (lg_tokens_tree l' root)) =
        min (unat (or_zero (lg_tokens_tree l root))
             + (\<Sum>((child, k), out)\<leftarrow>zip (qs @ [(c, n)]) outs. if reaches_tree out then unat k else 0)) (2 ^ 64 - 1)
    \<and> (\<not> isl (last outs) \<longleftrightarrow> unat (or_zero (lg_tokens_child l' c)) \<le> child_token_cap cfg
          \<and> unat (or_zero (lg_tokens_tree l' root)) \<le> unat (sc_max_tokens_per_tree cfg))
    \<and> (child_token_cap cfg < unat (or_zero (lg_tokens_child l c)) \<longrightarrow> isl (last outs))
    \<and> (unat (sc_max_tokens_per_tree cfg) < unat (or_zero (lg_tokens_tree l root)) \<longrightarrow> isl (last outs))
    \<and> unat (or_zero (lg_tools_child l2 d)) =
        min (unat (or_zero (lg_tools_child l d)) + count_list (cs @ [d]) d) (2 ^ 32 - 1)
    \<and> unat (or_zero (lg_tools_tree l2 root)) =
        min (unat (or_zero (lg_tools_tree l root)) + length (filter reaches_tree outs2)) (2 ^ 32 - 1)
    \<and> (\<not> isl (last outs2) \<longleftrightarrow> unat (or_zero (lg_tools_child l2 d)) \<le> unat (sc_max_tool_calls_per_child cfg)
          \<and> unat (or_zero (lg_tools_tree l2 root)) \<le> unat (sc_max_tool_calls_per_tree cfg))
    \<and> (unat (sc_max_tool_calls_per_child cfg) < unat (or_zero (lg_tools_child l d)) \<longrightarrow> isl (last outs2))
    \<and> (unat (sc_max_tool_calls_per_tree cfg) < unat (or_zero (lg_tools_tree l root)) \<longrightarrow> isl (last outs2))"
proof -
  from assms(1) obtain outs1 l1 out where tok: "token_charge cfg root (c, n) l1 = (out, l')" "outs = outs1 @ [out]"
    by (rule drive_snoc)
  from assms(2) obtain outs3 l3 out2 where tool: "tool_charge cfg root d l3 = (out2, l2)" "outs2 = outs3 @ [out2]"
    by (rule drive_snoc)
  have "\<not> isl (last outs) \<longleftrightarrow> unat (or_zero (lg_tokens_child l' c)) \<le> child_token_cap cfg
      \<and> unat (or_zero (lg_tokens_tree l' root)) \<le> unat (sc_max_tokens_per_tree cfg)"
    using token_charge_step(3) [OF tok(1)] by (simp add: tok(2))
  moreover have "\<not> isl (last outs2) \<longleftrightarrow> unat (or_zero (lg_tools_child l2 d)) \<le> unat (sc_max_tool_calls_per_child cfg)
      \<and> unat (or_zero (lg_tools_tree l2 root)) \<le> unat (sc_max_tool_calls_per_tree cfg)"
    using tool_charge_step(3) [OF tool(1)] by (simp add: tool(2))
  moreover note token_charges_counted [OF assms(1)] tool_charges_counted [OF assms(2)]
  moreover note tok.exhausted [OF _ assms(1)] tok_tree.exhausted [OF _ assms(1)]
    tools.exhausted [OF _ assms(2)] tools_tree.exhausted [OF _ assms(2)]
  ultimately show ?thesis by simp
qed

lemma budgets_enforced_witness:
  "isl (last (fst (drive (token_charge sub_config_default ''r'') ([(''b'', 1)] @ [(''c'', 2)])
      (ledger_empty\<lparr>lg_tokens_child := [''c'' \<mapsto> 100001]\<rparr>))))"
proof -
  let ?l = "ledger_empty\<lparr>lg_tokens_child := [''c'' \<mapsto> 100001]\<rparr>"
  obtain outs l' where d: "drive (token_charge sub_config_default ''r'') ([(''b'', 1)] @ [(''c'', 2)]) ?l = (outs, l')" by fastforce
  obtain outs2 l2 where e: "drive (tool_charge sub_config_default ''r'') ([] @ [''c'']) ?l = (outs2, l2)" by fastforce
  have "child_token_cap sub_config_default < unat (or_zero (lg_tokens_child ?l ''c''))"
    by (simp add: child_token_cap_def sub_config_default_def or_zero_def)
  then show ?thesis using budgets_enforced [OF d e] unfolding d by simp
qed

text \<open>
  No child is its own ancestor. The parent check accepts a new run exactly when the chain of
  parents above its parent does not meet the new run and does not loop; the walk always ends.
\<close>

theorem parent_check_exact:
  "assert_no_parent_cycle agents parent child = Inr () \<longleftrightarrow>
     \<not> above agents parent child
     \<and> \<not> (\<exists>j a. above agents parent j \<and> agent_of_run agents j = Some a \<and> above agents (sa_parent_run_id a) j)"
proof
  assume ok: "assert_no_parent_cycle agents parent child = Inr ()"
  then have walk: "cycle_walk agents child {} parent = Inr ()"
    by (simp add: assert_no_parent_cycle_def split: if_splits)
  have "\<not> above agents parent child" using cycle_walk_sound [OF walk] by blast
  moreover have "\<not> (\<exists>a. agent_of_run agents j = Some a \<and> above agents (sa_parent_run_id a) j)"
    if "above agents parent j" for j
    using cycle_walk_acyclic [OF walk that] by blast
  ultimately show "\<not> above agents parent child
     \<and> \<not> (\<exists>j a. above agents parent j \<and> agent_of_run agents j = Some a \<and> above agents (sa_parent_run_id a) j)"
    by blast
next
  assume no: "\<not> above agents parent child
     \<and> \<not> (\<exists>j a. above agents parent j \<and> agent_of_run agents j = Some a \<and> above agents (sa_parent_run_id a) j)"
  then have "parent \<noteq> child" using above_self by metis
  moreover have "cycle_walk agents child {} parent = Inr ()"
  proof (cases "cycle_walk agents child {} parent")
    case (Inl e)
    from cycle_walk_complete [OF this] no show ?thesis by auto
  qed simp
  ultimately show "assert_no_parent_cycle agents parent child = Inr ()"
    by (simp add: assert_no_parent_cycle_def)
qed

text \<open>
  C21: cancelling a run cancels its whole tree. When the keys cover the children map, every
  descendant of the run, at any depth, that the table still knows has a terminal status after
  \<open>cascade_cancel\<close>, and the reservations still count the active children exactly.
\<close>

theorem cascade_cancels_tree:
  assumes "manager_reachable m" and "\<forall>p. p \<notin> set keys \<longrightarrow> get_children p m = []"
    and "cascade_cancel_metadata keys parent m = (k, m')"
  shows "(\<forall>d. descendant m parent d \<longrightarrow>
        (\<forall>a. get_agent (sa_id d) m' = Some a \<longrightarrow> sub_terminal (sa_status a)))
    \<and> unat (lg_concurrent_global (sm_ledger m')) = active_count m'"
proof
  have m': "m' = snd (cascade (list_descendants keys parent m) m 0)"
    using assms(3) by (simp add: cascade_cancel_metadata_def)
  from cascade_terminal [of "{}" m "list_descendants keys parent m" 0] descendant_listed [OF assms(2)]
  show "\<forall>d. descendant m parent d \<longrightarrow>
        (\<forall>a. get_agent (sa_id d) m' = Some a \<longrightarrow> sub_terminal (sa_status a))" by (auto simp: m')
  have "slots_wf m'" unfolding m' by (rule manager_reachable_wf [OF cascade_reachable [OF assms(1)]])
  then show "unat (lg_concurrent_global (sm_ledger m')) = active_count m'" by (simp add: slots_wf_def)
qed

lemma cascade_cancels_tree_witness:
  "\<exists>d. descendant demo_mgr ''root'' d \<and> (\<forall>a. get_agent (sa_id d)
      (snd (cascade_cancel_metadata [''root''] ''root'' demo_mgr)) = Some a \<longrightarrow> sub_terminal (sa_status a))"
proof -
  obtain k m' where c: "cascade_cancel_metadata [''root''] ''root'' demo_mgr = (k, m')"
    by (cases "cascade_cancel_metadata [''root''] ''root'' demo_mgr")
  have "\<forall>p. p \<notin> set [''root''] \<longrightarrow> get_children p demo_mgr = []"
    by (simp add: get_children_def demo_mgr_facts(3))
  note all = cascade_cancels_tree [OF demo_mgr_reachable this c]
  have "get_children ''root'' demo_mgr \<noteq> []" using demo_mgr_facts(2) by auto
  then obtain d where "descendant demo_mgr ''root'' d"
    by (meson desc_child list.set_sel(1))
  with all c show ?thesis by auto
qed

end
