(* ===== verification/ToolTypes.thy ===== *)
theory ToolTypes
  imports Prelude "HOL-Library.AList"
begin

section \<open>Tools of the capability gateway\<close>

text \<open>
  The types of \<open>crates/capability-gateway/src/lib.rs\<close> and the registry of tools. A tool's handler is
  an asynchronous function with effects on the machine and is not part of the model. A schema is a
  JSON value.
\<close>

record tool_error =
  te_code :: string
  te_message :: string
  te_retryable :: bool

definition tool_err :: "string \<Rightarrow> string \<Rightarrow> tool_error" where
  "tool_err code msg = \<lparr>te_code = code, te_message = msg, te_retryable = False\<rparr>"

text \<open>A text between single quotes.\<close>

definition quoted :: "string \<Rightarrow> string" where
  "quoted s = CHR 0x27 # s @ [CHR 0x27]"

declare update_conv' [simp] delete_conv' [simp]

datatype side_effect = SfReadOnly | SfWrite | SfDestructive | SfNetwork | SfProcess

datatype permission_class =
    PcAlwaysAllowed | PcProjectRead | PcProjectWrite | PcExternalWrite | PcCredentials | PcElevation
  | PcDestructiveCommand | PcPrivacyResource

datatype path_scope = PsNone | PsProject string | PsGlob string | PsAny

datatype execution_mode = EmParallelSafe | EmSequential | EmExclusive

record tool =
  tl_name :: string
  tl_schema :: json
  tl_side_effect :: side_effect
  tl_class :: permission_class
  tl_scope :: path_scope
  tl_timeout_ms :: u64
  tl_output_limit :: u64
  tl_cancellable :: bool
  tl_parallel_safe :: bool
  tl_conflict_key :: "string option"

record gateway =
  gw_tools :: "tool list"
  gw_root :: "string option"

definition get_tool :: "gateway \<Rightarrow> string \<Rightarrow> tool option" where
  "get_tool gw name = List.find (\<lambda>t. tl_name t = name) (gw_tools gw)"

fun side_effect_debug :: "side_effect \<Rightarrow> string" where
  "side_effect_debug SfReadOnly = ''ReadOnly''"
| "side_effect_debug SfWrite = ''Write''"
| "side_effect_debug SfDestructive = ''Destructive''"
| "side_effect_debug SfNetwork = ''Network''"
| "side_effect_debug SfProcess = ''Process''"

definition register_tool :: "tool \<Rightarrow> gateway \<Rightarrow> (string + unit) \<times> gateway" where
  "register_tool t gw =
     (case get_tool gw (tl_name t) of
        Some existing \<Rightarrow>
          (Inl (''duplicate tool name '' @ quoted (tl_name t) @ '' conflicts with existing registration (side_effect=''
                @ side_effect_debug (tl_side_effect existing) @ '')''), gw)
      | None \<Rightarrow> (Inr (), gw\<lparr>gw_tools := gw_tools gw @ [t]\<rparr>))"

definition conflict_key_for :: "gateway \<Rightarrow> string \<Rightarrow> string option" where
  "conflict_key_for gw name = Option.bind (get_tool gw name) tl_conflict_key"

definition execution_mode_of :: "tool \<Rightarrow> execution_mode" where
  "execution_mode_of t =
     (if tl_parallel_safe t then EmParallelSafe
      else if tl_side_effect t = SfDestructive \<or> tl_side_effect t = SfProcess then EmExclusive
      else EmSequential)"

lemma get_tool_name: "get_tool gw name = Some t \<Longrightarrow> tl_name t = name"
  by (auto simp: get_tool_def find_Some_iff)

text \<open>Names stay distinct, so a lookup finds every registered tool.\<close>

lemma register_tool_distinct:
  "distinct (List.map tl_name (gw_tools gw)) \<Longrightarrow>
     distinct (List.map tl_name (gw_tools (snd (register_tool t gw))))"
  by (auto simp: register_tool_def get_tool_def find_None_iff split: option.splits)

lemma get_tool_registered:
  assumes "distinct (List.map tl_name (gw_tools gw))" and "t \<in> set (gw_tools gw)"
  shows "get_tool gw (tl_name t) = Some t"
proof -
  have "List.find (\<lambda>x. tl_name x = tl_name t) ts = Some t"
    if "distinct (List.map tl_name ts)" "t \<in> set ts" for ts
    using that by (induction ts) (auto simp: image_iff)
  with assms show ?thesis by (simp add: get_tool_def)
qed

end
