(* ===== verification/ToolPolicy.thy ===== *)
theory ToolPolicy
  imports Prelude "HOL-Library.List_Lexorder" "HOL-Library.Char_ord"
begin

section \<open>Remembered tool grants\<close>

text \<open>
  Models \<open>src-agent-daemon/src/runtime/tool_policy.rs\<close>: the grants a user's approval leaves behind,
  what an invocation must share with a grant to be let through without asking, and the memory and
  database halves of the store. SHA-256, the text of a JSON scalar (\<open>serde_json\<close>), the resolution
  of a path on disk and the reading and writing of RFC 3339 times are functions of the environment;
  instants are integers. A slice inside a character panics, which is \<open>None\<close>. The database is the
  list of its rows, or \<open>None\<close> when no file is configured; a failing statement is an argument.
\<close>

record policy_env =
  pe_sha :: "string \<Rightarrow> string"
  pe_show :: "json \<Rightarrow> string"
  pe_canon :: "string \<Rightarrow> string option"
  pe_time :: "string \<Rightarrow> int option"
  pe_stamp :: "int \<Rightarrow> string"

datatype grant_decision = GdAllowed string | GdNeedsApproval | GdDenied string

record tool_invocation =
  ti_tool :: string
  ti_class :: string
  ti_conversation :: string
  ti_run :: string
  ti_session :: "string option"
  ti_project :: "string option"
  ti_version :: "string option"
  ti_fingerprint :: "string option"
  ti_input :: json
  ti_root :: "string option"

record tool_grant =
  tg_id :: string
  tg_project :: "string option"
  tg_version :: "string option"
  tg_fingerprint :: "string option"
  tg_tool :: string
  tg_class :: string
  tg_path_scope :: json
  tg_argument :: json
  tg_conversation :: "string option"
  tg_run :: "string option"
  tg_session :: "string option"
  tg_scope :: string
  tg_expires_at :: "string option"
  tg_policy_version :: u32
  tg_created_by :: "string option"
  tg_created_at :: string
  tg_revoked_at :: "string option"
  tg_summary :: string

record policy_state =
  ps_grants :: "tool_grant list"
  ps_db :: "tool_grant list option"

definition tool_grant_policy_version :: u32 where
  "tool_grant_policy_version = 1"

subsection \<open>Text helpers\<close>

text \<open>\<open>s.split_whitespace()\<close>; \<open>cur\<close> is the word read so far.\<close>

function split_ws :: "string \<Rightarrow> string \<Rightarrow> string list" where
  "split_ws cur [] = (if cur = [] then [] else [cur])"
| "split_ws cur (c # cs) =
     (case strip_one ws_chars (c # cs) of
        Some r \<Rightarrow> (if cur = [] then [] else [cur]) @ split_ws [] r
      | None \<Rightarrow> split_ws (cur @ [c]) cs)"
  by pat_completeness auto
termination
  by (relation "measure (\<lambda>(cur, s). length s)") (auto dest: strip_one_shorter)

definition normalize_command :: "string \<Rightarrow> string" where
  "normalize_command cmd = str_join '' '' (split_ws [] cmd)"

definition trim_end_char :: "char \<Rightarrow> string \<Rightarrow> string" where
  "trim_end_char c s = rev (dropWhile (\<lambda>x. x = c) (rev s))"

definition trim_start_char :: "char \<Rightarrow> string \<Rightarrow> string" where
  "trim_start_char c s = dropWhile (\<lambda>x. x = c) s"

definition slash :: char where
  "slash = CHR ''/''"

definition normalize_cwd :: "string \<Rightarrow> string" where
  "normalize_cwd cwd =
     (let t = trim_end_char slash (str_trim cwd) in if t = [] then ''.'' else t)"

text \<open>\<open>s.trim_start_matches("./")\<close>\<close>

fun trim_dot_slash :: "string \<Rightarrow> string" where
  "trim_dot_slash (a # b # s) = (if a = CHR ''.'' \<and> b = slash then trim_dot_slash s else a # b # s)"
| "trim_dot_slash s = s"

definition back_to_slash :: "string \<Rightarrow> string" where
  "back_to_slash s = List.map (\<lambda>c. if c = CHR 0x5C then slash else c) s"

text \<open>\<open>Path::strip_prefix\<close> on two canonical absolute paths.\<close>

definition path_strip_prefix :: "string \<Rightarrow> string \<Rightarrow> string option" where
  "path_strip_prefix root p =
     (if root = [slash] then Some (drop 1 p)
      else if p = root then Some []
      else strip_prefix (root @ [slash]) p)"

definition canonical_rel_path :: "policy_env \<Rightarrow> string option \<Rightarrow> string \<Rightarrow> string" where
  "canonical_rel_path env project_root path =
     (let p = str_trim path;
          fallback = back_to_slash (trim_dot_slash p)
      in if p = [] then []
         else (case project_root of
            None \<Rightarrow> fallback
          | Some root0 \<Rightarrow>
              (let root = trim_end_char slash root0;
                   on_disk = Option.bind (pe_canon env p) (\<lambda>abs.
                     Option.bind (pe_canon env root) (\<lambda>root_abs. path_strip_prefix root_abs abs))
               in case on_disk of
                    Some rel \<Rightarrow> back_to_slash rel
                  | None \<Rightarrow>
                      (case strip_prefix root p of
                         Some rest \<Rightarrow> back_to_slash (trim_start_char slash rest)
                       | None \<Rightarrow> fallback))))"

definition redact_preview :: "string \<Rightarrow> string option" where
  "redact_preview s =
     (let t = str_trim s
      in if length t \<le> 48 then Some t
         else if is_cont (t ! 45) then None
         else Some (take 45 t @ [CHR 0xE2, CHR 0x80, CHR 0xA6]))"

subsection \<open>The constraint of an invocation\<close>

text \<open>\<open>canonical_json\<close>: objects by sorted key; the keys are quoted but not escaped.\<close>

definition json_entry :: "string \<times> string \<Rightarrow> string" where
  "json_entry kv = [CHR 0x22] @ fst kv @ [CHR 0x22, CHR '':''] @ snd kv"

fun canonical_json :: "(json \<Rightarrow> string) \<Rightarrow> json \<Rightarrow> string" where
  "canonical_json show (JObj kvs) =
     ''{'' @ str_join '','' (List.map json_entry
       (sort_key fst (List.map (\<lambda>(k, v). (k, canonical_json show v)) kvs))) @ ''}''"
| "canonical_json show (JArr vs) = ''['' @ str_join '','' (List.map (canonical_json show) vs) @ '']''"
| "canonical_json show v = show v"

definition canonical_json_hash :: "policy_env \<Rightarrow> json \<Rightarrow> string" where
  "canonical_json_hash env v = pe_sha env (canonical_json (pe_show env) v)"

record built_constraint =
  bc_path_scope :: json
  bc_argument :: json
  bc_summary :: string

definition str_or :: "string \<Rightarrow> json option \<Rightarrow> string" where
  "str_or d v = (case Option.bind v as_str of None \<Rightarrow> d | Some s \<Rightarrow> s)"

definition file_tools :: "string list" where
  "file_tools = [''write_file'', ''read_file'', ''apply_patch'', ''edit_file'', ''delete_file'']"

definition network_tools :: "string list" where
  "network_tools = [''web_fetch'', ''fetch'', ''http_request'']"

definition is_mcp :: "string \<Rightarrow> bool" where
  "is_mcp name \<longleftrightarrow> starts_with name ''mcp__'' \<or> name = ''mcp_call''"

definition terminal_constraint :: "json \<Rightarrow> built_constraint option" where
  "terminal_constraint input =
     (let cmd = str_or [] (jget ''command'' input); cwd = str_or ''.'' (jget ''cwd'' input)
      in map_option (\<lambda>preview.
           \<lparr>bc_path_scope = JNull,
            bc_argument = JObj [(''kind'', JStr ''terminal_exact''),
              (''command'', JStr (normalize_command cmd)), (''cwd'', JStr (normalize_cwd cwd))],
            bc_summary = ''terminal cmd='' @ preview @ '' cwd='' @ cwd\<rparr>) (redact_preview cmd))"

definition file_constraint :: "policy_env \<Rightarrow> tool_invocation \<Rightarrow> built_constraint" where
  "file_constraint env iv =
     (let path = str_or [] (jget_or ''path'' ''file_path'' (ti_input iv));
          rel = canonical_rel_path env (ti_root iv) path;
          op = (if ti_tool iv = ''read_file'' then ''read''
                else if ti_tool iv = ''delete_file'' then ''delete'' else ''write'')
      in \<lparr>bc_path_scope = JObj [(''kind'', JStr ''path_exact''), (''path'', JStr rel), (''operation'', JStr op)],
          bc_argument = JNull, bc_summary = ''file '' @ op @ '' path='' @ rel\<rparr>)"

definition mcp_constraint :: "policy_env \<Rightarrow> tool_invocation \<Rightarrow> built_constraint" where
  "mcp_constraint env iv =
     (let input = ti_input iv;
          server = str_or [] (jget_or ''server_id'' ''server'' input);
          tool = str_or (ti_tool iv) (jget_or ''tool'' ''tool_name'' input);
          schema_ver = (case jget ''schema_version'' input of None \<Rightarrow> JNull | Some v \<Rightarrow> v);
          args_hash = canonical_json_hash env
            (case jget_or ''arguments'' ''input'' input of None \<Rightarrow> JNull | Some v \<Rightarrow> v)
      in \<lparr>bc_path_scope = JNull,
          bc_argument = JObj [(''kind'', JStr ''mcp_exact''), (''server_id'', JStr server),
            (''tool'', JStr tool), (''schema_version'', schema_ver), (''args_hash'', JStr args_hash)],
          bc_summary = ''mcp server='' @ server @ '' tool='' @ tool\<rparr>)"

definition network_constraint :: "json \<Rightarrow> built_constraint option" where
  "network_constraint input =
     (let url = str_or [] (jget ''url'' input)
      in map_option (\<lambda>preview.
           \<lparr>bc_path_scope = JNull,
            bc_argument = JObj [(''kind'', JStr ''network_scope''), (''url'', JStr url)],
            bc_summary = ''network url='' @ preview\<rparr>) (redact_preview url))"

definition generic_constraint :: "policy_env \<Rightarrow> json \<Rightarrow> built_constraint" where
  "generic_constraint env input =
     (let hash = canonical_json_hash env input
      in \<lparr>bc_path_scope = JNull, bc_argument = JObj [(''kind'', JStr ''input_hash''), (''hash'', JStr hash)],
          bc_summary = ''generic hash='' @ take 8 hash\<rparr>)"

definition build_constraint :: "policy_env \<Rightarrow> tool_invocation \<Rightarrow> built_constraint option" where
  "build_constraint env iv =
     (if ti_tool iv = ''run_terminal'' then terminal_constraint (ti_input iv)
      else if ti_tool iv \<in> set file_tools then Some (file_constraint env iv)
      else if is_mcp (ti_tool iv) then Some (mcp_constraint env iv)
      else if ti_tool iv \<in> set network_tools then network_constraint (ti_input iv)
      else Some (generic_constraint env (ti_input iv)))"

subsection \<open>Matching a grant\<close>

definition grant_expired :: "policy_env \<Rightarrow> int \<Rightarrow> tool_grant \<Rightarrow> bool" where
  "grant_expired env now g =
     (case tg_expires_at g of
        None \<Rightarrow> False
      | Some exp \<Rightarrow> (case pe_time env exp of None \<Rightarrow> False | Some t \<Rightarrow> t \<le> now))"

definition class_agrees :: "tool_grant \<Rightarrow> tool_invocation \<Rightarrow> bool" where
  "class_agrees g iv \<longleftrightarrow> tg_class g = [] \<or> tg_class g = ''unknown'' \<or> tg_class g = ti_class iv"

definition binds :: "string option \<Rightarrow> string option \<Rightarrow> bool" where
  "binds bound actual \<longleftrightarrow> (bound = None \<or> bound = actual)"

definition scope_agrees :: "tool_grant \<Rightarrow> tool_invocation \<Rightarrow> bool" where
  "scope_agrees g iv =
     (if tg_scope g = ''this_run'' then tg_run g = Some (ti_run iv)
      else if tg_scope g = ''session''
      then (case (tg_session g, ti_session iv) of (Some gs, Some ss) \<Rightarrow> gs = ss | _ \<Rightarrow> False)
      else tg_scope g = ''project'')"

definition constraint_agrees :: "tool_grant \<Rightarrow> built_constraint \<Rightarrow> bool" where
  "constraint_agrees g built \<longleftrightarrow>
     (tg_path_scope g = JNull \<or> tg_path_scope g = bc_path_scope built)
     \<and> (tg_argument g = JNull \<or> tg_argument g = bc_argument built)"

text \<open>\<open>None\<close>: building the constraint panics. It is built only when the other tests passed.\<close>

definition grant_matches :: "policy_env \<Rightarrow> tool_grant \<Rightarrow> tool_invocation \<Rightarrow> int \<Rightarrow> bool option" where
  "grant_matches env g iv now =
     (if tg_policy_version g = 0 \<or> tg_policy_version g \<noteq> tool_grant_policy_version then Some False
      else if tg_revoked_at g \<noteq> None then Some False
      else if grant_expired env now g then Some False
      else if tg_tool g \<noteq> ti_tool iv then Some False
      else if \<not> class_agrees g iv then Some False
      else if \<not> binds (tg_project g) (ti_project iv) then Some False
      else if \<not> binds (tg_fingerprint g) (ti_fingerprint iv) then Some False
      else if \<not> binds (tg_version g) (ti_version iv) then Some False
      else if \<not> scope_agrees g iv then Some False
      else map_option (constraint_agrees g) (build_constraint env iv))"

fun find_grant :: "policy_env \<Rightarrow> tool_invocation \<Rightarrow> int \<Rightarrow> tool_grant list \<Rightarrow> string option option" where
  "find_grant env iv now [] = Some None"
| "find_grant env iv now (g # gs) =
     (case grant_matches env g iv now of
        None \<Rightarrow> None
      | Some True \<Rightarrow> Some (Some (tg_id g))
      | Some False \<Rightarrow> find_grant env iv now gs)"

text \<open>\<open>load_matching_grant_db\<close>: the \<open>WHERE\<close> clause, then the same test row by row.\<close>

definition db_candidates :: "tool_invocation \<Rightarrow> tool_grant list \<Rightarrow> tool_grant list" where
  "db_candidates iv rows = filter (\<lambda>g. tg_tool g = ti_tool iv
     \<and> tg_policy_version g = tool_grant_policy_version \<and> tg_revoked_at g = None) rows"

definition load_matching_grant_db ::
  "policy_env \<Rightarrow> bool \<Rightarrow> tool_invocation \<Rightarrow> int \<Rightarrow> tool_grant list option \<Rightarrow> string option option" where
  "load_matching_grant_db env db_ok iv now db =
     (case db of
        None \<Rightarrow> Some None
      | Some rows \<Rightarrow> if db_ok then find_grant env iv now (db_candidates iv rows) else Some None)"

definition policy_check ::
  "policy_env \<Rightarrow> bool \<Rightarrow> int \<Rightarrow> tool_invocation \<Rightarrow> policy_state \<Rightarrow> grant_decision option" where
  "policy_check env db_ok now iv st =
     (case find_grant env iv now (ps_grants st) of
        None \<Rightarrow> None
      | Some (Some i) \<Rightarrow> Some (GdAllowed i)
      | Some None \<Rightarrow>
          (case load_matching_grant_db env db_ok iv now (ps_db st) of
             None \<Rightarrow> None
           | Some (Some i) \<Rightarrow> Some (GdAllowed i)
           | Some None \<Rightarrow> Some GdNeedsApproval))"

subsection \<open>Remembering and revoking\<close>

definition normalize_scope :: "string \<Rightarrow> string" where
  "normalize_scope scope =
     (let s = ascii_lower (str_trim scope)
      in if s = ''once'' \<or> s = ''this_time'' then ''once''
         else if s = ''run'' \<or> s = ''this_run'' then ''this_run''
         else if s = ''session'' then ''session''
         else if s = ''project'' \<or> s = ''always'' \<or> s = ''forever'' then ''project''
         else ''once'')"

text \<open>The unit of an instant; \<open>chrono::Duration\<close> counts nanoseconds.\<close>

definition hours :: "int \<Rightarrow> int" where
  "hours n = n * 3600000000000"

definition default_expiry :: "policy_env \<Rightarrow> int \<Rightarrow> string \<Rightarrow> string option" where
  "default_expiry env now scope =
     (if scope = ''this_run'' then Some (pe_stamp env (now + hours 24))
      else if scope = ''session'' then Some (pe_stamp env (now + hours (24 * 7)))
      else if scope = ''project'' then Some (pe_stamp env (now + hours (24 * 90)))
      else None)"

definition new_grant ::
  "policy_env \<Rightarrow> string \<Rightarrow> int \<Rightarrow> tool_invocation \<Rightarrow> string \<Rightarrow> string option \<Rightarrow> built_constraint \<Rightarrow> tool_grant" where
  "new_grant env uuid now iv scope created_by c =
     \<lparr>tg_id = uuid, tg_project = ti_project iv, tg_version = ti_version iv,
      tg_fingerprint = ti_fingerprint iv, tg_tool = ti_tool iv, tg_class = ti_class iv,
      tg_path_scope = bc_path_scope c, tg_argument = bc_argument c,
      tg_conversation = Some (ti_conversation iv),
      tg_run = (if scope = ''this_run'' then Some (ti_run iv) else None),
      tg_session = (if scope = ''session'' then ti_session iv else None),
      tg_scope = scope, tg_expires_at = default_expiry env now scope,
      tg_policy_version = tool_grant_policy_version, tg_created_by = created_by,
      tg_created_at = pe_stamp env now, tg_revoked_at = None, tg_summary = bc_summary c\<rparr>"

definition persist_grant_db :: "string option \<Rightarrow> tool_grant \<Rightarrow> tool_grant list option \<Rightarrow> string + tool_grant list option" where
  "persist_grant_db fault g db =
     (case db of
        None \<Rightarrow> Inr None
      | Some rows \<Rightarrow>
          (case fault of
             Some e \<Rightarrow> Inl e
           | None \<Rightarrow> Inr (Some (filter (\<lambda>r. tg_id r \<noteq> tg_id g) rows @ [g]))))"

text \<open>\<open>remember\<close>: the database first; \<open>None\<close> when building the constraint panics.\<close>

definition policy_remember ::
  "policy_env \<Rightarrow> string option \<Rightarrow> string \<Rightarrow> int \<Rightarrow> tool_invocation \<Rightarrow> string \<Rightarrow> string option \<Rightarrow> policy_state \<Rightarrow>
     ((string + tool_grant option) \<times> policy_state) option" where
  "policy_remember env fault uuid now iv scope0 created_by st =
     (let scope = normalize_scope scope0
      in if scope = ''once'' then Some (Inr None, st)
         else map_option (\<lambda>c.
           (let g = new_grant env uuid now iv scope created_by c
            in case persist_grant_db fault g (ps_db st) of
                 Inl e \<Rightarrow> (Inl e, st)
               | Inr db \<Rightarrow> (Inr (Some g), st\<lparr>ps_grants := ps_grants st @ [g], ps_db := db\<rparr>)))
           (build_constraint env iv))"

definition revoke_grant_db :: "string option \<Rightarrow> string \<Rightarrow> string \<Rightarrow> tool_grant list option \<Rightarrow> tool_grant list option" where
  "revoke_grant_db fault at_text i db =
     (if fault \<noteq> None then db
      else map_option (List.map (\<lambda>g. if tg_id g = i then g\<lparr>tg_revoked_at := Some at_text\<rparr> else g)) db)"

definition policy_revoke ::
  "policy_env \<Rightarrow> string option \<Rightarrow> int \<Rightarrow> string \<Rightarrow> string \<Rightarrow> policy_state \<Rightarrow> policy_state" where
  "policy_revoke env fault now at_text i st =
     st\<lparr>ps_grants := update_first (\<lambda>g. tg_id g = i)
          (\<lambda>g. g\<lparr>tg_revoked_at := Some (pe_stamp env now)\<rparr>) (ps_grants st),
        ps_db := revoke_grant_db fault at_text i (ps_db st)\<rparr>"

subsection \<open>Classes and invocations\<close>

definition permission_class_for_tool :: "string \<Rightarrow> string" where
  "permission_class_for_tool name =
     (if name \<in> {''read_file'', ''list_dir'', ''search_files'', ''grep'', ''glob''} then ''project_read''
      else if name \<in> {''write_file'', ''apply_patch'', ''edit_file''} then ''project_write''
      else if name \<in> {''run_terminal'', ''bash''} then ''destructive_command''
      else if name \<in> {''web_fetch'', ''fetch'', ''mcp_call'', ''web_search''} then ''external_write''
      else if name \<in> {''task'', ''kill_task''} then ''project_write''
      else if name \<in> {''task_output'', ''memory_search'', ''memory_get'', ''skill'', ''todo_write'',
        ''notification'', ''enter_plan_mode'', ''exit_plan_mode''} then ''always_allowed''
      else if starts_with name ''mcp__'' then ''external_write''
      else ''unknown'')"

definition invocation_from_gate ::
  "string \<Rightarrow> json \<Rightarrow> string \<Rightarrow> string \<Rightarrow> string option \<Rightarrow> tool_invocation" where
  "invocation_from_gate name input conversation run root =
     \<lparr>ti_tool = name, ti_class = permission_class_for_tool name, ti_conversation = conversation,
      ti_run = run, ti_session = Some conversation, ti_project = None, ti_version = None,
      ti_fingerprint = None, ti_input = input, ti_root = root\<rparr>"

record project_identity =
  pi_project_id :: string
  pi_version :: string
  pi_fingerprint :: string
  pi_canonical_path :: string

definition invocation_from_verified_identity ::
  "string \<Rightarrow> json \<Rightarrow> string \<Rightarrow> string \<Rightarrow> string option \<Rightarrow> project_identity \<Rightarrow> tool_invocation" where
  "invocation_from_verified_identity name input conversation run session identity =
     \<lparr>ti_tool = name, ti_class = permission_class_for_tool name, ti_conversation = conversation,
      ti_run = run, ti_session = session, ti_project = Some (pi_project_id identity),
      ti_version = Some (pi_version identity), ti_fingerprint = Some (pi_fingerprint identity),
      ti_input = input, ti_root = Some (pi_canonical_path identity)\<rparr>"

definition tool_allows_unbound_project :: "string \<Rightarrow> bool" where
  "tool_allows_unbound_project name \<longleftrightarrow> name \<in> {''read_file'', ''list_dir'', ''grep'', ''glob'', ''task_output'',
     ''task'', ''kill_task'', ''enter_plan_mode'', ''exit_plan_mode'', ''write_draft_module'',
     ''read_draft_module'', ''rollback_draft_revision'', ''lint_draft_module''}"

definition tool_requires_verified_project :: "string \<Rightarrow> bool" where
  "tool_requires_verified_project name \<longleftrightarrow> \<not> tool_allows_unbound_project name"

subsection \<open>What a match needs\<close>

definition grant_applies :: "policy_env \<Rightarrow> tool_grant \<Rightarrow> tool_invocation \<Rightarrow> int \<Rightarrow> bool" where
  "grant_applies env g iv now \<longleftrightarrow> tg_policy_version g = tool_grant_policy_version \<and> tg_revoked_at g = None
     \<and> \<not> grant_expired env now g \<and> tg_tool g = ti_tool iv \<and> class_agrees g iv
     \<and> binds (tg_project g) (ti_project iv) \<and> binds (tg_fingerprint g) (ti_fingerprint iv)
     \<and> binds (tg_version g) (ti_version iv) \<and> scope_agrees g iv"

lemma grant_matches_alt:
  "grant_matches env g iv now =
     (if grant_applies env g iv now then map_option (constraint_agrees g) (build_constraint env iv) else Some False)"
proof (cases "grant_applies env g iv now")
  case True
  then show ?thesis by (simp add: grant_matches_def grant_applies_def tool_grant_policy_version_def)
next
  case False
  then show ?thesis unfolding grant_matches_def grant_applies_def by presburger
qed

lemma grant_matches_TrueD:
  assumes "grant_matches env g iv now = Some True"
  shows "grant_applies env g iv now" "\<exists>c. build_constraint env iv = Some c \<and> constraint_agrees g c"
  using assms by (auto simp: grant_matches_alt split: if_splits)

lemma find_grantD:
  "find_grant env iv now gs = Some (Some i) \<Longrightarrow>
     \<exists>g\<in>set gs. tg_id g = i \<and> grant_matches env g iv now = Some True"
  by (induction gs) (auto split: option.splits bool.splits)

lemma grant_matches_total: "build_constraint env iv \<noteq> None \<Longrightarrow> grant_matches env g iv now \<noteq> None"
  by (auto simp: grant_matches_alt)

lemma find_grant_total:
  assumes "build_constraint env iv \<noteq> None"
  shows "find_grant env iv now gs \<noteq> None"
proof (induction gs)
  case (Cons g gs)
  then show ?case using grant_matches_total [OF assms, of g now] by (auto split: bool.splits)
qed simp

lemma find_grant_hit:
  assumes "build_constraint env iv \<noteq> None" and "g \<in> set gs" and "grant_matches env g iv now = Some True"
  shows "\<exists>i. find_grant env iv now gs = Some (Some i)"
  using assms(2)
proof (induction gs)
  case (Cons h gs)
  then show ?case
    using grant_matches_total [OF assms(1), of h now] assms(3) by (auto split: bool.splits)
qed simp

text \<open>Every grant of the store, in memory or in the database.\<close>

definition stored :: "policy_state \<Rightarrow> tool_grant set" where
  "stored st = set (ps_grants st) \<union> (case ps_db st of None \<Rightarrow> {} | Some rows \<Rightarrow> set rows)"

lemma policy_check_AllowedD:
  assumes "policy_check env ok now iv st = Some (GdAllowed i)"
  shows "\<exists>g\<in>stored st. tg_id g = i \<and> grant_matches env g iv now = Some True"
proof (cases "find_grant env iv now (ps_grants st) = Some (Some i)")
  case True
  from find_grantD [OF this] show ?thesis by (auto simp: stored_def)
next
  case False
  with assms have "load_matching_grant_db env ok iv now (ps_db st) = Some (Some i)"
    by (auto simp: policy_check_def split: option.splits)
  then obtain rows where rows: "ps_db st = Some rows" "find_grant env iv now (db_candidates iv rows) = Some (Some i)"
    by (auto simp: load_matching_grant_db_def split: option.splits if_splits)
  from find_grantD [OF rows(2)] rows(1) show ?thesis by (auto simp: stored_def db_candidates_def)
qed

text \<open>Whether the path or the argument is constrained depends on the tool alone.\<close>

lemma build_constraint_kind:
  assumes "build_constraint env iv0 = Some c0" and "build_constraint env iv = Some c"
    and "ti_tool iv0 = ti_tool iv"
  shows "(bc_path_scope c0 = JNull \<and> bc_path_scope c = JNull \<and> bc_argument c0 \<noteq> JNull)
    \<or> (bc_argument c0 = JNull \<and> bc_argument c = JNull \<and> bc_path_scope c0 \<noteq> JNull)"
  using assms
  by (auto simp: build_constraint_def terminal_constraint_def file_constraint_def mcp_constraint_def
      network_constraint_def generic_constraint_def Let_def split: if_splits)

lemma constraint_agrees_same:
  assumes "build_constraint env iv0 = Some c0" and "build_constraint env iv = Some c"
    and "ti_tool iv0 = ti_tool iv" and "tg_path_scope g = bc_path_scope c0" "tg_argument g = bc_argument c0"
  shows "constraint_agrees g c \<longleftrightarrow> bc_path_scope c = bc_path_scope c0 \<and> bc_argument c = bc_argument c0"
  using build_constraint_kind [OF assms(1-3)] assms(4,5) by (auto simp: constraint_agrees_def)

lemma new_grant_simps [simp]:
  "tg_id (new_grant env uuid now iv scope who c) = uuid"
  "tg_tool (new_grant env uuid now iv scope who c) = ti_tool iv"
  "tg_class (new_grant env uuid now iv scope who c) = ti_class iv"
  "tg_project (new_grant env uuid now iv scope who c) = ti_project iv"
  "tg_version (new_grant env uuid now iv scope who c) = ti_version iv"
  "tg_fingerprint (new_grant env uuid now iv scope who c) = ti_fingerprint iv"
  "tg_path_scope (new_grant env uuid now iv scope who c) = bc_path_scope c"
  "tg_argument (new_grant env uuid now iv scope who c) = bc_argument c"
  "tg_run (new_grant env uuid now iv scope who c) = (if scope = ''this_run'' then Some (ti_run iv) else None)"
  "tg_session (new_grant env uuid now iv scope who c) = (if scope = ''session'' then ti_session iv else None)"
  "tg_scope (new_grant env uuid now iv scope who c) = scope"
  "tg_expires_at (new_grant env uuid now iv scope who c) = default_expiry env now scope"
  "tg_policy_version (new_grant env uuid now iv scope who c) = tool_grant_policy_version"
  "tg_revoked_at (new_grant env uuid now iv scope who c) = None"
  by (simp_all add: new_grant_def)

lemma normalize_scope_cases:
  "normalize_scope s \<in> {''once'', ''this_run'', ''session'', ''project''}"
  by (simp add: normalize_scope_def Let_def)

lemma policy_remember_granted:
  assumes "policy_remember env fault uuid now iv scope who st = Some (Inr (Some g), st')"
  shows "\<exists>c. build_constraint env iv = Some c \<and> g = new_grant env uuid now iv (normalize_scope scope) who c
    \<and> ps_grants st' = ps_grants st @ [g] \<and> normalize_scope scope \<in> {''this_run'', ''session'', ''project''}
    \<and> (ps_db st = None \<and> ps_db st' = None
       \<or> (\<exists>rows. ps_db st = Some rows \<and> ps_db st' = Some (filter (\<lambda>r. tg_id r \<noteq> tg_id g) rows @ [g])))"
proof -
  from assms have not_once: "normalize_scope scope \<noteq> ''once''" by (auto simp: policy_remember_def)
  with assms obtain c where c: "build_constraint env iv = Some c"
    by (auto simp: policy_remember_def Let_def)
  let ?g = "new_grant env uuid now iv (normalize_scope scope) who c"
  have eq: "(case persist_grant_db fault ?g (ps_db st) of
      Inl e \<Rightarrow> (Inl e, st) | Inr db \<Rightarrow> (Inr (Some ?g), st\<lparr>ps_grants := ps_grants st @ [?g], ps_db := db\<rparr>))
    = (Inr (Some g), st')"
    using assms not_once c by (simp add: policy_remember_def Let_def)
  then obtain db where db: "persist_grant_db fault ?g (ps_db st) = Inr db" "g = ?g"
    "st' = st\<lparr>ps_grants := ps_grants st @ [?g], ps_db := db\<rparr>"
    by (cases "persist_grant_db fault ?g (ps_db st)") auto
  have "ps_db st = None \<and> ps_db st' = None
       \<or> (\<exists>rows. ps_db st = Some rows \<and> ps_db st' = Some (filter (\<lambda>r. tg_id r \<noteq> tg_id g) rows @ [g]))"
    using db by (cases "ps_db st"; cases fault) (simp_all add: persist_grant_db_def)
  then show ?thesis using c db(2,3) not_once normalize_scope_cases [of scope] by auto
qed

subsection \<open>Reachable stores\<close>

text \<open>
  \<open>policy_run env G R st\<close>: from an empty store, the grants of \<open>G\<close> were remembered, each with the
  invocation it was remembered for and a fresh id, and the ids of \<open>R\<close> revoked in the database too.
\<close>

inductive policy_run ::
  "policy_env \<Rightarrow> (tool_grant \<times> tool_invocation) set \<Rightarrow> string set \<Rightarrow> policy_state \<Rightarrow> bool" for env where
  policy_empty: "db = None \<or> db = Some [] \<Longrightarrow> policy_run env {} {} \<lparr>ps_grants = [], ps_db = db\<rparr>"
| policy_remembered:
    "policy_run env G R st \<Longrightarrow> policy_remember env fault uuid now iv scope who st = Some (Inr (Some g), st') \<Longrightarrow>
     uuid \<notin> R \<union> (\<lambda>p. tg_id (fst p)) ` G \<Longrightarrow> policy_run env (insert (g, iv) G) R st'"
| policy_revoked:
    "policy_run env G R st \<Longrightarrow>
     policy_run env G (if fault = None then insert i R else R) (policy_revoke env fault now at_text i st)"

text \<open>Equal up to the time of revocation.\<close>

definition same_grant :: "tool_grant \<Rightarrow> tool_grant \<Rightarrow> bool" where
  "same_grant g g0 \<longleftrightarrow> g\<lparr>tg_revoked_at := None\<rparr> = g0\<lparr>tg_revoked_at := None\<rparr>"

lemma same_grantD:
  assumes "same_grant g g0"
  shows "tg_id g = tg_id g0" "tg_tool g = tg_tool g0" "tg_class g = tg_class g0" "tg_project g = tg_project g0"
    "tg_version g = tg_version g0" "tg_fingerprint g = tg_fingerprint g0"
    "tg_path_scope g = tg_path_scope g0" "tg_argument g = tg_argument g0" "tg_run g = tg_run g0"
    "tg_session g = tg_session g0" "tg_scope g = tg_scope g0" "tg_expires_at g = tg_expires_at g0"
  using assms by (cases g; cases g0; simp add: same_grant_def)+

lemma same_grant_refl [simp]: "same_grant g g"
  by (simp add: same_grant_def)

lemma same_grant_upd [simp]: "same_grant (g\<lparr>tg_revoked_at := t\<rparr>) g0 = same_grant g g0"
  by (simp add: same_grant_def)

definition policy_inv :: "policy_env \<Rightarrow> (tool_grant \<times> tool_invocation) set \<Rightarrow> string set \<Rightarrow> policy_state \<Rightarrow> bool" where
  "policy_inv env G R st \<longleftrightarrow>
     (\<forall>(g, iv)\<in>G. \<exists>c scope now who uuid. build_constraint env iv = Some c
        \<and> g = new_grant env uuid now iv scope who c \<and> scope \<in> {''this_run'', ''session'', ''project''})
     \<and> (\<forall>g\<in>stored st. (\<exists>(g0, iv)\<in>G. same_grant g g0) \<and> (tg_id g \<in> R \<longrightarrow> tg_revoked_at g \<noteq> None))
     \<and> distinct (List.map tg_id (ps_grants st))"

lemma in_set_update_first_id:
  assumes "distinct (List.map f xs)" and "y \<in> set (update_first (\<lambda>x. f x = i) h xs)"
  shows "(y \<in> set xs \<and> f y \<noteq> i) \<or> (\<exists>x\<in>set xs. y = h x)"
  using assms
proof (induction xs)
  case (Cons x xs)
  show ?case
  proof (cases "f x = i")
    case True
    with Cons.prems have "y = h x \<or> y \<in> set xs" "f x \<notin> f ` set xs" by auto
    with True show ?thesis by (metis imageI list.set_intros)
  next
    case False
    with Cons.prems Cons.IH show ?thesis by auto
  qed
qed simp

lemma policy_inv_remember:
  assumes inv: "policy_inv env G R st"
    and rem: "policy_remember env fault uuid now iv scope who st = Some (Inr (Some g), st')"
    and fresh: "uuid \<notin> R \<union> (\<lambda>p. tg_id (fst p)) ` G"
  shows "policy_inv env (insert (g, iv) G) R st'"
proof -
  from policy_remember_granted [OF rem] obtain c where c: "build_constraint env iv = Some c"
    "g = new_grant env uuid now iv (normalize_scope scope) who c" "ps_grants st' = ps_grants st @ [g]"
    "normalize_scope scope \<in> {''this_run'', ''session'', ''project''}"
    and db: "ps_db st = None \<and> ps_db st' = None
       \<or> (\<exists>rows. ps_db st = Some rows \<and> ps_db st' = Some (filter (\<lambda>r. tg_id r \<noteq> tg_id g) rows @ [g]))"
    by blast
  have old: "stored st' \<subseteq> insert g (stored st)"
    using c(3) db by (auto simp: stored_def)
  have ids: "tg_id x \<noteq> uuid" if x: "x \<in> set (ps_grants st)" for x
  proof -
    from x inv obtain g0 y where "(g0, y) \<in> G" "same_grant x g0"
      unfolding policy_inv_def stored_def by blast
    with fresh show ?thesis by (metis (no_types, lifting) UnI2 fst_conv image_eqI same_grantD(1))
  qed
  with inv c(2,3) have "distinct (List.map tg_id (ps_grants st'))" by (auto simp: policy_inv_def)
  moreover have "\<forall>(x, y)\<in>insert (g, iv) G. \<exists>c scope now who uuid. build_constraint env y = Some c
        \<and> x = new_grant env uuid now y scope who c \<and> scope \<in> {''this_run'', ''session'', ''project''}"
    using inv c(1,2,4) unfolding policy_inv_def by blast
  moreover have "(\<exists>(g0, y)\<in>insert (g, iv) G. same_grant x g0) \<and> (tg_id x \<in> R \<longrightarrow> tg_revoked_at x \<noteq> None)"
    if "x \<in> stored st'" for x
  proof (cases "x = g")
    case True
    with c(2) fresh show ?thesis by auto
  next
    case False
    with that old have "x \<in> stored st" by blast
    with inv show ?thesis unfolding policy_inv_def by blast
  qed
  ultimately show ?thesis unfolding policy_inv_def by blast
qed

lemma stored_revoke:
  assumes "distinct (List.map tg_id (ps_grants st))"
    and "x \<in> stored (policy_revoke env fault now at_text i st)"
  shows "(x \<in> stored st \<and> (fault = None \<longrightarrow> tg_id x \<noteq> i)) \<or> (\<exists>y\<in>stored st. \<exists>t. x = y\<lparr>tg_revoked_at := Some t\<rparr>)"
proof -
  consider (mem) "x \<in> set (ps_grants (policy_revoke env fault now at_text i st))"
    | (db) rows where "ps_db (policy_revoke env fault now at_text i st) = Some rows" "x \<in> set rows"
    using assms(2) by (auto simp: stored_def split: option.splits)
  then show ?thesis
  proof cases
    case mem
    from in_set_update_first_id [OF assms(1) mem [unfolded policy_revoke_def, simplified]]
    show ?thesis by (auto simp: stored_def)
  next
    case db
    then obtain rows0 where "ps_db st = Some rows0"
      "rows = (if fault \<noteq> None then rows0 else List.map (\<lambda>g. if tg_id g = i then g\<lparr>tg_revoked_at := Some at_text\<rparr> else g) rows0)"
      by (auto simp: policy_revoke_def revoke_grant_db_def split: if_splits)
    with db(2) show ?thesis by (auto simp: stored_def split: if_splits)
  qed
qed

lemma policy_inv_revoke:
  assumes inv: "policy_inv env G R st"
  shows "policy_inv env G (if fault = None then insert i R else R) (policy_revoke env fault now at_text i st)"
proof -
  have d: "distinct (List.map tg_id (ps_grants st))" using inv by (simp add: policy_inv_def)
  have "(\<exists>(g0, iv)\<in>G. same_grant x g0)
      \<and> (tg_id x \<in> (if fault = None then insert i R else R) \<longrightarrow> tg_revoked_at x \<noteq> None)"
    if "x \<in> stored (policy_revoke env fault now at_text i st)" for x
    using stored_revoke [OF d that]
  proof (elim disjE bexE exE conjE)
    assume "x \<in> stored st" "fault = None \<longrightarrow> tg_id x \<noteq> i"
    with inv show ?thesis unfolding policy_inv_def by (auto split: if_splits)
  next
    fix y t assume "y \<in> stored st" "x = y\<lparr>tg_revoked_at := Some t\<rparr>"
    with inv show ?thesis unfolding policy_inv_def by auto
  qed
  moreover have "distinct (List.map tg_id (ps_grants (policy_revoke env fault now at_text i st)))"
    using d by (simp add: policy_revoke_def map_update_first)
  ultimately show ?thesis using inv unfolding policy_inv_def by blast
qed

lemma policy_run_inv: "policy_run env G R st \<Longrightarrow> policy_inv env G R st"
proof (induction rule: policy_run.induct)
  case (policy_empty db)
  then show ?case by (auto simp: policy_inv_def stored_def)
qed (blast intro: policy_inv_remember policy_inv_revoke)+

subsection \<open>Separators and keys that do not count\<close>

lemma strip_one_stop:
  assumes "x \<noteq> []"
  shows "strip_one ws_chars (x @ CHR 0x0A # b) = map_option (\<lambda>r. r @ CHR 0x0A # b) (strip_one ws_chars x)"
    "strip_one ws_chars (x @ CHR 0x20 # b) = map_option (\<lambda>r. r @ CHR 0x20 # b) (strip_one ws_chars x)"
proof -
  obtain c cs where "x = c # cs" using assms by (cases x) auto
  then consider "x = [c]" | d where "x = [c, d]" | d e es where "x = c # d # e # es"
    by (cases cs; cases "tl cs") auto
  then show "strip_one ws_chars (x @ CHR 0x0A # b) = map_option (\<lambda>r. r @ CHR 0x0A # b) (strip_one ws_chars x)"
    by cases (simp_all add: ws_chars_def)
  show "strip_one ws_chars (x @ CHR 0x20 # b) = map_option (\<lambda>r. r @ CHR 0x20 # b) (strip_one ws_chars x)"
    using \<open>x = c # cs\<close> by (cases cs; cases "tl cs") (simp_all add: ws_chars_def)
qed

lemma split_ws_newline: "split_ws cur (a @ CHR 0x0A # b) = split_ws cur (a @ CHR 0x20 # b)"
proof (induction "length a" arbitrary: cur a rule: less_induct)
  case less
  show ?case
  proof (cases a)
    case Nil
    have "strip_one ws_chars (CHR 0x0A # b) = Some b" "strip_one ws_chars (CHR 0x20 # b) = Some b"
      by (simp_all add: ws_chars_def)
    with Nil show ?thesis by simp
  next
    case (Cons c cs)
    show ?thesis
    proof (cases "strip_one ws_chars a")
      case None
      then show ?thesis using less [of cs "cur @ [c]"] strip_one_stop [of a b] Cons by simp
    next
      case (Some r)
      then show ?thesis
        using less [OF strip_one_shorter [OF Some], of "[]"] strip_one_stop [of a b] Cons by simp
    qed
  qed
qed

lemma canonical_json_two:
  assumes "a < b"
  shows "canonical_json show (JObj [(a, x), (b, y)])
    = canonical_json show (JObj [(a @ [CHR 0x22, CHR '':''] @ canonical_json show x @ [CHR '','', CHR 0x22] @ b, y)])"
  using assms less_imp_le [OF assms] by (simp add: json_entry_def)

lemma policy_remember_needs_constraint:
  assumes "policy_remember env fault uuid now iv scope who st = Some (Inr (Some g), st')"
  shows "build_constraint env iv \<noteq> None"
  using policy_remember_granted [OF assms] by auto

text \<open>A remembered grant covers every invocation that differs in its input only and has its constraint.\<close>

lemma remembered_covers:
  assumes rem: "policy_remember env fault uuid now iv0 scope who st = Some (Inr (Some g), st')"
    and time: "\<And>t. pe_time env (pe_stamp env t) = Some t" and later: "now' < now + hours 24"
    and session: "ti_session iv0 \<noteq> None" and iv: "iv = iv0\<lparr>ti_input := input\<rparr>"
    and c: "map_option (\<lambda>c. (bc_path_scope c, bc_argument c)) (build_constraint env iv)
      = map_option (\<lambda>c. (bc_path_scope c, bc_argument c)) (build_constraint env iv0)"
  shows "\<exists>i. policy_check env ok now' iv st' = Some (GdAllowed i)"
proof -
  from policy_remember_granted [OF rem] obtain c0 where c0: "build_constraint env iv0 = Some c0"
    "g = new_grant env uuid now iv0 (normalize_scope scope) who c0" "g \<in> set (ps_grants st')"
    "normalize_scope scope \<in> {''this_run'', ''session'', ''project''}" by auto
  with c obtain c1 where c1: "build_constraint env iv = Some c1"
    "bc_path_scope c1 = bc_path_scope c0" "bc_argument c1 = bc_argument c0" by auto
  have "\<not> grant_expired env now' g"
    using c0(2,4) later time by (auto simp: grant_expired_def default_expiry_def hours_def split: option.splits)
  moreover have "scope_agrees g iv"
    using c0(2,4) session iv by (auto simp: scope_agrees_def)
  ultimately have "grant_applies env g iv now'"
    using c0(2) iv by (simp add: grant_applies_def class_agrees_def binds_def)
  then have "grant_matches env g iv now' = Some True"
    using c1 c0(2) by (simp add: grant_matches_alt constraint_agrees_def)
  with find_grant_hit [of env iv g "ps_grants st'" now'] c1(1) c0(3) show ?thesis
    by (fastforce simp: policy_check_def)
qed

subsection \<open>Properties\<close>

text \<open>
  C9: a call is let through only on a grant given for the same thing. Whatever was remembered and
  revoked since the store was empty, an allowed invocation has a remembered one of the same tool,
  with the same path or argument constraint, bound to the same run or session where the scope says
  so and to the same project where one was bound, whose grant has not expired and of which no revocation
  reached the table of grants. A grant that was revoked in memory only, because the statement on the table
  failed, is found again and lets the call through (\<open>failed_revocation_keeps_grant\<close>).
\<close>

theorem allowed_only_as_remembered:
  assumes "policy_run env G R st" and "policy_check env ok now iv st = Some (GdAllowed i)"
  shows "\<exists>g iv0 c0 c. (g, iv0) \<in> G \<and> tg_id g = i \<and> i \<notin> R \<and> \<not> grant_expired env now g
    \<and> ti_tool iv = ti_tool iv0
    \<and> build_constraint env iv0 = Some c0 \<and> build_constraint env iv = Some c
    \<and> bc_path_scope c = bc_path_scope c0 \<and> bc_argument c = bc_argument c0
    \<and> binds (ti_project iv0) (ti_project iv) \<and> binds (ti_fingerprint iv0) (ti_fingerprint iv)
    \<and> (tg_scope g = ''this_run'' \<and> ti_run iv = ti_run iv0
       \<or> tg_scope g = ''session'' \<and> ti_session iv = ti_session iv0 \<or> tg_scope g = ''project'')"
proof -
  note inv = policy_run_inv [OF assms(1), unfolded policy_inv_def]
  from policy_check_AllowedD [OF assms(2)] obtain g where
    g: "g \<in> stored st" "tg_id g = i" "grant_matches env g iv now = Some True" by blast
  note m = grant_matches_TrueD [OF g(3)]
  from m(2) obtain c where c: "build_constraint env iv = Some c" "constraint_agrees g c" by blast
  from inv g(1) obtain g0 iv0 where g0: "(g0, iv0) \<in> G" "same_grant g g0" by blast
  with inv obtain c0 scope now0 who uuid where c0: "build_constraint env iv0 = Some c0"
    "g0 = new_grant env uuid now0 iv0 scope who c0" by blast
  note same = same_grantD [OF g0(2)]
  have "ti_tool iv0 = ti_tool iv" using m(1) same c0(2) by (simp add: grant_applies_def)
  moreover have "bc_path_scope c = bc_path_scope c0 \<and> bc_argument c = bc_argument c0"
    using constraint_agrees_same [OF c0(1) c(1) calculation, of g] c(2) same c0(2) by simp
  moreover have "i \<notin> R" using inv g m(1) by (auto simp: grant_applies_def)
  moreover have "\<not> grant_expired env now g0"
    using m(1) same(12) by (simp add: grant_applies_def grant_expired_def)
  moreover have "binds (ti_project iv0) (ti_project iv)" "binds (ti_fingerprint iv0) (ti_fingerprint iv)"
    using m(1) same c0(2) by (simp_all add: grant_applies_def)
  moreover have "tg_scope g0 = ''this_run'' \<and> ti_run iv = ti_run iv0
       \<or> tg_scope g0 = ''session'' \<and> ti_session iv = ti_session iv0 \<or> tg_scope g0 = ''project''"
    using m(1) same c0(2)
    by (auto simp: grant_applies_def scope_agrees_def split: if_splits option.splits)
  ultimately show ?thesis using g0(1) g(2) same(1) c0(1) c(1) by metis
qed

text \<open>A concrete environment: times in binary, a trivial hash, no files on disk.\<close>

fun demo_bits :: "nat \<Rightarrow> string" where
  "demo_bits n = (if n = 0 then [] else (if odd n then CHR ''1'' else CHR ''0'') # demo_bits (n div 2))"

declare demo_bits.simps [simp del]

fun demo_value :: "string \<Rightarrow> nat" where
  "demo_value [] = 0"
| "demo_value (c # cs) = (if c = CHR ''1'' then 1 else 0) + 2 * demo_value cs"

lemma demo_value_bits [simp]: "demo_value (demo_bits n) = n"
proof (induction n rule: demo_bits.induct)
  case (1 n)
  show ?case
  proof (cases "n = 0")
    case True
    then show ?thesis by (simp add: demo_bits.simps [of 0])
  next
    case False
    with 1 show ?thesis by (simp add: demo_bits.simps [of n])
  qed
qed

definition demo_policy_env :: policy_env where
  "demo_policy_env = \<lparr>pe_sha = id, pe_show = (\<lambda>_. ''0''), pe_canon = (\<lambda>_. None),
     pe_time = (\<lambda>s. Some (if hd s = CHR ''-'' then - int (demo_value (tl s)) else int (demo_value (tl s)))),
     pe_stamp = (\<lambda>t. (if t < 0 then CHR ''-'' else CHR ''+'') # demo_bits (nat \<bar>t\<bar>))\<rparr>"

lemma demo_policy_env_simps [simp]:
  "pe_time demo_policy_env (pe_stamp demo_policy_env t) = Some t"
  "pe_sha demo_policy_env = id" "pe_show demo_policy_env v = ''0''" "pe_canon demo_policy_env s = None"
  by (simp_all add: demo_policy_env_def)

definition demo_store :: policy_state where
  "demo_store = \<lparr>ps_grants = [], ps_db = Some []\<rparr>"

definition demo_call :: "string \<Rightarrow> json \<Rightarrow> tool_invocation" where
  "demo_call tool input = invocation_from_gate tool input ''c'' ''r'' None"

lemma demo_call_simps [simp]:
  "ti_tool (demo_call t i) = t" "ti_input (demo_call t i) = i" "ti_session (demo_call t i) = Some ''c''"
  "(demo_call t i)\<lparr>ti_input := j\<rparr> = demo_call t j"
  by (simp_all add: demo_call_def invocation_from_gate_def)

lemma demo_remember:
  assumes "build_constraint demo_policy_env (demo_call t i) = Some c"
  shows "\<exists>g st'. policy_remember demo_policy_env None ''g1'' 0 (demo_call t i) ''session'' None demo_store
    = Some (Inr (Some g), st') \<and> tg_id g = ''g1''"
proof -
  have "normalize_scope ''session'' = ''session''" by code_simp
  with assms show ?thesis
    by (simp add: policy_remember_def persist_grant_db_def demo_store_def Let_def)
qed

lemma allowed_only_as_remembered_witness:
  "\<exists>st i. policy_check demo_policy_env True 0 (demo_call ''run_terminal'' (JObj [(''command'', JStr ''ls'')])) st = Some (GdAllowed i)
    \<and> i = ''g1''"
proof -
  let ?iv = "demo_call ''run_terminal'' (JObj [(''command'', JStr ''ls'')])"
  have b: "build_constraint demo_policy_env ?iv \<noteq> None"
    by (simp add: build_constraint_def terminal_constraint_def Let_def redact_preview_def str_or_def) code_simp
  then obtain c where "build_constraint demo_policy_env ?iv = Some c" by blast
  from demo_remember [OF this] obtain g st' where
    r: "policy_remember demo_policy_env None ''g1'' 0 ?iv ''session'' None demo_store = Some (Inr (Some g), st')"
      "tg_id g = ''g1''" by blast
  have "policy_run demo_policy_env {} {} demo_store" unfolding demo_store_def by (rule policy_empty) simp
  from policy_remembered [OF this r(1)] have run: "policy_run demo_policy_env {(g, ?iv)} {} st'" by simp
  from remembered_covers [OF r(1), of 0 ?iv "ti_input ?iv" True] obtain i where
    i: "policy_check demo_policy_env True 0 ?iv st' = Some (GdAllowed i)" by (auto simp: hours_def)
  from allowed_only_as_remembered [OF run i] r(2) i show ?thesis by auto
qed

text \<open>
  A remembered grant is honoured. Until a day has passed, a check of an invocation for which a
  grant was just remembered is answered without asking the user, whatever else is in the store.
\<close>

theorem remembered_grant_honoured:
  assumes "policy_remember env fault uuid now iv scope who st = Some (Inr (Some g), st')"
    and "\<And>t. pe_time env (pe_stamp env t) = Some t" and "now' < now + hours 24" and "ti_session iv \<noteq> None"
  shows "\<exists>i. policy_check env ok now' iv st' = Some (GdAllowed i)"
  using remembered_covers [OF assms, of iv "ti_input iv"] by simp

lemma remembered_grant_honoured_witness:
  "\<exists>st i. policy_check demo_policy_env False 5 (demo_call ''task'' (JObj [])) st = Some (GdAllowed i)"
proof -
  have "\<exists>c. build_constraint demo_policy_env (demo_call ''task'' (JObj [])) = Some c"
    by (simp add: build_constraint_def file_tools_def network_tools_def is_mcp_def starts_with_def)
  then obtain c where "build_constraint demo_policy_env (demo_call ''task'' (JObj [])) = Some c" ..
  from demo_remember [OF this] obtain g st' where
    "policy_remember demo_policy_env None ''g1'' 0 (demo_call ''task'' (JObj [])) ''session'' None demo_store
      = Some (Inr (Some g), st')" by blast
  from remembered_grant_honoured [OF this, of 5 False] show ?thesis by (auto simp: hours_def)
qed

text \<open>
  A grant for a terminal command covers other commands. A grant remembered for a command also
  covers the command in which one of its blanks is a line break, which a shell runs as two.
\<close>

theorem terminal_grant_covers_line_break:
  assumes "policy_remember env fault uuid now iv scope who st = Some (Inr (Some g), st')"
    and "\<And>t. pe_time env (pe_stamp env t) = Some t" and "now' < now + hours 24" and "ti_session iv \<noteq> None"
    and "ti_tool iv = ''run_terminal''" and "ti_input iv = JObj [(''command'', JStr (a @ CHR 0x20 # b))]"
    and "redact_preview (a @ CHR 0x0A # b) \<noteq> None"
  shows "\<exists>i. policy_check env ok now' (iv\<lparr>ti_input := JObj [(''command'', JStr (a @ CHR 0x0A # b))]\<rparr>) st'
    = Some (GdAllowed i)"
proof (rule remembered_covers [OF assms(1-4) refl])
  from assms(1) have "build_constraint env iv \<noteq> None" by (rule policy_remember_needs_constraint)
  with assms(5-7) show "map_option (\<lambda>c. (bc_path_scope c, bc_argument c))
      (build_constraint env (iv\<lparr>ti_input := JObj [(''command'', JStr (a @ CHR 0x0A # b))]\<rparr>))
    = map_option (\<lambda>c. (bc_path_scope c, bc_argument c)) (build_constraint env iv)"
    by (auto simp: build_constraint_def terminal_constraint_def Let_def str_or_def normalize_command_def
        split_ws_newline)
qed

lemma terminal_grant_covers_line_break_witness:
  "\<exists>st i. policy_check demo_policy_env True 0
     (demo_call ''run_terminal'' (JObj [(''command'', JStr (''echo rm'' @ CHR 0x0A # ''-rf x''))])) st = Some (GdAllowed i)"
proof -
  let ?iv = "demo_call ''run_terminal'' (JObj [(''command'', JStr (''echo rm'' @ CHR 0x20 # ''-rf x''))])"
  have p: "redact_preview (''echo rm'' @ CHR 0x0A # ''-rf x'') \<noteq> None"
    "redact_preview (''echo rm'' @ CHR 0x20 # ''-rf x'') \<noteq> None" by code_simp+
  then obtain c where "build_constraint demo_policy_env ?iv = Some c"
    by (auto simp: build_constraint_def terminal_constraint_def Let_def str_or_def)
  from demo_remember [OF this] obtain g st' where
    "policy_remember demo_policy_env None ''g1'' 0 ?iv ''session'' None demo_store = Some (Inr (Some g), st')" by blast
  from terminal_grant_covers_line_break [OF this, of 0 "''echo rm''" "''-rf x''" True] p(1)
  show ?thesis by (auto simp: hours_def)
qed

text \<open>
  The hash of a tool's arguments is not of the arguments. Keys are quoted but not escaped in the
  hashed text, so a grant for an object of two entries also covers the object of one entry whose
  key spells out the first entry and the quotes around it.
\<close>

theorem generic_grant_covers_forged_key:
  assumes "policy_remember env fault uuid now iv scope who st = Some (Inr (Some g), st')"
    and "\<And>t. pe_time env (pe_stamp env t) = Some t" and "now' < now + hours 24" and "ti_session iv \<noteq> None"
    and "ti_tool iv = ''task''" and "ti_input iv = JObj [(k, x), (l, y)]" and "k < l"
  shows "\<exists>i. policy_check env ok now' (iv\<lparr>ti_input := JObj [(k @ [CHR 0x22, CHR '':'']
      @ canonical_json (pe_show env) x @ [CHR '','', CHR 0x22] @ l, y)]\<rparr>) st' = Some (GdAllowed i)"
proof (rule remembered_covers [OF assms(1-4) refl])
  note two = canonical_json_two [OF assms(7), of "pe_show env" x y]
  show "map_option (\<lambda>c. (bc_path_scope c, bc_argument c)) (build_constraint env
        (iv\<lparr>ti_input := JObj [(k @ [CHR 0x22, CHR '':''] @ canonical_json (pe_show env) x @ [CHR '','', CHR 0x22] @ l, y)]\<rparr>))
    = map_option (\<lambda>c. (bc_path_scope c, bc_argument c)) (build_constraint env iv)"
    using assms(5,6) two
    by (simp add: build_constraint_def generic_constraint_def Let_def canonical_json_hash_def file_tools_def
        network_tools_def is_mcp_def starts_with_def del: canonical_json.simps)
qed

lemma generic_grant_covers_forged_key_witness:
  "\<exists>st i. policy_check demo_policy_env True 0
     (demo_call ''task'' (JObj [(''a'' @ [CHR 0x22, CHR '':''] @ ''0'' @ [CHR '','', CHR 0x22] @ ''b'', JNull)])) st
     = Some (GdAllowed i)"
proof -
  let ?iv = "demo_call ''task'' (JObj [(''a'', JNull), (''b'', JNull)])"
  obtain c where "build_constraint demo_policy_env ?iv = Some c"
    by (simp add: build_constraint_def file_tools_def network_tools_def is_mcp_def starts_with_def)
  from demo_remember [OF this] obtain g st' where
    r: "policy_remember demo_policy_env None ''g1'' 0 ?iv ''session'' None demo_store = Some (Inr (Some g), st')" by blast
  have "(''a'' :: string) < ''b''" by code_simp
  from generic_grant_covers_forged_key [OF r, of 0 "''a''" JNull "''b''" JNull True] this
  show ?thesis by (auto simp: hours_def)
qed

text \<open>
  A revocation that the database missed has no effect. \<open>revoke\<close> ignores a failure of its
  \<open>UPDATE\<close>, and \<open>check\<close> falls back to the database: the revoked grant still lets the call through.
\<close>

theorem failed_revocation_keeps_grant:
  assumes "ps_db st = Some [g]" and "ps_grants st = [g]" and "grant_matches env g iv now = Some True"
  shows "policy_check env True now iv (policy_revoke env (Some e) now t (tg_id g) st) = Some (GdAllowed (tg_id g))
    \<and> policy_check env True now iv (policy_revoke env None now t (tg_id g) st) = Some GdNeedsApproval"
proof -
  note m = grant_matches_TrueD [OF assms(3)]
  then have "grant_matches env (g\<lparr>tg_revoked_at := Some (pe_stamp env now)\<rparr>) iv now = Some False"
    by (simp add: grant_matches_alt grant_applies_def)
  with m(1) assms show ?thesis
    by (simp add: policy_check_def policy_revoke_def revoke_grant_db_def load_matching_grant_db_def
        db_candidates_def grant_applies_def)
qed

lemma failed_revocation_keeps_grant_witness:
  "\<exists>st. policy_check demo_policy_env True 0 (demo_call ''task'' (JObj []))
     (policy_revoke demo_policy_env (Some ''locked'') 0 ''t'' ''g1'' st) = Some (GdAllowed ''g1'')"
proof -
  let ?iv = "demo_call ''task'' (JObj [])"
  obtain c where c: "build_constraint demo_policy_env ?iv = Some c"
    by (simp add: build_constraint_def file_tools_def network_tools_def is_mcp_def starts_with_def)
  let ?g = "new_grant demo_policy_env ''g1'' 0 ?iv ''session'' None c"
  have "grant_matches demo_policy_env ?g ?iv 0 = Some True"
    using c by (simp add: grant_matches_alt grant_applies_def class_agrees_def binds_def scope_agrees_def
        grant_expired_def default_expiry_def hours_def constraint_agrees_def)
  from failed_revocation_keeps_grant [of "\<lparr>ps_grants = [?g], ps_db = Some [?g]\<rparr>" ?g, OF _ _ this]
  show ?thesis by auto
qed

end
