(* ===== verification/PatchParser.thy ===== *)
theory PatchParser
  imports ToolTypes
begin

section \<open>Parsing \<open>apply_patch\<close> input\<close>

text \<open>
  Models \<open>crates/capability-gateway/src/tools/apply_patch_parser.rs\<close> on a Unix target: the patch text
  format, the JSON forms and the path check. The peekable line iterator is the list of the lines
  not yet read; a body collector returns its text with the lines it left.
\<close>

datatype patch_op =
    PoAdd string string
  | PoUpdate string string
  | PoDelete string
  | PoMove string string

subsection \<open>Lines\<close>

text \<open>\<open>text.lines()\<close>: \<open>cur\<close> is the line read so far; a line feed ends it and takes one \<open>CR\<close> along.\<close>

definition drop_cr :: "string \<Rightarrow> string" where
  "drop_cr l = (if l \<noteq> [] \<and> last l = CHR 0x0D then butlast l else l)"

fun lines_from :: "string \<Rightarrow> string \<Rightarrow> string list" where
  "lines_from cur [] = (if cur = [] then [] else [cur])"
| "lines_from cur (c # cs) =
     (if c = CHR 0x0A then drop_cr cur # lines_from [] cs else lines_from (cur @ [c]) cs)"

definition str_lines :: "string \<Rightarrow> string list" where
  "str_lines s = lines_from [] s"

text \<open>\<open>s.split_once("->")\<close>\<close>

fun split_arrow :: "string \<Rightarrow> string \<Rightarrow> (string \<times> string) option" where
  "split_arrow cur (a # b # s) =
     (if a = CHR ''-'' \<and> b = CHR ''>'' then Some (cur, s) else split_arrow (cur @ [a]) (b # s))"
| "split_arrow cur _ = None"

subsection \<open>Errors and paths\<close>

definition patch_err :: "string \<Rightarrow> tool_error" where
  "patch_err msg = tool_err ''invalid_input'' msg"

definition escape_err :: "string \<Rightarrow> tool_error" where
  "escape_err msg = tool_err ''path_escape'' msg"

definition reject_escape :: "string \<Rightarrow> tool_error + unit" where
  "reject_escape path =
     (if path = [] then Inl (patch_err ''empty path'')
      else if starts_with path ''/'' then Inl (escape_err ''apply_patch only accepts project-relative paths'')
      else if str_contains path ''..'' then Inl (escape_err ''path traversal rejected'')
      else Inr ())"

definition required_path :: "json \<Rightarrow> string \<Rightarrow> tool_error + string" where
  "required_path v key =
     (case jget_str key v of
        None \<Rightarrow> Inl (patch_err (''missing `'' @ key @ ''`''))
      | Some path \<Rightarrow> bind_sum (reject_escape path) (\<lambda>_. Inr path))"

subsection \<open>The patch text\<close>

text \<open>The loop of \<open>collect_plus_body\<close>: the text collected so far, then the lines left.\<close>

fun plus_body :: "string \<Rightarrow> string list \<Rightarrow> string \<times> string list" where
  "plus_body out [] = (out, [])"
| "plus_body out (line # rest) =
     (if starts_with (trim_end line) ''*** '' then (out, line # rest)
      else (case strip_prefix ''+'' line of
              Some body \<Rightarrow> plus_body (out @ body @ [CHR 0x0A]) rest
            | None \<Rightarrow>
                (if starts_with line ''-'' \<or> starts_with line ''@@'' then plus_body out rest
                 else if \<not> starts_with line [CHR 0x5C] then plus_body (out @ line @ [CHR 0x0A]) rest
                 else plus_body out rest)))"

definition collect_plus_body :: "string list \<Rightarrow> string \<times> string list" where
  "collect_plus_body lines =
     (case plus_body [] lines of
        (out, rest) \<Rightarrow> (if out \<noteq> [] \<and> last out = CHR 0x0A then butlast out else out, rest))"

lemma plus_body_rest: "length (snd (plus_body out lines)) \<le> length lines"
  by (induction out lines rule: plus_body.induct) (auto split: option.splits simp: le_SucI)

lemma collect_plus_body_rest: "collect_plus_body lines = (c, rest) \<Longrightarrow> length rest \<le> length lines"
  using plus_body_rest [of "[]" lines] by (auto simp: collect_plus_body_def split: prod.splits)

definition skipped_line :: "string \<Rightarrow> bool" where
  "skipped_line trimmed \<longleftrightarrow> trimmed = [] \<or> trimmed = ''*** Begin Patch'' \<or> trimmed = ''*** End Patch''
     \<or> starts_with trimmed ''@@''"

text \<open>One header line that is not skipped: the operation, if any, with the lines left.\<close>

definition patch_header :: "string \<Rightarrow> string list \<Rightarrow> tool_error + patch_op option \<times> string list" where
  "patch_header trimmed lines =
     (case strip_prefix ''*** Add File:'' trimmed of
        Some rest \<Rightarrow>
          (let path = str_trim rest
           in bind_sum (reject_escape path) (\<lambda>_.
                case collect_plus_body lines of (content, lines') \<Rightarrow> Inr (Some (PoAdd path content), lines')))
      | None \<Rightarrow>
     (case strip_prefix ''*** Update File:'' trimmed of
        Some rest \<Rightarrow>
          (let path = str_trim rest
           in bind_sum (reject_escape path) (\<lambda>_.
                case collect_plus_body lines of (content, lines') \<Rightarrow> Inr (Some (PoUpdate path content), lines')))
      | None \<Rightarrow>
     (case strip_prefix ''*** Delete File:'' trimmed of
        Some rest \<Rightarrow>
          (let path = str_trim rest in bind_sum (reject_escape path) (\<lambda>_. Inr (Some (PoDelete path), lines)))
      | None \<Rightarrow>
     (case strip_prefix ''*** Move File:'' trimmed of
        Some rest \<Rightarrow>
          (case split_arrow [] (str_trim rest) of
             None \<Rightarrow> Inl (patch_err ''Move File expects `old -> new`'')
           | Some (from, to) \<Rightarrow>
               (let src = str_trim from; dst = str_trim to
                in bind_sum (reject_escape src) (\<lambda>_. bind_sum (reject_escape dst) (\<lambda>_.
                     Inr (Some (PoMove src dst), lines)))))
      | None \<Rightarrow> Inr (None, lines)))))"

lemma patch_header_rest: "patch_header t lines = Inr (op, rest) \<Longrightarrow> length rest \<le> length lines"
  by (auto simp: patch_header_def Let_def bind_sum_Inr dest: collect_plus_body_rest
      split: option.splits prod.splits)

function patch_loop :: "patch_op list \<Rightarrow> string list \<Rightarrow> tool_error + patch_op list" where
  "patch_loop ops [] = Inr ops"
| "patch_loop ops (line # lines) =
     (let trimmed = str_trim line
      in if skipped_line trimmed then patch_loop ops lines
         else (case patch_header trimmed lines of
                 Inl e \<Rightarrow> Inl e
               | Inr (None, rest) \<Rightarrow> patch_loop ops rest
               | Inr (Some op, rest) \<Rightarrow> patch_loop (ops @ [op]) rest))"
  by pat_completeness auto
termination
  by (relation "measure (\<lambda>(ops, lines). length lines)") (auto dest!: patch_header_rest)

definition parse_begin_patch :: "string \<Rightarrow> tool_error + patch_op list" where
  "parse_begin_patch text =
     bind_sum (patch_loop [] (str_lines text)) (\<lambda>ops.
       if ops = [] then Inl (patch_err ''no patch operations found'') else Inr ops)"

subsection \<open>The JSON forms\<close>

definition parse_file_op :: "json \<Rightarrow> tool_error + patch_op" where
  "parse_file_op f =
     (let op = (case jget_str ''op'' f of Some s \<Rightarrow> s | None \<Rightarrow> ''update'')
      in if op = ''add'' then
           bind_sum (required_path f ''path'') (\<lambda>path.
             Inr (PoAdd path (case jget_str ''content'' f of Some c \<Rightarrow> c | None \<Rightarrow> [])))
         else if op = ''update'' then
           bind_sum (required_path f ''path'') (\<lambda>path.
             (case jget_str ''content'' f of
                None \<Rightarrow> Inl (patch_err ''missing content for update'')
              | Some c \<Rightarrow> Inr (PoUpdate path c)))
         else if op = ''delete'' then bind_sum (required_path f ''path'') (\<lambda>path. Inr (PoDelete path))
         else if op = ''move'' then
           bind_sum (case required_path f ''from'' of Inl _ \<Rightarrow> required_path f ''path'' | Inr p \<Rightarrow> Inr p) (\<lambda>from.
             bind_sum (required_path f ''to'') (\<lambda>to. Inr (PoMove from to)))
         else Inl (patch_err (''unknown patch op `'' @ op @ ''`'')))"

definition parse_patch_input :: "json \<Rightarrow> tool_error + patch_op list" where
  "parse_patch_input input =
     (case (jget_str ''path'' input, jget_str ''content'' input, jget ''patch'' input, jget ''files'' input) of
        (Some path, Some content, None, None) \<Rightarrow>
          bind_sum (reject_escape path) (\<lambda>_. Inr [PoUpdate path content])
      | _ \<Rightarrow>
          (case Option.bind (jget ''files'' input) as_array of
             Some files \<Rightarrow>
               bind_sum (map_sum_list parse_file_op files) (\<lambda>ops.
                 if ops = [] then Inl (patch_err ''files array is empty'') else Inr ops)
           | None \<Rightarrow>
               (case jget_str ''patch'' input of
                  Some patch \<Rightarrow> parse_begin_patch patch
                | None \<Rightarrow> Inl (patch_err
                    ''apply_patch requires `patch` text, `files` array, or legacy path+content''))))"

subsection \<open>Printing a patch\<close>

text \<open>The text a client writes for a list of operations: every content line behind a \<open>+\<close>.\<close>

fun lf_split :: "string \<Rightarrow> string list" where
  "lf_split [] = [[]]"
| "lf_split (c # cs) =
     (if c = CHR 0x0A then [] # lf_split cs
      else (case lf_split cs of [] \<Rightarrow> [[c]] | l # ls \<Rightarrow> (c # l) # ls))"

definition content_lines :: "string \<Rightarrow> string list" where
  "content_lines c = (if c = [] then [] else List.map (\<lambda>l. CHR ''+'' # l) (lf_split c))"

fun op_lines :: "patch_op \<Rightarrow> string list" where
  "op_lines (PoAdd p c) = (''*** Add File: '' @ p) # content_lines c"
| "op_lines (PoUpdate p c) = (''*** Update File: '' @ p) # content_lines c"
| "op_lines (PoDelete p) = [''*** Delete File: '' @ p]"
| "op_lines (PoMove p q) = [''*** Move File: '' @ p @ '' -> '' @ q]"

definition patch_text :: "patch_op list \<Rightarrow> string" where
  "patch_text ops = concat (List.map (\<lambda>l. l @ [CHR 0x0A])
     (''*** Begin Patch'' # concat (List.map op_lines ops) @ [''*** End Patch'']))"

definition path_ok :: "string \<Rightarrow> bool" where
  "path_ok p \<longleftrightarrow> str_trim p = p \<and> reject_escape p = Inr () \<and> CHR 0x0A \<notin> set p"

fun op_paths :: "patch_op \<Rightarrow> string list" where
  "op_paths (PoAdd p _) = [p]"
| "op_paths (PoUpdate p _) = [p]"
| "op_paths (PoDelete p) = [p]"
| "op_paths (PoMove p q) = [p, q]"

fun patch_op_ok :: "patch_op \<Rightarrow> bool" where
  "patch_op_ok (PoAdd p c) \<longleftrightarrow> path_ok p \<and> CHR 0x0D \<notin> set c"
| "patch_op_ok (PoUpdate p c) \<longleftrightarrow> path_ok p \<and> CHR 0x0D \<notin> set c"
| "patch_op_ok (PoDelete p) \<longleftrightarrow> path_ok p"
| "patch_op_ok (PoMove p q) \<longleftrightarrow> path_ok p \<and> path_ok q \<and> \<not> str_contains p ''->''"

subsection \<open>Reading back what was printed\<close>

lemma lines_from_line:
  "CHR 0x0A \<notin> set l \<Longrightarrow> lines_from cur (l @ CHR 0x0A # s) = drop_cr (cur @ l) # lines_from [] s"
  by (induction l arbitrary: cur) auto

definition line_ok :: "string \<Rightarrow> bool" where
  "line_ok l \<longleftrightarrow> CHR 0x0A \<notin> set l \<and> drop_cr l = l"

lemma str_lines_printed:
  "list_all line_ok ls \<Longrightarrow> str_lines (concat (List.map (\<lambda>l. l @ [CHR 0x0A]) ls)) = ls"
  unfolding str_lines_def by (induction ls) (auto simp: line_ok_def lines_from_line)

lemma lf_split_not_Nil [simp]: "lf_split s \<noteq> []"
  by (induction s) (auto split: list.splits)

lemma lf_split_chars: "l \<in> set (lf_split s) \<Longrightarrow> set l \<subseteq> set s - {CHR 0x0A}"
proof (induction s arbitrary: l)
  case (Cons c s)
  then show ?case by (cases "lf_split s") (auto split: if_splits, blast+)
qed simp

lemma lf_split_join: "concat (List.map (\<lambda>l. l @ [CHR 0x0A]) (lf_split s)) = s @ [CHR 0x0A]"
proof (induction s)
  case (Cons c s)
  then show ?case by (cases "lf_split s") auto
qed simp

lemma no_cr_drop: "CHR 0x0D \<notin> set l \<Longrightarrow> drop_cr l = l"
  by (auto simp: drop_cr_def dest: last_in_set)

text \<open>A header whose path is trimmed is trimmed.\<close>

lemma trim_end_app:
  assumes "trim_end p = p" and "p \<noteq> []" and "ink c \<or> c = CHR '' ''"
  shows "trim_end (h @ c # p) = h @ c # p"
proof -
  let ?ws = "List.map rev ws_chars"
  from assms(1) have none: "strip_one ?ws (rev p) = None"
    using trim_by_fixed [of ?ws "rev p"] by (simp add: trim_end_def) (metis rev_rev_ident)
  have "rev p \<noteq> []" using assms(2) by simp
  from strip_one_rev_append [OF assms(3) this, of "rev h"] none
  have "strip_one ?ws (rev p @ c # rev h) = None" by (simp only: option.map)
  then have "trim_by ?ws (rev p @ c # rev h) = rev p @ c # rev h"
    by (simp add: trim_by.simps [of ?ws "rev p @ c # rev h"])
  then show ?thesis by (simp add: trim_end_def)
qed

lemma trim_start_app:
  assumes "trim_start p = p" and "p \<noteq> []" and "ink c \<or> c = CHR '' ''"
  shows "trim_start (p @ c # s) = p @ c # s"
proof -
  have "strip_one ws_chars p = None"
    using assms(1) trim_by_fixed [of ws_chars p] by (simp add: trim_start_def)
  with strip_one_append [OF assms(3,2), of s] have "strip_one ws_chars (p @ c # s) = None" by simp
  then show ?thesis by (simp add: trim_start_def trim_by.simps [of ws_chars "p @ c # s"])
qed

lemma str_trim_fixedD:
  assumes "str_trim p = p"
  shows "trim_start p = p" "trim_end p = p"
proof -
  obtain u where u: "p = u @ trim_start p" using trim_start_suffix [of p] by (auto simp: suffix_def)
  have "length (trim_end (trim_start p)) \<le> length (trim_start p)"
    using prefix_length_le [OF trim_end_prefix] .
  then have "length p \<le> length (trim_start p)" using assms by (simp only: str_trim_def)
  moreover have "length p = length u + length (trim_start p)" using u by (metis length_append)
  ultimately have "u = []" by simp
  with u show "trim_start p = p" by simp
  with assms show "trim_end p = p" by (simp add: str_trim_def)
qed

lemma str_trim_header:
  assumes "str_trim p = p" and "p \<noteq> []" and "ink d" and "ink c \<or> c = CHR '' ''"
  shows "str_trim (d # h @ c # p) = d # h @ c # p"
  using trim_end_app [OF str_trim_fixedD(2) [OF assms(1)] assms(2,4), of "d # h"] trim_start_ink [OF assms(3)]
  by (simp add: str_trim_def)

lemma trim_start_space: "trim_start (CHR '' '' # p) = trim_start p"
proof -
  have "strip_one ws_chars (CHR '' '' # p) = Some p" by (simp add: ws_chars_def)
  then show ?thesis by (simp add: trim_start_def trim_by.simps [of ws_chars "CHR '' '' # p"])
qed

lemma trim_end_space: "trim_end (p @ '' '') = trim_end p"
proof -
  have "strip_one (List.map rev ws_chars) (CHR '' '' # rev p) = Some (rev p)" by (simp add: ws_chars_def)
  then show ?thesis by (simp add: trim_end_def trim_by.simps [of "List.map rev ws_chars" "CHR '' '' # rev p"])
qed

lemma str_trim_space:
  assumes "str_trim p = p"
  shows "str_trim (CHR '' '' # p) = p" "str_trim (p @ '' '') = p"
proof -
  note p = str_trim_fixedD [OF assms]
  show "str_trim (CHR '' '' # p) = p" using p by (simp add: str_trim_def trim_start_space)
  show "str_trim (p @ '' '') = p"
  proof (cases "p = []")
    case False
    have "trim_start (p @ '' '') = p @ '' ''"
      using trim_start_app [OF p(1) False, of "CHR '' ''"] by simp
    with p show ?thesis by (simp add: str_trim_def trim_end_space)
  next
    case True
    have "str_trim '' '' = []" by code_simp
    with True show ?thesis by simp
  qed
qed


subsection \<open>What the parser accepts\<close>

lemma reject_escape_Inr:
  "reject_escape p = Inr () \<longleftrightarrow> p \<noteq> [] \<and> \<not> starts_with p ''/'' \<and> \<not> str_contains p ''..''"
  by (auto simp: reject_escape_def)

definition paths_checked :: "patch_op \<Rightarrow> bool" where
  "paths_checked op = list_all (\<lambda>p. reject_escape p = Inr ()) (op_paths op)"

lemma patch_header_checked: "patch_header t lines = Inr (Some op, rest) \<Longrightarrow> paths_checked op"
  by (auto simp: patch_header_def Let_def bind_sum_Inr paths_checked_def split: option.splits prod.splits)

lemma patch_loop_checked:
  "patch_loop ops lines = Inr out \<Longrightarrow> list_all paths_checked ops \<Longrightarrow> list_all paths_checked out"
proof (induction ops lines rule: patch_loop.induct)
  case (2 ops line lines)
  then show ?case
    by (auto simp: Let_def split: if_splits sum.splits option.splits dest: patch_header_checked)
      (blast dest: patch_header_checked)
qed simp

lemma required_path_checked: "required_path v key = Inr p \<Longrightarrow> reject_escape p = Inr ()"
  by (auto simp: required_path_def bind_sum_Inr split: option.splits)

lemma parse_file_op_checked: "parse_file_op f = Inr op \<Longrightarrow> paths_checked op"
  by (auto simp: parse_file_op_def Let_def bind_sum_Inr paths_checked_def required_path_checked
      split: if_splits option.splits sum.splits)

lemma parse_patch_input_checked:
  assumes "parse_patch_input input = Inr ops"
  shows "list_all paths_checked ops"
proof -
  have files: "list_all paths_checked ops" if "map_sum_list parse_file_op fs = Inr ops" for fs
    using map_sum_list_Inr [OF that] by (auto simp: list_all_length intro: parse_file_op_checked)
  have from_text: "list_all paths_checked ops" if "parse_begin_patch t = Inr ops" for t
    using that by (auto simp: parse_begin_patch_def bind_sum_Inr split: if_splits intro: patch_loop_checked)
  from assms show ?thesis
    by (auto simp: parse_patch_input_def bind_sum_Inr paths_checked_def split: option.splits if_splits
        intro: files from_text)
qed

text \<open>
  An operation of accepted \<open>apply_patch\<close> input, in whichever of its forms the client sent it, names
  only nonempty relative paths without \<open>..\<close>, both ends of a move included.
\<close>

theorem parsed_paths_stay_relative:
  assumes "parse_patch_input input = Inr ops" and "op \<in> set ops" and "p \<in> set (op_paths op)"
  shows "p \<noteq> [] \<and> \<not> starts_with p ''/'' \<and> \<not> str_contains p ''..''"
proof -
  from parse_patch_input_checked [OF assms(1)] assms(2) have "paths_checked op" by (simp add: list_all_iff)
  with assms(3) have "reject_escape p = Inr ()" by (simp add: paths_checked_def list_all_iff)
  then show ?thesis by (simp only: reject_escape_Inr simp_thms)
qed

subsection \<open>Round trip\<close>

text \<open>A line that ends a body.\<close>

definition stops :: "string \<Rightarrow> bool" where
  "stops l = starts_with (trim_end l) ''*** ''"

lemma plus_line_goes_on: "\<not> stops (CHR ''+'' # l)"
  using trim_end_prefix [of "CHR ''+'' # l"] by (auto simp: stops_def starts_with_def prefix_Cons)

lemma plus_body_printed:
  "stops h \<Longrightarrow> plus_body out (List.map (\<lambda>l. CHR ''+'' # l) ls @ h # rest)
     = (out @ concat (List.map (\<lambda>l. l @ [CHR 0x0A]) ls), h # rest)"
proof (induction ls arbitrary: out)
  case (Cons l ls)
  have "strip_prefix ''+'' (CHR ''+'' # l) = Some l" using strip_prefix_append [of "''+''" l] by simp
  with Cons show ?case using plus_line_goes_on [of l] by (simp add: stops_def)
qed (simp add: stops_def)

lemma collect_printed:
  assumes "stops h"
  shows "collect_plus_body (content_lines c @ h # rest) = (c, h # rest)"
  using plus_body_printed [OF assms, of "[]" "lf_split c" rest] plus_body_printed [OF assms, of "[]" "[]" rest]
  by (auto simp: collect_plus_body_def content_lines_def lf_split_join)

text \<open>A header the printer writes, and what reading it gives.\<close>

lemma star_trimmed:
  assumes "str_trim p = p" and "p \<noteq> []"
  shows "str_trim (''*** Add File: '' @ p) = ''*** Add File: '' @ p"
    "str_trim (''*** Update File: '' @ p) = ''*** Update File: '' @ p"
    "str_trim (''*** Delete File: '' @ p) = ''*** Delete File: '' @ p"
    "str_trim (''*** Move File: '' @ m @ '' -> '' @ p) = ''*** Move File: '' @ m @ '' -> '' @ p"
proof -
  have "ink (CHR ''*'')" by code_simp
  note h = str_trim_header [OF assms this, of "CHR '' ''"]
  show "str_trim (''*** Add File: '' @ p) = ''*** Add File: '' @ p" using h [of "''** Add File:''"] by simp
  show "str_trim (''*** Update File: '' @ p) = ''*** Update File: '' @ p" using h [of "''** Update File:''"] by simp
  show "str_trim (''*** Delete File: '' @ p) = ''*** Delete File: '' @ p" using h [of "''** Delete File:''"] by simp
  show "str_trim (''*** Move File: '' @ m @ '' -> '' @ p) = ''*** Move File: '' @ m @ '' -> '' @ p"
    using h [of "''** Move File: '' @ m @ '' ->''"] by simp
qed

lemma split_arrow_first:
  "\<not> str_contains p ''->'' \<Longrightarrow> split_arrow cur (p @ '' -> '' @ q) = Some (cur @ p @ '' '', '' '' @ q)"
proof (induction p arbitrary: cur)
  case (Cons a p)
  then show ?case by (cases p) (auto simp: starts_with_def)
qed simp

lemma move_trimmed:
  assumes "str_trim p = p" and "p \<noteq> []" and "str_trim q = q" and "q \<noteq> []"
  shows "str_trim ('' '' @ p @ '' -> '' @ q) = p @ '' -> '' @ q"
proof -
  have "trim_start (p @ '' -> '' @ q) = p @ '' -> '' @ q"
    using trim_start_app [OF str_trim_fixedD(1) [OF assms(1)] assms(2), of "CHR '' ''" "''-> '' @ q"] by simp
  moreover have "trim_end (p @ '' -> '' @ q) = p @ '' -> '' @ q"
    using trim_end_app [OF str_trim_fixedD(2) [OF assms(3)] assms(4), of "CHR '' ''" "p @ '' ->''"] by simp
  ultimately show ?thesis by (simp add: str_trim_def trim_start_space)
qed

text \<open>A header begins like the four keywords and is none of the skipped lines.\<close>

lemma star_kept:
  "\<not> skipped_line (''*** Add File: '' @ p)" "\<not> skipped_line (''*** Update File: '' @ p)"
  "\<not> skipped_line (''*** Delete File: '' @ p)" "\<not> skipped_line (''*** Move File: '' @ p)"
  by (simp_all add: skipped_line_def starts_with_def)

lemma patch_header_printed:
  assumes "path_ok p"
  shows "patch_header (''*** Delete File: '' @ p) ls = Inr (Some (PoDelete p), ls)"
    "stops h \<Longrightarrow> patch_header (''*** Add File: '' @ p) (content_lines c @ h # ls) = Inr (Some (PoAdd p c), h # ls)"
    "stops h \<Longrightarrow> patch_header (''*** Update File: '' @ p) (content_lines c @ h # ls)
       = Inr (Some (PoUpdate p c), h # ls)"
    "path_ok q \<Longrightarrow> \<not> str_contains p ''->'' \<Longrightarrow>
       patch_header (''*** Move File: '' @ p @ '' -> '' @ q) ls = Inr (Some (PoMove p q), ls)"
proof -
  from assms have p: "str_trim p = p" "reject_escape p = Inr ()" "p \<noteq> []"
    by (simp_all add: path_ok_def reject_escape_Inr)
  note s = str_trim_space [OF p(1)]
  show "patch_header (''*** Delete File: '' @ p) ls = Inr (Some (PoDelete p), ls)"
    using s p by (simp add: patch_header_def strip_prefix_def starts_with_def)
  show "patch_header (''*** Add File: '' @ p) (content_lines c @ h # ls) = Inr (Some (PoAdd p c), h # ls)" if "stops h"
    using s p collect_printed [OF that] by (simp add: patch_header_def strip_prefix_def starts_with_def)
  show "patch_header (''*** Update File: '' @ p) (content_lines c @ h # ls) = Inr (Some (PoUpdate p c), h # ls)"
    if "stops h"
    using s p collect_printed [OF that] by (simp add: patch_header_def strip_prefix_def starts_with_def)
  show "patch_header (''*** Move File: '' @ p @ '' -> '' @ q) ls = Inr (Some (PoMove p q), ls)"
    if q: "path_ok q" and a: "\<not> str_contains p ''->''"
  proof -
    from q have q': "str_trim q = q" "reject_escape q = Inr ()" "q \<noteq> []"
      by (simp_all add: path_ok_def reject_escape_Inr)
    have m: "str_trim (CHR '' '' # p @ '' -> '' @ q) = p @ '' -> '' @ q"
      using move_trimmed [OF p(1,3) q'(1,3)] by simp
    show ?thesis using s p q' str_trim_space [OF q'(1)] m split_arrow_first [OF a, of "[]" q]
      by (simp add: patch_header_def strip_prefix_def starts_with_def)
  qed
qed

lemmas star_steps = star_trimmed [simplified] star_kept [simplified] patch_header_printed [simplified]

definition op_header :: "patch_op \<Rightarrow> string" where
  "op_header op = hd (op_lines op)"

lemma path_ok_trimmed: "path_ok p \<Longrightarrow> str_trim p = p" "path_ok p \<Longrightarrow> p \<noteq> []"
  by (simp_all add: path_ok_def reject_escape_Inr)

lemma stops_trimmed: "str_trim h = h \<Longrightarrow> starts_with h ''*** '' \<Longrightarrow> stops h"
  by (simp add: stops_def str_trim_fixedD)

lemma op_header_stops: "patch_op_ok op \<Longrightarrow> stops (op_header op)"
  by (cases op) (auto simp: op_header_def path_ok_trimmed star_steps starts_with_def intro!: stops_trimmed)

lemma patch_loop_op:
  "patch_op_ok op \<Longrightarrow> stops h \<Longrightarrow>
     patch_loop acc (op_lines op @ h # rest) = patch_loop (acc @ [op]) (h # rest)"
  by (cases op) (simp_all add: star_steps path_ok_trimmed Let_def)

lemma patch_loop_ops:
  "list_all patch_op_ok ops \<Longrightarrow>
     patch_loop acc (concat (List.map op_lines ops) @ [''*** End Patch'']) = Inr (acc @ ops)"
proof (induction ops arbitrary: acc)
  case Nil
  have "skipped_line (str_trim ''*** End Patch'')" by code_simp
  then show ?case by simp
next
  case (Cons op ops)
  obtain h rest where t: "concat (List.map op_lines ops) @ [''*** End Patch''] = h # rest" and h: "stops h"
  proof (cases ops)
    case Nil
    have "stops ''*** End Patch''" by code_simp
    with Nil that show ?thesis by simp
  next
    case (Cons op' ops')
    obtain ls where "op_lines op' = op_header op' # ls" by (cases op') (auto simp: op_header_def)
    with Cons Cons.prems op_header_stops [of op'] that show ?thesis by simp
  qed
  have "patch_loop acc (op_lines op @ h # rest) = patch_loop (acc @ [op]) (h # rest)"
    using Cons.prems by (intro patch_loop_op h) simp
  with Cons.IH [of "acc @ [op]"] Cons.prems show ?case by (simp add: t)
qed

lemma no_final_cr:
  assumes "str_trim p = p"
  shows "drop_cr p = p"
proof (cases p rule: rev_cases)
  case (snoc p' c)
  have "strip_one (List.map rev ws_chars) (rev p) = None"
    using str_trim_fixedD(2) [OF assms] trim_by_fixed [of "List.map rev ws_chars" "rev p"]
    by (simp add: trim_end_def) (metis rev_rev_ident)
  then have "c \<noteq> CHR 0x0D" using snoc by (auto simp: ws_chars_def)
  with snoc show ?thesis by (simp add: drop_cr_def)
qed (simp add: drop_cr_def)

lemma content_lines_ok: "CHR 0x0D \<notin> set c \<Longrightarrow> list_all line_ok (content_lines c)"
  unfolding list_all_iff content_lines_def line_ok_def
  by (auto intro!: no_cr_drop dest!: lf_split_chars)

lemma op_lines_ok: "patch_op_ok op \<Longrightarrow> list_all line_ok (op_lines op)"
  by (cases op) (auto simp: content_lines_ok line_ok_def path_ok_def reject_escape_Inr star_steps intro!: no_final_cr)

lemma printed_lines_ok: "list_all patch_op_ok ops \<Longrightarrow> list_all line_ok (concat (List.map op_lines ops))"
  by (induction ops) (auto simp: op_lines_ok)

theorem parsed_paths_stay_relative_witness:
  "parse_patch_input (JObj [(''patch'', JStr ''*** Move File: a->b'')]) = Inr [PoMove ''a'' ''b'']
   \<and> \<not> str_contains ''b'' ''..''"
proof -
  have "parse_patch_input (JObj [(''patch'', JStr ''*** Move File: a->b'')]) = Inr [PoMove ''a'' ''b'']"
    by code_simp
  with parsed_paths_stay_relative [OF this, of "PoMove ''a'' ''b''" "''b''"] show ?thesis by simp
qed

lemma printed_patch_parses:
  assumes "ops \<noteq> []" and "list_all patch_op_ok ops"
  shows "parse_begin_patch (patch_text ops) = Inr ops"
proof -
  have ends: "line_ok ''*** Begin Patch''" "line_ok ''*** End Patch''" "skipped_line (str_trim ''*** Begin Patch'')"
    by code_simp+
  have "str_lines (patch_text ops)
      = ''*** Begin Patch'' # concat (List.map op_lines ops) @ [''*** End Patch'']"
    unfolding patch_text_def using printed_lines_ok [OF assms(2)] ends by (intro str_lines_printed) simp
  with patch_loop_ops [OF assms(2), of "[]"] assms(1) ends show ?thesis
    by (simp add: parse_begin_patch_def Let_def)
qed

text \<open>
  C27: A patch text written for a nonempty list of operations (paths the check accepts, trimmed and on one
  line; contents without carriage returns; no arrow in the old name of a move) is parsed back
  into exactly these operations in their order, empty and multi-line contents included.
\<close>

theorem patch_text_roundtrip:
  assumes "ops \<noteq> []" and "list_all patch_op_ok ops"
  shows "parse_begin_patch (patch_text ops) = Inr ops"
  using assms by (rule printed_patch_parses)

theorem patch_text_roundtrip_witness:
  "parse_begin_patch (patch_text [PoUpdate ''a b'' [CHR 0x0A, CHR ''x''], PoMove ''m'' ''n'', PoAdd ''e'' []])
   = Inr [PoUpdate ''a b'' [CHR 0x0A, CHR ''x''], PoMove ''m'' ''n'', PoAdd ''e'' []]"
proof (rule patch_text_roundtrip)
  show "list_all patch_op_ok [PoUpdate ''a b'' [CHR 0x0A, CHR ''x''], PoMove ''m'' ''n'', PoAdd ''e'' []]" by code_simp
qed simp

end
