(* ===== verification/PatchApply.thy ===== *)
theory PatchApply
  imports PatchParser
begin

section \<open>Applying a patch\<close>

text \<open>
  Models \<open>ApplyPatchTool\<close> of \<open>crates/capability-gateway/src/tools/extra.rs\<close>: every operation is
  planned against the project first (with the bytes it will replace), then the plan is applied in
  order, and a failure rolls the applied prefix back. The project directory is an association list
  from normalised relative paths to files and directories; links, permissions and other writers are
  not in it. What the operating system refuses is an argument: per operation a fault, and the paths
  that cannot be read. A write that fails after the file was opened leaves a truncated file.
\<close>

subsection \<open>The project directory\<close>

type_synonym fkey = "string list"

datatype node = FFile string | FDir

type_synonym fs = "(fkey \<times> node) list"

text \<open>The components of a path; one that ends in \<open>/\<close> or \<open>/.\<close> can only name a directory.\<close>

fun split_slash :: "string \<Rightarrow> string list" where
  "split_slash [] = [[]]"
| "split_slash (c # cs) =
     (if c = CHR ''/'' then [] # split_slash cs
      else (case split_slash cs of [] \<Rightarrow> [[c]] | p # ps \<Rightarrow> (c # p) # ps))"

definition file_key :: "string \<Rightarrow> fkey" where
  "file_key rel = List.filter (\<lambda>c. c \<noteq> [] \<and> c \<noteq> ''.'') (split_slash rel)"

definition wants_dir :: "string \<Rightarrow> bool" where
  "wants_dir rel = (last (split_slash rel) = [] \<or> last (split_slash rel) = ''.'')"

type_synonym abs_path = "fkey \<times> bool"

definition fs_get :: "fs \<Rightarrow> fkey \<Rightarrow> node option" where
  "fs_get fs k = (if k = [] then Some FDir else map_of fs k)"

fun path_exists :: "fs \<Rightarrow> abs_path \<Rightarrow> bool" where
  "path_exists fs (k, d) = (case fs_get fs k of None \<Rightarrow> False | Some FDir \<Rightarrow> True | Some (FFile _) \<Rightarrow> \<not> d)"

text \<open>\<open>create_dir_all\<close>: the directories made, and whether all of them are there.\<close>

fun mkdirs :: "fs \<Rightarrow> fkey \<Rightarrow> fkey \<Rightarrow> fs \<times> bool" where
  "mkdirs fs up [] = (fs, True)"
| "mkdirs fs up (c # cs) =
     (case fs_get fs (up @ [c]) of
        None \<Rightarrow> mkdirs (AList.update (up @ [c]) FDir fs) (up @ [c]) cs
      | Some FDir \<Rightarrow> mkdirs fs (up @ [c]) cs
      | Some (FFile _) \<Rightarrow> (fs, False))"

text \<open>\<open>fs::write\<close>, \<open>fs::remove_file\<close> and \<open>fs::rename\<close> where the operating system does not refuse\<close>

fun can_write :: "fs \<Rightarrow> abs_path \<Rightarrow> bool" where
  "can_write fs (k, d) = (\<not> d \<and> fs_get fs k \<noteq> Some FDir \<and> fs_get fs (butlast k) = Some FDir)"

fun fs_write :: "fs \<Rightarrow> abs_path \<Rightarrow> string \<Rightarrow> fs \<times> bool" where
  "fs_write fs (k, d) bytes =
     (if can_write fs (k, d) then (AList.update k (FFile bytes) fs, True) else (fs, False))"

fun fs_remove :: "fs \<Rightarrow> abs_path \<Rightarrow> fs \<times> bool" where
  "fs_remove fs (k, d) =
     (case fs_get fs k of Some (FFile _) \<Rightarrow> if d then (fs, False) else (AList.delete k fs, True) | _ \<Rightarrow> (fs, False))"

definition move_tree :: "fkey \<Rightarrow> fkey \<Rightarrow> fs \<Rightarrow> fs" where
  "move_tree src dst fs =
     List.map (\<lambda>(k, n). (if prefix src k then dst @ drop (length src) k else k, n)) (AList.delete dst fs)"

fun fs_rename :: "fs \<Rightarrow> abs_path \<Rightarrow> abs_path \<Rightarrow> fs \<times> bool" where
  "fs_rename fs (src, sd) (dst, dd) =
     (case map_of fs src of
        None \<Rightarrow> (fs, False)
      | Some (FFile b) \<Rightarrow>
          (if sd \<or> dd \<or> fs_get fs dst = Some FDir \<or> fs_get fs (butlast dst) \<noteq> Some FDir then (fs, False)
           else if src = dst then (fs, True)
           else (AList.update dst (FFile b) (AList.delete src fs), True))
      | Some FDir \<Rightarrow>
          (if src = dst then (fs, True)
           else if dst = [] \<or> prefix src dst \<or> fs_get fs (butlast dst) \<noteq> Some FDir then (fs, False)
           else (case map_of fs dst of
                   Some (FFile _) \<Rightarrow> (fs, False)
                 | Some FDir \<Rightarrow>
                     (if list_ex (\<lambda>(k, _). strict_prefix dst k) fs then (fs, False) else (move_tree src dst fs, True))
                 | None \<Rightarrow> (move_tree src dst fs, True))))"

subsection \<open>Faults\<close>

datatype io_fault = IoOk | IoNoDirs | IoRefused | IoPartial nat

record io_env =
  env_os :: string
  env_unreadable :: "fkey \<Rightarrow> bool"
  env_apply :: "nat \<Rightarrow> io_fault"
  env_undo_refused :: "nat \<Rightarrow> bool"

definition io_err :: "string \<Rightarrow> io_env \<Rightarrow> tool_error" where
  "io_err code env = \<lparr>te_code = code, te_message = env_os env, te_retryable = True\<rparr>"

subsection \<open>Planning\<close>

record planned =
  pl_op :: patch_op
  pl_abs :: abs_path
  pl_abs_to :: "abs_path option"
  pl_before :: "string option"
  pl_existed :: bool

definition resolve_rel :: "string \<Rightarrow> tool_error + abs_path" where
  "resolve_rel rel =
     (if str_contains rel ''..'' \<or> starts_with rel ''/''
      then Inl (escape_err ''apply_patch only accepts project-relative paths'')
      else Inr (file_key rel, wants_dir rel))"

text \<open>The bytes of an existing path; a directory cannot be read.\<close>

definition fs_read :: "io_env \<Rightarrow> fs \<Rightarrow> abs_path \<Rightarrow> tool_error + string" where
  "fs_read env fs p =
     (case fs_get fs (fst p) of
        Some (FFile b) \<Rightarrow> if env_unreadable env (fst p) then Inl (io_err ''read_error'' env) else Inr b
      | _ \<Rightarrow> Inl (io_err ''read_error'' env))"

definition before_image :: "io_env \<Rightarrow> fs \<Rightarrow> abs_path \<Rightarrow> tool_error + string option" where
  "before_image env fs p =
     (if path_exists fs p then bind_sum (fs_read env fs p) (\<lambda>b. Inr (Some b)) else Inr None)"

fun plan_op :: "io_env \<Rightarrow> fs \<Rightarrow> patch_op \<Rightarrow> tool_error + planned" where
  "plan_op env fs (PoAdd path content) =
     bind_sum (resolve_rel path) (\<lambda>abs.
       if path_exists fs abs then Inl (tool_err ''already_exists'' (''cannot add existing file '' @ path))
       else Inr \<lparr>pl_op = PoAdd path content, pl_abs = abs, pl_abs_to = None, pl_before = None,
                 pl_existed = False\<rparr>)"
| "plan_op env fs (PoUpdate path content) =
     bind_sum (resolve_rel path) (\<lambda>abs. bind_sum (before_image env fs abs) (\<lambda>before.
       Inr \<lparr>pl_op = PoUpdate path content, pl_abs = abs, pl_abs_to = None, pl_before = before,
            pl_existed = path_exists fs abs\<rparr>))"
| "plan_op env fs (PoDelete path) =
     bind_sum (resolve_rel path) (\<lambda>abs. bind_sum (before_image env fs abs) (\<lambda>before.
       Inr \<lparr>pl_op = PoDelete path, pl_abs = abs, pl_abs_to = None, pl_before = before,
            pl_existed = (before \<noteq> None)\<rparr>))"
| "plan_op env fs (PoMove from to) =
     bind_sum (resolve_rel from) (\<lambda>abs. bind_sum (resolve_rel to) (\<lambda>abs_to.
       if path_exists fs abs then
         bind_sum (fs_read env fs abs) (\<lambda>b.
           Inr \<lparr>pl_op = PoMove from to, pl_abs = abs, pl_abs_to = Some abs_to, pl_before = Some b,
                pl_existed = True\<rparr>)
       else Inl (tool_err ''not_found'' (''move source missing: '' @ from))))"

subsection \<open>Applying and rolling back\<close>

text \<open>A write: \<open>create_dir_all\<close> of the parent, then the file.\<close>

definition put_file :: "io_env \<Rightarrow> io_fault \<Rightarrow> fs \<Rightarrow> abs_path \<Rightarrow> string \<Rightarrow> fs \<times> (tool_error + unit)" where
  "put_file env flt fs target content =
     (let failed = Inl (io_err ''write_error'' env)
      in if flt = IoNoDirs then (fs, failed)
         else (case mkdirs fs [] (butlast (fst target)) of
                 (fs1, False) \<Rightarrow> (fs1, failed)
               | (fs1, True) \<Rightarrow>
                   (case flt of
                      IoOk \<Rightarrow> (case fs_write fs1 target content of (fs2, ok) \<Rightarrow> (fs2, if ok then Inr () else failed))
                    | IoPartial n \<Rightarrow> (fst (fs_write fs1 target (take n content)), failed)
                    | _ \<Rightarrow> (fs1, failed))))"

definition apply_planned :: "io_env \<Rightarrow> io_fault \<Rightarrow> fs \<Rightarrow> planned \<Rightarrow> fs \<times> (tool_error + unit)" where
  "apply_planned env flt fs p =
     (let failed = Inl (io_err ''write_error'' env)
      in case pl_op p of
           PoAdd _ content \<Rightarrow> put_file env flt fs (pl_abs p) content
         | PoUpdate _ content \<Rightarrow> put_file env flt fs (pl_abs p) content
         | PoDelete _ \<Rightarrow>
             (if path_exists fs (pl_abs p) then
                (if flt \<noteq> IoOk then (fs, failed)
                 else (case fs_remove fs (pl_abs p) of (fs1, ok) \<Rightarrow> (fs1, if ok then Inr () else failed)))
              else (fs, Inr ()))
         | PoMove _ _ \<Rightarrow>
             (let to = the (pl_abs_to p)
              in if flt = IoNoDirs then (fs, failed)
                 else (case mkdirs fs [] (butlast (fst to)) of
                         (fs1, False) \<Rightarrow> (fs1, failed)
                       | (fs1, True) \<Rightarrow>
                           (if flt \<noteq> IoOk then (fs1, failed)
                            else (case fs_rename fs1 (pl_abs p) to of
                                    (fs2, ok) \<Rightarrow> (fs2, if ok then Inr () else failed))))))"

text \<open>Nothing that fails while rolling back is reported.\<close>

definition rollback_planned :: "bool \<Rightarrow> fs \<Rightarrow> planned \<Rightarrow> fs" where
  "rollback_planned refused fs p =
     (if refused then fs
      else (case pl_op p of
              PoAdd _ _ \<Rightarrow> (if path_exists fs (pl_abs p) then fst (fs_remove fs (pl_abs p)) else fs)
            | PoMove _ _ \<Rightarrow>
                (case pl_abs_to p of
                   None \<Rightarrow> fs
                 | Some to \<Rightarrow>
                     (if path_exists fs to then fst (fs_rename fs to (pl_abs p))
                      else (case pl_before p of
                              Some bytes \<Rightarrow> fst (fs_write fs (pl_abs p) bytes)
                            | None \<Rightarrow> fs)))
            | _ \<Rightarrow>
                (case pl_before p of
                   Some bytes \<Rightarrow>
                     fst (fs_write (fst (mkdirs fs [] (butlast (fst (pl_abs p))))) (pl_abs p) bytes)
                 | None \<Rightarrow>
                     (if path_exists fs (pl_abs p) \<and> \<not> pl_existed p then fst (fs_remove fs (pl_abs p))
                      else fs))))"

fun rollback_all :: "io_env \<Rightarrow> fs \<Rightarrow> planned list \<Rightarrow> fs" where
  "rollback_all env fs [] = fs"
| "rollback_all env fs (q # qs) =
     rollback_all env (rollback_planned (env_undo_refused env (length qs)) fs q) qs"

fun change_json :: "patch_op \<Rightarrow> json" where
  "change_json (PoAdd path _) = JObj [(''op'', JStr ''add''), (''path'', JStr path)]"
| "change_json (PoUpdate path _) = JObj [(''op'', JStr ''update''), (''path'', JStr path)]"
| "change_json (PoDelete path) = JObj [(''op'', JStr ''delete''), (''path'', JStr path)]"
| "change_json (PoMove from to) = JObj [(''op'', JStr ''move''), (''from'', JStr from), (''to'', JStr to)]"

text \<open>The loop over the plan; \<open>applied\<close> holds the operations already applied, the last one first.\<close>

fun apply_all :: "io_env \<Rightarrow> fs \<Rightarrow> planned list \<Rightarrow> planned list \<Rightarrow> fs \<times> (tool_error + json list)" where
  "apply_all env fs applied [] = (fs, Inr (List.map (change_json \<circ> pl_op) (rev applied)))"
| "apply_all env fs applied (p # ps) =
     (case apply_planned env (env_apply env (length applied)) fs p of
        (fs1, Inl e) \<Rightarrow> (rollback_all env fs1 applied, Inl e)
      | (fs1, Inr _) \<Rightarrow> apply_all env fs1 (p # applied) ps)"

definition apply_patch_execute :: "io_env \<Rightarrow> fs \<Rightarrow> json \<Rightarrow> fs \<times> (tool_error + json)" where
  "apply_patch_execute env fs input =
     (case bind_sum (parse_patch_input input) (map_sum_list (plan_op env fs)) of
        Inl e \<Rightarrow> (fs, Inl e)
      | Inr ps \<Rightarrow>
          (case apply_all env fs [] ps of
             (fs1, Inl e) \<Rightarrow> (fs1, Inl e)
           | (fs1, Inr changes) \<Rightarrow>
               (fs1, Inr (JObj [(''ok'', JBool True), (''changes'', JArr changes),
                                (''count'', JInt (int (length changes)))]))))"

subsection \<open>What the steps do to the files\<close>

definition files_of :: "fs \<Rightarrow> fkey \<Rightarrow> string option" where
  "files_of fs k = (case map_of fs k of Some (FFile b) \<Rightarrow> Some b | _ \<Rightarrow> None)"

text \<open>A directory tree: everything in it lies in a directory, and the root is not listed.\<close>

definition tree :: "fs \<Rightarrow> bool" where
  "tree fs \<longleftrightarrow> map_of fs [] = None \<and>
     (\<forall>k. map_of fs k \<noteq> None \<longrightarrow> fs_get fs (butlast k) = Some FDir)"

definition dirs_le :: "fs \<Rightarrow> fs \<Rightarrow> bool" where
  "dirs_le fs fs' \<longleftrightarrow> (\<forall>k. fs_get fs k = Some FDir \<longrightarrow> fs_get fs' k = Some FDir)"

lemma dirs_le_refl [simp]: "dirs_le fs fs"
  by (simp add: dirs_le_def)

lemma dirs_le_trans [trans]: "dirs_le a b \<Longrightarrow> dirs_le b c \<Longrightarrow> dirs_le a c"
  by (simp add: dirs_le_def)

lemma files_of_update [simp]: "files_of (AList.update k (FFile b) fs) = (files_of fs)(k \<mapsto> b)"
  by (auto simp: files_of_def fun_eq_iff)

lemma files_of_delete [simp]: "files_of (AList.delete k fs) = (files_of fs)(k := None)"
  by (auto simp: files_of_def fun_eq_iff)

lemma files_of_Some: "files_of fs k = Some b \<longleftrightarrow> map_of fs k = Some (FFile b)"
  by (auto simp: files_of_def split: option.splits node.splits)

text \<open>What one step may do: keep the tree, keep the directories, and make none at a key of \<open>K\<close>.\<close>

definition stays :: "fkey set \<Rightarrow> fs \<Rightarrow> fs \<Rightarrow> bool" where
  "stays K fs fs' \<longleftrightarrow> (tree fs \<longrightarrow> tree fs') \<and> dirs_le fs fs'
     \<and> (\<forall>k\<in>K. map_of fs k \<noteq> Some FDir \<longrightarrow> map_of fs' k \<noteq> Some FDir)"

lemma stays_refl [simp]: "stays K fs fs"
  by (simp add: stays_def)

lemma stays_trans: "stays K a b \<Longrightarrow> stays K b c \<Longrightarrow> stays K a c"
  unfolding stays_def using dirs_le_trans by blast

lemma mkdirs_files:
  "mkdirs fs up cs = (fs', ok) \<Longrightarrow> files_of fs' = files_of fs"
proof (induction fs up cs arbitrary: fs' ok rule: mkdirs.induct)
  case (2 fs up c cs)
  have "files_of (AList.update (up @ [c]) FDir fs) = files_of fs" if "fs_get fs (up @ [c]) = None"
    using that by (auto simp: files_of_def fs_get_def fun_eq_iff)
  with 2 show ?case by (auto split: option.splits node.splits)
qed simp

lemma tree_mkdir:
  assumes "tree fs" and "fs_get fs up = Some FDir" and "fs_get fs (up @ [c]) = None"
  shows "tree (AList.update (up @ [c]) FDir fs)"
  using assms unfolding tree_def by (auto simp: fs_get_def)

lemma dirs_le_mkdir: "dirs_le fs (AList.update k FDir fs)"
  by (auto simp: dirs_le_def fs_get_def)

text \<open>\<open>mkdirs\<close> makes directories only along the path it is given.\<close>

lemma mkdirs_stays:
  assumes "mkdirs fs up cs = (fs', ok)" and "fs_get fs up = Some FDir"
    and "\<And>k. k \<in> K \<Longrightarrow> \<not> (prefix up k \<and> up \<noteq> k \<and> prefix k (up @ cs))"
  shows "stays K fs fs' \<and> (ok \<longrightarrow> fs_get fs' (up @ cs) = Some FDir)"
  using assms
proof (induction fs up cs arbitrary: fs' ok rule: mkdirs.induct)
  case (2 fs up c cs)
  have next_free: "\<not> (prefix (up @ [c]) k \<and> up @ [c] \<noteq> k \<and> prefix k ((up @ [c]) @ cs))" if "k \<in> K" for k
    using "2.prems"(3) [OF that] append_prefixD [of up "[c]" k] by auto
  have not_K: "up @ [c] \<notin> K" using "2.prems"(3) [of "up @ [c]"] by auto
  show ?case
  proof (cases "fs_get fs (up @ [c])")
    case None
    let ?fs = "AList.update (up @ [c]) FDir fs"
    have "fs_get ?fs (up @ [c]) = Some FDir" by (simp add: fs_get_def)
    with None "2.prems"(1) "2.IH"(1) [OF None, of fs' ok] next_free
    have "stays K ?fs fs' \<and> (ok \<longrightarrow> fs_get fs' (up @ c # cs) = Some FDir)" by simp
    moreover have "stays K fs ?fs"
      using tree_mkdir [OF _ "2.prems"(2) None] dirs_le_mkdir not_K by (auto simp: stays_def)
    ultimately show ?thesis using stays_trans by blast
  next
    case (Some n)
    show ?thesis
    proof (cases n)
      case FDir
      with Some "2.prems"(1) "2.IH"(2) [OF Some FDir, of fs' ok] next_free show ?thesis by simp
    qed (use Some "2.prems"(1) in simp)
  qed
qed simp

text \<open>The three calls of the operating system.\<close>

lemma tree_childless:
  "tree fs \<Longrightarrow> fs_get fs (butlast j) \<noteq> Some FDir \<Longrightarrow> map_of fs j = None"
  unfolding tree_def by blast

lemma stays_write:
  assumes "can_write fs (k, d)" and "k \<noteq> []"
  shows "stays K fs (AList.update k (FFile b) fs)"
proof -
  have nd: "map_of fs k \<noteq> Some FDir" using assms by (auto simp: fs_get_def)
  have "tree (AList.update k (FFile b) fs)" if t: "tree fs"
    unfolding tree_def
  proof (intro conjI allI impI)
    show "map_of (AList.update k (FFile b) fs) [] = None" using t assms(2) by (simp add: tree_def)
    fix j assume j: "map_of (AList.update k (FFile b) fs) j \<noteq> None"
    have "fs_get fs (butlast j) = Some FDir"
      using j assms(1) t by (cases "j = k") (auto simp: tree_def)
    moreover from this nd assms(2) have "butlast j \<noteq> k" by (auto simp: fs_get_def)
    ultimately show "fs_get (AList.update k (FFile b) fs) (butlast j) = Some FDir" by (auto simp: fs_get_def)
  qed
  with nd show ?thesis by (auto simp: stays_def dirs_le_def fs_get_def)
qed

lemma stays_delete:
  assumes "map_of fs k = Some (FFile b)" and "k \<noteq> []"
  shows "stays K fs (AList.delete k fs)"
proof -
  have "tree (AList.delete k fs)" if t: "tree fs"
    unfolding tree_def
  proof (intro conjI allI impI)
    show "map_of (AList.delete k fs) [] = None" using t by (simp add: tree_def)
    fix j assume "map_of (AList.delete k fs) j \<noteq> None"
    then have "fs_get fs (butlast j) = Some FDir" using t by (auto simp: tree_def split: if_splits)
    moreover from this assms have "butlast j \<noteq> k" by (auto simp: fs_get_def)
    ultimately show "fs_get (AList.delete k fs) (butlast j) = Some FDir" by (auto simp: fs_get_def)
  qed
  with assms show ?thesis by (auto simp: stays_def dirs_le_def fs_get_def)
qed

lemma write_effect:
  assumes "fs_write fs (k, False) b = (fs', True)" and "k \<noteq> []"
  shows "stays K fs fs' \<and> files_of fs' = (files_of fs)(k \<mapsto> b)"
  using assms stays_write [OF _ assms(2)] by (auto split: if_splits)

lemma write_refused: "fs_write fs p b = (fs', False) \<Longrightarrow> fs' = fs"
  by (cases p) (auto split: if_splits)

lemma remove_effect:
  assumes "fs_remove fs (k, d) = (fs', True)"
  shows "k \<noteq> [] \<Longrightarrow> stays K fs fs'" "files_of fs' = (files_of fs)(k := None)"
  using assms stays_delete by (auto split: if_splits option.splits node.splits simp: fs_get_def)

lemma remove_refused: "fs_remove fs p = (fs', False) \<Longrightarrow> fs' = fs"
  by (cases p) (auto split: if_splits option.splits node.splits)

lemma rename_effect:
  assumes "fs_rename fs (src, False) (dst, False) = (fs', True)" and "map_of fs src = Some (FFile b)"
    and "src \<noteq> dst" and "src \<noteq> []"
  shows "stays K fs fs' \<and> files_of fs' = (files_of fs)(src := None, dst \<mapsto> b)"
proof -
  from assms have ok: "fs_get fs dst \<noteq> Some FDir" "fs_get fs (butlast dst) = Some FDir"
    and fs': "fs' = AList.update dst (FFile b) (AList.delete src fs)"
    by (auto split: if_splits)
  have "dst \<noteq> []" using ok(1) by (auto simp: fs_get_def)
  have "can_write (AList.delete src fs) (dst, False)"
    using ok assms(2,4) by (auto simp: fs_get_def)
  from stays_write [OF this \<open>dst \<noteq> []\<close>] stays_delete [OF assms(2,4)] stays_trans
  have "stays K fs fs'" unfolding fs' by blast
  then show ?thesis unfolding fs' by simp
qed

lemma rename_refused: "fs_rename fs p q = (fs', False) \<Longrightarrow> fs' = fs"
  by (cases p; cases q) (auto split: if_splits option.splits node.splits)

subsection \<open>One operation\<close>

definition pk :: "planned \<Rightarrow> fkey" where
  "pk p = fst (pl_abs p)"

definition pkeys :: "planned \<Rightarrow> fkey list" where
  "pkeys p = pk p # (case pl_abs_to p of None \<Rightarrow> [] | Some t \<Rightarrow> [fst t])"

text \<open>The files an operation stands for.\<close>

fun eff :: "planned \<Rightarrow> (fkey \<Rightarrow> string option) \<Rightarrow> fkey \<Rightarrow> string option" where
  "eff p F =
     (case pl_op p of
        PoAdd _ c \<Rightarrow> F(pk p \<mapsto> c)
      | PoUpdate _ c \<Rightarrow> F(pk p \<mapsto> c)
      | PoDelete _ \<Rightarrow> F(pk p := None)
      | PoMove _ _ \<Rightarrow> F(pk p := None, fst (the (pl_abs_to p)) := F (pk p)))"

definition well :: "planned \<Rightarrow> bool" where
  "well p \<longleftrightarrow> \<not> snd (pl_abs p) \<and> pk p \<noteq> [] \<and>
     (case pl_op p of
        PoMove _ _ \<Rightarrow> (\<exists>t. pl_abs_to p = Some (t, False) \<and> t \<noteq> [] \<and> t \<noteq> pk p)
      | _ \<Rightarrow> pl_abs_to p = None)"

definition free :: "fkey set \<Rightarrow> planned \<Rightarrow> bool" where
  "free K p \<longleftrightarrow> set (pkeys p) \<subseteq> K \<and> (\<forall>k'\<in>K. \<forall>k\<in>set (pkeys p). \<not> strict_prefix k' k)"

definition nodir :: "fkey set \<Rightarrow> fs \<Rightarrow> bool" where
  "nodir K fs \<longleftrightarrow> (\<forall>k\<in>K. map_of fs k \<noteq> Some FDir)"

lemma stays_nodir: "stays K fs fs' \<Longrightarrow> nodir K fs \<Longrightarrow> nodir K fs'"
  by (simp add: stays_def nodir_def)

lemma stays_tree: "stays K fs fs' \<Longrightarrow> tree fs \<Longrightarrow> tree fs'"
  by (simp add: stays_def)

lemma well_abs: "well p \<Longrightarrow> pl_abs p = (pk p, False)"
  by (cases "pl_abs p") (simp add: well_def pk_def)

lemma mkdirs_parent:
  assumes "mkdirs fs [] (butlast k) = (fs', ok)" and "k \<noteq> []" and "\<forall>k'\<in>K. \<not> strict_prefix k' k"
  shows "stays K fs fs'" "files_of fs' = files_of fs"
proof -
  have "strict_prefix k' k" if pre: "prefix k' (butlast k)" for k'
  proof -
    obtain z where "butlast k = k' @ z" using pre by (elim prefixE)
    then have "k = k' @ z @ [last k]" using append_butlast_last_id [OF assms(2)] by simp
    then show ?thesis by (metis append_Nil2 append_is_Nil_conv not_Cons_self2 same_append_eq prefixI strict_prefixI)
  qed
  with assms(1,3) mkdirs_stays [of fs "[]" "butlast k" fs' ok K] show "stays K fs fs'"
    by (auto simp: fs_get_def)
  show "files_of fs' = files_of fs" using mkdirs_files [OF assms(1)] .
qed

lemma put_file_effect:
  assumes "put_file env flt fs (k, False) c = (fs', r)" and "k \<noteq> []" and "\<forall>k'\<in>K. \<not> strict_prefix k' k"
  shows "r = Inr () \<Longrightarrow> stays K fs fs' \<and> files_of fs' = (files_of fs)(k \<mapsto> c)"
    and "r \<noteq> Inr () \<Longrightarrow> (\<forall>n. flt \<noteq> IoPartial n) \<Longrightarrow> stays K fs fs' \<and> files_of fs' = files_of fs"
proof -
  obtain fs1 ok where m: "mkdirs fs [] (butlast k) = (fs1, ok)" by fastforce
  note d = mkdirs_parent [OF m assms(2,3)]
  obtain fs2 ok2 where w: "fs_write fs1 (k, False) c = (fs2, ok2)" by fastforce
  show "stays K fs fs' \<and> files_of fs' = (files_of fs)(k \<mapsto> c)" if "r = Inr ()"
    using that assms(1) m d w write_effect [of fs1 k c fs2 K] assms(2) stays_trans [of K fs fs1 fs2]
    by (cases flt) (auto simp: put_file_def Let_def split: if_splits bool.splits)
  show "stays K fs fs' \<and> files_of fs' = files_of fs" if "r \<noteq> Inr ()" "\<forall>n. flt \<noteq> IoPartial n"
    using that assms(1) m d w write_refused [of fs1 "(k, False)" c fs2]
    by (cases flt) (auto simp: put_file_def Let_def split: if_splits bool.splits)
qed

lemma free_pk: "free K p \<Longrightarrow> \<forall>k'\<in>K. \<not> strict_prefix k' (pk p)"
  by (simp add: free_def pkeys_def)

lemma well_move: "well p \<Longrightarrow> pl_op p = PoMove a b \<Longrightarrow> \<exists>t. pl_abs_to p = Some (t, False) \<and> t \<noteq> [] \<and> t \<noteq> pk p"
  by (simp add: well_def)

lemma move_effect:
  assumes "apply_planned env flt fs p = (fs', r)" and "pl_op p = PoMove a b" and "well p" and "free K p"
    and "nodir K fs"
  shows "if r = Inr () then stays K fs fs' \<and> files_of fs' = eff p (files_of fs)
         else stays K fs fs' \<and> files_of fs' = files_of fs"
proof -
  obtain t where t: "pl_abs_to p = Some (t, False)" "t \<noteq> []" "t \<noteq> pk p" using well_move assms by blast
  have ft: "\<forall>k'\<in>K. \<not> strict_prefix k' t" using assms(4) t(1) by (simp add: free_def pkeys_def)
  obtain fs1 ok where m: "mkdirs fs [] (butlast t) = (fs1, ok)" by fastforce
  obtain fs2 ok2 where w: "fs_rename fs1 (pk p, False) (t, False) = (fs2, ok2)" by fastforce
  note d = mkdirs_parent [OF m t(2) ft]
  note n = stays_nodir [OF d(1) assms(5)]
  have pne: "pk p \<noteq> []" using assms(3) by (simp add: well_def)
  have moved: "stays K fs fs2 \<and> files_of fs2 = (files_of fs)(pk p := None, t := files_of fs (pk p))" if "ok2"
  proof -
    have "map_of fs1 (pk p) \<noteq> Some FDir" using n assms(4) by (simp add: nodir_def free_def pkeys_def)
    with w that obtain c where c: "map_of fs1 (pk p) = Some (FFile c)"
      by (auto split: option.splits node.splits)
    then have "files_of fs (pk p) = Some c" using d(2) by (metis files_of_Some)
    with rename_effect [OF _ c t(3) [symmetric] pne, of fs2 K] w that d stays_trans show ?thesis by auto
  qed
  have stuck: "fs2 = fs1" if "\<not> ok2" using rename_refused [of fs1 "(pk p, False)" "(t, False)" fs2] w that by simp
  show ?thesis
    using assms(1,2) m w moved stuck d t(1) well_abs [OF assms(3)]
    by (cases ok; cases ok2) (auto simp: apply_planned_def Let_def split: if_splits)
qed

lemma apply_effect:
  assumes "apply_planned env flt fs p = (fs', r)" and "well p" and "free K p" and "nodir K fs"
    and "r \<noteq> Inr () \<Longrightarrow> \<forall>n. flt \<noteq> IoPartial n"
  shows "stays K fs fs' \<and> files_of fs' = (if r = Inr () then eff p (files_of fs) else files_of fs)"
proof (cases "pl_op p")
  case (PoMove a b)
  from move_effect [OF assms(1) this assms(2-4)] show ?thesis by (auto split: if_splits)
next
  case (PoDelete a)
  have nd: "map_of fs (pk p) \<noteq> Some FDir" using assms(3,4) by (simp add: nodir_def free_def pkeys_def)
  have pne: "pk p \<noteq> []" using assms(2) by (simp add: well_def)
  obtain fs1 ok where w: "fs_remove fs (pk p, False) = (fs1, ok)" by fastforce
  have absent: "files_of fs = (files_of fs)(pk p := None)" if "\<not> path_exists fs (pk p, False)"
    using that pne by (auto simp: fs_get_def files_of_def fun_eq_iff split: option.splits node.splits)
  show ?thesis
    using assms(1) PoDelete w well_abs [OF assms(2)] remove_effect(1) [of fs "pk p" False fs1 K] pne absent
      remove_effect(2) [of fs "pk p" False fs1] remove_refused [of fs "(pk p, False)" fs1]
    by (cases ok) (auto simp: apply_planned_def Let_def split: if_splits)
next
  case (PoAdd a c)
  have pne: "pk p \<noteq> []" using assms(2) by (simp add: well_def)
  from PoAdd assms(1) well_abs [OF assms(2)] have "put_file env flt fs (pk p, False) c = (fs', r)"
    by (simp add: apply_planned_def Let_def)
  from put_file_effect [OF this pne free_pk [OF assms(3)]] assms(5) PoAdd show ?thesis by auto
next
  case (PoUpdate a c)
  have pne: "pk p \<noteq> []" using assms(2) by (simp add: well_def)
  from PoUpdate assms(1) well_abs [OF assms(2)] have "put_file env flt fs (pk p, False) c = (fs', r)"
    by (simp add: apply_planned_def Let_def)
  from put_file_effect [OF this pne free_pk [OF assms(3)]] assms(5) PoUpdate show ?thesis by auto
qed

text \<open>What planning recorded about the files before the operation.\<close>

definition recorded :: "(fkey \<Rightarrow> string option) \<Rightarrow> planned \<Rightarrow> bool" where
  "recorded F p \<longleftrightarrow> pl_before p = F (pk p) \<and> pl_existed p = (F (pk p) \<noteq> None) \<and>
     (case pl_op p of
        PoAdd _ _ \<Rightarrow> F (pk p) = None
      | PoMove _ _ \<Rightarrow> F (pk p) \<noteq> None \<and> F (fst (the (pl_abs_to p))) = None
      | _ \<Rightarrow> True)"

lemma exists_file: "nodir K fs \<Longrightarrow> k \<in> K \<Longrightarrow> k \<noteq> [] \<Longrightarrow> path_exists fs (k, False) \<longleftrightarrow> files_of fs k \<noteq> None"
  by (auto simp: nodir_def fs_get_def files_of_def split: option.splits node.splits)

lemma remove_there:
  assumes "files_of fs k = Some b" and "k \<noteq> []"
  shows "stays K fs (fst (fs_remove fs (k, False))) \<and> files_of (fst (fs_remove fs (k, False))) = (files_of fs)(k := None)"
proof -
  have "fs_remove fs (k, False) = (AList.delete k fs, True)"
    using assms by (simp add: files_of_Some fs_get_def)
  with remove_effect [OF this] assms(2) show ?thesis by simp
qed

lemma write_back:
  assumes "nodir K fs" and "k \<in> K" and "k \<noteq> []" and "fs_get fs (butlast k) = Some FDir"
  shows "stays K fs (fst (fs_write fs (k, False) b)) \<and> files_of (fst (fs_write fs (k, False) b)) = (files_of fs)(k \<mapsto> b)"
proof -
  have "fs_write fs (k, False) b = (AList.update k (FFile b) fs, True)"
    using assms by (auto simp: fs_get_def nodir_def)
  with write_effect [OF this assms(3)] show ?thesis by simp
qed

lemma undo_write_back:
  assumes "free K p" and "nodir K fs" and "pk p \<noteq> []" and "fs_get fs (butlast (pk p)) = Some FDir"
  shows "let fs' = fst (fs_write (fst (mkdirs fs [] (butlast (pk p)))) (pk p, False) b)
         in stays K fs fs' \<and> files_of fs' = (files_of fs)(pk p \<mapsto> b)"
proof -
  obtain fs1 ok where m: "mkdirs fs [] (butlast (pk p)) = (fs1, ok)" by fastforce
  note d = mkdirs_parent [OF m assms(3) free_pk [OF assms(1)]]
  have "pk p \<in> K" using assms(1) by (simp add: free_def pkeys_def)
  moreover have "fs_get fs1 (butlast (pk p)) = Some FDir" using d(1) assms(4) by (simp add: stays_def dirs_le_def)
  ultimately show ?thesis
    using write_back [OF stays_nodir [OF d(1) assms(2)] _ assms(3), of b] m d stays_trans [OF d(1)]
    by (auto simp: Let_def)
qed

lemma undo_effect:
  assumes "well p" and "free K p" and "nodir K fs" and "recorded F p" and "files_of fs = eff p F"
    and parent: "F (pk p) \<noteq> None \<Longrightarrow> fs_get fs (butlast (pk p)) = Some FDir"
  shows "stays K fs (rollback_planned False fs p) \<and> files_of (rollback_planned False fs p) = F"
proof -
  note a = well_abs [OF assms(1)]
  have pne: "pk p \<noteq> []" using assms(1) by (simp add: well_def)
  have inK: "pk p \<in> K" using assms(2) by (simp add: free_def pkeys_def)
  note ex = exists_file [OF assms(3)]
  note put_back = undo_write_back [OF assms(2,3) pne parent, unfolded Let_def]
  show ?thesis
  proof (cases "pl_op p")
    case (PoAdd x c)
    with assms(4,5) have "files_of fs (pk p) = Some c" "F = F(pk p := None)" by (auto simp: recorded_def)
    with remove_there [OF _ pne, of fs c K] ex [OF inK pne] PoAdd a assms(5) show ?thesis
      by (simp add: rollback_planned_def)
  next
    case (PoUpdate x c)
    with assms(5) have c: "files_of fs (pk p) = Some c" by simp
    show ?thesis
    proof (cases "F (pk p)")
      case None
      with remove_there [OF c pne, of K] ex [OF inK pne] PoUpdate a assms(4,5) c show ?thesis
        by (simp add: rollback_planned_def recorded_def fun_upd_idem)
    next
      case (Some b)
      with put_back [of b] PoUpdate a assms(4,5) show ?thesis
        by (simp add: rollback_planned_def recorded_def fun_upd_idem)
    qed
  next
    case (PoDelete x)
    show ?thesis
    proof (cases "F (pk p)")
      case None
      with ex [OF inK pne] PoDelete a assms(4,5) show ?thesis
        by (simp add: rollback_planned_def recorded_def fun_upd_idem)
    next
      case (Some b)
      with put_back [of b] PoDelete a assms(4,5) show ?thesis
        by (simp add: rollback_planned_def recorded_def fun_upd_idem)
    qed
  next
    case (PoMove x y)
    obtain t where t: "pl_abs_to p = Some (t, False)" "t \<noteq> []" "t \<noteq> pk p"
      using well_move [OF assms(1) PoMove] by blast
    from assms(4) PoMove t obtain b where b: "F (pk p) = Some b" "F t = None" by (auto simp: recorded_def)
    with assms(5) PoMove t have ft: "files_of fs t = Some b" by simp
    have tK: "t \<in> K" using assms(2) t(1) by (simp add: free_def pkeys_def)
    have m: "map_of fs t = Some (FFile b)" using ft by (simp add: files_of_Some)
    have "fs_get fs (pk p) \<noteq> Some FDir" using assms(3) inK pne by (simp add: nodir_def fs_get_def)
    then have r: "fs_rename fs (t, False) (pk p, False) =
        (AList.update (pk p) (FFile b) (AList.delete t fs), True)"
      using m t(3) parent b by simp
    have "files_of (fst (fs_rename fs (t, False) (pk p, False))) = F"
      using rename_effect [OF r m t(3) t(2)] r assms(5) PoMove t b by (auto simp: fun_eq_iff)
    then show ?thesis
      using rename_effect [OF r m t(3) t(2)] r ex [OF tK t(2)] ft PoMove t a by (simp add: rollback_planned_def)
  qed
qed

subsection \<open>The whole plan\<close>

fun effs :: "planned list \<Rightarrow> (fkey \<Rightarrow> string option) \<Rightarrow> fkey \<Rightarrow> string option" where
  "effs [] F = F"
| "effs (q # qs) F = eff q (effs qs F)"

lemma eff_other: "k \<notin> set (pkeys p) \<Longrightarrow> well p \<Longrightarrow> eff p F k = F k"
  by (auto simp: pkeys_def well_def split: patch_op.splits)

lemma effs_other:
  "\<forall>q\<in>set qs. well q \<and> k \<notin> set (pkeys q) \<Longrightarrow> effs qs F k = F k"
  by (induction qs) (simp_all add: eff_other del: eff.simps)

text \<open>Operations over separate paths, each planned against the files \<open>F\<close>.\<close>

definition plan_ok :: "fkey set \<Rightarrow> (fkey \<Rightarrow> string option) \<Rightarrow> planned list \<Rightarrow> bool" where
  "plan_ok K F ps \<longleftrightarrow> (\<forall>p\<in>set ps. well p \<and> free K p \<and> recorded F p) \<and> distinct (concat (List.map pkeys ps))"

lemma recorded_later:
  assumes "plan_ok K F (q # qs)"
  shows "recorded (effs qs F) q" "effs qs F (pk q) = F (pk q)"
proof -
  have same: "effs qs F k = F k" if "k \<in> set (pkeys q)" for k
    using assms that by (intro effs_other) (auto simp: plan_ok_def)
  have q: "well q" "recorded F q" using assms by (simp_all add: plan_ok_def)
  show pk: "effs qs F (pk q) = F (pk q)" by (rule same) (simp add: pkeys_def)
  show "recorded (effs qs F) q"
  proof (cases "pl_op q")
    case (PoMove a b)
    then obtain t where "pl_abs_to q = Some (t, False)" using well_move q(1) by blast
    with q(2) pk same [of t] PoMove show ?thesis by (simp add: recorded_def pkeys_def)
  qed (use q(2) pk in \<open>simp_all add: recorded_def\<close>)
qed

text \<open>The state after some operations: the files are those the operations stand for.\<close>

definition reached :: "fkey set \<Rightarrow> fs \<Rightarrow> fs \<Rightarrow> planned list \<Rightarrow> bool" where
  "reached K fs0 fs applied \<longleftrightarrow> stays K fs0 fs \<and> files_of fs = effs applied (files_of fs0)"

lemma file_parent: "tree fs \<Longrightarrow> files_of fs k \<noteq> None \<Longrightarrow> fs_get fs (butlast k) = Some FDir"
  by (auto simp: tree_def files_of_def split: option.splits)

lemma rollback_restores:
  assumes "reached K fs0 fs applied" and "tree fs0" and "nodir K fs0" and "plan_ok K (files_of fs0) applied"
    and "\<And>n. \<not> env_undo_refused env n"
  shows "files_of (rollback_all env fs applied) = files_of fs0"
  using assms
proof (induction applied arbitrary: fs)
  case (Cons q qs)
  have st: "stays K fs0 fs" and f: "files_of fs = eff q (effs qs (files_of fs0))"
    using Cons.prems(1) by (simp_all add: reached_def)
  note r = recorded_later [OF Cons.prems(4)]
  have parent: "fs_get fs (butlast (pk q)) = Some FDir" if "effs qs (files_of fs0) (pk q) \<noteq> None"
    using that file_parent [OF Cons.prems(2)] st by (simp add: r(2) stays_def dirs_le_def)
  have "well q" "free K q" using Cons.prems(4) by (simp_all add: plan_ok_def)
  from undo_effect [OF this stays_nodir [OF st Cons.prems(3)] r(1) f parent]
  have u: "stays K fs (rollback_planned False fs q) \<and> files_of (rollback_planned False fs q) = effs qs (files_of fs0)" .
  then have "reached K fs0 (rollback_planned False fs q) qs"
    using stays_trans [OF st] by (simp add: reached_def)
  with Cons.IH [OF this Cons.prems(2,3) _ Cons.prems(5)] Cons.prems(4,5) show ?case by (simp add: plan_ok_def)
qed (simp add: reached_def)

lemma apply_all_effect:
  assumes "apply_all env fs applied ps = (fs', r)" and "reached K fs0 fs applied" and "tree fs0" and "nodir K fs0"
    and "plan_ok K (files_of fs0) (rev ps @ applied)"
    and "\<And>n. \<not> env_undo_refused env n" and "\<And>i n. env_apply env i \<noteq> IoPartial n"
  shows "case r of Inl e \<Rightarrow> files_of fs' = files_of fs0
         | Inr cs \<Rightarrow> files_of fs' = effs (rev ps @ applied) (files_of fs0)
             \<and> cs = List.map (change_json \<circ> pl_op) (rev applied @ ps)"
  using assms
proof (induction ps arbitrary: fs applied)
  case (Cons p ps)
  obtain fs1 r1 where a: "apply_planned env (env_apply env (length applied)) fs p = (fs1, r1)" by fastforce
  have st: "stays K fs0 fs" and f: "files_of fs = effs applied (files_of fs0)"
    using Cons.prems(2) by (simp_all add: reached_def)
  have p: "well p" "free K p" using Cons.prems(5) by (simp_all add: plan_ok_def)
  from apply_effect [OF a p stays_nodir [OF st Cons.prems(4)]] Cons.prems(7)
  have e: "stays K fs0 fs1" "files_of fs1 = (if r1 = Inr () then eff p (files_of fs) else files_of fs)"
    using stays_trans [OF st] by auto
  show ?case
  proof (cases r1)
    case (Inl err)
    with e f have "reached K fs0 fs1 applied" by (simp add: reached_def)
    moreover have "plan_ok K (files_of fs0) applied" using Cons.prems(5) by (simp add: plan_ok_def)
    ultimately have "files_of (rollback_all env fs1 applied) = files_of fs0"
      using rollback_restores Cons.prems by blast
    with Inl a Cons.prems(1) show ?thesis by auto
  next
    case (Inr u)
    with e f have "reached K fs0 fs1 (p # applied)" by (simp add: reached_def)
    from Cons.IH [OF _ this Cons.prems(3,4) _ Cons.prems(6,7)] Inr a Cons.prems(1,5) show ?thesis
      by (simp split: sum.splits)
  qed
qed (auto simp: reached_def)

subsection \<open>Planning a patch\<close>

text \<open>The paths of the operations are separate files: none names or contains another.\<close>

fun prefix_free :: "fkey list \<Rightarrow> bool" where
  "prefix_free [] = True"
| "prefix_free (k # ks) = (list_all (\<lambda>j. \<not> prefix k j \<and> \<not> prefix j k) ks \<and> prefix_free ks)"

definition separate :: "patch_op list \<Rightarrow> bool" where
  "separate ops \<longleftrightarrow> list_all (\<lambda>p. \<not> wants_dir p \<and> file_key p \<noteq> []) (concat (List.map op_paths ops))
     \<and> prefix_free (List.map file_key (concat (List.map op_paths ops)))"

fun target_free :: "fs \<Rightarrow> patch_op \<Rightarrow> bool" where
  "target_free fs (PoMove _ to) = (map_of fs (file_key to) = None)"
| "target_free fs _ = True"

text \<open>The effect of one operation on the files, and of a patch.\<close>

fun op_eff :: "patch_op \<Rightarrow> (fkey \<Rightarrow> string option) \<Rightarrow> fkey \<Rightarrow> string option" where
  "op_eff (PoAdd p c) F = F(file_key p \<mapsto> c)"
| "op_eff (PoUpdate p c) F = F(file_key p \<mapsto> c)"
| "op_eff (PoDelete p) F = F(file_key p := None)"
| "op_eff (PoMove p q) F = F(file_key p := None, file_key q := F (file_key p))"

lemma resolve_rel_Inr: "resolve_rel r = Inr a \<Longrightarrow> a = (file_key r, wants_dir r)"
  by (auto simp: resolve_rel_def split: if_splits)

lemma fs_read_Inr: "fs_read env fs p = Inr b \<Longrightarrow> fst p \<noteq> [] \<Longrightarrow> map_of fs (fst p) = Some (FFile b)"
  by (auto simp: fs_read_def fs_get_def split: option.splits node.splits if_splits)

lemma before_image_Inr:
  assumes "before_image env fs (k, False) = Inr b" and "k \<noteq> []"
  shows "b = files_of fs k \<and> map_of fs k \<noteq> Some FDir \<and> path_exists fs (k, False) = (b \<noteq> None)"
  using assms fs_read_Inr [of env fs "(k, False)"]
  by (auto simp: before_image_def bind_sum_Inr files_of_def fs_get_def split: if_splits option.splits node.splits)

text \<open>What each form of planning gives.\<close>

lemma plan_add:
  assumes "plan_op env fs (PoAdd r c) = Inr p" and "\<not> wants_dir r" and "file_key r \<noteq> []"
  shows "p = \<lparr>pl_op = PoAdd r c, pl_abs = (file_key r, False), pl_abs_to = None, pl_before = None, pl_existed = False\<rparr>"
    "map_of fs (file_key r) = None"
proof -
  from assms(1) obtain a where r: "resolve_rel r = Inr a" and x: "\<not> path_exists fs a"
    and p: "p = \<lparr>pl_op = PoAdd r c, pl_abs = a, pl_abs_to = None, pl_before = None, pl_existed = False\<rparr>"
    by (auto simp: bind_sum_Inr simp del: path_exists.simps split: if_splits)
  from resolve_rel_Inr [OF r] assms(2) have a: "a = (file_key r, False)" by simp
  with p show "p = \<lparr>pl_op = PoAdd r c, pl_abs = (file_key r, False), pl_abs_to = None, pl_before = None,
    pl_existed = False\<rparr>" by simp
  show "map_of fs (file_key r) = None"
  proof (cases "map_of fs (file_key r)")
    case (Some n)
    with x a assms(3) show ?thesis by (cases n) (auto simp: fs_get_def)
  qed
qed

lemma plan_in_place:
  assumes "plan_op env fs op = Inr p" and "op = PoUpdate r c \<or> op = PoDelete r" and "\<not> wants_dir r" and "file_key r \<noteq> []"
  shows "p = \<lparr>pl_op = op, pl_abs = (file_key r, False), pl_abs_to = None, pl_before = files_of fs (file_key r),
              pl_existed = (files_of fs (file_key r) \<noteq> None)\<rparr>"
    "map_of fs (file_key r) \<noteq> Some FDir"
proof -
  from assms obtain a b where r: "resolve_rel r = Inr a" and b: "before_image env fs a = Inr b"
    and p: "p = \<lparr>pl_op = op, pl_abs = a, pl_abs_to = None, pl_before = b,
              pl_existed = (if \<exists>c. op = PoUpdate r c then path_exists fs a else b \<noteq> None)\<rparr>"
    by (auto simp: bind_sum_Inr simp del: path_exists.simps)
  from resolve_rel_Inr [OF r] assms(3) have a: "a = (file_key r, False)" by simp
  note before_image_Inr [OF b [unfolded a] assms(4)]
  with p a show "p = \<lparr>pl_op = op, pl_abs = (file_key r, False), pl_abs_to = None, pl_before = files_of fs (file_key r),
              pl_existed = (files_of fs (file_key r) \<noteq> None)\<rparr>" "map_of fs (file_key r) \<noteq> Some FDir"
    by simp_all
qed

lemma plan_move:
  assumes "plan_op env fs (PoMove r q) = Inr p" and "\<not> wants_dir r" "\<not> wants_dir q" and "file_key r \<noteq> []"
  obtains b where "map_of fs (file_key r) = Some (FFile b)"
    "p = \<lparr>pl_op = PoMove r q, pl_abs = (file_key r, False), pl_abs_to = Some (file_key q, False), pl_before = Some b,
              pl_existed = True\<rparr>"
proof -
  from assms(1) obtain a t b where r: "resolve_rel r = Inr a" and q: "resolve_rel q = Inr t"
    and b: "fs_read env fs a = Inr b"
    and p: "p = \<lparr>pl_op = PoMove r q, pl_abs = a, pl_abs_to = Some t, pl_before = Some b, pl_existed = True\<rparr>"
    by (auto simp: bind_sum_Inr simp del: path_exists.simps split: if_splits)
  from resolve_rel_Inr [OF r] resolve_rel_Inr [OF q] assms(2,3)
  have a: "a = (file_key r, False)" "t = (file_key q, False)" by simp_all
  with fs_read_Inr [OF b] assms(4) p that show thesis by simp
qed

definition planned_well :: "fs \<Rightarrow> patch_op \<Rightarrow> planned \<Rightarrow> bool" where
  "planned_well fs op p \<longleftrightarrow> pl_op p = op \<and> pkeys p = List.map file_key (op_paths op) \<and> well p
     \<and> recorded (files_of fs) p \<and> (\<forall>k\<in>set (pkeys p). map_of fs k \<noteq> Some FDir) \<and> eff p = op_eff op"

lemma plan_op_facts:
  assumes "plan_op env fs op = Inr p" and "list_all (\<lambda>p. \<not> wants_dir p \<and> file_key p \<noteq> []) (op_paths op)"
    and "distinct (List.map file_key (op_paths op))" and "target_free fs op"
  shows "planned_well fs op p"
proof (cases op)
  case (PoAdd r c)
  with plan_add [of env fs r c p] assms show ?thesis
    by (auto simp: planned_well_def pkeys_def pk_def well_def recorded_def files_of_def fun_eq_iff)
next
  case (PoUpdate r c)
  with plan_in_place [OF assms(1), of r c] assms(2) show ?thesis
    by (auto simp: planned_well_def pkeys_def pk_def well_def recorded_def fun_eq_iff)
next
  case (PoDelete r)
  with plan_in_place [OF assms(1), of r] assms(2) show ?thesis
    by (auto simp: planned_well_def pkeys_def pk_def well_def recorded_def fun_eq_iff)
next
  case (PoMove r q)
  with assms obtain b where b: "map_of fs (file_key r) = Some (FFile b)" "p = \<lparr>pl_op = PoMove r q, pl_abs = (file_key r, False),
      pl_abs_to = Some (file_key q, False), pl_before = Some b, pl_existed = True\<rparr>"
    using plan_move [of env fs r q p] by auto
  moreover have "files_of fs (file_key r) = Some b" using b(1) by (simp add: files_of_Some)
  moreover have "files_of fs (file_key q) = None" using assms(4) PoMove by (simp add: files_of_def)
  ultimately show ?thesis using assms(2-4) PoMove
    by (auto simp: planned_well_def pkeys_def pk_def well_def recorded_def fun_eq_iff)
qed

lemma prefix_free_facts:
  "prefix_free ks \<Longrightarrow> distinct ks \<and> (\<forall>k\<in>set ks. \<forall>k'\<in>set ks. \<not> strict_prefix k' k)"
  by (induction ks) (auto simp: list_all_iff strict_prefix_def)

lemma plan_facts:
  assumes "map_sum_list (plan_op env fs) ops = Inr ps"
    and "list_all (\<lambda>p. \<not> wants_dir p \<and> file_key p \<noteq> []) (concat (List.map op_paths ops))"
    and "distinct (List.map file_key (concat (List.map op_paths ops)))" and "list_all (target_free fs) ops"
  shows "List.map pl_op ps = ops \<and> concat (List.map pkeys ps) = List.map file_key (concat (List.map op_paths ops))
    \<and> (\<forall>p\<in>set ps. planned_well fs (pl_op p) p)"
  using assms
proof (induction ops arbitrary: ps)
  case (Cons op ops)
  obtain p ps' where ps: "ps = p # ps'" and p: "plan_op env fs op = Inr p"
    and ps': "map_sum_list (plan_op env fs) ops = Inr ps'"
    using Cons.prems(1) by (auto simp: bind_sum_Inr)
  have "planned_well fs op p" using Cons.prems by (intro plan_op_facts [OF p]) auto
  moreover from Cons.IH [OF ps'] Cons.prems
  have "List.map pl_op ps' = ops \<and> concat (List.map pkeys ps') = List.map file_key (concat (List.map op_paths ops))
    \<and> (\<forall>p\<in>set ps'. planned_well fs (pl_op p) p)" by simp
  ultimately show ?case by (auto simp: ps planned_well_def)
qed simp

lemma plan_is_ok:
  assumes "map_sum_list (plan_op env fs) ops = Inr ps" and "separate ops" and "list_all (target_free fs) ops"
  shows "plan_ok (set (concat (List.map pkeys ps))) (files_of fs) (rev ps)"
    and "nodir (set (concat (List.map pkeys ps))) fs"
    and "effs (rev ps) F = fold op_eff ops F" and "List.map pl_op ps = ops"
proof -
  note pf = prefix_free_facts [of "List.map file_key (concat (List.map op_paths ops))"]
  from assms(2) pf have f: "List.map pl_op ps = ops"
    "concat (List.map pkeys ps) = List.map file_key (concat (List.map op_paths ops))"
    "\<forall>p\<in>set ps. planned_well fs (pl_op p) p"
    using plan_facts [OF assms(1)] assms(3) by (auto simp: separate_def)
  let ?K = "set (concat (List.map pkeys ps))"
  have sp: "distinct (concat (List.map pkeys ps)) \<and> (\<forall>k\<in>?K. \<forall>k'\<in>?K. \<not> strict_prefix k' k)"
    using assms(2) pf f(2) by (simp add: separate_def)
  have d: "distinct (concat (List.map pkeys (rev ps)))" using sp by (simp add: distinct_concat_rev rev_map [symmetric])
  then show "plan_ok ?K (files_of fs) (rev ps)" using sp f(3) by (auto simp: plan_ok_def free_def planned_well_def)
  show "nodir ?K fs" using f(3) by (auto simp: nodir_def planned_well_def)
  show "List.map pl_op ps = ops" by (rule f(1))
  have "effs (rev qs) F = fold op_eff (List.map pl_op qs) F" if "\<forall>p\<in>set qs. eff p = op_eff (pl_op p)" for qs
    using that
  proof (induction qs rule: rev_induct)
    case (snoc q qs)
    then show ?case by (simp del: eff.simps)
  qed simp
  from this [of ps] f(1,3)[unfolded planned_well_def] show "effs (rev ps) F = fold op_eff ops F" by simp
qed

text \<open>Runs without faults of a plan over separate files.\<close>

lemma execute_effect:
  assumes "parse_patch_input input = Inr ops" and "separate ops" and "list_all (target_free fs) ops" and "tree fs"
    and "\<And>n. \<not> env_undo_refused env n" and "\<And>i n. env_apply env i \<noteq> IoPartial n"
    and "apply_patch_execute env fs input = (fs', r)"
  shows "case r of Inl e \<Rightarrow> files_of fs' = files_of fs
     | Inr out \<Rightarrow> files_of fs' = fold op_eff ops (files_of fs)
         \<and> out = JObj [(''ok'', JBool True), (''changes'', JArr (List.map change_json ops)),
                        (''count'', JInt (int (length ops)))]"
proof (cases "map_sum_list (plan_op env fs) ops")
  case (Inl e)
  with assms(1,7) show ?thesis by (auto simp: apply_patch_execute_def)
next
  case (Inr ps)
  note ok = plan_is_ok [OF Inr assms(2,3)]
  obtain fs1 r1 where a: "apply_all env fs [] ps = (fs1, r1)" by fastforce
  have "reached (set (concat (List.map pkeys ps))) fs fs []" by (simp add: reached_def)
  from apply_all_effect [OF a this assms(4) ok(2) _ assms(5,6)] ok(1)
  have e: "case r1 of Inl e \<Rightarrow> files_of fs1 = files_of fs
     | Inr cs \<Rightarrow> files_of fs1 = effs (rev ps) (files_of fs) \<and> cs = List.map (change_json \<circ> pl_op) ps"
    by (simp split: sum.splits)
  have "List.map (change_json \<circ> pl_op) ps = List.map change_json ops" "length ps = length ops"
    using ok(4) by (simp_all add: map_map [symmetric] del: map_map flip: length_map [of pl_op])
  with e a Inr assms(1,7) ok(3) show ?thesis
    by (cases r1) (auto simp: apply_patch_execute_def split: prod.splits)
qed

text \<open>
  C6: A refused patch leaves every file of the project with the bytes it had, whichever operation fails, if its
  paths are apart from each other (none equal to or below another, none naming a directory), its moves go to
  paths that nothing is at, no write fails half way, and no step of the rollback is refused. Each of these
  is needed: a move onto a file loses that file (\<open>failed_patch_loses_move_target\<close>), a write that fails half way is not
  undone (\<open>failed_write_leaves_truncated_file\<close>).
\<close>

theorem failed_patch_restores_files:
  assumes "parse_patch_input input = Inr ops" and "separate ops" and "list_all (target_free fs) ops" and "tree fs"
    and "\<And>n. \<not> env_undo_refused env n" and "\<And>i n. env_apply env i \<noteq> IoPartial n"
    and "apply_patch_execute env fs input = (fs', Inl e)"
  shows "files_of fs' = files_of fs"
  using execute_effect [OF assms] by simp

text \<open>
  C26: An accepted patch has exactly the effect of its operations in their order, on all files of the project,
  and its output lists one change per operation, under the conditions of the property before: its paths are apart
  from each other, its moves go to paths that nothing is at, no write fails half way and no step of a rollback is
  refused.
\<close>

theorem accepted_patch_has_its_effect:
  assumes "parse_patch_input input = Inr ops" and "separate ops" and "list_all (target_free fs) ops" and "tree fs"
    and "\<And>n. \<not> env_undo_refused env n" and "\<And>i n. env_apply env i \<noteq> IoPartial n"
    and "apply_patch_execute env fs input = (fs', Inr out)"
  shows "files_of fs' = fold op_eff ops (files_of fs)
    \<and> out = JObj [(''ok'', JBool True), (''changes'', JArr (List.map change_json ops)),
                  (''count'', JInt (int (length ops)))]"
  using execute_effect [OF assms] by simp

text \<open>A project of two files, and a patch that moves one and then writes below the other.\<close>

definition demo_fs :: fs where
  "demo_fs = [([''a''], FFile ''x''), ([''d''], FFile ''z'')]"

definition demo_files :: io_env where
  "demo_files = \<lparr>env_os = ''refused'', env_unreadable = (\<lambda>_. False), env_apply = (\<lambda>_. IoOk),
               env_undo_refused = (\<lambda>_. False)\<rparr>"

definition demo_input :: "string \<Rightarrow> json" where
  "demo_input p = JObj [(''files'', JArr [JObj [(''op'', JStr ''move''), (''from'', JStr ''a''), (''to'', JStr ''n/b'')],
                                         JObj [(''path'', JStr p), (''content'', JStr ''w'')]])]"

lemma demo_patch_facts:
  "parse_patch_input (demo_input ''d/e'') = Inr [PoMove ''a'' ''n/b'', PoUpdate ''d/e'' ''w'']"
  "parse_patch_input (demo_input ''e'') = Inr [PoMove ''a'' ''n/b'', PoUpdate ''e'' ''w'']"
  "separate [PoMove ''a'' ''n/b'', PoUpdate ''d/e'' ''w'']" "separate [PoMove ''a'' ''n/b'', PoUpdate ''e'' ''w'']"
  "list_all (target_free demo_fs) [PoMove ''a'' ''n/b'', PoUpdate ''d/e'' ''w'']"
  "list_all (target_free demo_fs) [PoMove ''a'' ''n/b'', PoUpdate ''e'' ''w'']"
  "snd (apply_patch_execute demo_files demo_fs (demo_input ''d/e'')) = Inl (io_err ''write_error'' demo_files)"
  "isl (snd (apply_patch_execute demo_files demo_fs (demo_input ''e''))) = False"
  "\<not> env_undo_refused demo_files n" "env_apply demo_files i \<noteq> IoPartial n"
  by (code_simp, code_simp, code_simp, code_simp, code_simp, code_simp, code_simp, code_simp,
      simp_all add: demo_files_def)

lemma demo_tree: "tree demo_fs"
  by (auto simp: tree_def demo_fs_def fs_get_def)

theorem failed_patch_restores_files_witness:
  "files_of (fst (apply_patch_execute demo_files demo_fs (demo_input ''d/e''))) = files_of demo_fs"
  by (rule failed_patch_restores_files [OF demo_patch_facts(1,3,5) demo_tree demo_patch_facts(9,10), of _ "io_err ''write_error'' demo_files"])
    (simp add: prod_eq_iff demo_patch_facts(7))

theorem accepted_patch_has_its_effect_witness:
  "files_of (fst (apply_patch_execute demo_files demo_fs (demo_input ''e''))) [''n'', ''b''] = Some ''x''"
proof -
  obtain out where "apply_patch_execute demo_files demo_fs (demo_input ''e'')
      = (fst (apply_patch_execute demo_files demo_fs (demo_input ''e'')), Inr out)"
    using demo_patch_facts(8) by (cases "snd (apply_patch_execute demo_files demo_fs (demo_input ''e''))") (auto simp: prod_eq_iff)
  from accepted_patch_has_its_effect [OF demo_patch_facts(2,4,6) demo_tree demo_patch_facts(9,10) this]
  have "files_of (fst (apply_patch_execute demo_files demo_fs (demo_input ''e'')))
      = fold op_eff [PoMove ''a'' ''n/b'', PoUpdate ''e'' ''w''] (files_of demo_fs)" by blast
  moreover have "fold op_eff [PoMove ''a'' ''n/b'', PoUpdate ''e'' ''w''] (files_of demo_fs) [''n'', ''b''] = Some ''x''"
    by code_simp
  ultimately show ?thesis by simp
qed

subsection \<open>Where rolling back falls short\<close>

text \<open>
  A write that fails half way is not rolled back, since only the operations before it are: the
  file it was to update keeps the truncated new bytes, and the error does not say so.
\<close>

theorem failed_write_leaves_truncated_file:
  assumes "reject_escape path = Inr ()" and "file_key path = [c]" and "\<not> wants_dir path"
    and "fs = [([c], FFile old)]" and "\<not> env_unreadable env [c]" and "env_apply env 0 = IoPartial n"
  shows "apply_patch_execute env fs (JObj [(''path'', JStr path), (''content'', JStr new)])
    = ([([c], FFile (take n new))], Inl (io_err ''write_error'' env))"
proof -
  have "parse_patch_input (JObj [(''path'', JStr path), (''content'', JStr new)]) = Inr [PoUpdate path new]"
    using assms(1) by (simp add: parse_patch_input_def jget_str_def)
  moreover have "resolve_rel path = Inr ([c], False)"
    using assms(1-3) by (simp add: resolve_rel_def reject_escape_Inr)
  ultimately show ?thesis using assms(4-6)
    by (simp add: apply_patch_execute_def before_image_def fs_read_def fs_get_def apply_planned_def put_file_def)
qed

text \<open>
  A move onto an existing file replaces it, and rolling back only moves the source back: after a
  patch failed on a later operation the file that was replaced is lost.
\<close>

theorem failed_patch_loses_move_target:
  assumes "\<And>i. env_apply env i = IoOk" and "\<And>n. \<not> env_undo_refused env n" and "\<And>k. \<not> env_unreadable env k"
  shows "apply_patch_execute env [([''a''], FFile x), ([''b''], FFile y), ([''d''], FFile z)]
      (JObj [(''files'', JArr [JObj [(''op'', JStr ''move''), (''from'', JStr ''a''), (''to'', JStr ''b'')],
                               JObj [(''path'', JStr ''d/e''), (''content'', JStr w)]])])
    = ([([''d''], FFile z), ([''a''], FFile x)], Inl (io_err ''write_error'' env))"
proof -
  have keys: "file_key ''a'' = [''a'']" "file_key ''b'' = [''b'']" "file_key ''d/e'' = [''d'', ''e'']"
    "\<not> wants_dir ''a''" "\<not> wants_dir ''b''" "\<not> wants_dir ''d/e''" by code_simp+
  have paths: "reject_escape ''a'' = Inr ()" "reject_escape ''b'' = Inr ()" "reject_escape ''d/e'' = Inr ()" by code_simp+
  then have res: "resolve_rel ''a'' = Inr ([''a''], False)" "resolve_rel ''b'' = Inr ([''b''], False)"
    "resolve_rel ''d/e'' = Inr ([''d'', ''e''], False)"
    using keys by (simp_all add: resolve_rel_def reject_escape_Inr)
  have "parse_patch_input (JObj [(''files'', JArr [JObj [(''op'', JStr ''move''), (''from'', JStr ''a''), (''to'', JStr ''b'')],
                               JObj [(''path'', JStr ''d/e''), (''content'', JStr w)]])])
      = Inr [PoMove ''a'' ''b'', PoUpdate ''d/e'' w]"
    using paths by (simp add: parse_patch_input_def jget_str_def parse_file_op_def required_path_def)
  with assms res show ?thesis
    by (simp add: apply_patch_execute_def before_image_def fs_read_def fs_get_def apply_planned_def put_file_def
        rollback_planned_def)
qed

theorem failed_write_leaves_truncated_file_witness:
  "apply_patch_execute (demo_files\<lparr>env_apply := (\<lambda>_. IoPartial 1)\<rparr>) [([''f''], FFile ''old'')]
     (JObj [(''path'', JStr ''f''), (''content'', JStr ''new'')])
   = ([([''f''], FFile ''n'')], Inl (io_err ''write_error'' (demo_files\<lparr>env_apply := (\<lambda>_. IoPartial 1)\<rparr>)))"
proof -
  have "reject_escape ''f'' = Inr ()" "file_key ''f'' = [''f'']" "\<not> wants_dir ''f''" by code_simp+
  from failed_write_leaves_truncated_file [OF this refl, where env = "demo_files\<lparr>env_apply := (\<lambda>_. IoPartial 1)\<rparr>"
      and n = 1 and old = "''old''" and new = "''new''"]
  show ?thesis by (simp add: demo_files_def)
qed

theorem failed_patch_loses_move_target_witness:
  "files_of (fst (apply_patch_execute demo_files [([''a''], FFile ''x''), ([''b''], FFile ''y''), ([''d''], FFile ''z'')]
      (JObj [(''files'', JArr [JObj [(''op'', JStr ''move''), (''from'', JStr ''a''), (''to'', JStr ''b'')],
                               JObj [(''path'', JStr ''d/e''), (''content'', JStr ''w'')]])]))) [''b''] = None"
  using failed_patch_loses_move_target [of demo_files "''x''" "''y''" "''z''" "''w''"]
  by (simp add: demo_files_def files_of_def)

end
