(* ===== verification/PathPolicy.thy ===== *)
theory PathPolicy
  imports PatchApply
begin

section \<open>Paths, scopes and the input policy of the gateway\<close>

text \<open>
  Models \<open>crates/capability-gateway/src/policy.rs\<close> and, of \<open>crates/capability-gateway/src/lib.rs\<close>, the checks a
  call passes before its handler runs: \<open>enforce_input_policy\<close>, \<open>resolve_path\<close>, \<open>preflight_write_paths\<close>
  with \<open>declared_write_paths\<close>. The machine's files are a map from absolute paths to files, directories
  and symbolic links, with the working directory of the process; resolving a path follows links
  up to a number of steps, as the kernel does. The \<open>regex\<close> crate behind globs is an argument.
\<close>

subsection \<open>Paths and the file system\<close>

text \<open>A path: whether it is absolute, and its components without the empty ones and \<open>.\<close>.\<close>

type_synonym upath = "bool \<times> string list"

definition parse_path :: "string \<Rightarrow> upath" where
  "parse_path s = (starts_with s ''/'', file_key s)"

fun join_path :: "upath \<Rightarrow> upath \<Rightarrow> upath" where
  "join_path (a, xs) (b, ys) = (if b then (b, ys) else (a, xs @ ys))"

fun path_starts_with :: "upath \<Rightarrow> upath \<Rightarrow> bool" where
  "path_starts_with (a, xs) (b, ys) = (a = b \<and> prefix ys xs)"

datatype vnode = VFile | VDir | VLink upath

record machine =
  mc_node :: "string list \<Rightarrow> vnode option"
  mc_cwd :: "string list"
  mc_steps :: nat

text \<open>\<open>fs::canonicalize\<close>: every component must exist; links are followed.\<close>

fun resolve_from :: "nat \<Rightarrow> (string list \<Rightarrow> vnode option) \<Rightarrow> string list \<Rightarrow> string list \<Rightarrow> string list option" where
  "resolve_from n fs at [] = Some at"
| "resolve_from 0 fs at (c # cs) = None"
| "resolve_from (Suc n) fs at (c # cs) =
     (if c = ''..'' then resolve_from n fs (butlast at) cs
      else (case fs (at @ [c]) of
              None \<Rightarrow> None
            | Some VDir \<Rightarrow> resolve_from n fs (at @ [c]) cs
            | Some VFile \<Rightarrow> if cs = [] then Some (at @ [c]) else None
            | Some (VLink (absolute, target)) \<Rightarrow>
                resolve_from n fs (if absolute then [] else at) (target @ cs)))"

fun start_dir :: "machine \<Rightarrow> bool \<Rightarrow> string list" where
  "start_dir mc absolute = (if absolute then [] else mc_cwd mc)"

fun canonicalize :: "machine \<Rightarrow> upath \<Rightarrow> upath option" where
  "canonicalize mc (a, xs) =
     map_option (\<lambda>r. (True, r)) (resolve_from (mc_steps mc) (mc_node mc) (start_dir mc a) xs)"

text \<open>Where opening a path for writing puts the file: the last component may be missing, a link there is followed.\<close>

fun write_lands :: "nat \<Rightarrow> (string list \<Rightarrow> vnode option) \<Rightarrow> string list \<Rightarrow> string list \<Rightarrow> string list option" where
  "write_lands n fs at [] = None"
| "write_lands 0 fs at (c # cs) = None"
| "write_lands (Suc n) fs at (c # cs) =
     (if c = ''..'' then write_lands n fs (butlast at) cs
      else (case fs (at @ [c]) of
              None \<Rightarrow> if cs = [] then Some (at @ [c]) else None
            | Some VDir \<Rightarrow> write_lands n fs (at @ [c]) cs
            | Some VFile \<Rightarrow> if cs = [] then Some (at @ [c]) else None
            | Some (VLink (absolute, target)) \<Rightarrow>
                write_lands n fs (if absolute then [] else at) (target @ cs)))"

subsection \<open>Path scopes\<close>

datatype policy_result = PolAllowed | PolDenied string | PolNeedsApproval string

text \<open>The loop that joins a relative candidate below the project, refusing to climb above it.\<close>

fun join_below :: "string \<Rightarrow> upath \<Rightarrow> upath \<Rightarrow> string list \<Rightarrow> string + upath" where
  "join_below path proj out [] = Inr out"
| "join_below path proj out (c # cs) =
     (if c = ''..'' then
        (if snd out = [] \<or> \<not> path_starts_with (fst out, butlast (snd out)) proj
         then Inl (''Path '' @ quoted path @ '' escapes project root'')
         else join_below path proj (fst out, butlast (snd out)) cs)
      else join_below path proj (fst out, snd out @ [c]) cs)"

definition or_self :: "upath option \<Rightarrow> upath \<Rightarrow> upath" where
  "or_self r p = (case r of Some q \<Rightarrow> q | None \<Rightarrow> p)"

definition resolve_under_project :: "machine \<Rightarrow> string \<Rightarrow> string \<Rightarrow> string + bool" where
  "resolve_under_project mc path project_path =
     (let project = parse_path project_path;
          abs_project = (case canonicalize mc project of
                           Some c \<Rightarrow> c
                         | None \<Rightarrow> if fst project then project else join_path (True, mc_cwd mc) project);
          candidate = parse_path path
      in bind_sum (if \<not> fst candidate then join_below path abs_project abs_project (snd candidate)
                   else Inr candidate) (\<lambda>joined.
           Inr (path_starts_with (or_self (canonicalize mc joined) joined)
                  (or_self (canonicalize mc abs_project) abs_project))))"

definition check_path_scope :: "(string \<Rightarrow> string \<Rightarrow> bool) \<Rightarrow> machine \<Rightarrow> string \<Rightarrow> path_scope \<Rightarrow> policy_result" where
  "check_path_scope glob mc path scope =
     (case scope of
        PsNone \<Rightarrow> PolDenied ''No path access allowed''
      | PsAny \<Rightarrow> PolAllowed
      | PsProject project_path \<Rightarrow>
          (case resolve_under_project mc path project_path of
             Inr True \<Rightarrow> PolAllowed
           | Inr False \<Rightarrow>
               PolNeedsApproval (''Path '' @ quoted path @ '' is outside project scope '' @ quoted project_path)
           | Inl msg \<Rightarrow> PolDenied msg)
      | PsGlob pattern \<Rightarrow>
          (if glob path pattern then PolAllowed
           else PolDenied (''Path '' @ quoted path @ '' does not match pattern '' @ quoted pattern)))"

definition check_path_traversal :: "string \<Rightarrow> tool_error + unit" where
  "check_path_traversal path =
     (if str_contains path ''..'' then Inl (tool_err ''path_traversal'' ''Path traversal detected'')
      else
        (let lowered = ascii_lower path
         in if list_ex (starts_with lowered) [''/etc/'', ''/private/etc/'', ''/sys/'', ''/proc/'']
            then Inl (tool_err ''path_traversal'' ''Sensitive system path denied'') else Inr ()))"

definition dangerous_chars :: "char list" where
  "dangerous_chars = '';|`$(){}&><''"

definition check_command_injection :: "string \<Rightarrow> tool_error + unit" where
  "check_command_injection input =
     (if list_ex (\<lambda>c. c \<in> set dangerous_chars) input
      then Inl (tool_err ''command_injection'' ''Potential command injection detected'') else Inr ())"

definition check_output_limit :: "string \<Rightarrow> u64 \<Rightarrow> bool" where
  "check_output_limit output limit \<longleftrightarrow> word_of_nat (length output) > limit"

subsection \<open>Permission classes\<close>

fun class_debug :: "permission_class \<Rightarrow> string" where
  "class_debug PcAlwaysAllowed = ''AlwaysAllowed''"
| "class_debug PcProjectRead = ''ProjectRead''"
| "class_debug PcProjectWrite = ''ProjectWrite''"
| "class_debug PcExternalWrite = ''ExternalWrite''"
| "class_debug PcCredentials = ''Credentials''"
| "class_debug PcElevation = ''Elevation''"
| "class_debug PcDestructiveCommand = ''DestructiveCommand''"
| "class_debug PcPrivacyResource = ''PrivacyResource''"

definition check_permission :: "permission_class \<Rightarrow> string \<Rightarrow> policy_result" where
  "check_permission cls profile =
     (if profile = ''plan'' then
        (if cls = PcAlwaysAllowed \<or> cls = PcProjectRead then PolAllowed
         else PolNeedsApproval (class_debug cls @ '' requires explicit approval (Plan Mode)''))
      else if profile = ''autonomous'' then PolAllowed
      else (case cls of
              PcAlwaysAllowed \<Rightarrow> PolAllowed
            | PcProjectRead \<Rightarrow> PolAllowed
            | PcProjectWrite \<Rightarrow> PolNeedsApproval ''Project write requires approval''
            | _ \<Rightarrow> PolNeedsApproval (class_debug cls @ '' requires explicit approval'')))"

subsection \<open>The gateway's checks\<close>

definition effective_path_scope :: "gateway \<Rightarrow> path_scope \<Rightarrow> path_scope" where
  "effective_path_scope gw declared =
     (case declared of
        PsAny \<Rightarrow> (case gw_root gw of Some root \<Rightarrow> PsProject root | None \<Rightarrow> PsAny)
      | _ \<Rightarrow> declared)"

definition check_path_for_scope :: "(string \<Rightarrow> string \<Rightarrow> bool) \<Rightarrow> machine \<Rightarrow> gateway \<Rightarrow> tool \<Rightarrow> string \<Rightarrow> tool_error + unit" where
  "check_path_for_scope glob mc gw t path =
     bind_sum (check_path_traversal path) (\<lambda>_.
       case check_path_scope glob mc path (effective_path_scope gw (tl_scope t)) of
         PolAllowed \<Rightarrow> Inr ()
       | PolDenied msg \<Rightarrow> Inl (tool_err ''path_scope_denied'' msg)
       | PolNeedsApproval msg \<Rightarrow> Inl (tool_err ''path_scope_denied'' msg))"

text \<open>\<open>for x in xs { f(x)?; }\<close>\<close>

fun all_ok :: "('a \<Rightarrow> 'e + unit) \<Rightarrow> 'a list \<Rightarrow> 'e + unit" where
  "all_ok f [] = Inr ()"
| "all_ok f (x # xs) = bind_sum (f x) (\<lambda>_. all_ok f xs)"

definition path_keys :: "string list" where
  "path_keys = [''path'', ''root'', ''cwd'', ''file'', ''directory'', ''dir'']"

definition enforce_input_policy :: "(string \<Rightarrow> string \<Rightarrow> bool) \<Rightarrow> machine \<Rightarrow> gateway \<Rightarrow> tool \<Rightarrow> json \<Rightarrow> tool_error + unit" where
  "enforce_input_policy glob mc gw t input =
     bind_sum (all_ok (\<lambda>key. case jget_str key input of
                          Some path \<Rightarrow> check_path_for_scope glob mc gw t path
                        | None \<Rightarrow> Inr ()) path_keys) (\<lambda>_.
       if tl_side_effect t = SfProcess \<or> tl_side_effect t = SfDestructive then
         (case Option.bind (case jget ''command'' input of Some v \<Rightarrow> Some v | None \<Rightarrow> jget ''cmd'' input) as_str of
            Some cmd \<Rightarrow> check_command_injection cmd
          | None \<Rightarrow> Inr ())
       else Inr ())"

definition push_non_empty :: "string option \<Rightarrow> string list" where
  "push_non_empty v = (case v of Some p \<Rightarrow> if p = [] then [] else [p] | None \<Rightarrow> [])"

definition declared_write_paths :: "string \<Rightarrow> json \<Rightarrow> string list" where
  "declared_write_paths name input =
     (if name = ''write_file'' \<or> name = ''edit_file'' then push_non_empty (jget_str ''path'' input)
      else if name = ''apply_patch'' then
        (case Option.bind (jget ''files'' input) as_array of
           Some files \<Rightarrow> concat (List.map (\<lambda>f. push_non_empty (jget_str ''path'' f)) files)
         | None \<Rightarrow> []) @ push_non_empty (jget_str ''path'' input)
      else [])"

text \<open>\<open>exists\<close>, \<open>file_name\<close> and the resolution of a path against the working directory of a call\<close>

definition os_exists :: "machine \<Rightarrow> upath \<Rightarrow> bool" where
  "os_exists mc p \<longleftrightarrow> canonicalize mc p \<noteq> None"

definition path_file_name :: "upath \<Rightarrow> string option" where
  "path_file_name p = (if snd p = [] \<or> last (snd p) = ''..'' then None else Some (last (snd p)))"

definition path_error :: "string \<Rightarrow> tool_error" where
  "path_error msg = tool_err ''PATH_ERROR'' msg"

record tool_ctx =
  tc_project_root :: upath
  tc_working_dir :: upath

text \<open>\<open>os\<close> is the text of an error of the operating system, \<open>show\<close> prints a path.\<close>

definition resolve_path :: "string \<Rightarrow> (upath \<Rightarrow> string) \<Rightarrow> machine \<Rightarrow> tool_ctx \<Rightarrow> string \<Rightarrow> tool_error + upath" where
  "resolve_path os show_path mc ctx input_path =
     (let path = parse_path input_path;
          resolved = (if \<not> fst path then join_path (tc_working_dir ctx) path else path)
      in bind_sum
          (if os_exists mc resolved
           then (case canonicalize mc resolved of
                   Some c \<Rightarrow> Inr c
                 | None \<Rightarrow> Inl (path_error (''Failed to canonicalize path: '' @ os)))
           else (case path_file_name resolved of
                   None \<Rightarrow> Inl (path_error ''Invalid path: no filename'')
                 | Some name \<Rightarrow>
                     (case canonicalize mc (fst resolved, butlast (snd resolved)) of
                        None \<Rightarrow> Inl (path_error (''Failed to canonicalize parent path: '' @ os))
                      | Some parent \<Rightarrow> Inr (fst parent, snd parent @ [name]))))
          (\<lambda>canonical.
            if path_starts_with canonical (tc_project_root ctx) then Inr canonical
            else Inl (tool_err ''PATH_ESCAPE'' (''Path '' @ show_path canonical @ '' escapes project root ''
                       @ show_path (tc_project_root ctx)))))"

record trusted_path =
  tp_canonical :: upath
  tp_relative :: "string list"

definition preflight_write_paths :: "string \<Rightarrow> (upath \<Rightarrow> string) \<Rightarrow> (string \<Rightarrow> string \<Rightarrow> bool) \<Rightarrow> machine \<Rightarrow> gateway
    \<Rightarrow> string \<Rightarrow> json \<Rightarrow> tool_ctx \<Rightarrow> tool_error + trusted_path list" where
  "preflight_write_paths os show_path glob mc gw tool_name input ctx =
     (case get_tool gw tool_name of
        None \<Rightarrow> Inl (tool_err ''unknown_tool'' (''unknown tool: '' @ tool_name))
      | Some t \<Rightarrow>
          bind_sum (enforce_input_policy glob mc gw t input) (\<lambda>_.
            map_sum_list (\<lambda>raw.
              bind_sum (check_path_for_scope glob mc gw t raw) (\<lambda>_.
              bind_sum (resolve_path os show_path mc ctx raw) (\<lambda>canonical.
                if path_starts_with canonical (tc_project_root ctx)
                then Inr \<lparr>tp_canonical = canonical,
                          tp_relative = drop (length (snd (tc_project_root ctx))) (snd canonical)\<rparr>
                else Inl (tool_err ''PATH_ESCAPE'' (''resolved path '' @ show_path canonical @ '' escapes project root ''
                           @ show_path (tc_project_root ctx))))))
              (declared_write_paths tool_name input)))"

subsection \<open>Resolved paths\<close>

text \<open>Every directory on the way is a real one.\<close>

definition real_dirs :: "(string list \<Rightarrow> vnode option) \<Rightarrow> string list \<Rightarrow> bool" where
  "real_dirs fs p \<longleftrightarrow> ''..'' \<notin> set p \<and> (\<forall>q. prefix q p \<longrightarrow> q \<noteq> [] \<longrightarrow> fs q = Some VDir)"

lemma real_dirs_Nil [simp]: "real_dirs fs []"
  by (simp add: real_dirs_def)

lemma real_dirs_snoc: "real_dirs fs (p @ [c]) \<longleftrightarrow> real_dirs fs p \<and> c \<noteq> ''..'' \<and> fs (p @ [c]) = Some VDir"
  by (auto simp: real_dirs_def)

lemma real_dirs_butlast: "real_dirs fs p \<Longrightarrow> real_dirs fs (butlast p)"
  by (cases p rule: rev_cases) (simp_all add: real_dirs_snoc)

text \<open>What \<open>canonicalize\<close> returns: a path of real directories, the last component a directory or a file.\<close>

definition canonical :: "(string list \<Rightarrow> vnode option) \<Rightarrow> string list \<Rightarrow> bool" where
  "canonical fs p \<longleftrightarrow> real_dirs fs p \<or>
     (p \<noteq> [] \<and> real_dirs fs (butlast p) \<and> last p \<noteq> ''..'' \<and> fs p = Some VFile)"

lemma resolve_canonical: "resolve_from n fs at cs = Some r \<Longrightarrow> real_dirs fs at \<Longrightarrow> canonical fs r"
proof (induction n fs at cs rule: resolve_from.induct)
  case (3 n fs at c cs)
  show ?case
  proof (cases "c = ''..''")
    case True
    with 3 show ?thesis by (simp add: real_dirs_butlast)
  next
    case False
    with "3.prems"(1) obtain v where v: "fs (at @ [c]) = Some v" by (auto split: option.splits)
    show ?thesis
    proof (cases v)
      case VFile
      with v False "3.prems" show ?thesis by (auto simp: canonical_def split: if_splits)
    next
      case VDir
      with v False "3.prems" "3.IH"(2) [OF False v] show ?thesis by (simp add: real_dirs_snoc)
    next
      case (VLink t)
      with v False "3.prems" "3.IH"(3) [OF False v] show ?thesis by (cases t) simp
    qed
  qed
qed (simp_all add: canonical_def)

text \<open>A machine whose working directory is a real one.\<close>

definition cwd_ok :: "machine \<Rightarrow> bool" where
  "cwd_ok mc \<longleftrightarrow> real_dirs (mc_node mc) (mc_cwd mc)"

lemma canonicalize_canonical:
  "canonicalize mc p = Some q \<Longrightarrow> cwd_ok mc \<Longrightarrow> fst q \<and> canonical (mc_node mc) (snd q)"
  by (cases p) (auto simp: cwd_ok_def intro: resolve_canonical)

text \<open>Writing to such a path, or to a new or existing file below it, lands there or fails.\<close>

lemma write_lands_there:
  assumes "write_lands n fs at cs = Some l" and "''..'' \<notin> set cs"
    and "\<And>q. prefix q (at @ cs) \<Longrightarrow> q \<noteq> at @ cs \<Longrightarrow> q \<noteq> [] \<Longrightarrow> \<exists>v. fs q = Some v \<and> (\<forall>t. v \<noteq> VLink t)"
    and "\<And>t. fs (at @ cs) \<noteq> Some (VLink t)"
  shows "l = at @ cs"
  using assms
proof (induction n fs at cs rule: write_lands.induct)
  case (3 n fs at c cs)
  show ?case
  proof (cases "cs = []")
    case True
    with "3.prems"(4) have "fs (at @ [c]) \<noteq> Some (VLink t)" for t by simp
    with True "3.prems"(1,2) show ?thesis
      by (cases "fs (at @ [c])"; cases "the (fs (at @ [c]))") (auto split: if_splits)
  next
    case False
    with "3.prems"(3) [of "at @ [c]"] obtain v where v: "fs (at @ [c]) = Some v" "\<forall>t. v \<noteq> VLink t" by auto
    show ?thesis
    proof (cases v)
      case VDir
      from "3.prems"(2) have c: "c \<noteq> ''..''" by auto
      with v VDir "3.prems" show ?thesis using "3.IH"(2) [OF c v(1) [unfolded VDir]] by simp
    qed (use v False "3.prems" in auto)
  qed
qed simp_all

lemma canonical_no_link:
  assumes "canonical fs p"
  shows "\<And>q. prefix q p \<Longrightarrow> q \<noteq> [] \<Longrightarrow> \<exists>v. fs q = Some v \<and> (\<forall>t. v \<noteq> VLink t)" "''..'' \<notin> set p"
proof -
  show "\<exists>v. fs q = Some v \<and> (\<forall>t. v \<noteq> VLink t)" if q: "prefix q p" "q \<noteq> []" for q
  proof (cases "real_dirs fs p")
    case False
    with assms have d: "p \<noteq> []" "real_dirs fs (butlast p)" "fs p = Some VFile" by (auto simp: canonical_def)
    show ?thesis
    proof (cases "q = p")
      case False
      with q have "prefix q (butlast p)" using d(1) by (metis append_butlast_last_id prefix_snoc)
      with d q show ?thesis by (auto simp: real_dirs_def)
    qed (use d in simp)
  qed (use q in \<open>auto simp: real_dirs_def\<close>)
  show "''..'' \<notin> set p"
  proof (cases "real_dirs fs p")
    case False
    with assms have d: "p \<noteq> []" "real_dirs fs (butlast p)" "last p \<noteq> ''..''" by (auto simp: canonical_def)
    then have "set p = insert (last p) (set (butlast p))"
      by (metis append_butlast_last_id list.simps(15) rotate1.simps(2) set_rotate1)
    with d show ?thesis by (auto simp: real_dirs_def)
  qed (simp add: real_dirs_def)
qed

text \<open>What \<open>resolve_path\<close> returns: all but the last component exist and are no links.\<close>

definition leaf_ok :: "(string list \<Rightarrow> vnode option) \<Rightarrow> string list \<Rightarrow> bool" where
  "leaf_ok fs p \<longleftrightarrow> canonical fs p \<or> (p \<noteq> [] \<and> canonical fs (butlast p) \<and> last p \<noteq> ''..'')"

lemma leaf_ok_lands:
  assumes "leaf_ok fs p" and "\<And>t. fs p \<noteq> Some (VLink t)" and "write_lands n fs [] p = Some l"
  shows "l = p"
proof -
  have no: "''..'' \<notin> set p \<and> (\<forall>q. prefix q p \<longrightarrow> q \<noteq> p \<longrightarrow> q \<noteq> [] \<longrightarrow> (\<exists>v. fs q = Some v \<and> (\<forall>t. v \<noteq> VLink t)))"
  proof (cases "canonical fs p")
    case False
    with assms(1) have d: "p \<noteq> []" "canonical fs (butlast p)" "last p \<noteq> ''..''" by (auto simp: leaf_ok_def)
    have "prefix q (butlast p)" if "prefix q p" "q \<noteq> p" for q
      using that d(1) by (metis append_butlast_last_id prefix_snoc)
    moreover have "set p = insert (last p) (set (butlast p))"
      using d(1) by (metis append_butlast_last_id list.simps(15) rotate1.simps(2) set_rotate1)
    ultimately show ?thesis using canonical_no_link [OF d(2)] d(3) by auto
  qed (use canonical_no_link in blast)
  show ?thesis using write_lands_there [OF assms(3)] no assms(2) by simp
qed

lemma resolve_path_facts:
  assumes "resolve_path os show_path mc ctx s = Inr c" and "cwd_ok mc"
  shows "fst c" "leaf_ok (mc_node mc) (snd c)" "path_starts_with c (tc_project_root ctx)"
proof -
  from assms(1) show "path_starts_with c (tc_project_root ctx)"
    by (auto simp: resolve_path_def Let_def bind_sum_Inr split: if_splits)
  have "fst c \<and> leaf_ok (mc_node mc) (snd c)"
    using assms(1) canonicalize_canonical [OF _ assms(2)]
    by (auto simp: resolve_path_def Let_def bind_sum_Inr leaf_ok_def path_file_name_def simp del: canonicalize.simps
        split: if_splits option.splits)
  then show "fst c" "leaf_ok (mc_node mc) (snd c)" by auto
qed

text \<open>
  C14: If a write to a path that the preflight hands to the checkpoint lands anywhere, and no symbolic link sits
  at that very path, then it lands at exactly the canonical path that the preflight computed, which is the
  project root followed by the relative part, however links lead through the directories above it (the working
  directory of the process being one of real directories). With a
  dangling link at the path itself the preflight accepts it and the write goes where the link points
  (\<open>dangling_link_passes_preflight\<close>).
\<close>

theorem preflight_paths_land_in_project:
  assumes "preflight_write_paths os show_path glob mc gw name input ctx = Inr ts" and "t \<in> set ts" and "cwd_ok mc"
    and "\<And>l. mc_node mc (snd (tp_canonical t)) \<noteq> Some (VLink l)"
    and "write_lands n (mc_node mc) [] (snd (tp_canonical t)) = Some place"
  shows "fst (tc_project_root ctx) \<and> place = snd (tc_project_root ctx) @ tp_relative t
    \<and> tp_canonical t = (True, place)"
proof -
  from assms(1) obtain tl where "map_sum_list (\<lambda>raw.
              bind_sum (check_path_for_scope glob mc gw tl raw) (\<lambda>_.
              bind_sum (resolve_path os show_path mc ctx raw) (\<lambda>canonical.
                if path_starts_with canonical (tc_project_root ctx)
                then Inr \<lparr>tp_canonical = canonical,
                          tp_relative = drop (length (snd (tc_project_root ctx))) (snd canonical)\<rparr>
                else Inl (tool_err ''PATH_ESCAPE'' (''resolved path '' @ show_path canonical @ '' escapes project root ''
                           @ show_path (tc_project_root ctx))))))
              (declared_write_paths name input) = Inr ts"
    by (auto simp: preflight_write_paths_def bind_sum_Inr split: option.splits)
  note all = map_sum_list_Inr [OF this]
  from assms(2) obtain i where i: "i < length ts" "t = ts ! i" by (auto simp: in_set_conv_nth)
  define raw where "raw = declared_write_paths name input ! i"
  have "i < length (declared_write_paths name input)" using all i(1) by simp
  with all i(2) obtain c where r0: "resolve_path os show_path mc ctx raw = Inr c"
    and t: "(if path_starts_with c (tc_project_root ctx)
        then Inr \<lparr>tp_canonical = c, tp_relative = drop (length (snd (tc_project_root ctx))) (snd c)\<rparr>
        else Inl (tool_err ''PATH_ESCAPE'' (''resolved path '' @ show_path c @ '' escapes project root ''
                   @ show_path (tc_project_root ctx)))) = Inr t"
    unfolding raw_def bind_sum_Inr by blast
  from t have "t = \<lparr>tp_canonical = c, tp_relative = drop (length (snd (tc_project_root ctx))) (snd c)\<rparr>"
    by (auto split: if_splits)
  with r0 have r: "resolve_path os show_path mc ctx raw = Inr (tp_canonical t)"
    and rel: "tp_relative t = drop (length (snd (tc_project_root ctx))) (snd (tp_canonical t))"
    by simp_all
  note f = resolve_path_facts [OF r assms(3)]
  have "place = snd (tp_canonical t)" using leaf_ok_lands [OF f(2) assms(4,5)] .
  moreover obtain rb rs where root: "tc_project_root ctx = (rb, rs)" by fastforce
  moreover obtain cb cs where can: "tp_canonical t = (cb, cs)" by fastforce
  ultimately show ?thesis using f(1,3) rel by (auto elim: prefixE)
qed

text \<open>A machine with a project, a link in it to a file that does not exist, and two tools.\<close>

definition demo_mc :: machine where
  "demo_mc = \<lparr>mc_node = (\<lambda>p. if p = [''p''] \<or> p = [''etc''] \<or> p = [''home''] then Some VDir
                        else if p = [''p'', ''l''] then Some (VLink (True, [''etc'', ''x''])) else None),
              mc_cwd = [''home''], mc_steps = 40\<rparr>"

definition demo_tool :: "string \<Rightarrow> tool" where
  "demo_tool name = \<lparr>tl_name = name, tl_schema = JNull, tl_side_effect = SfWrite, tl_class = PcProjectWrite,
     tl_scope = PsAny, tl_timeout_ms = 1, tl_output_limit = 1, tl_cancellable = True, tl_parallel_safe = False,
     tl_conflict_key = None\<rparr>"

definition demo_gw :: gateway where
  "demo_gw = \<lparr>gw_tools = [demo_tool ''write_file'', demo_tool ''apply_patch''], gw_root = Some ''/p''\<rparr>"

definition demo_ctx :: tool_ctx where
  "demo_ctx = \<lparr>tc_project_root = (True, [''p'']), tc_working_dir = (True, [''p''])\<rparr>"

lemma demo_path_facts:
  "real_dirs (mc_node demo_mc) [''p'']" "cwd_ok demo_mc"
  "parse_path ''/p'' = (True, [''p''])" "parse_path ''n'' = (False, [''n''])" "parse_path ''l'' = (False, [''l''])"
  "check_path_traversal ''n'' = Inr ()" "check_path_traversal ''l'' = Inr ()"
  "get_tool demo_gw ''write_file'' = Some (demo_tool ''write_file'')"
  "get_tool demo_gw ''apply_patch'' = Some (demo_tool ''apply_patch'')"
  "tl_scope (demo_tool n) = PsAny" "tl_side_effect (demo_tool n) = SfWrite" "gw_root demo_gw = Some ''/p''"
  "mc_steps demo_mc = 40" "mc_cwd demo_mc = [''home'']"
  by (simp add: real_dirs_def demo_mc_def prefix_Cons, simp add: cwd_ok_def real_dirs_def demo_mc_def prefix_Cons,
      code_simp, code_simp, code_simp, code_simp, code_simp, code_simp, code_simp,
      simp_all add: demo_tool_def demo_gw_def demo_mc_def)

theorem preflight_paths_land_in_project_witness:
  "preflight_write_paths [] (\<lambda>_. []) (\<lambda>_ _. False) demo_mc demo_gw ''write_file''
      (JObj [(''path'', JStr ''n''), (''content'', JStr ''x'')]) demo_ctx
     = Inr [\<lparr>tp_canonical = (True, [''p'', ''n'']), tp_relative = [''n'']\<rparr>]
   \<and> write_lands 40 (mc_node demo_mc) [] [''p'', ''n''] = Some [''p'', ''n'']
   \<and> [''p'', ''n''] = snd (tc_project_root demo_ctx) @ [''n'']"
proof -
  let ?t = "\<lparr>tp_canonical = (True, [''p'', ''n'']), tp_relative = [''n'']\<rparr>"
  have a: "preflight_write_paths [] (\<lambda>_. []) (\<lambda>_ _. False) demo_mc demo_gw ''write_file''
      (JObj [(''path'', JStr ''n''), (''content'', JStr ''x'')]) demo_ctx = Inr [?t]"
    "write_lands 40 (mc_node demo_mc) [] [''p'', ''n''] = Some [''p'', ''n'']"
    by code_simp+
  have "mc_node demo_mc (snd (tp_canonical ?t)) \<noteq> Some (VLink v)" for v by (simp add: demo_mc_def)
  from preflight_paths_land_in_project [OF a(1) _ demo_path_facts(2) this, of 40 "[''p'', ''n'']"] a show ?thesis by simp
qed

subsection \<open>Ways around the checks\<close>

lemma resolve_walk:
  "real_dirs fs (at @ p) \<Longrightarrow> resolve_from (length p + n) fs at (p @ cs) = resolve_from n fs (at @ p) cs"
proof (induction p arbitrary: at)
  case (Cons c p)
  have "fs (at @ [c]) = Some VDir" using Cons.prems by (auto simp: real_dirs_def)
  moreover have "c \<noteq> ''..''" using Cons.prems by (auto simp: real_dirs_def)
  ultimately show ?case using Cons.IH [of "at @ [c]"] Cons.prems by simp
qed simp

lemma write_walk:
  "real_dirs fs (at @ p) \<Longrightarrow> cs \<noteq> [] \<Longrightarrow> write_lands (length p + n) fs at (p @ cs) = write_lands n fs (at @ p) cs"
proof (induction p arbitrary: at)
  case (Cons c p)
  have "fs (at @ [c]) = Some VDir" using Cons.prems by (auto simp: real_dirs_def)
  moreover have "c \<noteq> ''..''" using Cons.prems by (auto simp: real_dirs_def)
  ultimately show ?case using Cons.IH [of "at @ [c]"] Cons.prems by simp
qed simp

lemma resolve_dir:
  assumes "real_dirs fs p" and "length p \<le> n"
  shows "resolve_from n fs [] p = Some p"
  using resolve_walk [of fs "[]" p "n - length p" "[]"] assms by simp

lemma resolve_link_None:
  assumes "real_dirs fs p" and "fs (p @ [l]) = Some (VLink (True, target))" and "l \<noteq> ''..''"
    and "\<And>n. resolve_from n fs [] target = None"
  shows "resolve_from n fs [] (p @ [l]) = None"
proof (cases "length p < n")
  case True
  then obtain k where "n = length p + Suc k" by (metis add_Suc_right less_iff_Suc_add)
  with resolve_walk [of fs "[]" p "Suc k" "[l]"] assms show ?thesis by simp
next
  case False
  have "resolve_from n fs at (q @ [l]) = None" if "n \<le> length q" "real_dirs fs (at @ q)" for at q
    using that
  proof (induction n arbitrary: at q)
    case 0
    then show ?case by (cases "q @ [l]") simp_all
  next
    case (Suc n)
    then obtain c q' where q: "q = c # q'" by (cases q) auto
    have "fs (at @ [c]) = Some VDir" "c \<noteq> ''..''" using Suc.prems q by (auto simp: real_dirs_def)
    with Suc.IH [of q' "at @ [c]"] Suc.prems q show ?case by simp
  qed
  from this [of p "[]"] False assms(1) show ?thesis by simp
qed

lemma missing_leaf_None:
  assumes "real_dirs fs p" and "fs (p @ [l]) = None" and "l \<noteq> ''..''"
  shows "resolve_from n fs [] (p @ [l]) = None"
proof -
  have "resolve_from n fs at (q @ [l]) = None" if "real_dirs fs (at @ q)" "fs (at @ q @ [l]) = None" for at q
    using that
  proof (induction q arbitrary: at n)
    case Nil
    then show ?case using assms(3) by (cases n) simp_all
  next
    case (Cons c q)
    have "fs (at @ [c]) = Some VDir" "c \<noteq> ''..''" using Cons.prems by (auto simp: real_dirs_def)
    with Cons.IH [of "at @ [c]"] Cons.prems show ?case by (cases n) simp_all
  qed
  from this [of "[]" p] assms(1,2) show ?thesis by simp
qed

text \<open>A new file directly below the root, as preflight sees it.\<close>

lemma preflight_new_leaf:
  assumes "parse_path root_str = (True, root)"
    and "resolve_from (mc_steps mc) (mc_node mc) [] root = Some root"
    and "resolve_from (mc_steps mc) (mc_node mc) [] (root @ [l]) = None" and "parse_path l = (False, [l])"
    and "check_path_traversal l = Inr ()" and "l \<noteq> ''..''" and "l \<noteq> []"
    and "get_tool gw ''write_file'' = Some t" and "tl_scope t = PsAny" and "gw_root gw = Some root_str"
    and "tl_side_effect t = SfWrite" and "ctx = \<lparr>tc_project_root = (True, root), tc_working_dir = (True, root)\<rparr>"
  shows "preflight_write_paths os show_path glob mc gw ''write_file''
           (JObj [(''path'', JStr l), (''content'', JStr c)]) ctx
         = Inr [\<lparr>tp_canonical = (True, root @ [l]), tp_relative = [l]\<rparr>]"
proof -
  have "check_path_for_scope glob mc gw t l = Inr ()"
    using assms
    by (simp add: check_path_for_scope_def effective_path_scope_def check_path_scope_def resolve_under_project_def
        or_self_def Let_def)
  moreover have "resolve_path os show_path mc ctx l = Inr (True, root @ [l])"
    using assms by (simp add: resolve_path_def os_exists_def path_file_name_def Let_def)
  ultimately show ?thesis
    using assms
    by (simp add: preflight_write_paths_def enforce_input_policy_def path_keys_def jget_str_def
        declared_write_paths_def push_non_empty_def)
qed

text \<open>
  A symbolic link in the project whose target does not exist yet passes preflight as a path of the
  project (it does not exist, so only its directory is resolved), but a write to it creates the target,
  wherever that is; the source promises that symlink escapes are rejected here.
\<close>

theorem dangling_link_passes_preflight:
  assumes "parse_path root_str = (True, root)" and "real_dirs (mc_node mc) root" and "length root \<le> mc_steps mc"
    and "mc_node mc (root @ [l]) = Some (VLink (True, target))" and "parse_path l = (False, [l])"
    and "check_path_traversal l = Inr ()" and "l \<noteq> []" and "\<And>n. resolve_from n (mc_node mc) [] target = None"
    and "write_lands k (mc_node mc) [] target = Some place"
    and "get_tool gw ''write_file'' = Some t" and "tl_scope t = PsAny" and "gw_root gw = Some root_str"
    and "tl_side_effect t = SfWrite" and "ctx = \<lparr>tc_project_root = (True, root), tc_working_dir = (True, root)\<rparr>"
  shows "preflight_write_paths os show_path glob mc gw ''write_file''
           (JObj [(''path'', JStr l), (''content'', JStr c)]) ctx
         = Inr [\<lparr>tp_canonical = (True, root @ [l]), tp_relative = [l]\<rparr>]
    \<and> write_lands (length root + Suc k) (mc_node mc) [] (root @ [l]) = Some place"
proof -
  have l: "l \<noteq> ''..''" using assms(6) by (auto simp: check_path_traversal_def str_contains_sublist split: if_splits)
  note none = resolve_link_None [OF assms(2,4) l assms(8)]
  have dir: "resolve_from (mc_steps mc) (mc_node mc) [] root = Some root" using resolve_dir [OF assms(2,3)] .
  have "preflight_write_paths os show_path glob mc gw ''write_file''
           (JObj [(''path'', JStr l), (''content'', JStr c)]) ctx
         = Inr [\<lparr>tp_canonical = (True, root @ [l]), tp_relative = [l]\<rparr>]"
    by (rule preflight_new_leaf [OF assms(1) dir none assms(5,6) l assms(7,10-14)])
  moreover have "write_lands (length root + Suc k) (mc_node mc) [] (root @ [l]) = Some place"
    using write_walk [of "mc_node mc" "[]" root "[l]" "Suc k"] assms(2,4,9) l by simp
  ultimately show ?thesis by blast
qed

theorem dangling_link_passes_preflight_witness:
  "preflight_write_paths [] (\<lambda>_. []) (\<lambda>_ _. False) demo_mc demo_gw ''write_file''
      (JObj [(''path'', JStr ''l''), (''content'', JStr ''x'')]) demo_ctx
     = Inr [\<lparr>tp_canonical = (True, [''p'', ''l'']), tp_relative = [''l'']\<rparr>]
   \<and> write_lands 4 (mc_node demo_mc) [] [''p'', ''l''] = Some [''etc'', ''x'']"
proof -
  have none: "resolve_from n (mc_node demo_mc) [] [''etc'', ''x''] = None" for n
    using missing_leaf_None [of "mc_node demo_mc" "[''etc'']" "''x''" n]
    by (simp add: demo_mc_def real_dirs_def prefix_Cons)
  have link: "mc_node demo_mc ([''p''] @ [''l'']) = Some (VLink (True, [''etc'', ''x'']))" by (simp add: demo_mc_def)
  have lands: "write_lands 2 (mc_node demo_mc) [] [''etc'', ''x''] = Some [''etc'', ''x'']" by code_simp
  have "length [''p''] \<le> mc_steps demo_mc" by (simp add: demo_path_facts)
  from dangling_link_passes_preflight [OF demo_path_facts(3,1) this link demo_path_facts(5,7) _ none lands
      demo_path_facts(8,10,12,11) demo_ctx_def] show ?thesis by (simp add: numeral_eq_Suc)
qed

text \<open>
  The paths of a patch text are invisible to preflight: a call that names one harmless path and carries
  any patch text besides is parsed into the operations of the text, but preflight answers exactly as for
  the harmless path alone, so neither the path scope nor the checkpoint sees the files that change.
\<close>

theorem patch_text_not_preflighted:
  assumes "ops \<noteq> []" and "list_all patch_op_ok ops" and "get_tool gw ''apply_patch'' = Some t" and "tl_side_effect t = SfWrite"
  shows "parse_patch_input (JObj [(''path'', JStr p), (''content'', JStr c), (''patch'', JStr (patch_text ops))]) = Inr ops
    \<and> preflight_write_paths os show_path glob mc gw ''apply_patch''
        (JObj [(''path'', JStr p), (''content'', JStr c), (''patch'', JStr (patch_text ops))]) ctx
      = preflight_write_paths os show_path glob mc gw ''apply_patch'' (JObj [(''path'', JStr p), (''content'', JStr c)]) ctx"
  using printed_patch_parses [OF assms(1,2)] assms(3,4)
  by (simp add: parse_patch_input_def preflight_write_paths_def enforce_input_policy_def path_keys_def jget_str_def
      declared_write_paths_def push_non_empty_def)

theorem patch_text_not_preflighted_witness:
  "preflight_write_paths [] (\<lambda>_. []) (\<lambda>_ _. False) demo_mc demo_gw ''apply_patch''
      (JObj [(''path'', JStr ''n''), (''content'', JStr []), (''patch'', JStr (patch_text [PoDelete ''l'']))]) demo_ctx
   = Inr [\<lparr>tp_canonical = (True, [''p'', ''n'']), tp_relative = [''n'']\<rparr>]"
proof -
  have ok: "list_all patch_op_ok [PoDelete ''l'']" by code_simp
  have "preflight_write_paths [] (\<lambda>_. []) (\<lambda>_ _. False) demo_mc demo_gw ''apply_patch''
      (JObj [(''path'', JStr ''n''), (''content'', JStr [])]) demo_ctx
    = Inr [\<lparr>tp_canonical = (True, [''p'', ''n'']), tp_relative = [''n'']\<rparr>]" by code_simp
  with patch_text_not_preflighted [OF _ ok demo_path_facts(9,11)] show ?thesis by simp
qed

subsection \<open>The handler of \<open>write_file\<close>\<close>

text \<open>
  \<open>WriteFileTool\<close> of \<open>tools/mod.rs\<close> opens the path of its input as it is: a relative one is taken from the
  working directory of the process. The result is where the file lands.
\<close>

definition missing_field :: "string \<Rightarrow> tool_error" where
  "missing_field field = tool_err ''invalid_input'' (''Missing '' @ quoted field)"

definition write_file_lands :: "string \<Rightarrow> machine \<Rightarrow> json \<Rightarrow> tool_error + string list" where
  "write_file_lands os mc input =
     (case jget_str ''path'' input of
        None \<Rightarrow> Inl (missing_field ''path'')
      | Some path \<Rightarrow>
          (case jget_str ''content'' input of
             None \<Rightarrow> Inl (missing_field ''content'')
           | Some content \<Rightarrow>
               (case write_lands (mc_steps mc) (mc_node mc) (start_dir mc (fst (parse_path path))) (snd (parse_path path)) of
                  Some place \<Rightarrow> Inr place
                | None \<Rightarrow> Inl \<lparr>te_code = ''write_error'', te_message = os, te_retryable = True\<rparr>)))"

text \<open>
  A relative path is checked below the project root but written below the working directory of the
  daemon: preflight accepts it as a path of the project and hands that to the checkpoint, while the
  handler creates the file elsewhere.
\<close>

theorem write_file_ignores_project_root:
  assumes "parse_path root_str = (True, root)" and "real_dirs (mc_node mc) root" and "length root \<le> mc_steps mc"
    and "mc_node mc (root @ [l]) = None" and "parse_path l = (False, [l])"
    and "check_path_traversal l = Inr ()" and "l \<noteq> []" and "mc_node mc (mc_cwd mc @ [l]) = None" and "0 < mc_steps mc"
    and "get_tool gw ''write_file'' = Some t" and "tl_scope t = PsAny" and "gw_root gw = Some root_str"
    and "tl_side_effect t = SfWrite" and "ctx = \<lparr>tc_project_root = (True, root), tc_working_dir = (True, root)\<rparr>"
  shows "preflight_write_paths os show_path glob mc gw ''write_file''
           (JObj [(''path'', JStr l), (''content'', JStr c)]) ctx
         = Inr [\<lparr>tp_canonical = (True, root @ [l]), tp_relative = [l]\<rparr>]
    \<and> write_file_lands os mc (JObj [(''path'', JStr l), (''content'', JStr c)]) = Inr (mc_cwd mc @ [l])"
proof -
  have l: "l \<noteq> ''..''" using assms(6) by (auto simp: check_path_traversal_def str_contains_sublist split: if_splits)
  have dir: "resolve_from (mc_steps mc) (mc_node mc) [] root = Some root" using resolve_dir [OF assms(2,3)] .
  have none: "resolve_from (mc_steps mc) (mc_node mc) [] (root @ [l]) = None"
    using missing_leaf_None [OF assms(2,4) l] .
  have "preflight_write_paths os show_path glob mc gw ''write_file''
           (JObj [(''path'', JStr l), (''content'', JStr c)]) ctx
         = Inr [\<lparr>tp_canonical = (True, root @ [l]), tp_relative = [l]\<rparr>]"
    by (rule preflight_new_leaf [OF assms(1) dir none assms(5,6) l assms(7,10-14)])
  moreover obtain k where "mc_steps mc = Suc k" using assms(9) by (cases "mc_steps mc") auto
  ultimately show ?thesis using assms(5,8) l by (simp add: write_file_lands_def jget_str_def)
qed

theorem write_file_ignores_project_root_witness:
  "write_file_lands [] demo_mc (JObj [(''path'', JStr ''n''), (''content'', JStr ''x'')]) = Inr [''home'', ''n'']"
proof -
  have "mc_node demo_mc ([''p''] @ [''n'']) = None" "mc_node demo_mc (mc_cwd demo_mc @ [''n'']) = None"
    "length [''p''] \<le> mc_steps demo_mc" "0 < mc_steps demo_mc" by (simp_all add: demo_mc_def)
  from write_file_ignores_project_root [OF demo_path_facts(3,1) this(3,1) demo_path_facts(4,6) _ this(2,4)
      demo_path_facts(8,10,12,11) demo_ctx_def, of "[]" "\<lambda>_. []" "\<lambda>_ _. False" "''x''"]
  show ?thesis by (simp add: demo_path_facts)
qed

end
