(* ===== verification/Schema.thy ===== *)
theory Schema
  imports PathPolicy
begin

section \<open>The schema validator\<close>

text \<open>
  Models \<open>validate_schema\<close>, \<open>validate_schema_definition\<close> and their helpers at the end of
  \<open>crates/capability-gateway/src/lib.rs\<close>. How a value is printed in a message and the comparison of two
  numbers as \<open>f64\<close> are arguments. The order in which the entries of an object are visited only decides
  which of several errors is reported.
\<close>

record schema_env =
  sv_show :: "json \<Rightarrow> string"
  sv_debug :: "json list \<Rightarrow> string"
  sv_less :: "json \<Rightarrow> json \<Rightarrow> bool"

fun as_object :: "json \<Rightarrow> (string \<times> json) list option" where
  "as_object (JObj kvs) = Some kvs"
| "as_object _ = None"

fun as_u64 :: "json \<Rightarrow> nat option" where
  "as_u64 (JInt i) = (if 0 \<le> i \<and> i < 2 ^ 64 then Some (nat i) else None)"
| "as_u64 _ = None"

fun is_number :: "json \<Rightarrow> bool" where
  "is_number (JInt _) = True"
| "is_number (JFloat _) = True"
| "is_number _ = False"

fun value_type :: "json \<Rightarrow> string" where
  "value_type JNull = ''null''"
| "value_type (JBool _) = ''boolean''"
| "value_type (JInt _) = ''number''"
| "value_type (JFloat _) = ''number''"
| "value_type (JStr _) = ''string''"
| "value_type (JArr _) = ''array''"
| "value_type (JObj _) = ''object''"

definition schema_type_matches :: "string \<Rightarrow> json \<Rightarrow> bool" where
  "schema_type_matches expected value =
     (if expected = ''integer'' then (case value of JInt i \<Rightarrow> - (2 ^ 63) \<le> i \<and> i < 2 ^ 64 | _ \<Rightarrow> False)
      else expected \<in> set [''object'', ''array'', ''string'', ''number'', ''boolean'', ''null'']
           \<and> value_type value = expected)"

text \<open>\<open>Value::eq\<close>: objects are compared as maps.\<close>

function json_eq :: "json \<Rightarrow> json \<Rightarrow> bool" where
  "json_eq v w =
     (case (v, w) of
        (JArr xs, JArr ys) \<Rightarrow> length xs = length ys \<and> list_all (\<lambda>(x, y). json_eq x y) (zip xs ys)
      | (JObj kvs, JObj kws) \<Rightarrow>
          length kvs = length kws \<and>
          list_all (\<lambda>(k, x). case map_of kws k of Some y \<Rightarrow> json_eq x y | None \<Rightarrow> False) kvs
      | _ \<Rightarrow> v = w)"
  by pat_completeness auto
termination
proof (relation "measure (\<lambda>(v, w). size v)", goal_cases)
  case (2 v w x y xs ys z a b)
  then have "a \<in> set xs" by (auto dest: set_zip_leftD)
  then have "size a < Suc (size_list size xs)" by (simp add: size_list_estimation' less_Suc_eq_le)
  moreover have "z = (a, b)" "v = JArr xs" using 2 by simp_all
  ultimately show ?case by simp
next
  case (3 v w x y kvs kws z k a b)
  then have "(k, a) \<in> set kvs" by simp
  then have "size a \<le> size_list (size_prod (\<lambda>_. 0) size) kvs"
    by (intro size_list_estimation'[of "(k, a)"]) auto
  moreover have "v = JObj kvs" using 3 by simp
  ultimately show ?case by simp
qed simp

declare json_eq.simps [simp del]

lemma all_ok_cong [fundef_cong]:
  "xs = ys \<Longrightarrow> (\<And>x. x \<in> set ys \<Longrightarrow> f x = g x) \<Longrightarrow> all_ok f xs = all_ok g ys"
  by (induction ys arbitrary: xs) (simp_all add: bind_sum_def split: sum.splits)

lemma all_ok_Inr: "all_ok f xs = Inr () \<longleftrightarrow> (\<forall>x\<in>set xs. f x = Inr ())"
  by (induction xs) (auto simp: bind_sum_Inr)

definition map_err :: "('a \<Rightarrow> 'b) \<Rightarrow> 'a + 'c \<Rightarrow> 'b + 'c" where
  "map_err f r = (case r of Inl e \<Rightarrow> Inl (f e) | Inr x \<Rightarrow> Inr x)"

lemma map_err_Inr [simp]: "map_err f r = Inr x \<longleftrightarrow> r = Inr x"
  by (cases r) (simp_all add: map_err_def)

text \<open>The checks that look at one level of the value.\<close>

definition check_type :: "schema_env \<Rightarrow> json \<Rightarrow> json \<Rightarrow> string + unit" where
  "check_type env schema value =
     (case jget ''type'' schema of
        None \<Rightarrow> Inr ()
      | Some types \<Rightarrow>
          (if (case as_str types of
                 Some ty \<Rightarrow> schema_type_matches ty value
               | None \<Rightarrow>
                   (case as_array types of
                      Some items \<Rightarrow> list_ex (\<lambda>ty. schema_type_matches ty value) (List.map_filter as_str items)
                    | None \<Rightarrow> False))
           then Inr ()
           else Inl (''expected '' @ sv_show env types @ '', got '' @ value_type value)))"

definition check_enum :: "schema_env \<Rightarrow> json \<Rightarrow> json \<Rightarrow> string + unit" where
  "check_enum env schema value =
     (case Option.bind (jget ''enum'' schema) as_array of
        Some enum_values \<Rightarrow>
          (if list_ex (\<lambda>candidate. json_eq candidate value) enum_values then Inr ()
           else Inl (''value is not one of '' @ sv_debug env enum_values))
      | None \<Rightarrow> Inr ())"

definition check_required :: "json \<Rightarrow> json \<Rightarrow> string + unit" where
  "check_required schema value =
     (case Option.bind (jget ''required'' schema) as_array of
        Some required \<Rightarrow>
          (case as_object value of
             None \<Rightarrow> Inl ''required only applies to objects''
           | Some object \<Rightarrow>
               all_ok (\<lambda>key. if map_of object key \<noteq> None then Inr ()
                              else Inl (''missing required property `'' @ key @ ''`'')) (List.map_filter as_str required))
      | None \<Rightarrow> Inr ())"

text \<open>A bound given by the key of a schema on a length, if the value has that length.\<close>

definition check_bound :: "string \<Rightarrow> (nat \<Rightarrow> nat \<Rightarrow> bool) \<Rightarrow> nat option \<Rightarrow> (string \<Rightarrow> string) \<Rightarrow> json \<Rightarrow> string + unit" where
  "check_bound key bad len msg schema =
     (case (Option.bind (jget key schema) as_u64, len) of
        (Some bound, Some n) \<Rightarrow> if bad n bound then Inl (msg (show_nat bound)) else Inr ()
      | _ \<Rightarrow> Inr ())"

definition check_lengths :: "json \<Rightarrow> json \<Rightarrow> string + unit" where
  "check_lengths schema value =
     (let items = map_option length (as_array value); chars = map_option chars_count (as_str value)
      in bind_sum (check_bound ''minItems'' (<) items (\<lambda>b. ''array has fewer than '' @ b @ '' items'') schema) (\<lambda>_.
         bind_sum (check_bound ''maxItems'' (>) items (\<lambda>b. ''array has more than '' @ b @ '' items'') schema) (\<lambda>_.
         bind_sum (check_bound ''minLength'' (<) chars (\<lambda>b. ''string has fewer than '' @ b @ '' characters'') schema) (\<lambda>_.
         check_bound ''maxLength'' (>) chars (\<lambda>b. ''string has more than '' @ b @ '' characters'') schema))))"

definition check_range :: "schema_env \<Rightarrow> json \<Rightarrow> json \<Rightarrow> string + unit" where
  "check_range env schema value =
     bind_sum (case jget ''minimum'' schema of
                 Some lo \<Rightarrow> if is_number lo \<and> is_number value \<and> sv_less env value lo
                            then Inl (''number is below minimum '' @ sv_show env lo) else Inr ()
               | None \<Rightarrow> Inr ()) (\<lambda>_.
       case jget ''maximum'' schema of
         Some hi \<Rightarrow> if is_number hi \<and> is_number value \<and> sv_less env hi value
                    then Inl (''number is above maximum '' @ sv_show env hi) else Inr ()
       | None \<Rightarrow> Inr ())"

function validate_schema :: "schema_env \<Rightarrow> json \<Rightarrow> json \<Rightarrow> string + unit" where
  "validate_schema env schema value =
     bind_sum (check_type env schema value) (\<lambda>_.
     bind_sum (check_enum env schema value) (\<lambda>_.
     bind_sum (check_required schema value) (\<lambda>_.
     bind_sum
       (case (Option.bind (jget ''properties'' schema) as_object, as_object value) of
          (Some properties, Some object) \<Rightarrow>
            all_ok (\<lambda>(key, property).
                case map_of properties key of
                  Some property_schema \<Rightarrow>
                    map_err (\<lambda>e. ''property `'' @ key @ ''`: '' @ e) (validate_schema env property_schema property)
                | None \<Rightarrow>
                    (if jget ''additionalProperties'' schema = Some (JBool False)
                     then Inl (''unknown property `'' @ key @ ''`'') else Inr ())) object
        | _ \<Rightarrow> Inr ()) (\<lambda>_.
     bind_sum
       (case (jget ''items'' schema, as_array value) of
          (Some items, Some array) \<Rightarrow>
            all_ok (\<lambda>(index, item).
                map_err (\<lambda>e. ''item '' @ show_nat index @ '': '' @ e) (validate_schema env items item))
              (List.enumerate 0 array)
        | _ \<Rightarrow> Inr ()) (\<lambda>_.
     bind_sum (check_lengths schema value) (\<lambda>_. check_range env schema value))))))"
  by pat_completeness auto
termination
proof (relation "measure (\<lambda>(env, schema, value). size value)", goal_cases)
  case (2 env schema val u1 u2 u3 x y props object z key pv psch)
  then have v: "val = JObj object" and z: "(key, pv) \<in> set object" by (cases val; simp)+
  from z have "size pv \<le> size_list (size_prod (\<lambda>_. 0) size) object"
    by (intro size_list_estimation'[of "(key, pv)"]) auto
  with v show ?case by simp
next
  case (3 env schema val u1 u2 u3 u4 x y items array z index item)
  then have v: "val = JArr array" and z: "item \<in> set array"
    by (cases val; auto simp: in_set_enumerate_eq)+
  from z have "size item \<le> size_list size array" by (intro size_list_estimation'[of item]) auto
  with v show ?case by simp
qed simp

declare validate_schema.simps [simp del]

subsection \<open>Schemas themselves\<close>

definition schema_err :: "string \<Rightarrow> tool_error" where
  "schema_err msg = tool_err ''invalid_schema'' msg"

definition known_type :: "string \<Rightarrow> bool" where
  "known_type t \<longleftrightarrow> t \<in> set [''object'', ''array'', ''string'', ''integer'', ''number'', ''boolean'', ''null'']"

definition type_keyword_ok :: "json \<Rightarrow> bool" where
  "type_keyword_ok ty =
     (case as_str ty of
        Some t \<Rightarrow> known_type t
      | None \<Rightarrow>
          (case as_array ty of
             Some items \<Rightarrow> list_all (\<lambda>i. case as_str i of Some t \<Rightarrow> known_type t | None \<Rightarrow> False) items
           | None \<Rightarrow> False))"

definition bounds_ordered :: "string \<Rightarrow> string \<Rightarrow> json \<Rightarrow> tool_error + unit" where
  "bounds_ordered lo hi schema =
     (case (Option.bind (jget lo schema) as_u64, Option.bind (jget hi schema) as_u64) of
        (Some a, Some b) \<Rightarrow> if a > b then Inl (schema_err (lo @ '' cannot exceed '' @ hi)) else Inr ()
      | _ \<Rightarrow> Inr ())"

function validate_schema_definition :: "json \<Rightarrow> tool_error + unit" where
  "validate_schema_definition schema =
     (case as_object schema of
        None \<Rightarrow> Inl (schema_err ''schema must be an object'')
      | Some object \<Rightarrow>
          bind_sum (case map_of object ''type'' of
                      Some ty \<Rightarrow> if type_keyword_ok ty then Inr () else Inl (schema_err ''unsupported schema type'')
                    | None \<Rightarrow> Inr ()) (\<lambda>_.
          bind_sum (case map_of object ''properties'' of
                      Some p \<Rightarrow>
                        (case as_object p of
                           None \<Rightarrow> Inl (schema_err ''properties must be an object'')
                         | Some ps \<Rightarrow> all_ok (\<lambda>q. validate_schema_definition (snd q)) ps)
                    | None \<Rightarrow> Inr ()) (\<lambda>_.
          bind_sum (case map_of object ''items'' of
                      Some items \<Rightarrow> validate_schema_definition items
                    | None \<Rightarrow> Inr ()) (\<lambda>_.
          bind_sum (all_ok (\<lambda>keyword. case map_of object keyword of
                              Some v \<Rightarrow> if as_u64 v = None
                                        then Inl (schema_err (keyword @ '' must be a non-negative integer'')) else Inr ()
                            | None \<Rightarrow> Inr ()) [''minItems'', ''maxItems'', ''minLength'', ''maxLength'']) (\<lambda>_.
          bind_sum (bounds_ordered ''minItems'' ''maxItems'' schema) (\<lambda>_.
            bounds_ordered ''minLength'' ''maxLength'' schema))))))"
  by pat_completeness auto
termination
proof (relation "measure size", goal_cases)
  case (2 schema object u p ps q)
  then have s: "schema = JObj object" and m: "(''properties'', p) \<in> set object" and q: "q \<in> set ps" and p: "p = JObj ps"
    by (cases schema; cases p; auto dest: map_of_SomeD)+
  from q have "size (snd q) \<le> size_list (size_prod (\<lambda>_. 0) size) ps"
    by (intro size_list_estimation'[of q]) (auto simp: size_prod_def split: prod.splits)
  moreover from m have "size p \<le> size_list (size_prod (\<lambda>_. 0) size) object"
    by (intro size_list_estimation'[of "(''properties'', p)"]) auto
  ultimately show ?case using s p by simp
next
  case (3 schema object u1 u2 items)
  then have s: "schema = JObj object" and m: "(''items'', items) \<in> set object"
    by (cases schema; auto dest: map_of_SomeD)+
  from m have "size items \<le> size_list (size_prod (\<lambda>_. 0) size) object"
    by (intro size_list_estimation'[of "(''items'', items)"]) auto
  with s show ?case by simp
qed simp

declare validate_schema_definition.simps [simp del]

definition validate_external_input :: "schema_env \<Rightarrow> json \<Rightarrow> json \<Rightarrow> tool_error + unit" where
  "validate_external_input env schema input =
     bind_sum (validate_schema_definition schema) (\<lambda>_.
       map_err (tool_err ''schema_validation'') (validate_schema env schema input))"

subsection \<open>Object schemas\<close>

definition object_schema :: "(string \<times> json) list \<Rightarrow> string list \<Rightarrow> bool \<Rightarrow> json" where
  "object_schema props required closed = JObj ([(''type'', JStr ''object''), (''properties'', JObj props),
      (''required'', JArr (List.map JStr required))] @ (if closed then [(''additionalProperties'', JBool False)] else []))"

lemma map_filter_str [simp]: "List.map_filter as_str (List.map JStr xs) = xs"
  by (induction xs) (simp_all add: List.map_filter_simps)

lemma object_schema_accepts:
  "validate_schema env (object_schema props required closed) v = Inr () \<longleftrightarrow>
     (\<exists>kvs. v = JObj kvs \<and> set required \<subseteq> dom (map_of kvs) \<and>
        (\<forall>k x. (k, x) \<in> set kvs \<longrightarrow>
           (case map_of props k of Some s \<Rightarrow> validate_schema env s x = Inr () | None \<Rightarrow> \<not> closed)))"
proof -
  have keys: "jget ''type'' (object_schema props required closed) = Some (JStr ''object'')"
    "jget ''enum'' (object_schema props required closed) = None"
    "jget ''required'' (object_schema props required closed) = Some (JArr (List.map JStr required))"
    "jget ''properties'' (object_schema props required closed) = Some (JObj props)"
    "jget ''additionalProperties'' (object_schema props required closed) = (if closed then Some (JBool False) else None)"
    "jget ''items'' (object_schema props required closed) = None"
    "jget ''minItems'' (object_schema props required closed) = None"
    "jget ''maxItems'' (object_schema props required closed) = None"
    "jget ''minLength'' (object_schema props required closed) = None"
    "jget ''maxLength'' (object_schema props required closed) = None"
    "jget ''minimum'' (object_schema props required closed) = None"
    "jget ''maximum'' (object_schema props required closed) = None"
    by (simp_all add: object_schema_def)
  have other: "validate_schema env (object_schema props required closed) v \<noteq> Inr ()" if "value_type v \<noteq> ''object''"
    using that by (simp add: validate_schema.simps [of env "object_schema props required closed" v] keys check_type_def
      schema_type_matches_def)
  show ?thesis
  proof (cases v)
    case (JObj kvs)
    show ?thesis
      unfolding JObj
      unfolding validate_schema.simps [of env "object_schema props required closed" "JObj kvs"]
      by (auto simp: keys check_type_def check_enum_def check_required_def check_lengths_def check_bound_def
          check_range_def schema_type_matches_def bind_sum_Inr all_ok_Inr split: option.splits if_splits)
        (drule (1) bspec, simp add: object_schema_def)
  qed (use other in auto)
qed

text \<open>
  An object schema accepts exactly the objects that have every required property, whose declared properties
  conform to their own schemas, and which, when it is closed, have no other property.
\<close>

theorem object_schema_exact:
  "validate_schema env (object_schema props required closed) v = Inr () \<longleftrightarrow>
     (\<exists>kvs. v = JObj kvs \<and> set required \<subseteq> dom (map_of kvs) \<and>
        list_all (\<lambda>(k, x). case map_of props k of
                              Some s \<Rightarrow> validate_schema env s x = Inr ()
                            | None \<Rightarrow> \<not> closed) kvs)"
  unfolding object_schema_accepts list_all_iff by (auto split: prod.splits)

text \<open>
  A closed schema that declares no \<open>properties\<close> is not enforced: every object passes it, although it
  allows no property at all.
\<close>

theorem closed_schema_without_properties_accepts_all:
  "validate_schema env (JObj [(''type'', JStr ''object''), (''additionalProperties'', JBool False)]) (JObj kvs) = Inr ()"
  by (simp add: validate_schema.simps [of env _ "JObj kvs"] check_type_def check_enum_def check_required_def
      check_lengths_def check_bound_def check_range_def schema_type_matches_def)

subsection \<open>The schema of \<open>apply_patch\<close>\<close>

definition apply_patch_schema :: json where
  "apply_patch_schema = JObj [(''type'', JStr ''object''),
     (''properties'', JObj [(''path'', JObj [(''type'', JStr ''string'')]), (''content'', JObj [(''type'', JStr ''string'')])]),
     (''required'', JArr [JStr ''path'', JStr ''content''])]"

lemma apply_patch_schema_object:
  "apply_patch_schema = object_schema [(''path'', JObj [(''type'', JStr ''string'')]), (''content'', JObj [(''type'', JStr ''string'')])]
     [''path'', ''content''] False"
  by (simp add: apply_patch_schema_def object_schema_def)

text \<open>
  The schema of \<open>apply_patch\<close> refuses the calls its parser documents: whatever the patch text, and whatever
  the files array, a call without a top-level path fails validation before the parser sees it.
\<close>

theorem patch_forms_fail_schema:
  "validate_schema env apply_patch_schema (JObj [(''patch'', JStr text)])
     = Inl ''missing required property `path`''
   \<and> validate_schema env apply_patch_schema (JObj [(''files'', JArr files)])
     = Inl ''missing required property `path`''"
  by (simp add: validate_schema.simps [of env _ "JObj _"] check_type_def check_enum_def check_required_def
      schema_type_matches_def apply_patch_schema_def List.map_filter_simps)

end
