(* ===== verification/PlanMode.thy ===== *)
theory PlanMode
  imports ToolTypes RunEvent
begin

section \<open>Plan Mode\<close>

text \<open>
  Models \<open>crates/capability-gateway/src/plan_mode.rs\<close>: the verdict on a tool call while the latch is
  closed, the parser of a submitted plan, the per-run sessions behind the process-wide mutex (one
  function per critical section, the clock an argument) and the timeline event. The hash map of
  sessions is an association list with distinct keys; the order in which eviction iterates it is an
  argument. The registered \<open>enter_plan_mode\<close> handler of \<open>tools/plan.rs\<close> is included.
\<close>

subsection \<open>The verdict while planning\<close>

definition plan_profile :: string where "plan_profile = ''plan''"
definition plan_default_fallback :: string where "plan_default_fallback = ''ask''"
definition exit_plan_mode_tool :: string where "exit_plan_mode_tool = ''exit_plan_mode''"
definition enter_plan_mode_tool :: string where "enter_plan_mode_tool = ''enter_plan_mode''"

definition network_read_tools :: "string list" where
  "network_read_tools = [''web_fetch'', ''web_search'']"

datatype plan_decision = PdAllow | PdDeny | PdControl

definition plan_mode_decision :: "string \<Rightarrow> side_effect \<Rightarrow> permission_class \<Rightarrow> plan_decision" where
  "plan_mode_decision tool_name se cls =
     (if tool_name = exit_plan_mode_tool \<or> tool_name = enter_plan_mode_tool then PdControl
      else if tool_name \<in> set network_read_tools then PdAllow
      else (case (se, cls) of
              (SfReadOnly, PcAlwaysAllowed) \<Rightarrow> PdAllow
            | (SfReadOnly, PcProjectRead) \<Rightarrow> PdAllow
            | _ \<Rightarrow> PdDeny))"

definition blocked_error :: "string \<Rightarrow> tool_error" where
  "blocked_error tool_name = tool_err ''plan_mode_blocked''
     (''`'' @ tool_name @ ''` cannot run in Plan Mode. Finish researching, then call `'' @ exit_plan_mode_tool @
      ''` with your plan and wait for the user to approve it. Only the user can leave Plan Mode.'')"

subsection \<open>The plan\<close>

definition max_plan_steps :: nat where "max_plan_steps = 40"
definition max_text_bytes :: nat where "max_text_bytes = 4000"

datatype plan_step_kind = PkResearch | PkEdit | PkCommand | PkVerify

definition plan_step_kind_parse :: "string \<Rightarrow> plan_step_kind" where
  "plan_step_kind_parse raw =
     (let s = ascii_lower (str_trim raw)
      in if s \<in> set [''edit'', ''write'', ''patch''] then PkEdit
         else if s \<in> set [''command'', ''run'', ''terminal'', ''shell''] then PkCommand
         else if s \<in> set [''verify'', ''test'', ''check''] then PkVerify
         else PkResearch)"

datatype plan_risk = PrLow | PrMedium | PrHigh

definition plan_risk_parse :: "string \<Rightarrow> plan_risk" where
  "plan_risk_parse raw =
     (let s = ascii_lower (str_trim raw)
      in if s \<in> set [''high'', ''danger'', ''destructive''] then PrHigh
         else if s \<in> set [''medium'', ''med'', ''moderate''] then PrMedium
         else PrLow)"

record plan_step =
  ps_id :: string
  ps_title :: string
  ps_detail :: string
  ps_kind :: plan_step_kind
  ps_targets :: "string list"
  ps_risk :: plan_risk
  ps_reversible :: bool

record plan =
  plan_title :: string
  plan_summary :: string
  plan_steps :: "plan_step list"
  plan_risks :: "string list"
  plan_open_questions :: "string list"
  plan_out_of_scope :: "string list"

definition has_irreversible_step :: "plan \<Rightarrow> bool" where
  "has_irreversible_step p = list_ex (\<lambda>s. \<not> ps_reversible s) (plan_steps p)"

fun risk_rank :: "plan_risk \<Rightarrow> nat" where
  "risk_rank PrLow = 0"
| "risk_rank PrMedium = 1"
| "risk_rank PrHigh = 2"

definition peak_risk :: "plan \<Rightarrow> plan_risk" where
  "peak_risk p = fold (\<lambda>s r. if risk_rank r \<le> risk_rank (ps_risk s) then ps_risk s else r) (plan_steps p) PrLow"

definition invalid_plan :: "string \<Rightarrow> tool_error" where
  "invalid_plan msg = tool_err ''invalid_plan'' msg"

definition text_field :: "json option \<Rightarrow> string \<Rightarrow> tool_error + string" where
  "text_field value field =
     (let raw = str_trim (case Option.bind value as_str of Some s \<Rightarrow> s | None \<Rightarrow> [])
      in if length raw > max_text_bytes
         then Inl (invalid_plan (''plan field `'' @ field @ ''` exceeds 4000 bytes''))
         else Inr raw)"

fun string_items :: "string \<Rightarrow> json list \<Rightarrow> tool_error + string list" where
  "string_items field [] = Inr []"
| "string_items field (item # items) =
     (let s = str_trim (case as_str item of Some s \<Rightarrow> s | None \<Rightarrow> [])
      in if s = [] then string_items field items
         else if length s > max_text_bytes
         then Inl (invalid_plan (''plan field `'' @ field @ ''` has an entry over 4000 bytes''))
         else bind_sum (string_items field items) (\<lambda>out. Inr (s # out)))"

definition string_list :: "json option \<Rightarrow> string \<Rightarrow> tool_error + string list" where
  "string_list value field =
     (case Option.bind value as_array of
        None \<Rightarrow> Inr []
      | Some arr \<Rightarrow> string_items field (take max_plan_steps arr))"

definition step_id :: "nat \<Rightarrow> json \<Rightarrow> string" where
  "step_id idx raw =
     (case Option.bind (jget_str ''id'' raw) (\<lambda>s. if str_trim s = [] then None else Some (str_trim s)) of
        Some s \<Rightarrow> s
      | None \<Rightarrow> ''s'' @ show_nat (idx + 1))"

definition default_risk :: "plan_step_kind \<Rightarrow> plan_risk" where
  "default_risk k = (case k of PkResearch \<Rightarrow> PrLow | PkVerify \<Rightarrow> PrLow | PkEdit \<Rightarrow> PrMedium | PkCommand \<Rightarrow> PrMedium)"

text \<open>One step; the fields of the record are evaluated after the title, in their order.\<close>

definition parse_step :: "nat \<Rightarrow> json \<Rightarrow> tool_error + plan_step" where
  "parse_step idx raw =
     bind_sum (text_field (jget ''title'' raw) ''steps[].title'') (\<lambda>title.
       if title = [] then Inl (invalid_plan (''step '' @ show_nat (idx + 1) @ '' requires a `title`''))
       else
         (let kind = plan_step_kind_parse (case jget_str ''kind'' raw of Some s \<Rightarrow> s | None \<Rightarrow> []);
              risk = (case jget_str ''risk'' raw of Some s \<Rightarrow> plan_risk_parse s | None \<Rightarrow> default_risk kind);
              reversible = (case Option.bind (jget ''reversible'' raw) as_bool of
                              Some b \<Rightarrow> b
                            | None \<Rightarrow> kind \<noteq> PkCommand)
          in bind_sum (text_field (jget ''detail'' raw) ''steps[].detail'') (\<lambda>detail.
             bind_sum (string_list (jget ''targets'' raw) ''steps[].targets'') (\<lambda>targets.
               Inr \<lparr>ps_id = step_id idx raw, ps_title = title, ps_detail = detail, ps_kind = kind,
                    ps_targets = targets, ps_risk = risk, ps_reversible = reversible\<rparr>))))"

fun parse_steps :: "nat \<Rightarrow> json list \<Rightarrow> tool_error + plan_step list" where
  "parse_steps idx [] = Inr []"
| "parse_steps idx (raw # raws) =
     bind_sum (parse_step idx raw) (\<lambda>s. bind_sum (parse_steps (Suc idx) raws) (\<lambda>ss. Inr (s # ss)))"

fun first_duplicate :: "string list \<Rightarrow> string list \<Rightarrow> string option" where
  "first_duplicate seen [] = None"
| "first_duplicate seen (x # xs) = (if x \<in> set seen then Some x else first_duplicate (x # seen) xs)"

definition parse_plan :: "json \<Rightarrow> tool_error + plan" where
  "parse_plan input =
     (let root = (case jget ''plan'' input of Some p \<Rightarrow> p | None \<Rightarrow> input)
      in bind_sum (text_field (jget ''title'' root) ''title'') (\<lambda>title.
           if title = [] then Inl (invalid_plan ''plan requires a non-empty `title`'')
           else bind_sum (text_field (jget ''summary'' root) ''summary'') (\<lambda>summary.
             case Option.bind (jget ''steps'' root) as_array of
               None \<Rightarrow> Inl (invalid_plan ''plan requires a `steps` array'')
             | Some raw_steps \<Rightarrow>
                 if raw_steps = [] then Inl (invalid_plan ''plan requires at least one step'')
                 else if length raw_steps > max_plan_steps
                 then Inl (invalid_plan (''plan has '' @ show_nat (length raw_steps) @ '' steps, limit is 40''))
                 else bind_sum (parse_steps 0 raw_steps) (\<lambda>steps.
                   case first_duplicate [] (List.map ps_id steps) of
                     Some d \<Rightarrow> Inl (invalid_plan (''duplicate step id `'' @ d @ ''`''))
                   | None \<Rightarrow>
                       bind_sum (string_list (jget ''risks'' root) ''risks'') (\<lambda>risks.
                       bind_sum (string_list (jget ''open_questions'' root) ''open_questions'') (\<lambda>questions.
                       bind_sum (string_list (jget ''out_of_scope'' root) ''out_of_scope'') (\<lambda>scope.
                         Inr \<lparr>plan_title = title, plan_summary = summary, plan_steps = steps, plan_risks = risks,
                              plan_open_questions = questions, plan_out_of_scope = scope\<rparr>)))))))"

subsection \<open>Sessions\<close>

datatype plan_state = PlPlanning | PlApproved

record plan_session =
  se_run_id :: string
  se_state :: plan_state
  se_fallback :: string
  se_plan :: "plan option"
  se_rejections :: u32
  se_entered_at :: int
  se_approved_at :: "int option"

type_synonym plan_sessions = "(string \<times> plan_session) list"

definition max_retained_sessions :: nat where "max_retained_sessions = 256"

definition normalize_fallback :: "string \<Rightarrow> string" where
  "normalize_fallback profile =
     (let trimmed = str_trim profile
      in if trimmed = [] \<or> ascii_lower trimmed = ascii_lower plan_profile then plan_default_fallback else trimmed)"

text \<open>\<open>order\<close> is the order in which the map is iterated.\<close>

definition evict_settled :: "(plan_sessions \<Rightarrow> plan_sessions) \<Rightarrow> plan_sessions \<Rightarrow> plan_sessions" where
  "evict_settled order m =
     (if length m \<le> max_retained_sessions then m
      else
        (let settled = List.map (\<lambda>(id, s). (id, case se_approved_at s of Some t \<Rightarrow> t | None \<Rightarrow> se_entered_at s))
                         (List.filter (\<lambda>(id, s). se_state s = PlApproved) (order m));
             excess = length m - max_retained_sessions
         in fold (\<lambda>(id, _). AList.delete id) (take excess (sort_key snd settled)) m))"

definition plan_enter :: "(plan_sessions \<Rightarrow> plan_sessions) \<Rightarrow> int \<Rightarrow> string \<Rightarrow> string \<Rightarrow> plan_sessions
    \<Rightarrow> plan_sessions \<times> plan_session" where
  "plan_enter order now run_id fallback_profile m0 =
     (let fallback = normalize_fallback fallback_profile;
          m = evict_settled order m0
      in case map_of m run_id of
           Some s \<Rightarrow> (m, s)
         | None \<Rightarrow>
             (let s = \<lparr>se_run_id = run_id, se_state = PlPlanning, se_fallback = fallback, se_plan = None,
                       se_rejections = 0, se_entered_at = now, se_approved_at = None\<rparr>
              in (AList.update run_id s m, s)))"

definition plan_is_active :: "string \<Rightarrow> plan_sessions \<Rightarrow> bool" where
  "plan_is_active run_id m = (case map_of m run_id of Some s \<Rightarrow> se_state s = PlPlanning | None \<Rightarrow> False)"

definition not_planning :: tool_error where
  "not_planning = tool_err ''not_in_plan_mode''
     (''this run is not in Plan Mode; call `'' @ enter_plan_mode_tool @ ''` first'')"

definition already_approved :: tool_error where
  "already_approved = tool_err ''plan_already_approved'' ''this run already left Plan Mode''"

definition record_submission :: "string \<Rightarrow> plan \<Rightarrow> plan_sessions \<Rightarrow> plan_sessions \<times> (tool_error + unit)" where
  "record_submission run_id p m =
     (case map_of m run_id of
        Some s \<Rightarrow>
          (if se_state s = PlPlanning then (AList.update run_id (s\<lparr>se_plan := Some p\<rparr>) m, Inr ())
           else (m, Inl already_approved))
      | None \<Rightarrow> (m, Inl not_planning))"

definition plan_approve :: "int \<Rightarrow> string \<Rightarrow> plan_sessions \<Rightarrow> plan_sessions \<times> (tool_error + string)" where
  "plan_approve now run_id m =
     (case map_of m run_id of
        None \<Rightarrow> (m, Inl not_planning)
      | Some s \<Rightarrow>
          (if se_state s = PlApproved then (m, Inr (se_fallback s))
           else if se_plan s = None
           then (m, Inl (tool_err ''plan_missing'' ''cannot approve: no plan was submitted for this run''))
           else (AList.update run_id (s\<lparr>se_state := PlApproved, se_approved_at := Some now\<rparr>) m,
                 Inr (se_fallback s))))"

definition plan_reject :: "string \<Rightarrow> plan_sessions \<Rightarrow> plan_sessions \<times> (tool_error + u32)" where
  "plan_reject run_id m =
     (case map_of m run_id of
        None \<Rightarrow> (m, Inl not_planning)
      | Some s \<Rightarrow>
          (if se_state s = PlApproved then (m, Inl already_approved)
           else
             (let n = sat_add (se_rejections s) 1
              in (AList.update run_id (s\<lparr>se_rejections := n\<rparr>) m, Inr n))))"

definition effective_profile :: "string \<Rightarrow> string \<Rightarrow> plan_sessions \<Rightarrow> string" where
  "effective_profile run_id declared m =
     (case map_of m run_id of
        Some s \<Rightarrow> (if se_state s = PlPlanning then plan_profile else se_fallback s)
      | None \<Rightarrow>
          (if ascii_lower (str_trim declared) = ascii_lower plan_profile then plan_profile else declared))"

definition plan_clear :: "string \<Rightarrow> plan_sessions \<Rightarrow> plan_sessions" where
  "plan_clear run_id m = AList.delete run_id m"

subsection \<open>The timeline event\<close>

datatype plan_transition = PtEntered | PtSubmitted | PtApproved | PtRejected | PtCleared

fun plan_transition_str :: "plan_transition \<Rightarrow> string" where
  "plan_transition_str PtEntered = ''entered''"
| "plan_transition_str PtSubmitted = ''submitted''"
| "plan_transition_str PtApproved = ''approved''"
| "plan_transition_str PtRejected = ''rejected''"
| "plan_transition_str PtCleared = ''cleared''"

fun plan_kind_str :: "plan_step_kind \<Rightarrow> string" where
  "plan_kind_str PkResearch = ''research''"
| "plan_kind_str PkEdit = ''edit''"
| "plan_kind_str PkCommand = ''command''"
| "plan_kind_str PkVerify = ''verify''"

fun plan_risk_str :: "plan_risk \<Rightarrow> string" where
  "plan_risk_str PrLow = ''low''"
| "plan_risk_str PrMedium = ''medium''"
| "plan_risk_str PrHigh = ''high''"

text \<open>The derived serializations.\<close>

definition plan_step_json :: "plan_step \<Rightarrow> json" where
  "plan_step_json s = JObj
     [(''id'', JStr (ps_id s)), (''title'', JStr (ps_title s)), (''detail'', JStr (ps_detail s)),
      (''kind'', JStr (plan_kind_str (ps_kind s))), (''targets'', JArr (List.map JStr (ps_targets s))),
      (''risk'', JStr (plan_risk_str (ps_risk s))), (''reversible'', JBool (ps_reversible s))]"

definition plan_json :: "plan \<Rightarrow> json" where
  "plan_json p = JObj
     [(''title'', JStr (plan_title p)), (''summary'', JStr (plan_summary p)),
      (''steps'', JArr (List.map plan_step_json (plan_steps p))),
      (''risks'', JArr (List.map JStr (plan_risks p))),
      (''open_questions'', JArr (List.map JStr (plan_open_questions p))),
      (''out_of_scope'', JArr (List.map JStr (plan_out_of_scope p)))]"

definition changed_event :: "plan_session \<Rightarrow> plan_transition \<Rightarrow> string option \<Rightarrow> run_event_kind" where
  "changed_event s t reason =
     EvPlanModeChanged (plan_transition_str t)
       (case se_state s of PlPlanning \<Rightarrow> plan_profile | PlApproved \<Rightarrow> se_fallback s)
       (if t = PtEntered \<or> t = PtCleared then None else map_option plan_json (se_plan s))
       (if se_rejections s > 0 then Some (se_rejections s) else None)
       (Option.bind (map_option str_trim reason) (\<lambda>r. if r = [] then None else Some r))"

subsection \<open>The handler of \<open>enter_plan_mode\<close>\<close>

definition enter_tool_message :: string where
  "enter_tool_message = ''Plan Mode is active. Read, search and fetch freely; every write, command and subagent ''
     @ ''call is blocked. When the plan is ready call `'' @ exit_plan_mode_tool @ ''` '' @ [CHR 0xE2, CHR 0x80, CHR 0x94] @ '' only the user can approve it.''"

definition enter_tool_execute :: "(plan_sessions \<Rightarrow> plan_sessions) \<Rightarrow> int \<Rightarrow> string \<Rightarrow> string \<Rightarrow> json
    \<Rightarrow> plan_sessions \<Rightarrow> plan_sessions \<times> (tool_error + json)" where
  "enter_tool_execute order now run_id permission_profile input m =
     (if str_trim run_id = [] then (m, Inl (tool_err ''invalid_context'' ''plan mode requires a run id''))
      else
        (let already = plan_is_active run_id m
         in case plan_enter order now run_id permission_profile m of
              (m', s) \<Rightarrow>
                (m', Inr (JObj
                  [(''plan_mode'', JStr (case se_state s of PlPlanning \<Rightarrow> ''planning'' | PlApproved \<Rightarrow> ''approved'')),
                   (''already_active'', JBool already),
                   (''reason'', JStr (str_trim (case jget_str ''reason'' input of Some r \<Rightarrow> r | None \<Rightarrow> []))),
                   (''fallback_profile'', JStr (se_fallback s)),
                   (''message'', JStr enter_tool_message)]))))"

subsection \<open>What an accepted plan looks like\<close>

definition item_ok :: "string \<Rightarrow> bool" where
  "item_ok s \<longleftrightarrow> s \<noteq> [] \<and> length s \<le> max_text_bytes"

definition items_ok :: "string list \<Rightarrow> bool" where
  "items_ok xs \<longleftrightarrow> length xs \<le> max_plan_steps \<and> list_all item_ok xs"

definition step_fit :: "plan_step \<Rightarrow> bool" where
  "step_fit s \<longleftrightarrow> ps_id s \<noteq> [] \<and> item_ok (ps_title s) \<and> length (ps_detail s) \<le> max_text_bytes
     \<and> items_ok (ps_targets s)"

definition plan_fit :: "plan \<Rightarrow> bool" where
  "plan_fit p \<longleftrightarrow> item_ok (plan_title p) \<and> length (plan_summary p) \<le> max_text_bytes
     \<and> plan_steps p \<noteq> [] \<and> length (plan_steps p) \<le> max_plan_steps \<and> distinct (List.map ps_id (plan_steps p))
     \<and> list_all step_fit (plan_steps p) \<and> items_ok (plan_risks p) \<and> items_ok (plan_open_questions p)
     \<and> items_ok (plan_out_of_scope p)"

lemma text_field_ok: "text_field v f = Inr s \<Longrightarrow> length s \<le> max_text_bytes"
  by (auto simp: text_field_def Let_def split: if_splits)

lemma string_items_ok: "string_items f xs = Inr out \<Longrightarrow> list_all item_ok out \<and> length out \<le> length xs"
  by (induction f xs arbitrary: out rule: string_items.induct)
    (force simp: Let_def bind_sum_Inr item_ok_def split: if_splits)+

lemma string_list_ok: "string_list v f = Inr out \<Longrightarrow> items_ok out"
  using string_items_ok by (fastforce simp: string_list_def items_ok_def split: option.splits)

lemma step_id_not_Nil: "step_id idx raw \<noteq> []"
  by (cases "jget_str ''id'' raw") (auto simp: step_id_def)

lemma parse_step_ok: "parse_step idx raw = Inr s \<Longrightarrow> step_fit s"
  by (auto simp: parse_step_def Let_def bind_sum_Inr step_fit_def item_ok_def step_id_not_Nil
      dest!: text_field_ok string_list_ok split: if_splits)

lemma parse_steps_ok: "parse_steps idx raws = Inr ss \<Longrightarrow> list_all step_fit ss \<and> length ss = length raws"
  by (induction idx raws arbitrary: ss rule: parse_steps.induct) (auto simp: bind_sum_Inr parse_step_ok)

lemma first_duplicate_None: "first_duplicate seen xs = None \<longleftrightarrow> distinct xs \<and> set xs \<inter> set seen = {}"
  by (induction seen xs rule: first_duplicate.induct) auto

text \<open>
  C28: A submitted plan that is accepted can be put in front of a user: it has a title and 1 to 40 steps, every step
  has a title, and an id that is not empty and no other step's; title, summary, the titles and details of the steps
  and every entry of its lists are within the byte limit, and no list has more than 40 entries. The
  ids of the steps have no limit on their length.
\<close>

theorem parsed_plan_well_formed:
  assumes "parse_plan input = Inr p"
  shows "plan_fit p"
proof -
  from assms obtain root title summary raws steps where
    t: "text_field (jget ''title'' root) ''title'' = Inr title" "title \<noteq> []" and
    s: "text_field (jget ''summary'' root) ''summary'' = Inr summary" and
    r: "raws \<noteq> []" "length raws \<le> max_plan_steps" "parse_steps 0 raws = Inr steps" and
    d: "first_duplicate [] (List.map ps_id steps) = None" and
    l: "string_list (jget ''risks'' root) ''risks'' = Inr (plan_risks p)"
       "string_list (jget ''open_questions'' root) ''open_questions'' = Inr (plan_open_questions p)"
       "string_list (jget ''out_of_scope'' root) ''out_of_scope'' = Inr (plan_out_of_scope p)" and
    p: "plan_title p = title" "plan_summary p = summary" "plan_steps p = steps"
    by (auto simp: parse_plan_def Let_def bind_sum_Inr not_less split: if_splits option.splits)
  from r(1,2) parse_steps_ok [OF r(3)] have "steps \<noteq> []" "length steps \<le> max_plan_steps" "list_all step_fit steps"
    by auto
  with t(2) text_field_ok [OF t(1)] text_field_ok [OF s] d l [THEN string_list_ok] p show ?thesis
    by (simp add: plan_fit_def item_ok_def first_duplicate_None)
qed

theorem parsed_plan_well_formed_witness:
  "case parse_plan (JObj [(''title'', JStr '' t ''), (''steps'', JArr [JObj [(''title'', JStr ''x'')],
      JObj [(''title'', JStr ''y''), (''kind'', JStr ''Run'')]])]) of
     Inl _ \<Rightarrow> False
   | Inr p \<Rightarrow> plan_fit p \<and> List.map ps_id (plan_steps p) = [''s1'', ''s2''] \<and> has_irreversible_step p \<and> peak_risk p = PrMedium"
proof -
  let ?i = "JObj [(''title'', JStr '' t ''), (''steps'', JArr [JObj [(''title'', JStr ''x'')],
      JObj [(''title'', JStr ''y''), (''kind'', JStr ''Run'')]])]"
  have "case parse_plan ?i of Inl _ \<Rightarrow> False
   | Inr p \<Rightarrow> List.map ps_id (plan_steps p) = [''s1'', ''s2''] \<and> has_irreversible_step p \<and> peak_risk p = PrMedium"
    by code_simp
  with parsed_plan_well_formed [of ?i] show ?thesis by (simp split: sum.splits)
qed

subsection \<open>The latch\<close>

datatype latch_op =
    LoEnter "plan_sessions \<Rightarrow> plan_sessions" int string string
  | LoSubmit string plan
  | LoApprove int string
  | LoReject string
  | LoClear string

fun latch_do :: "latch_op \<Rightarrow> plan_sessions \<Rightarrow> plan_sessions" where
  "latch_do (LoEnter order now r f) m = fst (plan_enter order now r f m)"
| "latch_do (LoSubmit r p) m = fst (record_submission r p m)"
| "latch_do (LoApprove now r) m = fst (plan_approve now r m)"
| "latch_do (LoReject r) m = fst (plan_reject r m)"
| "latch_do (LoClear r) m = plan_clear r m"

text \<open>The map's iteration order lists its entries, and each key once.\<close>

fun order_ok :: "plan_sessions \<Rightarrow> latch_op \<Rightarrow> bool" where
  "order_ok m (LoEnter order _ _ _) = (set (order m) = set m)"
| "order_ok m _ = True"

definition keys_once :: "plan_sessions \<Rightarrow> bool" where
  "keys_once m \<longleftrightarrow> distinct (List.map fst m)"

lemma keys_once_ops [simp]:
  "keys_once m \<Longrightarrow> keys_once (AList.update k v m)" "keys_once m \<Longrightarrow> keys_once (AList.delete k m)"
  by (simp_all add: keys_once_def distinct_update distinct_delete)

lemma fold_delete:
  "keys_once m \<Longrightarrow> keys_once (fold (\<lambda>(id, _). AList.delete id) xs m)"
  "map_of (fold (\<lambda>(id, _). AList.delete id) xs m) r = (if r \<in> fst ` set xs then None else map_of m r)"
proof -
  show "keys_once m \<Longrightarrow> keys_once (fold (\<lambda>(id, _). AList.delete id) xs m)"
    by (induction xs arbitrary: m) auto
  show "map_of (fold (\<lambda>(id, _). AList.delete id) xs m) r = (if r \<in> fst ` set xs then None else map_of m r)"
  proof (induction xs arbitrary: m)
    case (Cons x xs)
    then show ?case by (cases x) (simp add:)
  qed simp
qed

text \<open>Eviction removes settled sessions only, and leaves the others as they are.\<close>

lemma evict_settled_map:
  assumes "keys_once m" and "set (order m) = set m"
  shows "keys_once (evict_settled order m)"
    and "map_of (evict_settled order m) r = map_of m r \<or>
      map_of (evict_settled order m) r = None \<and> (\<exists>s. map_of m r = Some s \<and> se_state s = PlApproved)"
proof -
  show "keys_once (evict_settled order m)"
    using assms(1) by (simp add: evict_settled_def Let_def fold_delete(1))
  show "map_of (evict_settled order m) r = map_of m r \<or>
      map_of (evict_settled order m) r = None \<and> (\<exists>s. map_of m r = Some s \<and> se_state s = PlApproved)"
  proof (cases "length m \<le> max_retained_sessions")
    case False
    let ?settled = "List.map (\<lambda>(id, s). (id, case se_approved_at s of Some t \<Rightarrow> t | None \<Rightarrow> se_entered_at s))
                         (List.filter (\<lambda>(id, s). se_state s = PlApproved) (order m))"
    let ?gone = "take (length m - max_retained_sessions) (sort_key snd ?settled)"
    have e: "map_of (evict_settled order m) r = (if r \<in> fst ` set ?gone then None else map_of m r)"
      using False by (simp add: evict_settled_def Let_def fold_delete(2))
    show ?thesis
    proof (cases "r \<in> fst ` set ?gone")
      case True
      then have "r \<in> fst ` set ?settled" using set_take_subset by fastforce
      then obtain s where "(r, s) \<in> set m" "se_state s = PlApproved" using assms(2) by auto
      then have "map_of m r = Some s" using assms(1) by (simp add: keys_once_def)
      with e True \<open>se_state s = PlApproved\<close> show ?thesis by auto
    qed (use e in simp)
  qed (simp add: evict_settled_def)
qed

lemma latch_do_keys_once: "keys_once m \<Longrightarrow> order_ok m op \<Longrightarrow> keys_once (latch_do op m)"
  by (cases op) (auto simp: plan_enter_def record_submission_def plan_approve_def plan_reject_def plan_clear_def
      Let_def evict_settled_map split: option.splits)

text \<open>A run that was entered, had a plan submitted and approved.\<close>

definition demo_plan :: plan where
  "demo_plan = \<lparr>plan_title = ''t'', plan_summary = [], plan_steps = [], plan_risks = [], plan_open_questions = [],
                plan_out_of_scope = []\<rparr>"

definition demo_ops :: "latch_op list" where
  "demo_ops = [LoEnter (\<lambda>m. m) 1 ''r'' '' full '', LoSubmit ''r'' demo_plan, LoReject ''r'', LoApprove 2 ''r'']"

definition demo_session :: "plan_state \<Rightarrow> plan_session" where
  "demo_session st = \<lparr>se_run_id = ''r'', se_state = st, se_fallback = ''full'', se_plan = Some demo_plan,
     se_rejections = 1, se_entered_at = 1, se_approved_at = (if st = PlApproved then Some 2 else None)\<rparr>"

lemma demo_trim: "str_trim ''r'' = ''r''"
  by code_simp

text \<open>
  Only an approval of a submitted plan, or the teardown of the run, opens the latch: no other operation,
  on this or any other run, and no eviction makes a planning run stop planning.
\<close>

theorem latch_opens_only_by_approval:
  assumes "keys_once m" and "order_ok m op"
    and "plan_is_active r m" and "\<not> plan_is_active r (latch_do op m)"
  shows "(\<exists>now s p. op = LoApprove now r \<and> map_of m r = Some s \<and> se_plan s = Some p) \<or> op = LoClear r"
proof -
  from assms(3) obtain s where s: "map_of m r = Some s" "se_state s = PlPlanning"
    by (auto simp: plan_is_active_def split: option.splits)
  have kept: "map_of (evict_settled order m) r = Some s" if "set (order m) = set m" for order
    using evict_settled_map(2) [of m order r] assms(1) that s by auto
  show ?thesis
  proof (cases op)
    case (LoEnter order now r' f)
    with assms(2) kept [of order] s assms(4) show ?thesis
      by (cases "map_of (evict_settled order m) r'"; cases "r' = r")
        (auto simp: plan_enter_def Let_def plan_is_active_def)
  next
    case (LoSubmit r' p)
    with s assms(4) show ?thesis
      by (cases "r' = r"; cases "map_of m r'") (auto simp: record_submission_def plan_is_active_def split: if_splits)
  next
    case (LoApprove now r')
    with s assms(4) show ?thesis
      by (cases "r' = r"; cases "map_of m r'")
        (auto simp: plan_approve_def plan_is_active_def split: if_splits)
  next
    case (LoReject r')
    with s assms(4) show ?thesis
      by (cases "r' = r"; cases "map_of m r'") (auto simp: plan_reject_def plan_is_active_def update_conv' Let_def split: if_splits)
  next
    case (LoClear r')
    with s assms(4) show ?thesis
      by (cases "r' = r") (auto simp: plan_clear_def plan_is_active_def)
  qed
qed

theorem latch_opens_only_by_approval_witness:
  "plan_is_active ''r'' [(''r'', demo_session PlPlanning)] \<and>
   \<not> plan_is_active ''r'' (latch_do (LoApprove 2 ''r'') [(''r'', demo_session PlPlanning)]) \<and>
   (\<exists>s p. map_of [(''r'', demo_session PlPlanning)] ''r'' = Some s \<and> se_plan s = Some p)"
proof -
  have a: "plan_is_active ''r'' [(''r'', demo_session PlPlanning)]"
    "\<not> plan_is_active ''r'' (latch_do (LoApprove 2 ''r'') [(''r'', demo_session PlPlanning)])"
    "keys_once [(''r'', demo_session PlPlanning)]"
    by code_simp+
  from latch_opens_only_by_approval [OF a(3) _ a(1,2)] a(1,2) show ?thesis by auto
qed

subsection \<open>The history of a released run\<close>

text \<open>
  What has happened to a run in a sequence of operations: it was entered with a profile and not torn
  down since; then a plan was submitted and not replaced; then it was approved.
\<close>

definition was_entered :: "string \<Rightarrow> string \<Rightarrow> latch_op list \<Rightarrow> bool" where
  "was_entered r f ops \<longleftrightarrow> (\<exists>a order now b. ops = a @ LoEnter order now r f # b \<and> LoClear r \<notin> set b)"

definition was_submitted :: "string \<Rightarrow> string \<Rightarrow> plan \<Rightarrow> latch_op list \<Rightarrow> bool" where
  "was_submitted r f p ops \<longleftrightarrow> (\<exists>a b. ops = a @ LoSubmit r p # b \<and> was_entered r f a
     \<and> LoClear r \<notin> set b \<and> (\<forall>q. LoSubmit r q \<notin> set b))"

definition was_approved :: "string \<Rightarrow> string \<Rightarrow> plan \<Rightarrow> latch_op list \<Rightarrow> bool" where
  "was_approved r f p ops \<longleftrightarrow> (\<exists>a now b. ops = a @ LoApprove now r # b \<and> was_submitted r f p a \<and> LoClear r \<notin> set b)"

lemma was_entered_snoc: "was_entered r f ops \<Longrightarrow> op \<noteq> LoClear r \<Longrightarrow> was_entered r f (ops @ [op])"
  unfolding was_entered_def by (metis append.assoc append_Cons set_append set_ConsD Un_iff empty_iff list.set(1))

lemma was_submitted_snoc:
  "was_submitted r f p ops \<Longrightarrow> op \<noteq> LoClear r \<Longrightarrow> \<forall>q. op \<noteq> LoSubmit r q \<Longrightarrow> was_submitted r f p (ops @ [op])"
  unfolding was_submitted_def
proof (elim exE conjE)
  fix a b assume "ops = a @ LoSubmit r p # b" "was_entered r f a" "LoClear r \<notin> set b" "\<forall>q. LoSubmit r q \<notin> set b"
    and "op \<noteq> LoClear r" "\<forall>q. op \<noteq> LoSubmit r q"
  then show "\<exists>a b. ops @ [op] = a @ LoSubmit r p # b \<and> was_entered r f a
     \<and> LoClear r \<notin> set b \<and> (\<forall>q. LoSubmit r q \<notin> set b)"
    by (intro exI [of _ a] exI [of _ "b @ [op]"]) auto
qed

lemma was_approved_snoc: "was_approved r f p ops \<Longrightarrow> op \<noteq> LoClear r \<Longrightarrow> was_approved r f p (ops @ [op])"
  unfolding was_approved_def
proof (elim exE conjE)
  fix a now b assume "ops = a @ LoApprove now r # b" "was_submitted r f p a" "LoClear r \<notin> set b" and "op \<noteq> LoClear r"
  then show "\<exists>a now b. ops @ [op] = a @ LoApprove now r # b \<and> was_submitted r f p a \<and> LoClear r \<notin> set b"
    by (intro exI [of _ a] exI [of _ now] exI [of _ "b @ [op]"]) auto
qed

text \<open>The sessions after a sequence of operations, each with an admissible iteration order.\<close>

inductive latch_reached :: "latch_op list \<Rightarrow> plan_sessions \<Rightarrow> bool" where
  latch_start: "latch_reached [] []"
| latch_next: "latch_reached ops m \<Longrightarrow> order_ok m op \<Longrightarrow> latch_reached (ops @ [op]) (latch_do op m)"

definition explained :: "string \<Rightarrow> latch_op list \<Rightarrow> plan_session \<Rightarrow> bool" where
  "explained r ops s \<longleftrightarrow> (\<exists>f. se_fallback s = normalize_fallback f \<and> was_entered r f ops
     \<and> (\<forall>p. se_plan s = Some p \<longrightarrow> se_state s = PlPlanning \<longrightarrow> was_submitted r f p ops)
     \<and> (se_state s = PlApproved \<longrightarrow> (\<exists>p. se_plan s = Some p \<and> was_approved r f p ops)))"

lemma explained_other:
  assumes "explained r ops s" and "op \<noteq> LoClear r" and "\<forall>q. op = LoSubmit r q \<longrightarrow> se_state s = PlApproved"
  shows "explained r (ops @ [op]) s"
proof -
  from assms(1) obtain f where f: "se_fallback s = normalize_fallback f" "was_entered r f ops"
    "\<forall>p. se_plan s = Some p \<longrightarrow> se_state s = PlPlanning \<longrightarrow> was_submitted r f p ops"
    "se_state s = PlApproved \<longrightarrow> (\<exists>p. se_plan s = Some p \<and> was_approved r f p ops)"
    by (auto simp: explained_def)
  with assms(2,3) was_entered_snoc was_submitted_snoc was_approved_snoc show ?thesis
    unfolding explained_def by (intro exI [of _ f]) auto
qed

lemma explained_same:
  "se_fallback s' = se_fallback s \<Longrightarrow> se_plan s' = se_plan s \<Longrightarrow> se_state s' = se_state s \<Longrightarrow>
     explained r ops s' = explained r ops s"
  by (simp add: explained_def)

lemma explained_enter:
  assumes "map_of (latch_do (LoEnter order now r' f) m) r = Some s" and "keys_once m" and "set (order m) = set m"
    and "\<And>s. map_of m r = Some s \<Longrightarrow> explained r ops s"
  shows "explained r (ops @ [LoEnter order now r' f]) s"
proof (cases "r = r' \<and> map_of (evict_settled order m) r' = None")
  case True
  with assms(1) have "se_fallback s = normalize_fallback f" "se_plan s = None" "se_state s = PlPlanning"
    by (auto simp: plan_enter_def Let_def)
  moreover have "was_entered r f (ops @ [LoEnter order now r' f])" using True unfolding was_entered_def by force
  ultimately show ?thesis by (auto simp: explained_def)
next
  case False
  with assms(1) have "map_of (evict_settled order m) r = Some s"
    by (cases "map_of (evict_settled order m) r'") (auto simp: plan_enter_def Let_def split: if_splits)
  with evict_settled_map(2) [of m order r] assms(2,3) have "map_of m r = Some s" by auto
  from explained_other [OF assms(4) [OF this]] show ?thesis by simp
qed

lemma explained_submit:
  assumes "map_of (latch_do (LoSubmit r' p) m) r = Some s" and "\<And>s. map_of m r = Some s \<Longrightarrow> explained r ops s"
  shows "explained r (ops @ [LoSubmit r' p]) s"
proof (cases "\<exists>s0. r = r' \<and> map_of m r = Some s0 \<and> se_state s0 = PlPlanning")
  case True
  then obtain s0 where r: "r = r'" and s0: "map_of m r = Some s0" "se_state s0 = PlPlanning" by blast
  with assms(1) have s: "s = s0\<lparr>se_plan := Some p\<rparr>" by (simp add: record_submission_def)
  from assms(2) [OF s0(1)] obtain f where "se_fallback s0 = normalize_fallback f" "was_entered r f ops"
    by (auto simp: explained_def)
  moreover from this have "was_submitted r f p (ops @ [LoSubmit r p])" unfolding was_submitted_def by force
  moreover from calculation have "was_entered r f (ops @ [LoSubmit r p])" using was_entered_snoc by blast
  ultimately show ?thesis using s s0(2) r by (auto simp: explained_def)
next
  case False
  with assms(1) have s: "map_of m r = Some s"
    by (cases "r = r'"; cases "map_of m r'")
      (auto simp: record_submission_def split: if_splits)
  with False have "r = r' \<longrightarrow> se_state s = PlApproved" by (cases "se_state s") auto
  with explained_other [OF assms(2) [OF s]] show ?thesis by simp
qed

lemma explained_approve:
  assumes "map_of (latch_do (LoApprove now r') m) r = Some s" and "\<And>s. map_of m r = Some s \<Longrightarrow> explained r ops s"
  shows "explained r (ops @ [LoApprove now r']) s"
proof (cases "\<exists>s0 p. r = r' \<and> map_of m r = Some s0 \<and> se_state s0 = PlPlanning \<and> se_plan s0 = Some p")
  case True
  then obtain s0 p where r: "r = r'" and s0: "map_of m r = Some s0" "se_state s0 = PlPlanning" "se_plan s0 = Some p"
    by blast
  with assms(1) have s: "s = s0\<lparr>se_state := PlApproved, se_approved_at := Some now\<rparr>" by (simp add: plan_approve_def)
  from assms(2) [OF s0(1)] s0 obtain f where "se_fallback s0 = normalize_fallback f" "was_entered r f ops"
    "was_submitted r f p ops" by (auto simp: explained_def)
  moreover from this have "was_approved r f p (ops @ [LoApprove now r])" unfolding was_approved_def by force
  moreover from calculation have "was_entered r f (ops @ [LoApprove now r])" using was_entered_snoc by blast
  ultimately show ?thesis using s s0 r by (auto simp: explained_def)
next
  case False
  with assms(1) have "map_of m r = Some s"
    by (cases "r = r'"; cases "map_of m r'") (auto simp: plan_approve_def split: if_splits plan_state.splits,
        metis plan_state.exhaust)
  from explained_other [OF assms(2) [OF this]] show ?thesis by simp
qed

lemma explained_reject:
  assumes "map_of (latch_do (LoReject r') m) r = Some s" and "\<And>s. map_of m r = Some s \<Longrightarrow> explained r ops s"
  shows "explained r (ops @ [LoReject r']) s"
proof -
  obtain s0 where s0: "map_of m r = Some s0" "se_fallback s = se_fallback s0" "se_plan s = se_plan s0"
    "se_state s = se_state s0"
    using assms(1) by (cases "r = r'"; cases "map_of m r'")
      (auto simp: plan_reject_def update_conv' Let_def split: if_splits)
  from explained_other [OF assms(2) [OF s0(1)], of "LoReject r'"] explained_same [of s s0] s0 show ?thesis by simp
qed

lemma latch_reached_explained:
  "latch_reached ops m \<Longrightarrow> keys_once m \<and> (\<forall>r s. map_of m r = Some s \<longrightarrow> explained r ops s)"
proof (induction rule: latch_reached.induct)
  case (latch_next ops m op)
  have keys: "keys_once m" and old: "\<And>r s. map_of m r = Some s \<Longrightarrow> explained r ops s" using latch_next.IH by auto
  have "explained r (ops @ [op]) s" if "map_of (latch_do op m) r = Some s" for r s
  proof (cases op)
    case (LoEnter order now r' f)
    with that latch_next.hyps(2) keys old show ?thesis using explained_enter [of order now r' f m r s ops] by auto
  next
    case (LoClear r')
    with that have "map_of m r = Some s" "r \<noteq> r'" by (auto simp: plan_clear_def split: if_splits)
    with explained_other [OF old, of r s op] LoClear show ?thesis by simp
  next
    case (LoSubmit r' p)
    with that old show ?thesis using explained_submit [of r' p m r s ops] by simp
  next
    case (LoApprove now r')
    with that old show ?thesis using explained_approve [of now r' m r s ops] by simp
  next
    case (LoReject r')
    with that old show ?thesis using explained_reject [of r' m r s ops] by simp
  qed
  with latch_do_keys_once [OF keys latch_next.hyps(2)] show ?case by blast
qed (simp add: keys_once_def)

lemma demo_reached: "latch_reached demo_ops [(''r'', demo_session PlApproved)]"
proof -
  have "latch_reached ([] @ [LoEnter (\<lambda>m. m) 1 ''r'' '' full ''])
     (latch_do (LoEnter (\<lambda>m. m) 1 ''r'' '' full '') [])"
    by (rule latch_next [OF latch_start]) simp
  from latch_next [OF latch_next [OF latch_next [OF this]], of "LoSubmit ''r'' demo_plan" "LoReject ''r''" "LoApprove 2 ''r''"]
  have "latch_reached demo_ops (latch_do (LoApprove 2 ''r'') (latch_do (LoReject ''r'')
      (latch_do (LoSubmit ''r'' demo_plan) (latch_do (LoEnter (\<lambda>m. m) 1 ''r'' '' full '') []))))"
    by (simp add: demo_ops_def)
  moreover have "latch_do (LoApprove 2 ''r'') (latch_do (LoReject ''r'')
      (latch_do (LoSubmit ''r'' demo_plan) (latch_do (LoEnter (\<lambda>m. m) 1 ''r'' '' full '') [])))
      = [(''r'', demo_session PlApproved)]"
    by code_simp
  ultimately show ?thesis by simp
qed

text \<open>
  C11: Whatever happened before, a run whose latch was released had been entered into Plan Mode, had a plan
  submitted after that, and had exactly its last submitted plan approved after that, without a teardown
  in between; from then on it runs under the profile it was entered with.
\<close>

theorem released_run_has_approved_plan:
  assumes "latch_reached ops m" and "map_of m r = Some s" and "se_state s = PlApproved"
  shows "\<exists>f p. was_approved r f p ops \<and> se_plan s = Some p \<and> effective_profile r declared m = normalize_fallback f"
proof -
  from latch_reached_explained [OF assms(1)] assms(2) have "explained r ops s" by blast
  with assms(2,3) show ?thesis by (auto simp: explained_def effective_profile_def)
qed

theorem released_run_has_approved_plan_witness:
  "\<exists>f p. was_approved ''r'' f p demo_ops \<and> p = demo_plan \<and> normalize_fallback f = ''full''"
  using released_run_has_approved_plan [OF demo_reached, of "''r''" "demo_session PlApproved" "''ask''"]
  by (auto simp: demo_session_def effective_profile_def)

subsection \<open>Where the latch forgets\<close>

text \<open>
  Once more than 256 sessions are retained, entering evicts the oldest approved one, and if that is the
  entering run it plans anew: a run whose plan was approved is latched again, whereas the source
  promises that it cannot re-enter.
\<close>

theorem evicted_run_plans_again:
  assumes "length m = Suc max_retained_sessions" and "keys_once m" and "set (order m) = set m"
    and "map_of m r = Some s" and "se_state s = PlApproved" and "se_approved_at s = Some t"
    and "\<And>r' s'. map_of m r' = Some s' \<Longrightarrow> r' \<noteq> r \<Longrightarrow> se_state s' = PlApproved \<Longrightarrow>
           t < (case se_approved_at s' of Some u \<Rightarrow> u | None \<Rightarrow> se_entered_at s')"
  shows "\<not> plan_is_active r m \<and> plan_is_active r (fst (plan_enter order now r f m))"
proof -
  define S where "S = List.map (\<lambda>(id, s). (id, case se_approved_at s of Some t \<Rightarrow> t | None \<Rightarrow> se_entered_at s))
                         (List.filter (\<lambda>(id, s). se_state s = PlApproved) (order m))"
  have mem: "(r', s') \<in> set m \<longleftrightarrow> map_of m r' = Some s'" for r' s' using assms(2) by (simp add: keys_once_def)
  then have inS: "(r, t) \<in> set S" using assms(3-6) by (force simp: S_def)
  have least: "t < u" if u: "(r', u) \<in> set S" "r' \<noteq> r" for r' u
    using u assms(3) mem assms(7) by (auto simp: S_def)
  obtain r1 t1 rest where srt: "sort_key snd S = (r1, t1) # rest"
  proof (cases "sort_key snd S")
    case Nil
    then have "set S = {}" by (metis list.set(1) set_sort)
    with inS show ?thesis by simp
  next
    case (Cons x xs)
    with that show ?thesis by (cases x) simp
  qed
  have "(r1, t1) \<in> set S" using srt by (metis list.set_intros(1) set_sort)
  moreover have "t1 \<le> t"
  proof -
    have "sorted (List.map snd ((r1, t1) # rest))" using sorted_sort_key [of snd S] srt by simp
    moreover have "(r, t) \<in> set ((r1, t1) # rest)" using inS srt by (metis set_sort)
    ultimately show ?thesis by auto
  qed
  ultimately have r1: "r1 = r" using least [of r1 t1] by fastforce
  have "evict_settled order m = fold (\<lambda>(id, _). AList.delete id) (take 1 (sort_key snd S)) m"
    unfolding evict_settled_def Let_def S_def using assms(1) by simp
  then have "map_of (evict_settled order m) r = None" using srt r1 by simp
  then show ?thesis using assms(4,5)
    by (simp add: plan_enter_def Let_def plan_is_active_def)
qed

theorem evicted_run_plans_again_witness:
  "plan_is_active ''r'' (fst (plan_enter (\<lambda>m. m) 3 ''r'' ''full''
     ((''r'', demo_session PlApproved) # List.map (\<lambda>n. (replicate n (CHR ''a''), demo_session PlPlanning)) [0..<256])))"
proof -
  let ?rest = "List.map (\<lambda>n. (replicate n (CHR ''a''), demo_session PlPlanning)) [0..<256]"
  have len: "length ((''r'', demo_session PlApproved) # ?rest) = Suc max_retained_sessions"
    by (simp add: max_retained_sessions_def)
  have notr: "''r'' \<noteq> replicate n (CHR ''a'')" for n by (cases n) simp_all
  then have keys: "keys_once ((''r'', demo_session PlApproved) # ?rest)"
    unfolding keys_once_def by (auto simp: distinct_map inj_on_def)
  have "\<not> plan_is_active ''r'' ((''r'', demo_session PlApproved) # ?rest) \<and>
    plan_is_active ''r'' (fst (plan_enter (\<lambda>m. m) 3 ''r'' ''full'' ((''r'', demo_session PlApproved) # ?rest)))"
    by (rule evicted_run_plans_again [OF len keys, where t = 2 and s = "demo_session PlApproved"])
      (auto simp: demo_session_def dest!: map_of_SomeD split: if_splits)
  then show ?thesis by blast
qed

text \<open>
  The handler of \<open>enter_plan_mode\<close> answers that Plan Mode is active and every write blocked also to a run
  whose latch is open, which stays open.
\<close>

theorem enter_tool_misreports_open_latch:
  assumes "map_of m r = Some s" and "se_state s = PlApproved" and "length m \<le> max_retained_sessions"
    and "str_trim r \<noteq> []" and "enter_tool_execute order now r profile input m = (m', res)"
  shows "\<not> plan_is_active r m' \<and> (\<exists>out. res = Inr out \<and> jget_str ''message'' out = Some enter_tool_message)"
proof -
  have "plan_enter order now r profile m = (m, s)"
    using assms(1,3) by (simp add: plan_enter_def Let_def evict_settled_def)
  with assms show ?thesis by (auto simp: enter_tool_execute_def Let_def plan_is_active_def jget_str_def)
qed

theorem enter_tool_misreports_open_latch_witness:
  "\<not> plan_is_active ''r'' (fst (enter_tool_execute (\<lambda>m. m) 3 ''r'' ''full'' JNull [(''r'', demo_session PlApproved)]))"
  using enter_tool_misreports_open_latch [of "[(''r'', demo_session PlApproved)]" "''r''" "demo_session PlApproved"
      "\<lambda>m. m" 3 "''full''" JNull]
  by (cases "enter_tool_execute (\<lambda>m. m) 3 ''r'' ''full'' JNull [(''r'', demo_session PlApproved)]")
    (simp add: demo_session_def max_retained_sessions_def demo_trim)

end
