(* ===== verification/HookModel.thy ===== *)
theory HookModel
  imports Prelude
begin

section \<open>Hook definitions\<close>

text \<open>
  Models \<open>crates/harness-core/src/hooks/definition.rs\<close>: the events and their names, where a hook comes
  from and its identity, the conditions on a tool's input, and the two matchers. Regular expressions
  (the \<open>regex\<close> crate) and the text of a JSON value are arguments. \<open>glob_matches\<close> works on characters:
  a text is cut into the byte sequences of its characters first.
\<close>

subsection \<open>Events\<close>

datatype hook_event =
    HeSessionStart | HeSessionEnd | HeUserPromptSubmit | HePreToolUse | HePostToolUse | HePostToolUseFailure
  | HePermissionRequest | HePermissionDenied | HeNotification | HeSubagentStart | HeSubagentStop
  | HePreCompact | HePostCompact | HeStop | HeStopFailure | HeError

definition all_hook_events :: "hook_event list" where
  "all_hook_events =
     [HeSessionStart, HeSessionEnd, HeUserPromptSubmit, HePreToolUse, HePostToolUse, HePostToolUseFailure,
      HePermissionRequest, HePermissionDenied, HeNotification, HeSubagentStart, HeSubagentStop,
      HePreCompact, HePostCompact, HeStop, HeStopFailure, HeError]"

fun is_security_sensitive :: "hook_event \<Rightarrow> bool" where
  "is_security_sensitive HePreToolUse = True"
| "is_security_sensitive HePermissionRequest = True"
| "is_security_sensitive HePermissionDenied = True"
| "is_security_sensitive _ = False"

fun hook_event_str :: "hook_event \<Rightarrow> string" where
  "hook_event_str HeSessionStart = ''SessionStart''"
| "hook_event_str HeSessionEnd = ''SessionEnd''"
| "hook_event_str HeUserPromptSubmit = ''UserPromptSubmit''"
| "hook_event_str HePreToolUse = ''PreToolUse''"
| "hook_event_str HePostToolUse = ''PostToolUse''"
| "hook_event_str HePostToolUseFailure = ''PostToolUseFailure''"
| "hook_event_str HePermissionRequest = ''PermissionRequest''"
| "hook_event_str HePermissionDenied = ''PermissionDenied''"
| "hook_event_str HeNotification = ''Notification''"
| "hook_event_str HeSubagentStart = ''SubagentStart''"
| "hook_event_str HeSubagentStop = ''SubagentStop''"
| "hook_event_str HePreCompact = ''PreCompact''"
| "hook_event_str HePostCompact = ''PostCompact''"
| "hook_event_str HeStop = ''Stop''"
| "hook_event_str HeStopFailure = ''StopFailure''"
| "hook_event_str HeError = ''Error''"

definition hook_event_names :: "(string list \<times> hook_event) list" where
  "hook_event_names =
     [([''PreToolUse'', ''pre_tool_use''], HePreToolUse),
      ([''PostToolUse'', ''post_tool_use''], HePostToolUse),
      ([''PostToolUseFailure'', ''post_tool_use_failure''], HePostToolUseFailure),
      ([''Stop'', ''stop''], HeStop),
      ([''StopFailure'', ''stop_failure''], HeStopFailure),
      ([''SessionStart'', ''session_start''], HeSessionStart),
      ([''SessionEnd'', ''session_end''], HeSessionEnd),
      ([''UserPromptSubmit'', ''user_prompt_submit''], HeUserPromptSubmit),
      ([''PermissionRequest'', ''permission_request''], HePermissionRequest),
      ([''PermissionDenied'', ''permission_denied''], HePermissionDenied),
      ([''SubagentStart'', ''subagent_start''], HeSubagentStart),
      ([''SubagentStop'', ''SubagentEnd'', ''subagent_stop''], HeSubagentStop),
      ([''CompactStart'', ''PreCompact'', ''pre_compact''], HePreCompact),
      ([''CompactEnd'', ''PostCompact'', ''post_compact''], HePostCompact),
      ([''Notification'', ''notification''], HeNotification),
      ([''Error'', ''error''], HeError)]"

definition hook_event_parse :: "string \<Rightarrow> hook_event option" where
  "hook_event_parse name = map_option snd (List.find (\<lambda>(names, _). name \<in> set names) hook_event_names)"

subsection \<open>Provenance and identity\<close>

datatype hook_scope = HsBuiltin | HsProject | HsUser | HsEnv

record hook_source =
  hk_scope :: hook_scope
  hk_origin :: string
  hk_group_index :: "nat option"
  hk_entry_index :: "nat option"

definition hook_source_builtin :: "string \<Rightarrow> hook_source" where
  "hook_source_builtin name =
     \<lparr>hk_scope = HsBuiltin, hk_origin = name, hk_group_index = None, hk_entry_index = None\<rparr>"

definition hook_source_env :: "string \<Rightarrow> hook_source" where
  "hook_source_env var = \<lparr>hk_scope = HsEnv, hk_origin = var, hk_group_index = None, hk_entry_index = None\<rparr>"

definition hook_source_file :: "hook_scope \<Rightarrow> string \<Rightarrow> nat \<Rightarrow> nat \<Rightarrow> hook_source" where
  "hook_source_file scope path group_index entry_index =
     \<lparr>hk_scope = scope, hk_origin = path, hk_group_index = Some group_index, hk_entry_index = Some entry_index\<rparr>"

fun hook_scope_prefix :: "hook_scope \<Rightarrow> string" where
  "hook_scope_prefix HsBuiltin = ''builtin''"
| "hook_scope_prefix HsProject = ''project''"
| "hook_scope_prefix HsUser = ''user''"
| "hook_scope_prefix HsEnv = ''env''"

definition hook_id_native :: "string \<Rightarrow> hook_event \<Rightarrow> string" where
  "hook_id_native uuid event = ''native/'' @ uuid @ ''#'' @ hook_event_str event"

definition hook_id_new :: "hook_source \<Rightarrow> hook_event \<Rightarrow> string" where
  "hook_id_new source event =
     hook_scope_prefix (hk_scope source) @ ''/'' @ hk_origin source @ ''#'' @ hook_event_str event @
     (case (hk_group_index source, hk_entry_index source) of
        (Some g, Some e) \<Rightarrow> ''['' @ show_nat g @ '']/'' @ show_nat e
      | _ \<Rightarrow> [])"

datatype hook_kind =
    HkBuiltin string
  | HkCommand string "string list" bool
  | HkHttp string "string list"

datatype hook_failure_policy = HfFail | HfSkip | HfDefault

subsection \<open>Glob patterns\<close>

text \<open>The characters of a text, each with its bytes.\<close>

fun utf8_chars :: "string \<Rightarrow> string list" where
  "utf8_chars [] = []"
| "utf8_chars (c # cs) =
     (case utf8_chars cs of
        [] \<Rightarrow> [[c]]
      | d # ds \<Rightarrow> if is_cont (hd d) then (c # d) # ds else [c] # d # ds)"

text \<open>
  The loop of \<open>glob_matches\<close> over positions in pattern and text; \<open>star\<close> is the position of the last star
  met, with \<open>resume\<close> the text position it is being tried from.
\<close>

partial_function (option) glob_loop ::
  "string list \<Rightarrow> string list \<Rightarrow> nat \<Rightarrow> nat \<Rightarrow> nat option \<Rightarrow> nat \<Rightarrow> bool option" where
  "glob_loop pat txt p t star resume =
     (if t < length txt then
        (if p < length pat \<and> (pat ! p = ''?'' \<or> pat ! p = txt ! t)
         then glob_loop pat txt (p + 1) (t + 1) star resume
         else if p < length pat \<and> pat ! p = ''*''
         then glob_loop pat txt (p + 1) t (Some p) t
         else (case star of
                 Some sp \<Rightarrow> glob_loop pat txt (sp + 1) (resume + 1) star (resume + 1)
               | None \<Rightarrow> Some False))
      else Some (list_all (\<lambda>c. c = ''*'') (drop p pat)))"

definition glob_matches :: "string \<Rightarrow> string \<Rightarrow> bool" where
  "glob_matches pattern s = (glob_loop (utf8_chars pattern) (utf8_chars s) 0 0 None 0 = Some True)"

subsection \<open>Conditions and matchers\<close>

datatype condition_operator = CoRegexMatch | CoContains | CoNotContains | CoEquals | CoPathMatch

record condition =
  cd_field :: string
  cd_operator :: condition_operator
  cd_pattern :: string

definition condition_matches :: "(string \<Rightarrow> string \<Rightarrow> bool) \<Rightarrow> (json \<Rightarrow> string) \<Rightarrow> condition \<Rightarrow> json \<Rightarrow> bool" where
  "condition_matches regex show_json c input =
     (let v = (case jget (cd_field c) input of
                 None \<Rightarrow> []
               | Some (JStr s) \<Rightarrow> s
               | Some other \<Rightarrow> show_json other)
      in case cd_operator c of
           CoRegexMatch \<Rightarrow> regex (cd_pattern c) v
         | CoContains \<Rightarrow> str_contains v (cd_pattern c)
         | CoNotContains \<Rightarrow> \<not> str_contains v (cd_pattern c)
         | CoEquals \<Rightarrow> v = cd_pattern c
         | CoPathMatch \<Rightarrow> glob_matches (cd_pattern c) v)"

record hook_definition =
  hd_id :: string
  hd_event :: hook_event
  hd_source :: hook_source
  hd_order :: int
  hd_matcher :: "string option"
  hd_conditions :: "condition list"
  hd_timeout_ms :: u64
  hd_failure_policy :: hook_failure_policy
  hd_kind :: hook_kind

fun split_bar :: "string \<Rightarrow> string list" where
  "split_bar [] = [[]]"
| "split_bar (c # cs) =
     (if c = CHR ''|'' then [] # split_bar cs
      else (case split_bar cs of [] \<Rightarrow> [[c]] | p # ps \<Rightarrow> (c # p) # ps))"

definition trim_end_stars :: "string \<Rightarrow> string" where
  "trim_end_stars s = rev (dropWhile (\<lambda>c. c = CHR ''*'') (rev s))"

definition tool_pattern_matches :: "string option \<Rightarrow> string option \<Rightarrow> bool" where
  "tool_pattern_matches pattern tool_name =
     (case Option.bind pattern (\<lambda>p. if str_trim p = [] then None else Some p) of
        None \<Rightarrow> True
      | Some p \<Rightarrow>
          (case tool_name of
             None \<Rightarrow> p = ''*''
           | Some name \<Rightarrow>
               list_ex (\<lambda>raw. let candidate = str_trim raw
                               in candidate = ''*'' \<or> candidate = name
                                  \<or> (ends_with candidate ''*'' \<and> starts_with name (trim_end_stars candidate)))
                 (split_bar p)))"

definition applies_to :: "(string \<Rightarrow> string \<Rightarrow> bool) \<Rightarrow> (json \<Rightarrow> string) \<Rightarrow> hook_definition \<Rightarrow> string option \<Rightarrow> json \<Rightarrow> bool" where
  "applies_to regex show_json d tool_name input \<longleftrightarrow>
     tool_pattern_matches (hd_matcher d) tool_name \<and> list_all (\<lambda>c. condition_matches regex show_json c input) (hd_conditions d)"

subsection \<open>The glob loop returns\<close>

text \<open>The positions the loop keeps, and what every step makes smaller.\<close>

definition glob_pos :: "string list \<Rightarrow> nat \<Rightarrow> nat \<Rightarrow> nat option \<Rightarrow> nat \<Rightarrow> bool" where
  "glob_pos pat p t star resume \<longleftrightarrow>
     p \<le> length pat \<and> (case star of Some sp \<Rightarrow> sp < length pat \<and> resume \<le> t | None \<Rightarrow> True)"

definition glob_todo :: "string list \<Rightarrow> string list \<Rightarrow> nat \<Rightarrow> nat option \<Rightarrow> nat \<Rightarrow> nat" where
  "glob_todo pat txt p star resume =
     (case star of None \<Rightarrow> Suc (length txt) | Some _ \<Rightarrow> length txt - resume) * Suc (length pat) + (length pat - p)"

lemma glob_todo_star:
  assumes "t < length txt" and "p < length pat" and "case star of Some sp \<Rightarrow> resume \<le> t | None \<Rightarrow> True"
  shows "glob_todo pat txt (p + 1) (Some q) t < glob_todo pat txt p star resume"
proof -
  have "(length txt - t) * Suc (length pat)
      \<le> (case star of None \<Rightarrow> Suc (length txt) | Some _ \<Rightarrow> length txt - resume) * Suc (length pat)"
    using assms(1,3) by (intro mult_right_mono) (auto split: option.splits)
  moreover have "a \<le> b \<Longrightarrow> a + (length pat - (p + 1)) < b + (length pat - p)" for a b :: nat
    using assms(2) by simp
  ultimately show ?thesis unfolding glob_todo_def option.case by blast
qed

lemma glob_todo_back:
  assumes "t < length txt" and "resume \<le> t"
  shows "glob_todo pat txt (q + 1) (Some sp) (resume + 1) < glob_todo pat txt p (Some sp) resume"
proof -
  have "length txt - resume = Suc (length txt - (resume + 1))" using assms by simp
  then show ?thesis by (simp add: glob_todo_def)
qed

lemma glob_todo_match: "p < length pat \<Longrightarrow> glob_todo pat txt (p + 1) star resume < glob_todo pat txt p star resume"
  by (simp add: glob_todo_def)

text \<open>An induction over the steps of the loop, for any invariant of the positions.\<close>

lemma glob_loop_induct:
  assumes "I p t star resume" and "\<And>p t star resume. I p t star resume \<Longrightarrow> glob_pos pat p t star resume"
    and step: "\<And>p t star resume. I p t star resume \<Longrightarrow> t < length txt \<Longrightarrow>
      (if p < length pat \<and> (pat ! p = ''?'' \<or> pat ! p = txt ! t) then I (p + 1) (t + 1) star resume
       else if p < length pat \<and> pat ! p = ''*'' then I (p + 1) t (Some p) t
       else (case star of Some sp \<Rightarrow> I (sp + 1) (resume + 1) star (resume + 1) | None \<Rightarrow> Q (Some False)))"
    and stop: "\<And>p t star resume. I p t star resume \<Longrightarrow> \<not> t < length txt \<Longrightarrow> Q (Some (list_all (\<lambda>c. c = ''*'') (drop p pat)))"
  shows "Q (glob_loop pat txt p t star resume)"
  using assms(1)
proof (induction "glob_todo pat txt p star resume" arbitrary: p t star resume rule: less_induct)
  case less
  have pos: "glob_pos pat p t star resume" using assms(2) less.prems by blast
  show ?case
  proof (cases "t < length txt")
    case t: True
    note now = step [OF less.prems t]
    consider (char) "p < length pat \<and> (pat ! p = ''?'' \<or> pat ! p = txt ! t)"
      | (star) "\<not> (p < length pat \<and> (pat ! p = ''?'' \<or> pat ! p = txt ! t))" "p < length pat \<and> pat ! p = ''*''"
      | (b) "\<not> (p < length pat \<and> (pat ! p = ''?'' \<or> pat ! p = txt ! t))" "\<not> (p < length pat \<and> pat ! p = ''*'')"
      by blast
    then show ?thesis
    proof cases
      case char
      have "Q (glob_loop pat txt (p + 1) (t + 1) star resume)"
        using now char glob_todo_match [of p pat "txt" star resume] by (intro less.hyps) simp_all
      with char t show ?thesis by (subst glob_loop.simps) auto
    next
      case star
      have "case star of Some sp \<Rightarrow> resume \<le> t | None \<Rightarrow> True" using pos by (simp add: glob_pos_def split: option.splits)
      then have "Q (glob_loop pat txt (p + 1) t (Some p) t)"
        using now star glob_todo_star [OF t, where p = p and pat = pat and star = star and resume = resume and q = p] by (intro less.hyps) simp_all
      with star t show ?thesis by (subst glob_loop.simps) auto
    next
      case b
      show ?thesis
      proof (cases star)
        case None
        with now b t show ?thesis by (subst glob_loop.simps) auto
      next
        case (Some sp)
        have "resume \<le> t" using pos Some by (simp add: glob_pos_def)
        then have "Q (glob_loop pat txt (sp + 1) (resume + 1) star (resume + 1))"
          using now b Some glob_todo_back [OF t, where resume = resume and pat = pat and q = sp and sp = sp and p = p] by (intro less.hyps) simp_all
        with b t Some show ?thesis by (subst glob_loop.simps) auto
      qed
    qed
  next
    case False
    with stop [OF less.prems False] show ?thesis by (subst glob_loop.simps) auto
  qed
qed

text \<open>
  C30: The matching loop of \<open>glob_matches\<close> ends on every pattern and every text, whatever it has matched so far:
  from any position in the pattern, with a remembered star or without, it returns.
\<close>

theorem glob_loop_returns:
  assumes "p \<le> length pat" and "star = None \<or> (\<exists>sp. star = Some sp \<and> sp < length pat \<and> resume \<le> t)"
  shows "glob_loop pat txt p t star resume \<noteq> None"
proof (rule glob_loop_induct [where I = "glob_pos pat" and Q = "\<lambda>x. x \<noteq> None"])
  show "glob_pos pat p t star resume" using assms by (auto simp: glob_pos_def)
qed (auto simp: glob_pos_def split: option.splits)

theorem glob_loop_returns_witness:
  "glob_loop [''*'', ''a''] [''b'', ''a'', ''c''] 1 1 (Some 0) 1 \<noteq> None"
  by (rule glob_loop_returns) simp_all

subsection \<open>What a pattern matches\<close>

fun glob_spec :: "string list \<Rightarrow> string list \<Rightarrow> bool" where
  "glob_spec [] s = (s = [])"
| "glob_spec (c # pat) s =
     (if c = ''*'' then list_ex (\<lambda>k. glob_spec pat (drop k s)) [0..<Suc (length s)]
      else s \<noteq> [] \<and> (c = ''?'' \<or> c = hd s) \<and> glob_spec pat (tl s))"

lemma glob_spec_star: "glob_spec (''*'' # pat) s \<longleftrightarrow> (\<exists>k\<le>length s. glob_spec pat (drop k s))"
  by (auto simp: list_ex_iff less_Suc_eq_le simp del: upt_Suc)

lemma glob_spec_Nil: "glob_spec pat [] \<longleftrightarrow> list_all (\<lambda>c. c = ''*'') pat"
  by (induction pat) (auto simp: list_ex_iff)

lemma glob_spec_plain:
  "list_all (\<lambda>c. c \<noteq> ''*'') seg \<Longrightarrow> glob_spec (seg @ pat) s \<Longrightarrow>
     length seg \<le> length s \<and> glob_spec pat (drop (length seg) s)"
proof (induction seg arbitrary: s)
  case (Cons c seg)
  then show ?case by (cases s) auto
qed simp

text \<open>
  The text matches if what is left of the pattern matches what is left of the text, or if the last star
  can swallow more than it does; an earlier star need not be reconsidered.
\<close>

definition glob_inv :: "string list \<Rightarrow> string list \<Rightarrow> nat \<Rightarrow> nat \<Rightarrow> nat option \<Rightarrow> nat \<Rightarrow> bool" where
  "glob_inv pat txt p t star resume \<longleftrightarrow> p \<le> length pat \<and> t \<le> length txt \<and>
     (case star of
        None \<Rightarrow> glob_spec pat txt = glob_spec (drop p pat) (drop t txt)
      | Some sp \<Rightarrow> sp < p \<and> t = resume + (p - Suc sp) \<and>
          list_all (\<lambda>c. c \<noteq> ''*'') (take (p - Suc sp) (drop (Suc sp) pat)) \<and>
          (glob_spec pat txt \<longleftrightarrow> glob_spec (drop p pat) (drop t txt)
             \<or> (\<exists>k. resume < k \<and> k \<le> length txt \<and> glob_spec (drop (Suc sp) pat) (drop k txt))))"

lemma seg_split:
  "sp < p \<Longrightarrow> p \<le> length pat \<Longrightarrow> drop (Suc sp) pat = take (p - Suc sp) (drop (Suc sp) pat) @ drop p pat"
proof -
  assume "sp < p" "p \<le> length pat"
  then have "drop p pat = drop (p - Suc sp) (drop (Suc sp) pat)" by simp
  then show ?thesis by (metis append_take_drop_id)
qed

text \<open>A later start of the segment behind the last star leaves a later rest.\<close>

lemma later_rest:
  assumes "sp < p" and "p \<le> length pat" and "list_all (\<lambda>c. c \<noteq> ''*'') (take (p - Suc sp) (drop (Suc sp) pat))"
    and "k \<le> length txt" and "glob_spec (drop (Suc sp) pat) (drop k txt)"
  shows "k + (p - Suc sp) \<le> length txt \<and> glob_spec (drop p pat) (drop (k + (p - Suc sp)) txt)"
proof -
  let ?seg = "take (p - Suc sp) (drop (Suc sp) pat)"
  have len: "length ?seg = p - Suc sp" using assms(1,2) by simp
  have "glob_spec (?seg @ drop p pat) (drop k txt)" using assms(5) seg_split [OF assms(1,2)] by simp
  from glob_spec_plain [OF assms(3) this] len
  have a: "p - Suc sp \<le> length txt - k" and g: "glob_spec (drop p pat) (drop (p - Suc sp) (drop k txt))" by simp_all
  from a assms(4) have "k + (p - Suc sp) \<le> length txt" by linarith
  with g show ?thesis by (simp add: add.commute)
qed

lemma glob_inv_match:
  assumes "glob_inv pat txt p t star resume" and "t < length txt" and "p < length pat" and "pat ! p \<noteq> ''*''"
    and "pat ! p = ''?'' \<or> pat ! p = txt ! t"
  shows "glob_inv pat txt (p + 1) (t + 1) star resume"
proof -
  have dp: "drop p pat = pat ! p # drop (Suc p) pat" "drop t txt = txt ! t # drop (Suc t) txt"
    using assms(2,3) by (simp_all add: Cons_nth_drop_Suc)
  have same: "glob_spec (drop p pat) (drop t txt) = glob_spec (drop (Suc p) pat) (drop (Suc t) txt)"
    unfolding dp using assms(4,5) by auto
  show ?thesis
  proof (cases star)
    case None
    with assms same show ?thesis by (simp add: glob_inv_def)
  next
    case (Some sp)
    with assms(1) have sp: "sp < p" by (simp add: glob_inv_def)
    then have "take (Suc p - Suc sp) (drop (Suc sp) pat) = take (p - Suc sp) (drop (Suc sp) pat) @ [pat ! p]"
    proof -
      have "Suc p - Suc sp = Suc (p - Suc sp)" "p - Suc sp < length (drop (Suc sp) pat)"
        "drop (Suc sp) pat ! (p - Suc sp) = pat ! p" using sp assms(3) by simp_all
      then show ?thesis using take_Suc_conv_app_nth [of "p - Suc sp" "drop (Suc sp) pat"] by simp
    qed
    with assms same Some sp show ?thesis by (auto simp: glob_inv_def)
  qed
qed

lemma glob_inv_star:
  assumes "glob_inv pat txt p t star resume" and "p < length pat" and "pat ! p = ''*''"
  shows "glob_inv pat txt (p + 1) t (Some p) t"
proof -
  have t: "t \<le> length txt" using assms(1) by (simp add: glob_inv_def)
  have dp: "drop p pat = ''*'' # drop (Suc p) pat" using assms(2,3) by (simp add: Cons_nth_drop_Suc [symmetric])
  have star_now: "glob_spec (drop p pat) (drop t txt) \<longleftrightarrow>
      (\<exists>k. t \<le> k \<and> k \<le> length txt \<and> glob_spec (drop (Suc p) pat) (drop k txt))"
    unfolding dp glob_spec_star
  proof (rule iffI; elim exE conjE)
    fix k assume k: "k \<le> length (drop t txt)" "glob_spec (drop (Suc p) pat) (drop k (drop t txt))"
    then have "k + t \<le> length txt" using t by simp
    with k show "\<exists>k. t \<le> k \<and> k \<le> length txt \<and> glob_spec (drop (Suc p) pat) (drop k txt)"
      by (intro exI [of _ "k + t"]) simp
  next
    fix k assume "t \<le> k" "k \<le> length txt" "glob_spec (drop (Suc p) pat) (drop k txt)"
    then show "\<exists>k\<le>length (drop t txt). glob_spec (drop (Suc p) pat) (drop k (drop t txt))"
      by (intro exI [of _ "k - t"]) simp
  qed
  have old: "\<exists>k. t \<le> k \<and> k \<le> length txt \<and> glob_spec (drop (Suc p) pat) (drop k txt)"
    if "star = Some sp" "resume < k" "k \<le> length txt" "glob_spec (drop (Suc sp) pat) (drop k txt)" for sp k
  proof -
    from assms(1) that(1) have i: "sp < p" "t = resume + (p - Suc sp)"
      "list_all (\<lambda>c. c \<noteq> ''*'') (take (p - Suc sp) (drop (Suc sp) pat))" by (simp_all add: glob_inv_def)
    from later_rest [OF i(1) _ i(3) that(3,4)] assms(2)
    have l: "k + (p - Suc sp) \<le> length txt" "glob_spec (''*'' # drop (Suc p) pat) (drop (k + (p - Suc sp)) txt)"
      using dp by simp_all
    then obtain j where "j \<le> length txt - (k + (p - Suc sp))" "glob_spec (drop (Suc p) pat) (drop (k + (p - Suc sp) + j) txt)"
      unfolding glob_spec_star by (auto simp: add.commute)
    with l(1) i(2) that(2) show ?thesis by (intro exI [of _ "k + (p - Suc sp) + j"]) auto
  qed
  have all: "glob_spec pat txt \<longleftrightarrow> (\<exists>k. t \<le> k \<and> k \<le> length txt \<and> glob_spec (drop (Suc p) pat) (drop k txt))"
    using assms(1) star_now old by (cases star) (auto simp: glob_inv_def)
  then have "glob_spec pat txt \<longleftrightarrow> glob_spec (drop (Suc p) pat) (drop t txt)
      \<or> (\<exists>k. t < k \<and> k \<le> length txt \<and> glob_spec (drop (Suc p) pat) (drop k txt))"
    using t by (auto simp: le_less)
  with assms(2) t show ?thesis by (simp add: glob_inv_def)
qed

lemma ex_greater_Suc: "(\<exists>k. r < k \<and> P k) \<longleftrightarrow> P (Suc r) \<or> (\<exists>k. Suc r < k \<and> P k)"
proof (rule iffI)
  assume "\<exists>k. r < k \<and> P k"
  then obtain k where "r < k" "P k" by blast
  then show "P (Suc r) \<or> (\<exists>k. Suc r < k \<and> P k)" by (cases "k = Suc r") auto
next
  assume "P (Suc r) \<or> (\<exists>k. Suc r < k \<and> P k)"
  then show "\<exists>k. r < k \<and> P k"
  proof
    assume "P (Suc r)"
    then show ?thesis by blast
  next
    assume "\<exists>k. Suc r < k \<and> P k"
    then obtain k where "Suc r < k" "P k" by blast
    then show ?thesis by (intro exI [of _ k]) simp
  qed
qed

lemma glob_inv_mismatch:
  assumes "glob_inv pat txt p t star resume" and "t < length txt"
    and "\<not> (p < length pat \<and> (pat ! p = ''?'' \<or> pat ! p = txt ! t))" and "\<not> (p < length pat \<and> pat ! p = ''*'')"
  shows "case star of Some sp \<Rightarrow> glob_inv pat txt (sp + 1) (resume + 1) star (resume + 1)
         | None \<Rightarrow> \<not> glob_spec pat txt"
proof -
  have dt: "drop t txt = txt ! t # drop (Suc t) txt" using assms(2) by (simp add: Cons_nth_drop_Suc)
  have no: "\<not> glob_spec (drop p pat) (drop t txt)"
  proof (cases "p < length pat")
    case True
    then have "drop p pat = pat ! p # drop (Suc p) pat" by (simp add: Cons_nth_drop_Suc)
    with True assms(3,4) dt show ?thesis by auto
  qed (use dt in simp)
  show ?thesis
  proof (cases star)
    case None
    with assms(1) no show ?thesis by (simp add: glob_inv_def)
  next
    case (Some sp)
    with assms(1,2) no have i: "sp < p" "p \<le> length pat" "resume < length txt"
      "glob_spec pat txt \<longleftrightarrow> (\<exists>k. resume < k \<and> k \<le> length txt \<and> glob_spec (drop (Suc sp) pat) (drop k txt))"
      by (auto simp: glob_inv_def)
    have "(\<exists>k. resume < k \<and> k \<le> length txt \<and> glob_spec (drop (Suc sp) pat) (drop k txt)) \<longleftrightarrow>
      glob_spec (drop (Suc sp) pat) (drop (Suc resume) txt) \<or>
      (\<exists>k. Suc resume < k \<and> k \<le> length txt \<and> glob_spec (drop (Suc sp) pat) (drop k txt))"
      using i(3) ex_greater_Suc [of resume "\<lambda>k. k \<le> length txt \<and> glob_spec (drop (Suc sp) pat) (drop k txt)"] by simp
    with i Some show ?thesis by (simp add: glob_inv_def)
  qed
qed

lemma glob_inv_end:
  assumes "glob_inv pat txt p t star resume" and "\<not> t < length txt"
  shows "glob_spec pat txt = list_all (\<lambda>c. c = ''*'') (drop p pat)"
proof -
  from assms have t: "t = length txt" "p \<le> length pat" by (simp_all add: glob_inv_def)
  show ?thesis
  proof (cases star)
    case None
    with assms(1) t show ?thesis by (simp add: glob_inv_def glob_spec_Nil)
  next
    case (Some sp)
    with assms(1) have i: "sp < p" "t = resume + (p - Suc sp)"
      "list_all (\<lambda>c. c \<noteq> ''*'') (take (p - Suc sp) (drop (Suc sp) pat))"
      "glob_spec pat txt \<longleftrightarrow> glob_spec (drop p pat) (drop t txt)
             \<or> (\<exists>k. resume < k \<and> k \<le> length txt \<and> glob_spec (drop (Suc sp) pat) (drop k txt))"
      by (simp_all add: glob_inv_def)
    have "\<not> (resume < k \<and> k \<le> length txt \<and> glob_spec (drop (Suc sp) pat) (drop k txt))" for k
    proof
      assume k: "resume < k \<and> k \<le> length txt \<and> glob_spec (drop (Suc sp) pat) (drop k txt)"
      with later_rest [OF i(1) t(2) i(3), of k "txt"] have "k + (p - Suc sp) \<le> length txt" by blast
      with k i(2) t(1) show False by linarith
    qed
    with i(4) t(1) show ?thesis by (simp add: glob_spec_Nil)
  qed
qed

lemma glob_inv_step:
  assumes "''*'' \<notin> set txt" and "glob_inv pat txt p t star resume" and "t < length txt"
  shows "if p < length pat \<and> (pat ! p = ''?'' \<or> pat ! p = txt ! t) then glob_inv pat txt (p + 1) (t + 1) star resume
       else if p < length pat \<and> pat ! p = ''*'' then glob_inv pat txt (p + 1) t (Some p) t
       else (case star of Some sp \<Rightarrow> glob_inv pat txt (sp + 1) (resume + 1) star (resume + 1)
             | None \<Rightarrow> Some False = Some (glob_spec pat txt))"
proof -
  have "txt ! t \<noteq> ''*''" using assms(1,3) nth_mem by metis
  then have "pat ! p = ''?'' \<or> pat ! p = txt ! t \<Longrightarrow> pat ! p \<noteq> ''*''" by auto
  with glob_inv_match [OF assms(2,3)] glob_inv_star [OF assms(2)] glob_inv_mismatch [OF assms(2,3)]
  show ?thesis by (auto split: option.splits)
qed

lemma glob_loop_spec:
  assumes "''*'' \<notin> set txt"
  shows "glob_loop pat txt 0 0 None 0 = Some (glob_spec pat txt)"
proof (rule glob_loop_induct [where I = "glob_inv pat txt" and Q = "\<lambda>x. x = Some (glob_spec pat txt)"])
  show "glob_inv pat txt 0 0 None 0" by (simp add: glob_inv_def)
next
  fix p t star resume assume "glob_inv pat txt p t star resume"
  then show "glob_pos pat p t star resume" by (auto simp: glob_inv_def glob_pos_def split: option.splits)
next
  fix p t star resume assume "glob_inv pat txt p t star resume" "t < length txt"
  from glob_inv_step [OF assms this]
  show "if p < length pat \<and> (pat ! p = ''?'' \<or> pat ! p = txt ! t) then glob_inv pat txt (p + 1) (t + 1) star resume
       else if p < length pat \<and> pat ! p = ''*'' then glob_inv pat txt (p + 1) t (Some p) t
       else (case star of Some sp \<Rightarrow> glob_inv pat txt (sp + 1) (resume + 1) star (resume + 1)
             | None \<Rightarrow> Some False = Some (glob_spec pat txt))" .
next
  fix p t star resume assume "glob_inv pat txt p t star resume" "\<not> t < length txt"
  from glob_inv_end [OF this]
  show "Some (list_all (\<lambda>c. c = ''*'') (drop p pat)) = Some (glob_spec pat txt)" by simp
qed

lemma utf8_chars_concat: "concat (utf8_chars s) = s"
  by (induction s) (auto split: list.splits)

lemma utf8_chars_member: "[c] \<in> set (utf8_chars s) \<Longrightarrow> c \<in> set s"
  using utf8_chars_concat [of s] by (metis UN_I list.set_intros(1) set_concat)

text \<open>
  C29: On a text without \<open>*\<close> (on others it need not: \<open>star_pattern_misses_star_text\<close>) \<open>glob_matches\<close> answers exactly
  as the declarative reading of the pattern: a star
  stands for any run of characters, a question mark for one, everything else for itself, so giving up all
  but the last star loses no match.
\<close>

theorem glob_matches_exact:
  assumes "CHR ''*'' \<notin> set s"
  shows "glob_matches pattern s = glob_spec (utf8_chars pattern) (utf8_chars s)"
proof -
  have "''*'' \<notin> set (utf8_chars s)" using utf8_chars_member assms by blast
  from glob_loop_spec [OF this] show ?thesis by (simp add: glob_matches_def)
qed

theorem glob_matches_exact_witness:
  "glob_matches ''a*b?'' ''axbybz'' = glob_spec (utf8_chars ''a*b?'') (utf8_chars ''axbybz'')
   \<and> glob_spec (utf8_chars ''a*b?'') (utf8_chars ''axbybz'')"
proof -
  have "glob_spec (utf8_chars ''a*b?'') (utf8_chars ''axbybz'')" by code_simp
  with glob_matches_exact [of "''axbybz''" "''a*b?''"] show ?thesis by simp
qed

text \<open>
  On a text with a star a star of the pattern is compared before it is read as a wildcard: a pattern \<open>*\<close>
  rejects every longer text that begins with a star, although it stands for any text.
\<close>

theorem star_pattern_misses_star_text:
  assumes "\<not> is_cont c"
  shows "\<not> glob_matches ''*'' (CHR ''*'' # c # s) \<and> glob_spec (utf8_chars ''*'') (utf8_chars (CHR ''*'' # c # s))"
proof -
  have star: "utf8_chars ''*'' = [''*'']" by simp
  obtain d ds where d: "utf8_chars (CHR ''*'' # c # s) = ''*'' # d # ds"
  proof (cases "utf8_chars (c # s)")
    case Nil
    then show ?thesis by (auto split: list.splits if_splits)
  next
    case (Cons e es)
    have "hd e = c" using Cons by (auto split: list.splits if_splits)
    with assms Cons that show ?thesis by simp
  qed
  have "glob_loop [''*''] (''*'' # d # ds) 0 0 None 0 = glob_loop [''*''] (''*'' # d # ds) 1 1 None 0"
    by (subst glob_loop.simps) simp
  also have "\<dots> = Some False" by (subst glob_loop.simps) simp
  finally have "\<not> glob_matches ''*'' (CHR ''*'' # c # s)" by (simp only: glob_matches_def star d) simp
  moreover have "glob_spec (utf8_chars ''*'') (utf8_chars (CHR ''*'' # c # s))"
    unfolding star d glob_spec_star by (intro exI [of _ "length (''*'' # d # ds)"]) simp
  ultimately show ?thesis by blast
qed

theorem star_pattern_misses_star_text_witness:
  "\<not> glob_matches ''*'' ''*.rs'' \<and> glob_spec (utf8_chars ''*'') (utf8_chars ''*.rs'')"
  using star_pattern_misses_star_text [of "CHR ''.''" "''rs''"] by (simp add: is_cont_def)

subsection \<open>Identities\<close>

lemma split_at_first:
  "a \<notin> set xs \<Longrightarrow> a \<notin> set xs' \<Longrightarrow> xs @ a # ys = xs' @ a # ys' \<Longrightarrow> xs = xs' \<and> ys = ys'"
proof (induction xs arbitrary: xs')
  case Nil
  then show ?case by (cases xs') auto
next
  case (Cons x xs)
  then show ?case by (cases xs') auto
qed

lemma split_at_last:
  assumes "a \<notin> set ys" and "a \<notin> set ys'" and "xs @ a # ys = xs' @ a # ys'"
  shows "xs = xs' \<and> ys = ys'"
proof -
  have "rev ys @ a # rev xs = rev ys' @ a # rev xs'" using arg_cong [OF assms(3), of rev] by simp
  from split_at_first [OF _ _ this] assms(1,2) show ?thesis by simp
qed

definition digit_chars :: string where
  "digit_chars = ''0123456789''"

lemma digit_char:
  assumes "n < 10"
  shows "char_of (48 + n) \<in> set digit_chars" "of_char (char_of (48 + n :: nat) :: char) = 48 + n"
proof -
  have "list_all (\<lambda>n. char_of (48 + n) \<in> set digit_chars \<and> (of_char (char_of (48 + n) :: char) :: nat) = 48 + n) [0..<10]"
    by code_simp
  with assms have "char_of (48 + n) \<in> set digit_chars \<and> of_char (char_of (48 + n) :: char) = 48 + n"
    unfolding list_all_iff by simp
  then show "char_of (48 + n) \<in> set digit_chars" "of_char (char_of (48 + n) :: char) = 48 + n" by blast+
qed

lemma show_nat_digits: "set (show_nat n) \<subseteq> set digit_chars"
proof (induction n rule: show_nat.induct)
  case (1 n)
  then show ?case using digit_char [of "n mod 10"] digit_char [of n]
    by (cases "n < 10") (simp_all add: show_nat.simps [of n])
qed

definition read_nat :: "string \<Rightarrow> nat" where
  "read_nat s = foldl (\<lambda>v c. 10 * v + (of_char c - 48)) 0 s"

lemma read_show_nat: "read_nat (show_nat n) = n"
proof (induction n rule: show_nat.induct)
  case (1 n)
  show ?case
  proof (cases "n < 10")
    case True
    then show ?thesis using digit_char [of n] by (simp add: show_nat.simps [of n] read_nat_def)
  next
    case False
    with "1.IH" show ?thesis using digit_char [of "n mod 10"]
      by (simp add: show_nat.simps [of n] read_nat_def)
  qed
qed

lemma show_nat_inject: "show_nat a = show_nat b \<Longrightarrow> a = b"
  by (metis read_show_nat)

lemma hook_event_cases: "list_all P all_hook_events \<Longrightarrow> P e"
  by (cases e) (simp_all add: all_hook_events_def)

lemma hook_event_roundtrip: "hook_event_parse (hook_event_str e) = Some e"
proof -
  have "list_all (\<lambda>e. hook_event_parse (hook_event_str e) = Some e) all_hook_events" by code_simp
  then show ?thesis by (rule hook_event_cases)
qed

lemma hook_event_str_inject: "hook_event_str e = hook_event_str e' \<Longrightarrow> e = e'"
  by (metis hook_event_roundtrip option.inject)

lemma hook_event_str_chars: "CHR ''#'' \<notin> set (hook_event_str e)" "CHR ''['' \<notin> set (hook_event_str e)"
proof -
  have "list_all (\<lambda>e. CHR ''#'' \<notin> set (hook_event_str e)) all_hook_events"
    "list_all (\<lambda>e. CHR ''['' \<notin> set (hook_event_str e)) all_hook_events" by code_simp+
  from this [THEN hook_event_cases] show "CHR ''#'' \<notin> set (hook_event_str e)" "CHR ''['' \<notin> set (hook_event_str e)"
    by blast+
qed

lemma hook_scope_prefix_slash: "CHR ''/'' \<notin> set (hook_scope_prefix s)"
  by (cases s) simp_all

lemma hook_scope_prefix_inject: "hook_scope_prefix s = hook_scope_prefix s' \<Longrightarrow> s = s'"
  by (cases s; cases s') simp_all

text \<open>Sources as the code makes them: both indices or none.\<close>

definition source_ok :: "hook_source \<Rightarrow> bool" where
  "source_ok s \<longleftrightarrow> (hk_group_index s = None) = (hk_entry_index s = None)"

definition id_tail :: "hook_source \<Rightarrow> string" where
  "id_tail s = (case (hk_group_index s, hk_entry_index s) of
        (Some g, Some e) \<Rightarrow> ''['' @ show_nat g @ '']/'' @ show_nat e
      | _ \<Rightarrow> [])"

lemma id_tail_inject:
  assumes "id_tail s = id_tail s'" and "source_ok s" and "source_ok s'"
  shows "hk_group_index s = hk_group_index s' \<and> hk_entry_index s = hk_entry_index s'"
proof -
  have no: "CHR '']'' \<notin> set (show_nat n)" for n using show_nat_digits [of n] by (auto simp: digit_chars_def)
  have "g = g' \<and> e = e'" if "show_nat g @ CHR '']'' # CHR ''/'' # show_nat e = show_nat g' @ CHR '']'' # CHR ''/'' # show_nat e'"
    for g e g' e'
    using split_at_first [OF no no that] show_nat_inject by auto
  note both = this
  show ?thesis
  proof (cases "hk_group_index s")
    case None
    with assms show ?thesis
      by (cases "hk_group_index s'"; cases "hk_entry_index s'") (simp_all add: id_tail_def source_ok_def)
  next
    case (Some g)
    then obtain e where e: "hk_entry_index s = Some e" using assms(2) by (auto simp: source_ok_def)
    obtain g' e' where g': "hk_group_index s' = Some g'" "hk_entry_index s' = Some e'"
      using assms(1,3) Some e
      by (cases "hk_group_index s'"; cases "hk_entry_index s'") (simp_all add: id_tail_def source_ok_def)
    with assms(1) Some e have "show_nat g @ CHR '']'' # CHR ''/'' # show_nat e = show_nat g' @ CHR '']'' # CHR ''/'' # show_nat e'"
      by (simp add: id_tail_def)
    from both [OF this] Some e g' show ?thesis by simp
  qed
qed

text \<open>
  The identity of a hook determines its provenance and its event, whatever characters the origin has: two
  hooks of different files, positions or events never share an id.
\<close>

theorem hook_id_collision_free:
  assumes "hook_id_new s e = hook_id_new s' e'" and "source_ok s" and "source_ok s'"
  shows "s = s' \<and> e = e'"
proof -
  have id: "hook_id_new s e = hook_scope_prefix (hk_scope s) @ CHR ''/'' # (hk_origin s @ CHR ''#'' # hook_event_str e @ id_tail s)"
    for s e by (simp add: hook_id_new_def id_tail_def)
  from assms(1) have "hook_scope_prefix (hk_scope s) = hook_scope_prefix (hk_scope s')"
    and rest: "hk_origin s @ CHR ''#'' # hook_event_str e @ id_tail s = hk_origin s' @ CHR ''#'' # hook_event_str e' @ id_tail s'"
    unfolding id using split_at_first [OF hook_scope_prefix_slash hook_scope_prefix_slash] by blast+
  then have scope: "hk_scope s = hk_scope s'" using hook_scope_prefix_inject by blast
  have no: "CHR ''#'' \<notin> set (hook_event_str e @ id_tail s)" for s e
    using hook_event_str_chars(1) [of e] show_nat_digits
    by (fastforce simp: id_tail_def digit_chars_def split: option.splits)
  from split_at_last [OF no no rest] have origin: "hk_origin s = hk_origin s'"
    and tl: "hook_event_str e @ id_tail s = hook_event_str e' @ id_tail s'" by blast+
  have tail: "id_tail s = [] \<or> (\<exists>r. id_tail s = CHR ''['' # r)" for s by (auto simp: id_tail_def split: option.splits)
  have "hook_event_str e = takeWhile (\<lambda>c. c \<noteq> CHR ''['') (hook_event_str e @ id_tail s)" for s e
  proof -
    have "takeWhile (\<lambda>c. c \<noteq> CHR ''['') (hook_event_str e @ id_tail s)
        = hook_event_str e @ takeWhile (\<lambda>c. c \<noteq> CHR ''['') (id_tail s)"
      by (rule takeWhile_append2) (use hook_event_str_chars(2) [of e] in auto)
    moreover have "takeWhile (\<lambda>c. c \<noteq> CHR ''['') (id_tail s) = []" using tail [of s] by auto
    ultimately show ?thesis by simp
  qed
  with tl have ev: "hook_event_str e = hook_event_str e'" by metis
  with tl have "id_tail s = id_tail s'" by simp
  from id_tail_inject [OF this assms(2,3)] scope origin hook_event_str_inject [OF ev] show ?thesis by simp
qed

theorem hook_id_collision_free_witness:
  "hook_id_new (hook_source_file HsProject ''a#Stop'' 0 12) HePreToolUse = ''project/a#Stop#PreToolUse[0]/12''
   \<and> hook_source_file HsProject ''a#Stop'' 0 12 = hook_source_file HsProject ''a#Stop'' 0 12"
proof -
  have "hook_id_new (hook_source_file HsProject ''a#Stop'' 0 12) HePreToolUse = ''project/a#Stop#PreToolUse[0]/12''"
    by code_simp
  with hook_id_collision_free [of "hook_source_file HsProject ''a#Stop'' 0 12" HePreToolUse
      "hook_source_file HsProject ''a#Stop'' 0 12" HePreToolUse] show ?thesis by (simp add: source_ok_def hook_source_file_def)
qed

end
