(* ===== verification/Hooks.thy ===== *)
theory Hooks
  imports HookModel EventSeq Redact
begin

section \<open>The hook runtime\<close>

text \<open>
  Models the runtime of \<open>crates/agent-core/src/hooks.rs\<close>: the registry, the dispatch of a request to the
  matching hooks with its two telemetry events per hook, the resolution of failures and the three ways
  the outcomes are folded. What a handler answers is an argument of its registration (the handlers run
  commands, HTTP calls or code of the embedder), as are regular expressions and the printers. A
  dispatch that panics (in the redaction of the telemetry, or in the sequencer) is \<open>None\<close>.
\<close>

subsection \<open>Outcomes\<close>

datatype hook_decision = HdAllow | HdDeny string | HdModify json | HdInject "string list"

datatype permission_verdict = VdAllow string | VdAsk string

datatype hook_outcome = HoDecided hook_decision | HoPermission permission_verdict | HoFailed string

fun into_response :: "hook_outcome \<Rightarrow> hook_decision" where
  "into_response (HoDecided d) = d"
| "into_response (HoPermission _) = HdAllow"
| "into_response (HoFailed reason) = HdDeny reason"

datatype permission_aggregate = PaDeny string | PaPrompt | PaAutoApprove string

record hook_request =
  rq_event :: hook_event
  rq_run_id :: string
  rq_tool_name :: "string option"
  rq_input :: json

record hook_handler =
  hh_matches_tool :: "string option \<Rightarrow> bool"
  hh_outcome :: "hook_request \<Rightarrow> hook_outcome"

record registered =
  rg_definition :: hook_definition
  rg_handler :: hook_handler

record 'p hook_registry =
  hr_entries :: "hook_event \<Rightarrow> registered list"
  hr_fail_closed :: bool
  hr_events :: "'p sequencer option"

definition hook_registry_new :: "'p hook_registry" where
  "hook_registry_new = \<lparr>hr_entries = (\<lambda>_. []), hr_fail_closed = False, hr_events = None\<rparr>"

definition with_events :: "'p sequencer \<Rightarrow> 'p hook_registry \<Rightarrow> 'p hook_registry" where
  "with_events s r = r\<lparr>hr_events := Some s\<rparr>"

definition enable_security_fail_closed :: "'p hook_registry \<Rightarrow> 'p hook_registry" where
  "enable_security_fail_closed r = r\<lparr>hr_fail_closed := True\<rparr>"

definition register_defined :: "hook_definition \<Rightarrow> hook_handler \<Rightarrow> 'p hook_registry \<Rightarrow> 'p hook_registry" where
  "register_defined d h r =
     r\<lparr>hr_entries := (hr_entries r)(hd_event d := hr_entries r (hd_event d) @ [\<lparr>rg_definition = d, rg_handler = h\<rparr>])\<rparr>"

definition register_hook :: "hook_event \<Rightarrow> hook_handler \<Rightarrow> 'p hook_registry \<Rightarrow> 'p hook_registry" where
  "register_hook event h r =
     (let ordinal = length (hr_entries r event);
          source = hook_source_builtin (''ad-hoc/'' @ show_nat ordinal)
      in register_defined
           \<lparr>hd_id = hook_id_new source event, hd_event = event, hd_source = source, hd_order = int ordinal,
            hd_matcher = None, hd_conditions = [], hd_timeout_ms = 0, hd_failure_policy = HfFail,
            hd_kind = HkBuiltin ''ad-hoc''\<rparr> h r)"

definition describe_event :: "'p hook_registry \<Rightarrow> hook_event \<Rightarrow> hook_definition list" where
  "describe_event r event = List.map rg_definition (hr_entries r event)"

definition describe :: "'p hook_registry \<Rightarrow> hook_definition list" where
  "describe r = concat (List.map (describe_event r) all_hook_events)"

subsection \<open>Dispatch\<close>

definition resolve_failure :: "hook_event \<Rightarrow> hook_failure_policy \<Rightarrow> string \<Rightarrow> string \<Rightarrow> hook_outcome option" where
  "resolve_failure event policy hook_id reason =
     (if is_security_sensitive event
      then Some (HoDecided (HdDeny (''hook '' @ hook_id @ '' failed on a security event: '' @ reason)))
      else (case policy of
              HfFail \<Rightarrow> Some (HoDecided (HdDeny reason))
            | HfSkip \<Rightarrow> None
            | HfDefault \<Rightarrow> Some (HoDecided HdAllow)))"

text \<open>Printers, matching, and per hook the invocation id, the stamps of its two events and its duration.\<close>

record hook_env =
  hv_regex :: "string \<Rightarrow> string \<Rightarrow> bool"
  hv_json :: "json \<Rightarrow> string"
  hv_debug_decision :: "hook_decision \<Rightarrow> string"
  hv_debug_verdict :: "permission_verdict \<Rightarrow> string"
  hv_debug_tool :: "string option \<Rightarrow> string"
  hv_uuid :: "nat \<Rightarrow> string"
  hv_stamp_started :: "nat \<Rightarrow> string \<times> string"
  hv_stamp_completed :: "nat \<Rightarrow> string \<times> string"
  hv_duration :: "nat \<Rightarrow> u64"

text \<open>Publishing one event, if there is a sequencer: whether it was appended, and the sequencer after.\<close>

definition hook_emit :: "string \<times> string \<Rightarrow> string \<Rightarrow> run_event_kind \<Rightarrow> 'p sequencer option
    \<Rightarrow> (bool \<times> 'p sequencer option) option" where
  "hook_emit stamp run_id payload events =
     (case events of
        None \<Rightarrow> Some (True, None)
      | Some s \<Rightarrow> map_option (\<lambda>(r, s'). (\<not> isl r, Some s')) (append_checked stamp run_id payload s))"

definition hook_applies :: "hook_env \<Rightarrow> hook_request \<Rightarrow> registered \<Rightarrow> bool" where
  "hook_applies env req entry \<longleftrightarrow>
     applies_to (hv_regex env) (hv_json env) (rg_definition entry) (rq_tool_name req) (rq_input req)
     \<and> hh_matches_tool (rg_handler entry) (rq_tool_name req)"

definition hook_started :: "hook_env \<Rightarrow> hook_request \<Rightarrow> nat \<Rightarrow> hook_definition \<Rightarrow> string \<Rightarrow> run_event_kind" where
  "hook_started env req n d summary =
     EvHookInvocationStarted (hv_uuid env n) (hd_id d) (hook_event_str (rq_event req)) (hk_origin (hd_source d))
       (word_of_nat n) summary (chars_count (hv_json env (rq_input req)) > 512)"

text \<open>Status, effective decision, error category and summary of an outcome.\<close>

definition outcome_report :: "hook_env \<Rightarrow> hook_outcome \<Rightarrow> (string \<times> string option \<times> string option \<times> string) option" where
  "outcome_report env outcome =
     (case outcome of
        HoDecided d \<Rightarrow> Some (''completed'', Some (hv_debug_decision env d), None, ''decision'')
      | HoPermission v \<Rightarrow> Some (''completed'', Some (hv_debug_verdict env v), None, ''permission'')
      | HoFailed reason \<Rightarrow>
          map_option (\<lambda>s. (''failed'', None, Some ''handler_failure'', s)) (redact_secrets (take_chars 512 reason)))"

definition hook_completed :: "hook_env \<Rightarrow> hook_request \<Rightarrow> nat \<Rightarrow> hook_definition
    \<Rightarrow> string \<times> string option \<times> string option \<times> string \<Rightarrow> run_event_kind" where
  "hook_completed env req n d report =
     (case report of (status, decision, category, summary) \<Rightarrow>
        EvHookInvocationCompleted (hv_uuid env n) (hd_id d) (hook_event_str (rq_event req)) (hk_origin (hd_source d))
          (word_of_nat n) status decision category (hv_duration env n) (take_chars 512 summary)
          (chars_count summary > 512))"

definition resolved :: "hook_request \<Rightarrow> hook_definition \<Rightarrow> hook_outcome \<Rightarrow> hook_outcome list" where
  "resolved req d outcome =
     (case outcome of
        HoFailed reason \<Rightarrow>
          (case resolve_failure (rq_event req) (hd_failure_policy d) (hd_id d) reason of Some o1 \<Rightarrow> [o1] | None \<Rightarrow> [])
      | other \<Rightarrow> [other])"

fun dispatch_entries :: "hook_env \<Rightarrow> hook_request \<Rightarrow> nat \<Rightarrow> registered list \<Rightarrow> 'p sequencer option
    \<Rightarrow> hook_outcome list \<Rightarrow> (hook_outcome list \<times> 'p sequencer option) option" where
  "dispatch_entries env req n [] events out = Some (out, events)"
| "dispatch_entries env req n (entry # entries) events out =
     (if \<not> hook_applies env req entry then dispatch_entries env req (n + 1) entries events out
      else Option.bind (redact_secrets (take_chars 512 (hv_json env (rq_input req)))) (\<lambda>summary.
           Option.bind (hook_emit (hv_stamp_started env n) (rq_run_id req)
                          (hook_started env req n (rg_definition entry) summary) events) (\<lambda>(started, events1).
             if \<not> started then Some (out @ [HoFailed ''hook telemetry persistence failed before handler''], events1)
             else
               (let outcome = hh_outcome (rg_handler entry) req
                in Option.bind (outcome_report env outcome) (\<lambda>report.
                   Option.bind (hook_emit (hv_stamp_completed env n) (rq_run_id req)
                                  (hook_completed env req n (rg_definition entry) report) events1) (\<lambda>(ok, events2).
                     (let out1 = (if ok then out else out @ [HoFailed ''hook telemetry persistence failed after handler'']);
                          out2 = out1 @ resolved req (rg_definition entry) outcome
                      in if ok then dispatch_entries env req (n + 1) entries events2 out2
                         else Some (out2, events2))))))))"

definition dispatch_outcomes :: "hook_env \<Rightarrow> 'p hook_registry \<Rightarrow> hook_request
    \<Rightarrow> (hook_outcome list \<times> 'p hook_registry) option" where
  "dispatch_outcomes env r req =
     map_option (\<lambda>(out, events).
        (if out = [] \<and> hr_fail_closed r \<and> is_security_sensitive (rq_event req)
         then [HoDecided (HdDeny (''fail-closed: no hook handler allowed '' @ hook_event_str (rq_event req) @ '' for tool ''
                 @ hv_debug_tool env (rq_tool_name req)))]
         else out, r\<lparr>hr_events := events\<rparr>))
       (dispatch_entries env req 0 (hr_entries r (rq_event req)) (hr_events r) [])"

definition dispatch :: "hook_env \<Rightarrow> 'p hook_registry \<Rightarrow> hook_request \<Rightarrow> (hook_decision list \<times> 'p hook_registry) option" where
  "dispatch env r req = map_option (\<lambda>(out, r'). (List.map into_response out, r')) (dispatch_outcomes env r req)"

subsection \<open>Folding the outcomes\<close>

text \<open>The reason of a refused observation.\<close>

fun observe_outcomes :: "hook_env \<Rightarrow> hook_outcome list \<Rightarrow> string + unit" where
  "observe_outcomes env [] = Inr ()"
| "observe_outcomes env (HoDecided HdAllow # out) = observe_outcomes env out"
| "observe_outcomes env (HoPermission _ # out) = observe_outcomes env out"
| "observe_outcomes env (HoDecided d # out) =
     Inl (''post-event hook returned '' @ hv_debug_decision env d
          @ '', which cannot be honoured after the observed outcome is committed; refusing loudly instead ''
          @ ''of silently ignoring'')"
| "observe_outcomes env (HoFailed reason # out) = Inl (''post-event hook observation failed: '' @ reason)"

definition observe :: "hook_env \<Rightarrow> 'p hook_registry \<Rightarrow> hook_request \<Rightarrow> ((string + unit) \<times> 'p hook_registry) option" where
  "observe env r req = map_option (\<lambda>(out, r'). (observe_outcomes env out, r')) (dispatch_outcomes env r req)"

fun aggregate_allow :: "hook_decision list \<Rightarrow> string + unit" where
  "aggregate_allow [] = Inr ()"
| "aggregate_allow (HdDeny reason # ds) = Inl reason"
| "aggregate_allow (_ # ds) = aggregate_allow ds"

fun aggregate_loop :: "string option \<Rightarrow> bool \<Rightarrow> hook_outcome list \<Rightarrow> permission_aggregate" where
  "aggregate_loop approve ask [] =
     (case approve of Some reason \<Rightarrow> if \<not> ask then PaAutoApprove reason else PaPrompt | None \<Rightarrow> PaPrompt)"
| "aggregate_loop approve ask (HoDecided (HdDeny reason) # out) = PaDeny reason"
| "aggregate_loop approve ask (HoFailed reason # out) = PaDeny reason"
| "aggregate_loop approve ask (HoPermission (VdAsk _) # out) = aggregate_loop approve True out"
| "aggregate_loop approve ask (HoPermission (VdAllow reason) # out) =
     aggregate_loop (case approve of None \<Rightarrow> Some reason | Some r \<Rightarrow> Some r) ask out"
| "aggregate_loop approve ask (HoDecided _ # out) = aggregate_loop approve ask out"

definition aggregate_permission :: "hook_outcome list \<Rightarrow> permission_aggregate" where
  "aggregate_permission outcomes = aggregate_loop None False outcomes"

subsection \<open>What a dispatch collects\<close>

definition applicable :: "hook_env \<Rightarrow> 'p hook_registry \<Rightarrow> hook_request \<Rightarrow> registered list" where
  "applicable env r req = List.filter (hook_applies env req) (hr_entries r (rq_event req))"

definition answer :: "hook_request \<Rightarrow> registered \<Rightarrow> hook_outcome" where
  "answer req e = hh_outcome (rg_handler e) req"

definition collected :: "hook_request \<Rightarrow> registered list \<Rightarrow> hook_outcome list" where
  "collected req es = concat (List.map (\<lambda>e. resolved req (rg_definition e) (answer req e)) es)"

fun is_failed :: "hook_outcome \<Rightarrow> bool" where
  "is_failed (HoFailed _) = True"
| "is_failed _ = False"

lemma resolved_not_failed: "list_ex is_failed (resolved req d o1) = False"
  by (cases o1) (auto simp: resolved_def resolve_failure_def split: hook_failure_policy.splits)

text \<open>A dispatch that reports no failure has run every matching hook and collected what each answered.\<close>

lemma dispatch_entries_all:
  "dispatch_entries env req n es ev out = Some (out', ev') \<Longrightarrow> \<not> list_ex is_failed out' \<Longrightarrow>
     out' = out @ collected req (List.filter (hook_applies env req) es)"
proof (induction env req n es ev out arbitrary: out' ev' rule: dispatch_entries.induct)
  case (2 env req n entry entries events out)
  show ?case
  proof (cases "hook_applies env req entry")
    case False
    with "2.IH"(1) "2.prems" show ?thesis by simp
  next
    case True
    from True "2.prems" obtain summary started ev1 where
      s: "redact_secrets (take_chars 512 (hv_json env (rq_input req))) = Some summary"
      "hook_emit (hv_stamp_started env n) (rq_run_id req) (hook_started env req n (rg_definition entry) summary) events
         = Some (started, ev1)"
      by (auto simp: bind_eq_Some_conv)
    have started: "started"
    proof (rule ccontr)
      assume "\<not> started"
      with True s "2.prems" show False by (auto simp: list_ex_iff)
    qed
    from True s started "2.prems" obtain report ok ev2 where
      o: "outcome_report env (hh_outcome (rg_handler entry) req) = Some report"
      "hook_emit (hv_stamp_completed env n) (rq_run_id req) (hook_completed env req n (rg_definition entry) report) ev1
         = Some (ok, ev2)"
      by (auto simp: bind_eq_Some_conv Let_def)
    have ok: "ok"
    proof (rule ccontr)
      assume "\<not> ok"
      with True s started o "2.prems" show False by (auto simp: Let_def list_ex_iff)
    qed
    have "out' = (out @ resolved req (rg_definition entry) (hh_outcome (rg_handler entry) req))
        @ collected req (List.filter (hook_applies env req) entries)"
      using "2.IH"(2) True s started o ok "2.prems" by (simp add: Let_def)
    then show ?thesis using True by (simp add: collected_def answer_def)
  qed
qed (simp add: collected_def)

text \<open>An answer against going on without asking: a denial, a failure, or the wish to be asked.\<close>

fun objects :: "hook_outcome \<Rightarrow> bool" where
  "objects (HoDecided (HdDeny _)) = True"
| "objects (HoFailed _) = True"
| "objects (HoPermission (VdAsk _)) = True"
| "objects _ = False"

fun denies :: "hook_outcome \<Rightarrow> bool" where
  "denies (HoDecided (HdDeny _)) = True"
| "denies (HoFailed _) = True"
| "denies _ = False"

lemma aggregate_loop_auto:
  "aggregate_loop approve ask out = PaAutoApprove r \<Longrightarrow>
     \<not> ask \<and> \<not> list_ex objects out \<and> (approve = Some r \<or> HoPermission (VdAllow r) \<in> set out)"
  by (induction approve ask out rule: aggregate_loop.induct) (auto split: option.splits if_splits)

lemma aggregate_allow_Inr: "aggregate_allow ds = Inr () \<longleftrightarrow> \<not> list_ex (\<lambda>d. case d of HdDeny _ \<Rightarrow> True | _ \<Rightarrow> False) ds"
  by (induction ds rule: aggregate_allow.induct) auto

lemma aggregate_allow_responses: "aggregate_allow (List.map into_response out) = Inr () \<longleftrightarrow> \<not> list_ex denies out"
  unfolding aggregate_allow_Inr
proof (induction out)
  case (Cons o1 out)
  then show ?case by (cases o1) (auto split: hook_decision.splits)
qed simp

lemma is_failed_objects: "is_failed o1 \<Longrightarrow> objects o1" "is_failed o1 \<Longrightarrow> denies o1"
  by (cases o1; simp)+

lemma in_collected: "o1 \<in> set (collected req es) \<longleftrightarrow> (\<exists>e\<in>set es. o1 \<in> set (resolved req (rg_definition e) (answer req e)))"
  by (simp add: collected_def)

text \<open>On a security event a failed hook is collected as a denial.\<close>

lemma resolved_security:
  assumes "is_security_sensitive (rq_event req)"
  shows "\<exists>o1. o1 \<in> set (resolved req d a) \<and> denies o1 = denies a \<and> objects o1 = objects a"
  using assms by (cases a) (auto simp: resolved_def resolve_failure_def)

lemma resolved_same: "HoPermission v \<in> set (resolved req d a) \<Longrightarrow> a = HoPermission v"
  by (cases a) (auto simp: resolved_def resolve_failure_def split: option.splits if_splits hook_failure_policy.splits)

lemma auto_approval_unanimous:
  assumes "dispatch_outcomes env r req = Some (out, r')" and "rq_event req = HePermissionRequest"
    and "aggregate_permission out = PaAutoApprove reason"
  shows "\<not> list_ex (\<lambda>e. objects (answer req e)) (applicable env r req)
    \<and> list_ex (\<lambda>e. answer req e = HoPermission (VdAllow reason)) (applicable env r req)"
proof -
  from assms(3) have out: "\<not> list_ex objects out" "HoPermission (VdAllow reason) \<in> set out"
    unfolding aggregate_permission_def by (auto dest: aggregate_loop_auto)
  then have "\<not> list_ex is_failed out" using is_failed_objects(1) by (auto simp: list_ex_iff)
  with assms(1) out have all: "out = collected req (applicable env r req)"
    by (auto simp: dispatch_outcomes_def applicable_def split: if_splits dest!: dispatch_entries_all)
  have sec: "is_security_sensitive (rq_event req)" using assms(2) by simp
  have "\<not> objects (answer req e)" if "e \<in> set (applicable env r req)" for e
    using resolved_security [OF sec, of "rg_definition e" "answer req e"] out(1) that
    by (auto simp: all list_ex_iff in_collected)
  moreover from out(2) obtain e where "e \<in> set (applicable env r req)" "answer req e = HoPermission (VdAllow reason)"
    by (auto simp: all in_collected dest: resolved_same)
  ultimately show ?thesis by (auto simp: list_ex_iff)
qed

text \<open>Two hooks without matcher: one answers as told, one has no objection.\<close>

definition demo_hook_env :: hook_env where
  "demo_hook_env = \<lparr>hv_regex = (\<lambda>_ _. False), hv_json = (\<lambda>_. ''{}''), hv_debug_decision = (\<lambda>_. []),
     hv_debug_verdict = (\<lambda>_. []), hv_debug_tool = (\<lambda>_. []), hv_uuid = (\<lambda>_. []), hv_stamp_started = (\<lambda>_. ([], [])),
     hv_stamp_completed = (\<lambda>_. ([], [])), hv_duration = (\<lambda>_. 0)\<rparr>"

definition demo_registry :: "hook_event \<Rightarrow> hook_outcome \<Rightarrow> unit hook_registry" where
  "demo_registry event o1 = enable_security_fail_closed
     (register_hook event \<lparr>hh_matches_tool = (\<lambda>_. True), hh_outcome = (\<lambda>_. HoDecided HdAllow)\<rparr>
       (register_hook event \<lparr>hh_matches_tool = (\<lambda>_. True), hh_outcome = (\<lambda>_. o1)\<rparr> hook_registry_new))"

definition demo_request :: "hook_event \<Rightarrow> hook_request" where
  "demo_request event = \<lparr>rq_event = event, rq_run_id = ''r'', rq_tool_name = Some ''t'', rq_input = JNull\<rparr>"

text \<open>
  C24: Hooks skip a permission prompt only unanimously: if the dispatch of a permission request is folded into an
  automatic approval, then of all hooks registered for it that match the call one answered with exactly
  this approval and none denied, failed (whatever its failure policy), or asked for the prompt.
\<close>

theorem hook_approval_is_unanimous:
  assumes "dispatch_outcomes env r req = Some (out, r')" and "rq_event req = HePermissionRequest"
    and "aggregate_permission out = PaAutoApprove reason"
  shows "\<not> list_ex (\<lambda>e. objects (answer req e)) (applicable env r req)
    \<and> list_ex (\<lambda>e. answer req e = HoPermission (VdAllow reason)) (applicable env r req)"
  using assms by (rule auto_approval_unanimous)

theorem hook_approval_is_unanimous_witness:
  "map_option (aggregate_permission \<circ> fst)
     (dispatch_outcomes demo_hook_env (demo_registry HePermissionRequest (HoPermission (VdAllow ''ok''))) (demo_request HePermissionRequest))
   = Some (PaAutoApprove ''ok'')
   \<and> list_ex (\<lambda>e. answer (demo_request HePermissionRequest) e = HoPermission (VdAllow ''ok''))
       (applicable demo_hook_env (demo_registry HePermissionRequest (HoPermission (VdAllow ''ok''))) (demo_request HePermissionRequest))"
proof -
  let ?r = "demo_registry HePermissionRequest (HoPermission (VdAllow ''ok''))"
  have a: "map_option (aggregate_permission \<circ> fst) (dispatch_outcomes demo_hook_env ?r (demo_request HePermissionRequest))
     = Some (PaAutoApprove ''ok'')" by code_simp
  then obtain out r' where "dispatch_outcomes demo_hook_env ?r (demo_request HePermissionRequest) = Some (out, r')"
    "aggregate_permission out = PaAutoApprove ''ok''" by auto
  from hook_approval_is_unanimous [OF this(1) _ this(2)] a show ?thesis by (simp add: demo_request_def)
qed

text \<open>
  C25: With fail-closed security on, a security event goes through only if some registered hook matches it and
  every hook that matches neither denied nor failed, whatever its failure policy and whether or not the
  telemetry could be written.
\<close>

theorem security_events_fail_closed:
  assumes "dispatch env r req = Some (ds, r')" and "is_security_sensitive (rq_event req)" and "hr_fail_closed r"
    and "aggregate_allow ds = Inr ()"
  shows "applicable env r req \<noteq> [] \<and> \<not> list_ex (\<lambda>e. denies (answer req e)) (applicable env r req)"
proof -
  from assms(1) obtain out where d: "dispatch_outcomes env r req = Some (out, r')" and ds: "ds = List.map into_response out"
    by (auto simp: dispatch_def)
  from assms(4) have out: "\<not> list_ex denies out" by (simp add: ds aggregate_allow_responses)
  then have "\<not> list_ex is_failed out" using is_failed_objects(2) by (auto simp: list_ex_iff)
  with d out assms(2,3) have all: "out = collected req (applicable env r req)" and ne: "out \<noteq> []"
    by (auto simp: dispatch_outcomes_def applicable_def split: if_splits dest!: dispatch_entries_all)
  have "applicable env r req \<noteq> []" using ne by (auto simp: all collected_def)
  moreover have "\<not> denies (answer req e)" if "e \<in> set (applicable env r req)" for e
    using resolved_security [OF assms(2), of "rg_definition e" "answer req e"] out that
    by (auto simp: all list_ex_iff in_collected)
  ultimately show ?thesis by (auto simp: list_ex_iff)
qed

theorem security_events_fail_closed_witness:
  "map_option (aggregate_allow \<circ> fst)
     (dispatch demo_hook_env (demo_registry HePreToolUse (HoPermission (VdAsk ''?''))) (demo_request HePreToolUse)) = Some (Inr ())
   \<and> applicable demo_hook_env (demo_registry HePreToolUse (HoPermission (VdAsk ''?''))) (demo_request HePreToolUse) \<noteq> []"
proof -
  let ?r = "demo_registry HePreToolUse (HoPermission (VdAsk ''?''))"
  have a: "map_option (aggregate_allow \<circ> fst) (dispatch demo_hook_env ?r (demo_request HePreToolUse)) = Some (Inr ())"
    by code_simp
  then obtain ds r' where "dispatch demo_hook_env ?r (demo_request HePreToolUse) = Some (ds, r')" "aggregate_allow ds = Inr ()"
    by auto
  from security_events_fail_closed [OF this(1) _ _ this(2)] a show ?thesis
    by (simp add: demo_request_def demo_registry_def enable_security_fail_closed_def)
qed

end
