(* ===== verification/Interactions.thy ===== *)
theory Interactions
  imports EventSeq ToolTypes "HOL-Library.Char_ord" "HOL-Library.List_Lexorder"
begin

section \<open>Interactions with the user\<close>

text \<open>
  Models \<open>runtime/interaction_hub.rs\<close> and \<open>interaction_store.rs\<close> of the daemon, and the answer to a
  permission request in \<open>production.rs\<close>: the durable table of questions, the outbox of decisions to
  deliver, and the one-shot channels on which a tool call waits. A channel's sender is an entry of
  \<open>ix_waiters\<close>, its receiver an id of \<open>ix_listening\<close> until it is answered or dropped, and
  \<open>ix_answers\<close> lists what was sent. SQLite runs a statement or reports the error handed in; tables
  are lists in insertion order. The serializer and parser of JSON and the clock are the environment's.
\<close>

subsection \<open>State\<close>

record ix_row =
  ixr_id :: string
  ixr_run :: "string option"
  ixr_conversation :: "string option"
  ixr_kind :: string
  ixr_status :: string
  ixr_payload :: string
  ixr_response :: "string option"
  ixr_created_at :: string
  ixr_responded_at :: "string option"

record outbox_row =
  ob_id :: string
  ob_interaction :: string
  ob_run :: "string option"
  ob_conversation :: "string option"
  ob_kind :: string
  ob_response :: string
  ob_delivered :: bool

record route_binding =
  rb_provider :: string
  rb_key :: string
  rb_model :: string

record 'p ix_state =
  ix_rows :: "ix_row list"
  ix_outbox :: "outbox_row list"
  ix_waiters :: "(string \<times> string \<times> string) list"
  ix_listening :: "string list"
  ix_answers :: "(string \<times> bool \<times> string) list"
  ix_assignments :: "string list"
  ix_assigned :: "(string \<times> json) list"
  ix_policies :: "(string \<times> string \<times> route_binding list) list"
  ix_events :: "'p sequencer"

record ix_env =
  iv_show :: "json \<Rightarrow> string"
  iv_parse :: "string \<Rightarrow> json option"
  iv_now :: string
  iv_outbox_id :: string
  iv_stamp :: "string \<Rightarrow> string \<times> string"

text \<open>What can go wrong: opening the store, the transaction of a decision, its second statement when a
  permission is answered, the mark of a delivered row (ignored or not).\<close>

datatype mark_result = MkOk | MkIgnored | MkStore string

record ix_faults =
  xf_store :: "string option"
  xf_statement :: "string option"
  xf_answer :: "string option"
  xf_mark :: "string \<Rightarrow> mark_result"

definition no_faults :: ix_faults where
  "no_faults = \<lparr>xf_store = None, xf_statement = None, xf_answer = None, xf_mark = (\<lambda>_. MkOk)\<rparr>"

subsection \<open>The hub\<close>

definition register_permission :: "string \<Rightarrow> string \<Rightarrow> string \<Rightarrow> 'p ix_state \<Rightarrow> 'p ix_state" where
  "register_permission permission_id run_id tool_name st =
     st\<lparr>ix_waiters := AList.update permission_id (run_id, tool_name) (ix_waiters st),
        ix_listening := permission_id # ix_listening st\<rparr>"

definition resolve_permission :: "string \<Rightarrow> 'p ix_state \<Rightarrow> (string \<times> string) option \<times> 'p ix_state" where
  "resolve_permission permission_id st =
     (map_of (ix_waiters st) permission_id, st\<lparr>ix_waiters := AList.delete permission_id (ix_waiters st)\<rparr>)"

definition permission_orphaned :: "string \<Rightarrow> string" where
  "permission_orphaned permission_id = ''permission_orphaned: no live waiter for request_id='' @ permission_id"

definition resolve_permission_for_run ::
  "string \<Rightarrow> string option \<Rightarrow> 'p ix_state \<Rightarrow> (string + string \<times> string) \<times> 'p ix_state" where
  "resolve_permission_for_run permission_id expected_run_id st =
     (case map_of (ix_waiters st) permission_id of
        None \<Rightarrow> (Inl (permission_orphaned permission_id), st)
      | Some (run_id, tool) \<Rightarrow>
          (case expected_run_id of
             Some expected \<Rightarrow>
               (if expected \<noteq> [] \<and> expected \<noteq> run_id
                then (Inl (''permission run_id mismatch: expected '' @ run_id @ '', got '' @ expected), st)
                else (Inr (run_id, tool), snd (resolve_permission permission_id st)))
           | None \<Rightarrow> (Inr (run_id, tool), snd (resolve_permission permission_id st))))"

text \<open>\<open>tx.send\<close>: it fails when the receiver is gone.\<close>

definition send_answer :: "string \<Rightarrow> bool \<Rightarrow> string \<Rightarrow> 'p ix_state \<Rightarrow> bool \<times> 'p ix_state" where
  "send_answer permission_id approved scope st =
     (if permission_id \<in> set (ix_listening st)
      then (True, st\<lparr>ix_listening := List.filter (\<lambda>i. i \<noteq> permission_id) (ix_listening st),
                     ix_answers := ix_answers st @ [(permission_id, approved, scope)]\<rparr>)
      else (False, st))"

text \<open>The receiver is dropped: the wait timed out or was cancelled.\<close>

definition stop_listening :: "string \<Rightarrow> 'p ix_state \<Rightarrow> 'p ix_state" where
  "stop_listening permission_id st = st\<lparr>ix_listening := List.filter (\<lambda>i. i \<noteq> permission_id) (ix_listening st)\<rparr>"

definition cancel_runs :: "string list \<Rightarrow> 'p ix_state \<Rightarrow> string list \<times> 'p ix_state" where
  "cancel_runs run_ids st =
     (let stale = List.map fst (List.filter (\<lambda>(_, run_id, _). run_id \<in> set run_ids) (ix_waiters st))
      in (stale, fold (\<lambda>i s. snd (send_answer i False ''cancelled'' (snd (resolve_permission i s)))) stale st))"

subsection \<open>The table of questions\<close>

definition insert_pending ::
  "ix_env \<Rightarrow> string option \<Rightarrow> string \<Rightarrow> string option \<Rightarrow> string option \<Rightarrow> string \<Rightarrow> json \<Rightarrow> 'p ix_state
     \<Rightarrow> (string + unit) \<times> 'p ix_state" where
  "insert_pending env fault id0 run conversation kind0 payload st =
     (let i = str_trim id0;
          kind = (if str_trim kind0 = [] then ''unknown'' else str_trim kind0)
      in if i = [] then (Inl ''interaction id required'', st)
         else (case fault of
           Some e \<Rightarrow> (Inl (''insert interaction failed: '' @ e), st)
         | None \<Rightarrow>
             (Inr (),
              if i \<in> set (List.map ixr_id (ix_rows st)) then st
              else st\<lparr>ix_rows := ix_rows st @ [\<lparr>ixr_id = i, ixr_run = run, ixr_conversation = conversation, ixr_kind = kind,
                     ixr_status = ''pending'', ixr_payload = iv_show env payload, ixr_response = None,
                     ixr_created_at = iv_now env, ixr_responded_at = None\<rparr>]\<rparr>)))"

definition find_row :: "string \<Rightarrow> 'p ix_state \<Rightarrow> ix_row option" where
  "find_row i st = List.find (\<lambda>r. ixr_id r = i) (ix_rows st)"

text \<open>\<open>UPDATE interaction SET status = 'resolved' \<dots> WHERE id = ? AND status = 'pending'\<close>.\<close>

definition answer_rows :: "string \<Rightarrow> string \<Rightarrow> string \<Rightarrow> ix_row list \<Rightarrow> ix_row list" where
  "answer_rows i response now rows =
     List.map (\<lambda>r. if ixr_id r = i \<and> ixr_status r = ''pending''
       then r\<lparr>ixr_status := ''resolved'', ixr_response := Some response, ixr_responded_at := Some now\<rparr> else r) rows"

definition mark_resolved :: "ix_env \<Rightarrow> string option \<Rightarrow> string \<Rightarrow> json \<Rightarrow> 'p ix_state \<Rightarrow> (string + unit) \<times> 'p ix_state" where
  "mark_resolved env fault id0 response st =
     (let i = str_trim id0
      in if i = [] then (Inr (), st)
         else (case fault of
           Some e \<Rightarrow> (Inl (''resolve interaction failed: '' @ e), st)
         | None \<Rightarrow>
             (if list_ex (\<lambda>r. ixr_id r = i \<and> ixr_status r = ''pending'') (ix_rows st)
              then (Inr (), st\<lparr>ix_rows := answer_rows i (iv_show env response) (iv_now env) (ix_rows st)\<rparr>)
              else (case find_row i st of
                Some r \<Rightarrow>
                  (if ixr_status r = ''resolved'' then (Inr (), st)
                   else (Inl (''interaction '' @ i @ '' is not pending ('' @ ixr_status r @ '')''), st))
              | None \<Rightarrow> (Inl (''interaction not found: '' @ i), st)))))"

definition row_json :: "ix_env \<Rightarrow> ix_row \<Rightarrow> json" where
  "row_json env r = JObj
     [(''id'', JStr (ixr_id r)), (''run_id'', opt_json (ixr_run r)), (''conversation_id'', opt_json (ixr_conversation r)),
      (''kind'', JStr (ixr_kind r)), (''status'', JStr (ixr_status r)),
      (''payload'', case iv_parse env (ixr_payload r) of Some v \<Rightarrow> v | None \<Rightarrow> JNull),
      (''response'', case Option.bind (ixr_response r) (iv_parse env) of Some v \<Rightarrow> v | None \<Rightarrow> JNull),
      (''created_at'', JStr (ixr_created_at r)), (''responded_at'', opt_json (ixr_responded_at r))]"

definition list_pending :: "ix_env \<Rightarrow> json \<Rightarrow> 'p ix_state \<Rightarrow> json" where
  "list_pending env params st =
     (let conversation = Option.bind (jget_or ''conversation_id'' ''conversationId'' params) as_str;
          run = Option.bind (jget_or ''run_id'' ''runId'' params) as_str
      in JObj [(''interactions'', JArr (List.map (row_json env)
           (List.filter (\<lambda>r. ixr_status r = ''pending''
               \<and> (conversation = None \<or> ixr_conversation r = conversation) \<and> (run = None \<or> ixr_run r = run))
             (sort_key ixr_created_at (ix_rows st)))))])"

text \<open>The part of \<open>recover_from_store\<close> in \<open>run_manager.rs\<close> that expires the questions of the runs it interrupts.\<close>

definition expire_row :: "string \<Rightarrow> string \<Rightarrow> ix_row \<Rightarrow> ix_row" where
  "expire_row reason now r = r\<lparr>ixr_status := ''expired'', ixr_response := Some reason, ixr_responded_at := Some now\<rparr>"

definition expire_interactions ::
  "string \<Rightarrow> string \<Rightarrow> string list \<Rightarrow> string list \<Rightarrow> 'p ix_state \<Rightarrow> 'p ix_state" where
  "expire_interactions reason now active interrupted st =
     st\<lparr>ix_rows := List.map (\<lambda>r. if ixr_status r = ''pending''
           \<and> (if active \<noteq> [] then \<exists>rid\<in>set active. ixr_run r = Some rid
              else ixr_run r = None \<or> (\<exists>rid\<in>set interrupted. ixr_run r = Some rid))
         then expire_row reason now r else r) (ix_rows st)\<rparr>"

subsection \<open>An answer to a permission request\<close>

definition normalize_permission_scope :: "string \<Rightarrow> string" where
  "normalize_permission_scope scope =
     (let s = ascii_lower (str_trim scope)
      in if s = ''run'' \<or> s = ''this_run'' then ''this_run''
         else if s = ''session'' then ''session''
         else if s = ''project'' \<or> s = ''always'' \<or> s = ''forever'' then ''project''
         else ''once'')"

definition decision_json :: "bool \<Rightarrow> string \<Rightarrow> json" where
  "decision_json approved scope = JObj [(''approved'', JBool approved), (''scope'', JStr scope)]"

definition respond_permission ::
  "ix_env \<Rightarrow> string option \<Rightarrow> string \<Rightarrow> bool \<Rightarrow> string option \<Rightarrow> string option \<Rightarrow> 'p ix_state
     \<Rightarrow> (string + unit) \<times> 'p ix_state" where
  "respond_permission env fault request_id approved run_id scope0 st =
     (if str_trim request_id = [] then (Inl ''request_id required'', st)
      else
        (let scope = normalize_permission_scope (case scope0 of Some s \<Rightarrow> s | None \<Rightarrow> ''once'')
         in case mark_resolved env fault request_id (decision_json approved scope) st of
              (Inl e, st1) \<Rightarrow> (Inl e, st1)
            | (Inr _, st1) \<Rightarrow>
                (case resolve_permission_for_run request_id run_id st1 of
                   (Inl e, st2) \<Rightarrow> (Inl e, st2)
                 | (Inr _, st2) \<Rightarrow>
                     (case send_answer request_id approved scope st2 of
                        (True, st3) \<Rightarrow> (Inr (), st3)
                      | (False, st3) \<Rightarrow> (Inl ''permission waiter was closed before response delivery'', st3)))))"

subsection \<open>Delivering a decision\<close>

definition wake_assignment :: "string \<Rightarrow> json \<Rightarrow> 'p ix_state \<Rightarrow> 'p ix_state" where
  "wake_assignment i response st =
     (if i \<in> set (ix_assignments st)
      then st\<lparr>ix_assignments := List.filter (\<lambda>j. j \<noteq> i) (ix_assignments st),
              ix_assigned := ix_assigned st @ [(i, response)]\<rparr>
      else st)"

text \<open>A binding read off an object; the derived deserializer also takes the fields in order as an array.\<close>

definition parse_binding :: "json \<Rightarrow> route_binding option" where
  "parse_binding v =
     (case (jget_str ''provider_id'' v, jget_str ''key_id'' v, jget_str ''model_id'' v) of
        (Some p, Some k, Some m) \<Rightarrow> Some \<lparr>rb_provider = p, rb_key = k, rb_model = m\<rparr>
      | _ \<Rightarrow> None)"

definition read_binding :: "json \<Rightarrow> route_binding option" where
  "read_binding v =
     (case v of
        JArr [JStr p, JStr k, JStr m] \<Rightarrow> Some \<lparr>rb_provider = p, rb_key = k, rb_model = m\<rparr>
      | _ \<Rightarrow> parse_binding v)"

definition binding_json :: "route_binding \<Rightarrow> json" where
  "binding_json b = JObj [(''provider_id'', JStr (rb_provider b)), (''key_id'', JStr (rb_key b)), (''model_id'', JStr (rb_model b))]"

definition assignment_bindings :: "json \<Rightarrow> json option" where
  "assignment_bindings response =
     (case jget_or ''pool'' ''bindings'' response of
        Some v \<Rightarrow> Some v
      | None \<Rightarrow>
          Option.bind (Option.bind (jget ''assignments'' response) as_array) (\<lambda>arr.
            (let found = List.map_filter parse_binding arr
             in if found = [] then None else Some (JArr (List.map binding_json found)))))"

definition parse_bindings :: "json \<Rightarrow> route_binding list option" where
  "parse_bindings v = Option.bind (as_array v) (\<lambda>xs. those (List.map read_binding xs))"

definition binding_ok :: "route_binding \<Rightarrow> bool" where
  "binding_ok b \<longleftrightarrow> str_trim (rb_provider b) \<noteq> [] \<and> str_trim (rb_key b) \<noteq> [] \<and> str_trim (rb_model b) \<noteq> []
     \<and> ascii_lower (rb_key b) \<noteq> ''auto''"

definition upsert_route_policy :: "string \<Rightarrow> string \<Rightarrow> route_binding list \<Rightarrow> 'p ix_state \<Rightarrow> 'p ix_state" where
  "upsert_route_policy conversation mode bindings st =
     (let parent = str_trim conversation;
          m = str_trim mode
      in if parent = [] \<or> bindings = [] \<or> \<not> list_all binding_ok bindings then st
         else st\<lparr>ix_policies := AList.update parent
                 (if m = ''random'' \<or> m = ''custom'' then m else ''default'', bindings) (ix_policies st)\<rparr>)"

definition deliver_assignment :: "string \<Rightarrow> string option \<Rightarrow> json \<Rightarrow> 'p ix_state \<Rightarrow> 'p ix_state" where
  "deliver_assignment i conversation response st =
     (let st = wake_assignment i response st;
          cid = (case Option.bind (jget_or ''conversation_id'' ''parent_conversation_id'' response) as_str of
                   Some c \<Rightarrow> Some c | None \<Rightarrow> conversation)
      in case (cid, Option.bind (assignment_bindings response) parse_bindings) of
           (Some c, Some bindings) \<Rightarrow>
             upsert_route_policy c (case jget_str ''mode'' response of Some m \<Rightarrow> m | None \<Rightarrow> ''default'') bindings st
         | _ \<Rightarrow> st)"

definition mark_delivered :: "mark_result \<Rightarrow> string \<Rightarrow> 'p ix_state \<Rightarrow> (string + unit) \<times> 'p ix_state" where
  "mark_delivered mark outbox_id st =
     (case mark of
        MkStore e \<Rightarrow> (Inl e, st)
      | MkIgnored \<Rightarrow> (Inr (), st)
      | MkOk \<Rightarrow>
          (Inr (), st\<lparr>ix_outbox := List.map (\<lambda>o1. if ob_id o1 = outbox_id then o1\<lparr>ob_delivered := True\<rparr> else o1) (ix_outbox st)\<rparr>))"

definition wake_kind :: "ix_env \<Rightarrow> ix_faults \<Rightarrow> string \<Rightarrow> string option \<Rightarrow> string option \<Rightarrow> string \<Rightarrow> json
    \<Rightarrow> 'p ix_state \<Rightarrow> 'p ix_state" where
  "wake_kind env fx i run conversation kind response st =
     (if kind = ''tool_permission''
      then snd (respond_permission env (xf_answer fx) i
             (case Option.bind (jget ''approved'' response) as_bool of Some b \<Rightarrow> b | None \<Rightarrow> False)
             run (jget_str ''scope'' response) st)
      else if kind = ''subagent_assignment'' then deliver_assignment i conversation response st
      else st)"

definition deliver_outbox ::
  "ix_env \<Rightarrow> ix_faults \<Rightarrow> string \<Rightarrow> string \<Rightarrow> string option \<Rightarrow> string option \<Rightarrow> string \<Rightarrow> json \<Rightarrow> 'p ix_state
     \<Rightarrow> ((string + unit) \<times> 'p ix_state) option" where
  "deliver_outbox env fx outbox_id i run conversation kind response st =
     (case run of
        Some (c # cs) \<Rightarrow>
          map_option (\<lambda>(event, s).
             if is_persistence_failed (ev_payload event)
             then (Inl ''PERSISTENCE_FAILED append InteractionResponded'', st\<lparr>ix_events := s\<rparr>)
             else mark_delivered (xf_mark fx outbox_id) outbox_id
                    (wake_kind env fx i run conversation kind response (st\<lparr>ix_events := s\<rparr>)))
            (seq_append (iv_stamp env i) (c # cs) (EvInteractionResponded i response) (ix_events st))
      | _ \<Rightarrow> Some (mark_delivered (xf_mark fx outbox_id) outbox_id
                    (wake_kind env fx i run conversation kind response st)))"

subsection \<open>\<open>interaction.respond\<close>\<close>

definition respond_id :: "json \<Rightarrow> string" where
  "respond_id params =
     str_trim (case Option.bind (case jget_or ''id'' ''interaction_id'' params of Some v \<Rightarrow> Some v | None \<Rightarrow> jget ''request_id'' params)
                      as_str of Some s \<Rightarrow> s | None \<Rightarrow> [])"

definition respond_value :: "json \<Rightarrow> json" where
  "respond_value params =
     (case jget ''response'' params of
        Some v \<Rightarrow> v
      | None \<Rightarrow>
          (case Option.bind (jget ''approved'' params) as_bool of
             Some a \<Rightarrow> decision_json a (case jget_str ''scope'' params of Some s \<Rightarrow> s | None \<Rightarrow> ''once'')
           | None \<Rightarrow> JNull))"

definition respond_result :: "string \<Rightarrow> bool \<Rightarrow> ix_row \<Rightarrow> json \<Rightarrow> string \<Rightarrow> json" where
  "respond_result i already r response at_text = JObj
     ([(''ok'', JBool True), (''id'', JStr i), (''status'', JStr ''resolved'')]
      @ (if already then [(''already_resolved'', JBool True)] else [])
      @ [(''run_id'', opt_json (ixr_run r)), (''kind'', JStr (ixr_kind r)), (''response'', response),
         (''responded_at'', JStr at_text)])"

definition outbox_row_of :: "string \<Rightarrow> ix_row \<Rightarrow> string \<Rightarrow> outbox_row" where
  "outbox_row_of outbox_id r response =
     \<lparr>ob_id = outbox_id, ob_interaction = ixr_id r, ob_run = ixr_run r, ob_conversation = None, ob_kind = ixr_kind r,
      ob_response = response, ob_delivered = False\<rparr>"

definition respond :: "ix_env \<Rightarrow> ix_faults \<Rightarrow> json \<Rightarrow> 'p ix_state \<Rightarrow> ((string + json) \<times> 'p ix_state) option" where
  "respond env fx params st =
     (let i = respond_id params; response = respond_value params; text1 = iv_show env response; now = iv_now env
      in if i = [] then Some (Inl ''id required for interaction.respond'', st)
         else (case xf_store fx of
           Some e \<Rightarrow> Some (Inl e, st)
         | None \<Rightarrow>
             (case find_row i st of
                None \<Rightarrow> Some (Inl (''permission_orphaned: interaction not found: '' @ i), st)
              | Some r \<Rightarrow>
                  (if ixr_status r = ''resolved'' then
                     (if ixr_response r = Some text1
                      then Some (Inr (respond_result i True r response
                             (case ixr_responded_at r of Some t \<Rightarrow> t | None \<Rightarrow> now)), st)
                      else Some (Inl (''conflict: interaction '' @ i @ '' already resolved with a different decision''), st))
                   else if ixr_status r \<noteq> ''pending'' then
                     Some (Inl (''permission_orphaned: interaction not pending: '' @ i @ '' (status='' @ ixr_status r @ '')''), st)
                   else (case xf_statement fx of
                     Some e \<Rightarrow> Some (Inl e, st)
                   | None \<Rightarrow>
                       map_option (\<lambda>(res, st2). (map_sum id (\<lambda>_. respond_result i False r response now) res, st2))
                         (deliver_outbox env fx (iv_outbox_id env) i (ixr_run r) (ixr_conversation r) (ixr_kind r) response
                            (st\<lparr>ix_rows := answer_rows i text1 now (ix_rows st),
                                ix_outbox := ix_outbox st @ [outbox_row_of (iv_outbox_id env) r text1]\<rparr>)))))))"

subsection \<open>Replaying undelivered decisions\<close>

fun replay_rows :: "ix_env \<Rightarrow> ix_faults \<Rightarrow> outbox_row list \<Rightarrow> nat \<Rightarrow> 'p ix_state \<Rightarrow> (nat \<times> 'p ix_state) option" where
  "replay_rows env fx [] n st = Some (n, st)"
| "replay_rows env fx (o1 # os) n st =
     Option.bind
       (deliver_outbox env fx (ob_id o1) (ob_interaction o1) (ob_run o1) (ob_conversation o1) (ob_kind o1)
          (case iv_parse env (ob_response o1) of Some v \<Rightarrow> v | None \<Rightarrow> JNull) st)
       (\<lambda>(res, st1). replay_rows env fx os (if isl res then n else n + 1) st1)"

definition recover_interaction_outbox :: "ix_env \<Rightarrow> ix_faults \<Rightarrow> 'p ix_state \<Rightarrow> ((string + nat) \<times> 'p ix_state) option" where
  "recover_interaction_outbox env fx st =
     (case xf_store fx of
        Some e \<Rightarrow> Some (Inl e, st)
      | None \<Rightarrow>
          map_option (\<lambda>(n, st1). (Inr n, st1))
            (replay_rows env fx (List.filter (\<lambda>o1. \<not> ob_delivered o1) (ix_outbox st)) 0 st))"


subsection \<open>What an operation changes\<close>

lemma answer_rows_keep: "r \<in> set rows \<Longrightarrow> ixr_status r \<noteq> ''pending'' \<Longrightarrow> r \<in> set (answer_rows i v t rows)"
  by (force simp: answer_rows_def)

lemma find_answer_rows:
  "List.find (\<lambda>r. ixr_id r = i) (answer_rows i v t rows)
     = map_option (\<lambda>r. if ixr_status r = ''pending''
           then r\<lparr>ixr_status := ''resolved'', ixr_response := Some v, ixr_responded_at := Some t\<rparr> else r)
         (List.find (\<lambda>r. ixr_id r = i) rows)"
proof (induction rows)
  case (Cons r rows)
  then show ?case by (cases "ixr_id r = i") (simp_all add: answer_rows_def)
qed (simp add: answer_rows_def)

lemma find_answer_other:
  "j \<noteq> i \<Longrightarrow> List.find (\<lambda>r. ixr_id r = j) (answer_rows i v t rows) = List.find (\<lambda>r. ixr_id r = j) rows"
  by (induction rows) (auto simp: answer_rows_def)

lemma answer_rows_decides: "\<not> list_ex (\<lambda>r. ixr_id r = i \<and> ixr_status r = ''pending'') (answer_rows i v t rows)"
  by (induction rows) (simp_all add: answer_rows_def)

lemma find_row_Some: "find_row i st = Some r \<Longrightarrow> r \<in> set (ix_rows st) \<and> ixr_id r = i"
  by (auto simp: find_row_def find_Some_iff in_set_conv_nth)

lemma find_row_pending:
  "find_row i st = Some r \<Longrightarrow> ixr_status r = ''pending''
     \<Longrightarrow> list_ex (\<lambda>r. ixr_id r = i \<and> ixr_status r = ''pending'') (ix_rows st)"
  using find_row_Some [of i st r] by (auto simp: list_ex_iff)

text \<open>Decided rows stay, and answers are only added, to waits that are still open.\<close>

definition grows :: "'p ix_state \<Rightarrow> 'p ix_state \<Rightarrow> bool" where
  "grows st st' \<longleftrightarrow>
     (\<forall>r\<in>set (ix_rows st). ixr_status r \<noteq> ''pending'' \<longrightarrow> r \<in> set (ix_rows st'))
     \<and> (\<exists>more. ix_answers st' = ix_answers st @ more \<and> distinct (List.map fst more)
          \<and> set (List.map fst more) \<subseteq> set (ix_listening st) - set (ix_listening st'))
     \<and> set (ix_listening st') \<subseteq> set (ix_listening st)"

lemma grows_refl [simp]: "grows st st"
  by (simp add: grows_def)

lemma growsI:
  assumes "\<And>r. r \<in> set (ix_rows st) \<Longrightarrow> ixr_status r \<noteq> ''pending'' \<Longrightarrow> r \<in> set (ix_rows st')"
    and "ix_answers st' = ix_answers st" and "set (ix_listening st') \<subseteq> set (ix_listening st)"
  shows "grows st st'"
  using assms by (auto simp: grows_def)

lemma grows_trans [trans]:
  assumes "grows st st1" and "grows st1 st2"
  shows "grows st st2"
proof -
  from assms(1) obtain m where m: "ix_answers st1 = ix_answers st @ m" "distinct (List.map fst m)"
    "set (List.map fst m) \<subseteq> set (ix_listening st) - set (ix_listening st1)" unfolding grows_def by blast
  from assms(2) obtain m' where m': "ix_answers st2 = ix_answers st1 @ m'" "distinct (List.map fst m')"
    "set (List.map fst m') \<subseteq> set (ix_listening st1) - set (ix_listening st2)" unfolding grows_def by blast
  have l: "set (ix_listening st1) \<subseteq> set (ix_listening st)" "set (ix_listening st2) \<subseteq> set (ix_listening st1)"
    using assms by (simp_all add: grows_def)
  have "distinct (List.map fst (m @ m'))"
    using m(2,3) m'(2,3) by (simp only: map_append distinct_append set_map) blast
  moreover have "set (List.map fst (m @ m')) \<subseteq> set (ix_listening st) - set (ix_listening st2)"
    using m(3) m'(3) l by (simp only: map_append set_append set_map) blast
  moreover have "ix_answers st2 = ix_answers st @ m @ m'" using m(1) m'(1) by simp
  ultimately show ?thesis using assms l unfolding grows_def by blast
qed

lemma grows_ids:
  assumes "grows st st'" and u: "set (ix_listening st) \<union> fst ` set (ix_answers st) \<subseteq> U"
    and d: "distinct (List.map fst (ix_answers st))" and disj: "fst ` set (ix_answers st) \<inter> set (ix_listening st) = {}"
  shows "set (ix_listening st') \<union> fst ` set (ix_answers st') \<subseteq> U"
    "distinct (List.map fst (ix_answers st'))" "fst ` set (ix_answers st') \<inter> set (ix_listening st') = {}"
proof -
  from assms(1) obtain m where m: "ix_answers st' = ix_answers st @ m" "distinct (List.map fst m)"
    "fst ` set m \<subseteq> set (ix_listening st) - set (ix_listening st')" "set (ix_listening st') \<subseteq> set (ix_listening st)"
    by (auto simp: grows_def)
  have all: "fst ` set (ix_answers st') = fst ` set (ix_answers st) \<union> fst ` set m" using m(1) by (simp add: image_Un)
  show "set (ix_listening st') \<union> fst ` set (ix_answers st') \<subseteq> U" unfolding all using u m(3,4) by blast
  show "fst ` set (ix_answers st') \<inter> set (ix_listening st') = {}" unfolding all using disj m(3,4) by blast
  have "fst ` set (ix_answers st) \<inter> fst ` set m = {}" using disj m(3) by blast
  with d m(2) show "distinct (List.map fst (ix_answers st'))" by (simp add: m(1))
qed

lemma grows_hub:
  "grows st (snd (resolve_permission i st))" "grows st (snd (resolve_permission_for_run i run st))"
  "grows st (snd (send_answer i a s st))" "grows st (stop_listening i st)"
  by (auto simp: grows_def resolve_permission_def resolve_permission_for_run_def send_answer_def stop_listening_def
      split: option.splits)

lemma grows_cancel: "grows st (snd (cancel_runs runs st))"
proof -
  have "grows st (fold (\<lambda>i s. snd (send_answer i False ''cancelled'' (snd (resolve_permission i s)))) ids st)" for ids
  proof (induction ids arbitrary: st)
    case (Cons i ids)
    have "grows st (snd (send_answer i False ''cancelled'' (snd (resolve_permission i st))))"
      by (rule grows_trans [OF grows_hub(1) grows_hub(3)])
    also have "grows \<dots> (fold (\<lambda>i s. snd (send_answer i False ''cancelled'' (snd (resolve_permission i s)))) ids \<dots>)"
      by (rule Cons)
    finally show ?case by simp
  qed simp
  then show ?thesis by (simp add: cancel_runs_def Let_def)
qed

lemma grows_rows:
  "grows st (snd (insert_pending env fault i run conv kind payload st))"
  "grows st (snd (mark_resolved env fault i v st))" "grows st (expire_interactions reason now active old st)"
  by (auto intro!: growsI simp: insert_pending_def mark_resolved_def expire_interactions_def Let_def answer_rows_keep
      image_iff split: option.splits)

lemma grows_respond_permission: "grows st (snd (respond_permission env fault i a run scope st))"
proof -
  let ?v = "decision_json a (normalize_permission_scope (case scope of Some s \<Rightarrow> s | None \<Rightarrow> ''once''))"
  obtain r1 st1 where m: "mark_resolved env fault i ?v st = (r1, st1)" by fastforce
  obtain r2 st2 where w: "resolve_permission_for_run i run st1 = (r2, st2)" by fastforce
  obtain b st3 where s: "send_answer i a (normalize_permission_scope (case scope of Some s \<Rightarrow> s | None \<Rightarrow> ''once'')) st2 = (b, st3)"
    by fastforce
  have g1: "grows st st1" using grows_rows(2) [where st = st and v = ?v and i = i] m by (metis snd_conv)
  have g2: "grows st st2" using grows_trans [OF g1] grows_hub(2) w by (metis snd_conv)
  have g3: "grows st st3" using grows_trans [OF g2] grows_hub(3) s by (metis snd_conv)
  show ?thesis
    using m w s g1 g2 g3 by (auto simp: respond_permission_def Let_def split: sum.split bool.split)
qed

lemma grows_assignment:
  "grows st (wake_assignment i v st)" "grows st (upsert_route_policy c m bs st)"
  by (rule growsI; simp add: wake_assignment_def upsert_route_policy_def Let_def)+

lemma grows_deliver_assignment: "grows st (deliver_assignment i conv v st)"
  by (simp add: deliver_assignment_def Let_def grows_assignment(1)
      grows_trans [OF grows_assignment(1) grows_assignment(2)] split: option.split)

lemma grows_wake_kind: "grows st (wake_kind env fx i run conv kind v st)"
  by (simp add: wake_kind_def grows_respond_permission grows_deliver_assignment)

lemma grows_mark_delivered: "grows st (snd (mark_delivered mk i st))"
  by (rule growsI) (auto simp: mark_delivered_def split: mark_result.splits)

lemma grows_events: "grows st (st\<lparr>ix_events := s\<rparr>)"
  by (rule growsI) simp_all

lemma grows_deliver:
  assumes "deliver_outbox env fx ob i run conv kind v st = Some (res, st')"
  shows "grows st st'"
proof -
  have woken: "grows st (snd (mark_delivered mk ob (wake_kind env fx i run conv kind v (st\<lparr>ix_events := s\<rparr>))))" for mk s
    by (rule grows_trans [OF grows_trans [OF grows_events grows_wake_kind] grows_mark_delivered])
  show ?thesis
  proof (cases "run = None \<or> run = Some []")
    case True
    with assms woken [of "xf_mark fx ob" "ix_events st"] show ?thesis
      by (auto simp: deliver_outbox_def split: option.splits list.splits)
  next
    case False
    then obtain c cs where run: "run = Some (c # cs)" by (metis list.exhaust not_None_eq)
    with assms obtain e s where "seq_append (iv_stamp env i) (c # cs) (EvInteractionResponded i v) (ix_events st) = Some (e, s)"
      by (auto simp: deliver_outbox_def)
    with assms run woken [of "xf_mark fx ob" s] grows_events [of st s] show ?thesis
      by (auto simp: deliver_outbox_def split: if_splits)
  qed
qed

lemma grows_answer_rows: "grows st (st\<lparr>ix_rows := answer_rows i v t (ix_rows st), ix_outbox := os\<rparr>)"
  by (rule growsI) (simp_all add: answer_rows_keep)

text \<open>A call of \<open>respond\<close> that does something decides a pending row and delivers the decision.\<close>

lemma respond_cases:
  assumes "respond env fx params st = Some (res, st')"
  obtains (same) "st' = st"
  | (decided) r res1 where "find_row (respond_id params) st = Some r" "ixr_status r = ''pending''" "respond_id params \<noteq> []"
      "deliver_outbox env fx (iv_outbox_id env) (respond_id params) (ixr_run r) (ixr_conversation r) (ixr_kind r)
         (respond_value params)
         (st\<lparr>ix_rows := answer_rows (respond_id params) (iv_show env (respond_value params)) (iv_now env) (ix_rows st),
             ix_outbox := ix_outbox st @ [outbox_row_of (iv_outbox_id env) r (iv_show env (respond_value params))]\<rparr>)
       = Some (res1, st')"
      "res = map_sum id (\<lambda>_. respond_result (respond_id params) False r (respond_value params) (iv_now env)) res1"
  using assms unfolding respond_def Let_def
  by (auto split: if_splits option.splits)

lemma grows_respond: "respond env fx params st = Some (res, st') \<Longrightarrow> grows st st'"
  by (erule respond_cases) (auto intro: grows_trans [OF grows_answer_rows grows_deliver])

lemma grows_replay: "replay_rows env fx os n st = Some (m, st') \<Longrightarrow> grows st st'"
proof (induction os arbitrary: n st)
  case (Cons o1 os)
  then show ?case by (auto simp: bind_eq_Some_conv intro: grows_trans [OF grows_deliver])
qed simp

lemma grows_recover: "recover_interaction_outbox env fx st = Some (res, st') \<Longrightarrow> grows st st'"
  by (auto simp: recover_interaction_outbox_def dest: grows_replay split: option.splits)

subsection \<open>Histories\<close>

text \<open>One operation; \<open>U\<close> collects the ids of the waits registered so far, which are fresh UUIDs.\<close>

inductive ix_step :: "string set \<times> 'p ix_state \<Rightarrow> string set \<times> 'p ix_state \<Rightarrow> bool" where
  ixs_register: "i \<notin> U \<Longrightarrow> ix_step (U, st) (insert i U, register_permission i run_id tool st)"
| ixs_resolve: "ix_step (U, st) (U, snd (resolve_permission i st))"
| ixs_stop: "ix_step (U, st) (U, stop_listening i st)"
| ixs_cancel: "ix_step (U, st) (U, snd (cancel_runs runs st))"
| ixs_insert: "ix_step (U, st) (U, snd (insert_pending env fault i run conv kind payload st))"
| ixs_mark: "ix_step (U, st) (U, snd (mark_resolved env fault i v st))"
| ixs_expire: "ix_step (U, st) (U, expire_interactions reason now active old st)"
| ixs_permission: "ix_step (U, st) (U, snd (respond_permission env fault i a run scope st))"
| ixs_respond: "respond env fx params st = Some (res, st') \<Longrightarrow> ix_step (U, st) (U, st')"
| ixs_recover: "recover_interaction_outbox env fx st = Some (rec, st') \<Longrightarrow> ix_step (U, st) (U, st')"

definition waits_wf :: "string set \<times> 'p ix_state \<Rightarrow> bool" where
  "waits_wf p = (case p of (U, st) \<Rightarrow>
     set (ix_listening st) \<union> fst ` set (ix_answers st) \<subseteq> U \<and> distinct (List.map fst (ix_answers st))
     \<and> fst ` set (ix_answers st) \<inter> set (ix_listening st) = {})"

definition kept :: "'p ix_state \<Rightarrow> 'p ix_state \<Rightarrow> bool" where
  "kept st st' \<longleftrightarrow> (\<forall>r\<in>set (ix_rows st). ixr_status r \<noteq> ''pending'' \<longrightarrow> r \<in> set (ix_rows st'))
     \<and> (\<exists>more. ix_answers st' = ix_answers st @ more)"

lemma grows_kept: "grows st st' \<Longrightarrow> kept st st'"
  by (auto simp: grows_def kept_def)

lemma kept_trans: "kept st st1 \<Longrightarrow> kept st1 st2 \<Longrightarrow> kept st st2"
  unfolding kept_def by (metis append.assoc)

lemma grows_waits_wf: "grows st st' \<Longrightarrow> waits_wf (U, st) \<Longrightarrow> waits_wf (U, st')"
  using grows_ids [of st st' U] by (simp add: waits_wf_def)

lemma ix_step_facts:
  assumes "ix_step p q"
  shows "(waits_wf p \<longrightarrow> waits_wf q) \<and> kept (snd p) (snd q)"
proof -
  have grown: "(waits_wf (U, st) \<longrightarrow> waits_wf (U, st')) \<and> kept st st'" if "grows st st'" for U and st st' :: "'a ix_state"
    using that grows_waits_wf grows_kept by blast
  show ?thesis using assms
  proof cases
    case (ixs_register i U st run_id tool)
    then show ?thesis by (auto simp: waits_wf_def kept_def register_permission_def)
  qed (simp only: snd_conv, rule grown,
       blast intro: grows_hub grows_cancel grows_rows grows_respond_permission grows_respond grows_recover)+
qed

lemma ix_steps_facts: "ix_step\<^sup>*\<^sup>* p q \<Longrightarrow> waits_wf p \<Longrightarrow> waits_wf q \<and> kept (snd p) (snd q)"
proof (induction rule: rtranclp_induct)
  case base
  then show ?case by (simp add: kept_def)
next
  case (step q q')
  with ix_step_facts [OF step(2)] kept_trans show ?case by blast
qed

subsection \<open>The event comes first\<close>

lemma ensure_loaded_bus: "sq_buses (ensure_loaded r s) = sq_buses s"
  by (simp add: ensure_loaded_def load_persistence_def load_dir_def Let_def split: option.splits sum.splits)

lemma persist_event_bus: "persist_event r e s = Inr s' \<Longrightarrow> sq_buses s' = sq_buses s"
  by (auto simp: persist_event_def map_sum_def split: if_splits option.splits sum.splits)

lemma append_published:
  assumes "seq_append stamp r k s = Some (e, s')" and "\<not> is_persistence_failed (ev_payload e)"
  shows "seq_bus s' r = seq_bus s r @ [e] \<and> sanitize_payload k = Some (ev_payload e)"
proof -
  obtain k' where k: "sanitize_payload k = Some k'"
    using assms(1) by (auto simp: seq_append_def bind_eq_Some_conv)
  show ?thesis
  proof (cases "sq_load_errors (ensure_loaded r s) r")
    case (Some x)
    with assms k show ?thesis by (auto simp: seq_append_def run_event_new_def)
  next
    case None
    let ?s = "ensure_loaded r s"
    let ?n = "(case sq_sequences ?s r of None \<Rightarrow> 0 | Some n \<Rightarrow> n) + 1"
    let ?p = "persist_event r (run_event_new stamp r ?n k') (?s\<lparr>sq_sequences := (sq_sequences ?s)(r \<mapsto> ?n)\<rparr>)"
    show ?thesis
    proof (cases ?p)
      case (Inl x)
      with assms k None show ?thesis by (auto simp: seq_append_def run_event_new_def Let_def)
    next
      case (Inr s2)
      from persist_event_bus [OF Inr] have "seq_bus s2 r = seq_bus s r"
        by (simp add: ensure_loaded_bus seq_bus_def)
      with assms k None Inr show ?thesis
        by (auto simp: seq_append_def run_event_new_def Let_def seq_simps)
    qed
  qed
qed

definition untouched :: "'p ix_state \<Rightarrow> 'p ix_state \<Rightarrow> bool" where
  "untouched st st' \<longleftrightarrow> ix_answers st' = ix_answers st \<and> ix_assigned st' = ix_assigned st \<and> ix_policies st' = ix_policies st
     \<and> ix_listening st' = ix_listening st \<and> ix_waiters st' = ix_waiters st \<and> ix_assignments st' = ix_assignments st"

lemma mark_resolved_untouched: "untouched st (snd (mark_resolved env fault i v st)) \<and> ix_events (snd (mark_resolved env fault i v st)) = ix_events st"
  by (auto simp: untouched_def mark_resolved_def Let_def split: option.splits)

lemma resolve_for_run_frame:
  "ix_answers (snd (resolve_permission_for_run i run st)) = ix_answers st \<and> ix_assigned (snd (resolve_permission_for_run i run st)) = ix_assigned st
     \<and> ix_policies (snd (resolve_permission_for_run i run st)) = ix_policies st \<and> ix_events (snd (resolve_permission_for_run i run st)) = ix_events st
     \<and> ix_rows (snd (resolve_permission_for_run i run st)) = ix_rows st"
  by (auto simp: resolve_permission_for_run_def resolve_permission_def split: option.splits)

lemma respond_permission_answers:
  "ix_events (snd (respond_permission env fault i a run scope st)) = ix_events st
   \<and> (ix_answers (snd (respond_permission env fault i a run scope st)) = ix_answers st
    \<or> ix_answers (snd (respond_permission env fault i a run scope st))
        = ix_answers st @ [(i, a, normalize_permission_scope (case scope of Some s \<Rightarrow> s | None \<Rightarrow> ''once''))])"
proof -
  let ?sc = "normalize_permission_scope (case scope of Some s \<Rightarrow> s | None \<Rightarrow> ''once'')"
  obtain r1 st1 where m: "mark_resolved env fault i (decision_json a ?sc) st = (r1, st1)" by fastforce
  obtain r2 st2 where w: "resolve_permission_for_run i run st1 = (r2, st2)" by fastforce
  have "ix_answers st1 = ix_answers st" "ix_events st1 = ix_events st"
    using mark_resolved_untouched [of st env fault i "decision_json a ?sc"] m by (simp_all add: untouched_def)
  moreover have "ix_answers st2 = ix_answers st1" "ix_events st2 = ix_events st1"
    using resolve_for_run_frame [of i run st1] w by simp_all
  ultimately show ?thesis
    using m w by (auto simp: respond_permission_def Let_def send_answer_def split: sum.split)
qed

lemma assignment_frame:
  "ix_events (wake_assignment i v st) = ix_events st" "ix_rows (wake_assignment i v st) = ix_rows st"
  "ix_events (upsert_route_policy c m bs st) = ix_events st" "ix_rows (upsert_route_policy c m bs st) = ix_rows st"
  by (simp_all add: wake_assignment_def upsert_route_policy_def Let_def)

lemma deliver_assignment_frame:
  "ix_events (deliver_assignment i conv v st) = ix_events st" "ix_rows (deliver_assignment i conv v st) = ix_rows st"
  by (simp_all add: deliver_assignment_def assignment_frame Let_def split: option.split)

lemma wake_kind_events: "ix_events (wake_kind env fx i run conv kind v st) = ix_events st"
  by (simp add: wake_kind_def respond_permission_answers deliver_assignment_frame)

text \<open>A row that was found decided is still found.\<close>

lemma mark_resolved_finds:
  "find_row j st = Some r \<Longrightarrow> ixr_status r \<noteq> ''pending'' \<Longrightarrow> find_row j (snd (mark_resolved env fault i v st)) = Some r"
  by (cases "j = str_trim i") (auto simp: mark_resolved_def Let_def find_row_def find_answer_rows find_answer_other
      split: option.split)

lemma wake_kind_finds:
  assumes "find_row j st = Some r" and "ixr_status r \<noteq> ''pending''"
  shows "find_row j (wake_kind env fx i run conv kind v st) = Some r"
proof -
  have "find_row j (snd (respond_permission env fault i a run scope st)) = Some r" for fault a scope
  proof -
    let ?sc = "normalize_permission_scope (case scope of Some s \<Rightarrow> s | None \<Rightarrow> ''once'')"
    obtain r1 st1 where m: "mark_resolved env fault i (decision_json a ?sc) st = (r1, st1)" by fastforce
    obtain r2 st2 where w: "resolve_permission_for_run i run st1 = (r2, st2)" by fastforce
    have "find_row j st1 = Some r"
      using mark_resolved_finds [OF assms, of env fault i "decision_json a ?sc"] m by simp
    moreover have "ix_rows st2 = ix_rows st1" using resolve_for_run_frame [of i run st1] w by simp
    ultimately show ?thesis using m w assms(1)
      by (auto simp: respond_permission_def Let_def send_answer_def find_row_def split: sum.split)
  qed
  then show ?thesis using assms(1) by (simp add: wake_kind_def deliver_assignment_frame find_row_def)
qed

lemma mark_delivered_frame:
  "untouched st (snd (mark_delivered mk i st)) \<and> ix_events (snd (mark_delivered mk i st)) = ix_events st
     \<and> ix_rows (snd (mark_delivered mk i st)) = ix_rows st"
  by (simp add: untouched_def mark_delivered_def split: mark_result.split)

lemma deliver_outbox_finds:
  assumes "deliver_outbox env fx ob i run conv kind v st = Some (res, st')"
    and "find_row j st = Some r" and "ixr_status r \<noteq> ''pending''"
  shows "find_row j st' = Some r"
proof -
  have marked: "find_row j (snd (mark_delivered mk ob (wake_kind env fx i run conv kind v (st\<lparr>ix_events := s\<rparr>)))) = Some r" for mk s
  proof -
    have "find_row j (st\<lparr>ix_events := s\<rparr>) = Some r" using assms(2) by (simp add: find_row_def)
    from wake_kind_finds [OF this assms(3)] show ?thesis by (simp add: find_row_def mark_delivered_frame)
  qed
  show ?thesis
  proof (cases "run = None \<or> run = Some []")
    case True
    with assms(1) marked [of "xf_mark fx ob" "ix_events st"] show ?thesis
      by (auto simp: deliver_outbox_def split: option.splits list.splits)
  next
    case False
    then obtain c cs where run: "run = Some (c # cs)" by (metis list.exhaust not_None_eq)
    with assms(1) obtain e s where "seq_append (iv_stamp env i) (c # cs) (EvInteractionResponded i v) (ix_events st) = Some (e, s)"
      by (auto simp: deliver_outbox_def)
    with assms run marked [of "xf_mark fx ob" s] show ?thesis
      by (auto simp: deliver_outbox_def find_row_def split: if_splits)
  qed
qed

lemma deliver_outbox_event:
  assumes "deliver_outbox env fx ob i (Some rid) conv kind v st = Some (res, st')" and "rid \<noteq> []"
  shows "(res = Inl ''PERSISTENCE_FAILED append InteractionResponded'' \<and> untouched st st' \<and> ix_rows st' = ix_rows st
        \<and> ix_outbox st' = ix_outbox st)
    \<or> (\<exists>e. seq_bus (ix_events st') rid = seq_bus (ix_events st) rid @ [e] \<and> ev_payload e = EvInteractionResponded i v)"
proof -
  obtain c cs where rid: "rid = c # cs" using assms(2) by (cases rid) auto
  with assms(1) obtain e s where app: "seq_append (iv_stamp env i) rid (EvInteractionResponded i v) (ix_events st) = Some (e, s)"
    by (auto simp: deliver_outbox_def)
  show ?thesis
  proof (cases "is_persistence_failed (ev_payload e)")
    case True
    with assms(1) app rid have "res = Inl ''PERSISTENCE_FAILED append InteractionResponded''" "st' = st\<lparr>ix_events := s\<rparr>"
      by (simp_all add: deliver_outbox_def)
    then show ?thesis by (simp add: untouched_def)
  next
    case False
    with assms(1) app rid have "ix_events st' = s"
      using mark_delivered_frame [of "wake_kind env fx i (Some rid) conv kind v (st\<lparr>ix_events := s\<rparr>)"]
      by (auto simp: deliver_outbox_def wake_kind_events) (metis snd_conv)
    with append_published [OF app False] show ?thesis by auto
  qed
qed

subsection \<open>A concrete question\<close>

definition demo_ix_env :: ix_env where
  "demo_ix_env = \<lparr>iv_show = (\<lambda>v. case v of JObj ((_, JBool b) # _) \<Rightarrow> if b then ''yes'' else ''no'' | _ \<Rightarrow> ''?''),
     iv_parse = (\<lambda>_. None), iv_now = ''t'', iv_outbox_id = ''o1'', iv_stamp = (\<lambda>_. (''e1'', ''t''))\<rparr>"

definition demo_ix :: "unit sequencer \<Rightarrow> unit ix_state" where
  "demo_ix s = snd (insert_pending demo_ix_env None ''p1'' (Some ''r1'') (Some ''c1'') ''tool_permission'' JNull
     (register_permission ''p1'' ''r1'' ''run_terminal''
       \<lparr>ix_rows = [], ix_outbox = [], ix_waiters = [], ix_listening = [], ix_answers = [], ix_assignments = [],
        ix_assigned = [], ix_policies = [], ix_events = s\<rparr>))"

definition quiet_seq :: "unit sequencer" where "quiet_seq = seq_memory_only None ()"

text \<open>A sequencer whose store refuses every event.\<close>

definition broken_seq :: "unit sequencer" where
  "broken_seq = seq_with_persistence
     \<lparr>p_append = (\<lambda>_ _. Inl ''disk full''), p_replay = (\<lambda>_ _ _. Inr []), p_last = (\<lambda>_ _. Inr 0)\<rparr> None ()"

definition yes_params :: json where
  "yes_params = JObj [(''id'', JStr ''p1''), (''approved'', JBool True)]"

subsection \<open>Properties\<close>

text \<open>
  C32: a question is answered once. Whatever the operations that follow one another, cancellations,
  expiry, answers over either RPC, failures and replays among them, no wait is answered twice, and a
  row that was decided or expired keeps its status and its response.
\<close>

theorem question_answered_once:
  assumes "ix_step\<^sup>*\<^sup>* ({}, st0) (U, st)" and "ix_listening st0 = []" and "ix_answers st0 = []"
    and "ix_step\<^sup>*\<^sup>* (U, st) (U', st')"
  shows "distinct (List.map fst (ix_answers st')) \<and> (\<exists>more. ix_answers st' = ix_answers st @ more)
    \<and> list_all (\<lambda>r. ixr_status r = ''pending'' \<or> r \<in> set (ix_rows st')) (ix_rows st)"
proof -
  have "waits_wf ({}, st0)" using assms(2,3) by (simp add: waits_wf_def)
  from ix_steps_facts [OF assms(1) this] have "waits_wf (U, st)" ..
  from ix_steps_facts [OF assms(4) this] show ?thesis
    by (auto simp: waits_wf_def kept_def list_all_iff)
qed

lemma question_answered_once_witness:
  "\<exists>st' :: unit ix_state. distinct (List.map fst (ix_answers st')) \<and> ix_answers st' = [(''p1'', True, ''once'')]"
proof -
  let ?st0 = "\<lparr>ix_rows = [], ix_outbox = [], ix_waiters = [], ix_listening = [], ix_answers = [], ix_assignments = [],
        ix_assigned = [], ix_policies = [], ix_events = quiet_seq\<rparr> :: unit ix_state"
  let ?st1 = "register_permission ''p1'' ''r1'' ''run_terminal'' ?st0"
  have 1: "ix_step\<^sup>*\<^sup>* ({}, ?st0) ({''p1''}, ?st1)" by (rule r_into_rtranclp) (rule ixs_register, simp)
  have 2: "ix_step\<^sup>*\<^sup>* ({''p1''}, ?st1) ({''p1''}, demo_ix quiet_seq)"
    unfolding demo_ix_def by (rule r_into_rtranclp) (rule ixs_insert)
  have 3: "ix_step\<^sup>*\<^sup>* ({''p1''}, demo_ix quiet_seq) ({''p1''},
      snd (respond_permission demo_ix_env None ''p1'' True (Some ''r1'') None (demo_ix quiet_seq)))"
    by (rule r_into_rtranclp) (rule ixs_permission)
  have "ix_answers (snd (respond_permission demo_ix_env None ''p1'' True (Some ''r1'') None (demo_ix quiet_seq)))
      = [(''p1'', True, ''once'')]" by code_simp
  with question_answered_once [OF rtranclp_trans [OF 1 2] _ _ 3] show ?thesis
    by (intro exI [of _ "snd (respond_permission demo_ix_env None ''p1'' True (Some ''r1'') None (demo_ix quiet_seq))"])
      simp
qed

text \<open>
  C8: nobody is woken ahead of the event. When \<open>interaction.respond\<close> answers a waiting tool call,
  wakes an assignment or stores a routing policy for a question of a run, the run's subscribers have
  received the \<open>InteractionResponded\<close> event, which the sequencer persists first, with exactly the
  response that the question's row now holds.
\<close>

theorem answer_event_before_wake:
  assumes "respond env fx params st = Some (res, st')" and "find_row (respond_id params) st = Some r"
    and "ixr_run r = Some rid" and "rid \<noteq> []" and "\<not> untouched st st'"
  shows "\<exists>e. seq_bus (ix_events st') rid = seq_bus (ix_events st) rid @ [e]
    \<and> ev_payload e = EvInteractionResponded (respond_id params) (respond_value params)
    \<and> map_option ixr_response (find_row (respond_id params) st') = Some (Some (iv_show env (respond_value params)))"
  using assms(1)
proof (cases rule: respond_cases)
  case same
  with assms(5) show ?thesis by (simp add: untouched_def)
next
  case (decided r' res1)
  let ?st = "st\<lparr>ix_rows := answer_rows (respond_id params) (iv_show env (respond_value params)) (iv_now env) (ix_rows st),
      ix_outbox := ix_outbox st @ [outbox_row_of (iv_outbox_id env) r' (iv_show env (respond_value params))]\<rparr>"
  have r': "r' = r" using decided(1) assms(2) by simp
  let ?r = "r\<lparr>ixr_status := ''resolved'', ixr_response := Some (iv_show env (respond_value params)), ixr_responded_at := Some (iv_now env)\<rparr>"
  have row: "?r \<in> set (ix_rows ?st)"
    using find_row_Some [OF assms(2)] decided(2) r' by (auto simp: answer_rows_def image_iff intro!: bexI [of _ r])
  have found: "find_row (respond_id params) ?st = Some ?r"
    using assms(2) decided(2) r' by (simp add: find_row_def find_answer_rows)
  from decided(4) have d: "deliver_outbox env fx (iv_outbox_id env) (respond_id params) (Some rid) (ixr_conversation r)
      (ixr_kind r) (respond_value params) ?st = Some (res1, st')" using assms(3) r' by simp
  have "map_option ixr_response (find_row (respond_id params) st') = Some (Some (iv_show env (respond_value params)))"
    using deliver_outbox_finds [OF decided(4) found] r' by simp
  with deliver_outbox_event [OF d assms(4)] assms(5) show ?thesis by (auto simp: untouched_def)
qed

lemma answer_event_before_wake_witness:
  "\<exists>st' e. respond demo_ix_env no_faults yes_params (demo_ix quiet_seq) = Some st'
    \<and> seq_bus (ix_events (snd st')) ''r1'' = [e]"
proof -
  let ?p = "the (respond demo_ix_env no_faults yes_params (demo_ix quiet_seq))"
  have "respond demo_ix_env no_faults yes_params (demo_ix quiet_seq) \<noteq> None" by code_simp
  then have 1: "respond demo_ix_env no_faults yes_params (demo_ix quiet_seq) = Some (fst ?p, snd ?p)" by auto
  have 2: "map_option ixr_run (find_row (respond_id yes_params) (demo_ix quiet_seq)) = Some (Some ''r1'')"
    "ix_answers (snd ?p) = [(''p1'', True, ''once'')]" "ix_answers (demo_ix quiet_seq) = []"
    "seq_bus (ix_events (demo_ix quiet_seq)) ''r1'' = []"
    by code_simp+
  then obtain r where r: "find_row (respond_id yes_params) (demo_ix quiet_seq) = Some r" "ixr_run r = Some ''r1''" by auto
  have "\<not> untouched (demo_ix quiet_seq) (snd ?p)" using 2(2,3) by (simp add: untouched_def)
  from answer_event_before_wake [OF 1 r(1,2) _ this]
  obtain e where "seq_bus (ix_events (snd ?p)) ''r1'' = seq_bus (ix_events (demo_ix quiet_seq)) ''r1'' @ [e]" by auto
  with 1 2(4) show ?thesis by (intro exI [of _ ?p] exI [of _ e]) simp
qed

text \<open>
  The recorded answer can be the opposite of the delivered one. \<open>permission.respond\<close> decides the
  row before it compares the run, so an answer addressed to the wrong run is refused but recorded,
  and the right run's own answer, which is delivered, no longer changes the row.
\<close>

theorem misaddressed_answer_recorded:
  assumes "find_row i st = Some r" and "ixr_status r = ''pending''" and "str_trim i = i" and "i \<noteq> []"
    and "map_of (ix_waiters st) i = Some (run, tool)" and "i \<in> set (ix_listening st)"
    and "wrong \<noteq> run" and "wrong \<noteq> []"
  shows "isl (fst (respond_permission env None i True (Some wrong) None st))
    \<and> (let st1 = snd (respond_permission env None i True (Some wrong) None st)
       in case respond_permission env None i False (Some run) None st1 of (res, st2) \<Rightarrow>
            res = Inr () \<and> ix_answers st2 = ix_answers st @ [(i, False, ''once'')]
            \<and> map_option ixr_response (find_row i st2) = Some (Some (iv_show env (decision_json True ''once''))))"
proof -
  let ?yes = "decision_json True ''once''" and ?no = "decision_json False ''once''"
  let ?st1 = "st\<lparr>ix_rows := answer_rows i (iv_show env ?yes) (iv_now env) (ix_rows st)\<rparr>"
  let ?r = "r\<lparr>ixr_status := ''resolved'', ixr_response := Some (iv_show env ?yes), ixr_responded_at := Some (iv_now env)\<rparr>"
  have once: "normalize_permission_scope ''once'' = ''once''" by code_simp
  have m: "mark_resolved env None i ?yes st = (Inr (), ?st1)"
    using assms(3,4) find_row_pending [OF assms(1,2)] by (simp add: mark_resolved_def)
  then have first: "respond_permission env None i True (Some wrong) None st
      = (Inl (''permission run_id mismatch: expected '' @ run @ '', got '' @ wrong), ?st1)"
    using assms(3-5,7,8) once by (simp add: respond_permission_def resolve_permission_for_run_def)
  have found: "find_row i ?st1 = Some ?r" using assms(1,2) by (simp add: find_row_def find_answer_rows)
  have "\<not> list_ex (\<lambda>r. ixr_id r = i \<and> ixr_status r = ''pending'') (ix_rows ?st1)"
    by (simp add: answer_rows_decides)
  with found assms(3,4) have "mark_resolved env None i ?no ?st1 = (Inr (), ?st1)" by (simp add: mark_resolved_def)
  then have "respond_permission env None i False (Some run) None ?st1 =
      (Inr (), ?st1\<lparr>ix_waiters := AList.delete i (ix_waiters st), ix_listening := List.filter (\<lambda>j. j \<noteq> i) (ix_listening st),
         ix_answers := ix_answers st @ [(i, False, ''once'')]\<rparr>)"
    using assms(3-6) once
    by (simp add: respond_permission_def resolve_permission_for_run_def resolve_permission_def send_answer_def Let_def)
  with first found show ?thesis by (simp add: find_row_def)
qed

lemma misaddressed_answer_recorded_witness:
  "ix_answers (snd (respond_permission demo_ix_env None ''p1'' False (Some ''r1'') None
     (snd (respond_permission demo_ix_env None ''p1'' True (Some ''r2'') None (demo_ix quiet_seq)))))
   = [(''p1'', False, ''once'')]"
proof -
  have 1: "map_option ixr_status (find_row ''p1'' (demo_ix quiet_seq)) = Some ''pending''" "str_trim ''p1'' = ''p1''"
    "map_of (ix_waiters (demo_ix quiet_seq)) ''p1'' = Some (''r1'', ''run_terminal'')"
    "''p1'' \<in> set (ix_listening (demo_ix quiet_seq))" "ix_answers (demo_ix quiet_seq) = []"
    by code_simp+
  then obtain r where "find_row ''p1'' (demo_ix quiet_seq) = Some r" "ixr_status r = ''pending''" by auto
  from misaddressed_answer_recorded [OF this 1(2) _ 1(3,4), of "''r2''" demo_ix_env] 1(5) show ?thesis
    by (simp add: Let_def split: prod.splits)
qed

text \<open>
  A retry reports a delivery that never happened. When the event of a decision cannot be appended,
  \<open>interaction.respond\<close> fails with the row decided and the outbox entry undelivered; repeating the
  call succeeds and changes nothing, so the tool call keeps waiting.
\<close>

theorem retry_reports_undelivered_answer:
  assumes "find_row (respond_id params) st = Some r" and "ixr_status r = ''pending''" and "respond_id params \<noteq> []"
    and "ixr_run r = Some rid" and "rid \<noteq> []" and "xf_store fx = None" and "xf_statement fx = None"
    and "seq_append (iv_stamp env (respond_id params)) rid (EvInteractionResponded (respond_id params) (respond_value params))
           (ix_events st) = Some (e, s)"
    and "is_persistence_failed (ev_payload e)"
  shows "case respond env fx params st of
      Some (res, st1) \<Rightarrow> isl res \<and> untouched st st1
        \<and> (\<exists>ok. respond env no_faults params st1 = Some (Inr ok, st1) \<and> jget ''ok'' ok = Some (JBool True))
        \<and> list_ex (\<lambda>o1. ob_interaction o1 = respond_id params \<and> \<not> ob_delivered o1) (ix_outbox st1)
    | None \<Rightarrow> False"
proof -
  let ?i = "respond_id params" and ?v = "iv_show env (respond_value params)"
  let ?st1 = "st\<lparr>ix_rows := answer_rows ?i ?v (iv_now env) (ix_rows st),
      ix_outbox := ix_outbox st @ [outbox_row_of (iv_outbox_id env) r ?v]\<rparr>"
  let ?r = "r\<lparr>ixr_status := ''resolved'', ixr_response := Some ?v, ixr_responded_at := Some (iv_now env)\<rparr>"
  obtain c cs where rid: "rid = c # cs" using assms(5) by (cases rid) auto
  have call: "respond env fx params st = Some (Inl ''PERSISTENCE_FAILED append InteractionResponded'', ?st1\<lparr>ix_events := s\<rparr>)"
    using assms(1-4,6-9) rid by (simp add: respond_def Let_def deliver_outbox_def)
  have "find_row ?i (?st1\<lparr>ix_events := s\<rparr>) = Some ?r" using assms(1,2) by (simp add: find_row_def find_answer_rows)
  then have "respond env no_faults params (?st1\<lparr>ix_events := s\<rparr>)
      = Some (Inr (respond_result ?i True ?r (respond_value params) (iv_now env)), ?st1\<lparr>ix_events := s\<rparr>)"
    using assms(3) by (simp add: respond_def Let_def no_faults_def)
  with call find_row_Some [OF assms(1)] show ?thesis
    by (simp add: untouched_def respond_result_def outbox_row_of_def)
qed

lemma retry_reports_undelivered_answer_witness:
  "\<exists>ok (st1 :: unit ix_state). respond demo_ix_env no_faults yes_params st1 = Some (Inr ok, st1) \<and> ix_answers st1 = []
     \<and> map_of (ix_waiters st1) ''p1'' = Some (''r1'', ''run_terminal'')"
proof -
  have 1: "map_option (\<lambda>r. (ixr_status r, ixr_run r)) (find_row (respond_id yes_params) (demo_ix broken_seq))
      = Some (''pending'', Some ''r1'')" "respond_id yes_params \<noteq> []" "xf_store no_faults = None" "xf_statement no_faults = None"
    "map_option (\<lambda>(e, s). is_persistence_failed (ev_payload e)) (seq_append (iv_stamp demo_ix_env (respond_id yes_params)) ''r1''
      (EvInteractionResponded (respond_id yes_params) (respond_value yes_params)) (ix_events (demo_ix broken_seq))) = Some True"
    "ix_answers (demo_ix broken_seq) = []" "map_of (ix_waiters (demo_ix broken_seq)) ''p1'' = Some (''r1'', ''run_terminal'')"
    by code_simp+
  then obtain r e s where "find_row (respond_id yes_params) (demo_ix broken_seq) = Some r" "ixr_status r = ''pending''"
    "ixr_run r = Some ''r1''" "seq_append (iv_stamp demo_ix_env (respond_id yes_params)) ''r1''
      (EvInteractionResponded (respond_id yes_params) (respond_value yes_params)) (ix_events (demo_ix broken_seq)) = Some (e, s)"
    "is_persistence_failed (ev_payload e)" by auto
  from retry_reports_undelivered_answer [OF this(1,2) 1(2) this(3) _ 1(3,4) this(4,5)]
  obtain ok st1 where "untouched (demo_ix broken_seq) st1" "respond demo_ix_env no_faults yes_params st1 = Some (Inr ok, st1)"
    by (auto split: option.splits)
  with 1(6,7) show ?thesis by (intro exI [of _ ok] exI [of _ st1]) (simp add: untouched_def)
qed

end
