(* ===== verification/ToolGate.thy ===== *)
theory ToolGate
  imports PlanMode Schema ToolPolicy Hooks Subagents Interactions
begin

section \<open>The gate in front of every tool call\<close>

text \<open>
  Models \<open>PermissionGatedTools\<close> in \<open>production_tools.rs\<close> of the daemon: which tools the model sees, and
  the way of one call from the allowlist over the Plan Mode latch, the project identity, the budget, the
  schemas, the profile and the question to the user to the event that authorises its handler. The handlers
  come after that and are not part of the model. An operation yields \<open>None\<close> for a panic of the redaction.
  While a call waits for the user the other tasks of the daemon run; what they do to the questions is the
  function \<open>ge_wait\<close>, of which the answer is read off: an entry of \<open>ix_answers\<close>, or none in time.
\<close>

subsection \<open>Results, the runtime and its environment\<close>

record tool_result =
  tr_output :: json
  tr_is_error :: bool
  tr_duration :: u64

definition refusal :: "(string \<times> json) list \<Rightarrow> tool_result" where
  "refusal kvs = \<lparr>tr_output = JObj kvs, tr_is_error = True, tr_duration = 0\<rparr>"

definition error_text :: "string \<Rightarrow> (string \<times> json) list" where
  "error_text s = [(''error'', JStr s)]"

definition denied_flag :: "string \<times> json" where
  "denied_flag = (''denied'', JBool True)"

text \<open>The fields of \<open>PermissionGatedTools\<close> a call reads.\<close>

record gated_tools =
  gt_gateway :: gateway
  gt_mcp_schemas :: "(string \<times> json) list"
  gt_allowlist :: "string list option"
  gt_selected :: "string list option"
  gt_run :: string
  gt_conversation :: string
  gt_profile :: string
  gt_has_runtime :: bool

record gate_faults =
  gf_insert :: "string option"
  gf_cleanup :: "string option"
  gf_resolve :: "string option"
  gf_snapshot_asked :: "string option"
  gf_snapshot_answered :: "string option"
  gf_remember :: "string option"
  gf_safe_point :: "string + string option"
  gf_restore :: "string option"

record 'p gate_env =
  ge_policy :: policy_env
  ge_schema :: schema_env
  ge_glob :: "string \<Rightarrow> string \<Rightarrow> bool"
  ge_machine :: machine
  ge_hooks :: hook_env
  ge_ix :: ix_env
  ge_registry :: "'p hook_registry"
  ge_order :: "plan_sessions \<Rightarrow> plan_sessions"
  ge_now :: int
  ge_elapsed :: u64
  ge_runs :: "string \<Rightarrow> string option option"
  ge_config :: sub_config
  ge_show_sub :: "sub_error \<Rightarrow> string"
  ge_has_store :: bool
  ge_identity :: "project_identity option"
  ge_db_ok :: bool
  ge_grant_id :: string
  ge_permission_id :: string
  ge_auto_id :: string
  ge_uuid :: string
  ge_stamp :: "string \<Rightarrow> string \<times> string"
  ge_cancelled :: bool
  ge_wait :: "'p ix_state \<Rightarrow> 'p ix_state"
  ge_fx :: gate_faults

record 'p gate_state =
  gs_plans :: plan_sessions
  gs_ledger :: ledger
  gs_policy :: policy_state
  gs_ix :: "'p ix_state"
  gs_requests :: "string list"
  gs_pending :: "string option"

text \<open>\<open>append_checked\<close> and \<open>append\<close> on the shared sequencer.\<close>

definition gate_emit :: "'p gate_env \<Rightarrow> string \<Rightarrow> string \<Rightarrow> run_event_kind \<Rightarrow> 'p gate_state \<Rightarrow> (bool \<times> 'p gate_state) option" where
  "gate_emit env key run k st =
     map_option (\<lambda>(res, s). (\<not> isl res, st\<lparr>gs_ix := (gs_ix st)\<lparr>ix_events := s\<rparr>\<rparr>))
       (append_checked (ge_stamp env key) run k (ix_events (gs_ix st)))"

definition gate_append :: "'p gate_env \<Rightarrow> string \<Rightarrow> string \<Rightarrow> run_event_kind \<Rightarrow> 'p gate_state \<Rightarrow> 'p gate_state option" where
  "gate_append env key run k st =
     map_option (\<lambda>(_, s). st\<lparr>gs_ix := (gs_ix st)\<lparr>ix_events := s\<rparr>\<rparr>)
       (seq_append (ge_stamp env key) run k (ix_events (gs_ix st)))"

subsection \<open>Which tools a run has\<close>

text \<open>The text before the first occurrence of \<open>pat\<close>.\<close>

fun text_before :: "string \<Rightarrow> string \<Rightarrow> string option" where
  "text_before pat s =
     (if starts_with s pat then Some []
      else (case s of [] \<Rightarrow> None | c # cs \<Rightarrow> map_option (Cons c) (text_before pat cs)))"

declare text_before.simps [simp del]

definition mcp_server_of_tool :: "string \<Rightarrow> string option" where
  "mcp_server_of_tool name = Option.bind (strip_prefix ''mcp__'' name) (text_before ''__'')"

definition tool_allowed :: "string list option \<Rightarrow> string list option \<Rightarrow> string \<Rightarrow> bool" where
  "tool_allowed selected allowlist name \<longleftrightarrow>
     (case (selected, mcp_server_of_tool name) of
        (Some sel, Some server) \<Rightarrow> server \<in> set sel | _ \<Rightarrow> True)
     \<and> (case allowlist of None \<Rightarrow> True | Some list \<Rightarrow> tool_list_allows list name)"

definition max_model_visible_tools :: nat where "max_model_visible_tools = 200"

definition validate_tool_limit :: "nat \<Rightarrow> string + unit" where
  "validate_tool_limit n =
     (if n > max_model_visible_tools
      then Inl (''tool_plan_too_large: Model-visible tools count ('' @ show_nat n @ '') exceeds maximum limit of ''
                @ show_nat max_model_visible_tools)
      else Inr ())"

text \<open>A schema handed to the model is its name with its input schema; the description is left out.\<close>

definition tool_visible :: "bool \<Rightarrow> tool \<Rightarrow> bool" where
  "tool_visible planning t =
     (case plan_mode_decision (tl_name t) (tl_side_effect t) (tl_class t) of
        PdControl \<Rightarrow> (if tl_name t = exit_plan_mode_tool then planning else \<not> planning)
      | PdDeny \<Rightarrow> \<not> planning
      | PdAllow \<Rightarrow> True)"

definition model_visible_tool_schemas ::
  "gateway \<Rightarrow> string list option \<Rightarrow> (string \<times> json) list \<Rightarrow> string list option \<Rightarrow> bool \<Rightarrow> (string \<times> json) list" where
  "model_visible_tool_schemas gw allowlist mcp selected planning =
     fold (\<lambda>schema schemas.
         if planning \<or> \<not> tool_allowed selected allowlist (fst schema) \<or> fst schema \<in> set (List.map fst schemas)
         then schemas else schemas @ [schema]) mcp
       (List.map (\<lambda>t. (tl_name t, tl_schema t))
         (List.filter (\<lambda>t. tool_allowed selected allowlist (tl_name t) \<and> tool_visible planning t) (gw_tools gw)))"

definition deny_not_allowlisted :: "string \<Rightarrow> tool_result" where
  "deny_not_allowlisted name = refusal
     (error_text (''tool `'' @ name @ ''` not in subagent tool_allowlist'') @ [denied_flag, (''code'', JStr ''tool_not_allowlisted'')])"

definition mcp_server_arg :: "json \<Rightarrow> string" where
  "mcp_server_arg input = (case Option.bind (jget_or ''server'' ''server_id'' input) as_str of Some s \<Rightarrow> s | None \<Rightarrow> [])"

definition mcp_tool_arg :: "json \<Rightarrow> string" where
  "mcp_tool_arg input = (case Option.bind (jget_or ''tool'' ''name'' input) as_str of Some s \<Rightarrow> s | None \<Rightarrow> [])"

definition server_not_selected :: "string \<Rightarrow> tool_result" where
  "server_not_selected server = refusal
     (error_text (''mcp server '' @ quoted server @ '' is not part of this run's capability selection'')
      @ [denied_flag, (''code'', JStr ''MCP_SERVER_NOT_SELECTED'')])"

subsection \<open>The Plan Mode latch of the run\<close>

definition emit_plan_transition :: "'p gate_env \<Rightarrow> gated_tools \<Rightarrow> plan_transition \<Rightarrow> 'p gate_state \<Rightarrow> 'p gate_state option" where
  "emit_plan_transition env self tr st =
     (case map_of (gs_plans st) (gt_run self) of
        None \<Rightarrow> Some st
      | Some s \<Rightarrow> gate_append env (plan_transition_str tr) (gt_run self) (changed_event s tr None) st)"

definition ensure_plan_latch :: "'p gate_env \<Rightarrow> gated_tools \<Rightarrow> 'p gate_state \<Rightarrow> 'p gate_state option" where
  "ensure_plan_latch env self st =
     (if ascii_lower (str_trim (gt_profile self)) = ascii_lower plan_profile \<and> map_of (gs_plans st) (gt_run self) = None
      then emit_plan_transition env self PtEntered
             (st\<lparr>gs_plans := fst (plan_enter (ge_order env) (ge_now env) (gt_run self) plan_profile (gs_plans st))\<rparr>)
      else Some st)"

definition effective_permission_profile :: "gated_tools \<Rightarrow> 'p gate_state \<Rightarrow> string" where
  "effective_permission_profile self st = effective_profile (gt_run self) (gt_profile self) (gs_plans st)"

definition plan_decision_for :: "gated_tools \<Rightarrow> string \<Rightarrow> plan_decision" where
  "plan_decision_for self name =
     (case get_tool (gt_gateway self) name of
        Some t \<Rightarrow> plan_mode_decision name (tl_side_effect t) (tl_class t)
      | None \<Rightarrow> plan_mode_decision name SfDestructive PcElevation)"

subsection \<open>Identity and budget\<close>

definition ensure_verified_project_for_tool :: "'p gate_env \<Rightarrow> string \<Rightarrow> string + unit" where
  "ensure_verified_project_for_tool env name =
     (if \<not> tool_requires_verified_project name \<or> \<not> ge_has_store env \<or> ge_identity env \<noteq> None then Inr ()
      else Inl (''tool `'' @ name @ ''` requires a verified ProjectIdentity on the run (unbound/orphaned/fingerprint mismatch)''))"

text \<open>The walk to the root of the run tree, at most 32 steps.\<close>

fun root_walk :: "(string \<Rightarrow> string option option) \<Rightarrow> nat \<Rightarrow> string \<Rightarrow> string" where
  "root_walk runs 0 root = root"
| "root_walk runs (Suc n) root =
     (case runs root of Some (Some p) \<Rightarrow> root_walk runs n p | _ \<Rightarrow> root)"

definition subagent_budget_ids :: "(string \<Rightarrow> string option option) \<Rightarrow> string \<Rightarrow> (string \<times> string) option" where
  "subagent_budget_ids runs child =
     (case runs child of Some (Some parent) \<Rightarrow> Some (child, root_walk runs 32 parent) | _ \<Rightarrow> None)"

definition consume_budget :: "'p gate_env \<Rightarrow> gated_tools \<Rightarrow> 'p gate_state \<Rightarrow> (sub_error + unit) \<times> 'p gate_state" where
  "consume_budget env self st =
     (case subagent_budget_ids (ge_runs env) (gt_run self) of
        None \<Rightarrow> (Inr (), st)
      | Some (child, root) \<Rightarrow>
          (case consume_tool_call (ge_config env) child root (gs_ledger st) of (r, l) \<Rightarrow> (r, st\<lparr>gs_ledger := l\<rparr>)))"

definition build_tool_invocation :: "'p gate_env \<Rightarrow> gated_tools \<Rightarrow> string \<Rightarrow> json \<Rightarrow> tool_invocation" where
  "build_tool_invocation env self name input =
     (case ge_identity env of
        Some identity \<Rightarrow> invocation_from_verified_identity name input (gt_conversation self) (gt_run self)
                           (Some (gt_conversation self)) identity
      | None \<Rightarrow> invocation_from_gate name input (gt_conversation self) (gt_run self) (gw_root (gt_gateway self)))"

subsection \<open>Asking the user\<close>

datatype permission_profile = PpReadOnly | PpConfirmEach | PpAutonomous

definition profile_of :: "string \<Rightarrow> permission_profile" where
  "profile_of s =
     (if s = ''readonly'' \<or> s = ''read_only'' then PpReadOnly
      else if s = ''full_access'' \<or> s = ''autonomous'' \<or> s = ''full'' then PpAutonomous
      else PpConfirmEach)"

datatype hook_gate = HgDeny string | HgPrompt | HgAutoApprove string

definition hook_permission_gate :: "permission_aggregate \<Rightarrow> permission_profile \<Rightarrow> bool \<Rightarrow> hook_gate" where
  "hook_permission_gate aggregate profile auto_approve_allowed =
     (case aggregate of
        PaDeny reason \<Rightarrow> HgDeny reason
      | PaPrompt \<Rightarrow> HgPrompt
      | PaAutoApprove reason \<Rightarrow>
          (if \<not> auto_approve_allowed \<or> profile = PpReadOnly then HgPrompt else HgAutoApprove reason))"

definition auto_approved :: string where "auto_approved = ''auto-approved''"

definition request_permission_for_profile ::
  "permission_profile \<Rightarrow> string \<Rightarrow> 'p gate_state \<Rightarrow> (string + string) \<times> 'p gate_state" where
  "request_permission_for_profile profile fresh st =
     (case profile of
        PpReadOnly \<Rightarrow> (Inl ''readonly profile denies side effects'', st)
      | PpAutonomous \<Rightarrow> (Inr auto_approved, st)
      | PpConfirmEach \<Rightarrow> (Inr fresh, st\<lparr>gs_requests := fresh # gs_requests st\<rparr>))"

text \<open>How the wait ends: the run is cancelled, nobody answers in time, or an answer arrives.\<close>

datatype reply = RpCancelled | RpSilent | RpAnswered bool string

definition await_reply :: "'p gate_env \<Rightarrow> string \<Rightarrow> 'p ix_state \<Rightarrow> reply \<times> 'p ix_state" where
  "await_reply env pid ix0 =
     (let ix = ge_wait env ix0
      in if ge_cancelled env then (RpCancelled, stop_listening pid (snd (resolve_permission pid ix)))
         else (case map_of (ix_answers ix) pid of
                 Some (approved, scope) \<Rightarrow> (RpAnswered approved scope, ix)
               | None \<Rightarrow> (RpSilent, stop_listening pid ix)))"

fun reply_approved :: "reply \<Rightarrow> bool" where
  "reply_approved (RpAnswered approved _) = approved"
| "reply_approved _ = False"

datatype ask_end = AsInsert string | AsSnapshot string | AsEvent | AsMark string | AsAnswer bool string

text \<open>Withdrawing a question that could not be asked; the receiver goes with the call.\<close>

definition withdraw :: "'p gate_env \<Rightarrow> string \<Rightarrow> 'p gate_state \<Rightarrow> 'p gate_state" where
  "withdraw env pid st =
     st\<lparr>gs_ix := stop_listening pid (snd (mark_resolved (ge_ix env) (gf_cleanup (ge_fx env)) pid
                       (decision_json False ''persistence_failed'') (snd (resolve_permission pid (gs_ix st)))))\<rparr>"

text \<open>
  The part that a tool permission and a plan approval have in common: wait registered, question stored,
  snapshot, event, wait, decision stored, snapshot, event. \<open>scope_of\<close> is what is recorded as the scope.
\<close>

definition settle_reply :: "'p gate_env \<Rightarrow> gated_tools \<Rightarrow> (reply \<Rightarrow> string) \<Rightarrow> 'p gate_state \<Rightarrow> (ask_end \<times> 'p gate_state) option" where
  "settle_reply env self scope_of st =
     (let pid = ge_permission_id env; fx = ge_fx env
      in case await_reply env pid (gs_ix st) of
           (reply, ix) \<Rightarrow>
             (let approved = reply_approved reply; scope = scope_of reply
              in case mark_resolved (ge_ix env) (gf_resolve fx) pid (decision_json approved scope) ix of
                   (Inl e, ix2) \<Rightarrow> Some (AsMark e, st\<lparr>gs_ix := ix2, gs_pending := None\<rparr>)
                 | (Inr _, ix2) \<Rightarrow>
                     (let st2 = st\<lparr>gs_ix := ix2, gs_pending := None\<rparr>
                      in case gf_snapshot_answered fx of
                           Some e \<Rightarrow> Some (AsSnapshot e, st2)
                         | None \<Rightarrow>
                             map_option (\<lambda>(ok, st3). (if ok then AsAnswer approved scope else AsEvent, st3))
                               (gate_emit env ''responded'' (gt_run self) (EvPermissionResponded pid approved scope) st2))))"

definition ask_user :: "'p gate_env \<Rightarrow> gated_tools \<Rightarrow> string \<Rightarrow> string \<Rightarrow> string \<Rightarrow> json \<Rightarrow> (reply \<Rightarrow> string)
    \<Rightarrow> 'p gate_state \<Rightarrow> (ask_end \<times> 'p gate_state) option" where
  "ask_user env self call_id tool reason input scope_of st =
     (let pid = ge_permission_id env; fx = ge_fx env;
          ix1 = register_permission pid (gt_run self) tool (gs_ix st);
          payload = JObj [(''tool_call_id'', JStr call_id), (''tool_name'', JStr tool), (''reason'', JStr reason), (''input'', input)]
      in case insert_pending (ge_ix env) (gf_insert fx) pid (Some (gt_run self)) (Some (gt_conversation self))
                 ''tool_permission'' payload ix1 of
           (Inl e, ix2) \<Rightarrow> Some (AsInsert e, st\<lparr>gs_ix := stop_listening pid (snd (resolve_permission pid ix2))\<rparr>)
         | (Inr _, ix2) \<Rightarrow>
             (let st2 = st\<lparr>gs_ix := ix2, gs_pending := Some pid\<rparr>
              in case gf_snapshot_asked fx of
                   Some e \<Rightarrow> Some (AsSnapshot e, withdraw env pid st2)
                 | None \<Rightarrow>
                     Option.bind (gate_emit env ''requested'' (gt_run self) (EvPermissionRequested call_id tool reason pid input) st2)
                       (\<lambda>(ok, st3).
                          if \<not> ok then Some (AsEvent, (withdraw env pid st3)\<lparr>gs_pending := None\<rparr>)
                          else settle_reply env self scope_of st3)))"

subsection \<open>The permission of one call\<close>

definition ask_failure :: "ask_end \<Rightarrow> tool_result" where
  "ask_failure e =
     (let failed = (\<lambda>what err. refusal ((''error_code'', JStr ''PERMISSION_PERSISTENCE_FAILED'')
                      # error_text (what @ '' could not be persisted: '' @ err)))
      in case e of
           AsInsert err \<Rightarrow> failed ''permission interaction'' err
         | AsSnapshot err \<Rightarrow> failed ''permission actor snapshot'' err
         | AsMark err \<Rightarrow> failed ''permission response'' err
         | _ \<Rightarrow> refusal (error_text ''permission event persistence failed''))"

definition hook_auto_approve_scope :: string where "hook_auto_approve_scope = ''hook_auto_approve''"

definition permission_reason :: "string \<Rightarrow> string" where
  "permission_reason name = ''Approve tool `'' @ name @ ''`''"

text \<open>A refusal, or \<open>None\<close> for a call that may proceed, with the state after.\<close>

type_synonym 'p gate_step = "(tool_result option \<times> 'p gate_state) option"

definition auto_approve :: "'p gate_env \<Rightarrow> gated_tools \<Rightarrow> string \<Rightarrow> string \<Rightarrow> json \<Rightarrow> 'p gate_state \<Rightarrow> 'p gate_step" where
  "auto_approve env self call_id name input st =
     Option.bind (gate_emit env ''requested'' (gt_run self)
                    (EvPermissionRequested call_id name (permission_reason name) (ge_auto_id env) input) st)
       (\<lambda>(ok, st1).
          if \<not> ok then Some (Some (ask_failure AsEvent), st1)
          else map_option (\<lambda>(ok2, st2). (if ok2 then None else Some (ask_failure AsEvent), st2))
                 (gate_emit env ''responded'' (gt_run self)
                    (EvPermissionResponded (ge_auto_id env) True hook_auto_approve_scope) st1))"

definition dispatch_gate :: "'p gate_env \<Rightarrow> gated_tools \<Rightarrow> hook_event \<Rightarrow> string \<Rightarrow> json \<Rightarrow> 'p gate_state
    \<Rightarrow> (hook_outcome list \<times> 'p gate_state) option" where
  "dispatch_gate env self event name input st =
     map_option (\<lambda>(out, r). (out, case hr_events r of
           Some s \<Rightarrow> st\<lparr>gs_ix := (gs_ix st)\<lparr>ix_events := s\<rparr>\<rparr> | None \<Rightarrow> st))
       (dispatch_outcomes (ge_hooks env) (with_events (ix_events (gs_ix st)) (ge_registry env))
          \<lparr>rq_event = event, rq_run_id = gt_run self, rq_tool_name = Some name, rq_input = input\<rparr>)"

text \<open>What is done with an answer: the grant, the hooks on a refusal, the safe point of the conversation.\<close>

definition remember_answer :: "'p gate_env \<Rightarrow> gated_tools \<Rightarrow> string \<Rightarrow> json \<Rightarrow> bool \<Rightarrow> string \<Rightarrow> 'p gate_state \<Rightarrow> 'p gate_state option" where
  "remember_answer env self name input approved scope st =
     (if approved then
        (if gt_has_runtime self
         then map_option (\<lambda>(_, p). st\<lparr>gs_policy := p\<rparr>)
                (policy_remember (ge_policy env) (gf_remember (ge_fx env)) (ge_grant_id env) (ge_now env)
                   (build_tool_invocation env self name input) scope (Some ''permission_respond'') (gs_policy st))
         else Some st)
      else map_option snd (dispatch_gate env self HePermissionDenied name input st))"

definition queue_failure :: "string \<Rightarrow> string \<Rightarrow> tool_result" where
  "queue_failure what err = refusal ((''error_code'', JStr ''QUEUE_PERSISTENCE_FAILED'') # error_text (what @ err))"

definition conclude :: "'p gate_env \<Rightarrow> bool \<Rightarrow> 'p gate_state \<Rightarrow> tool_result option \<times> 'p gate_state" where
  "conclude env approved st =
     (let verdict = (if approved then None else Some (refusal (error_text ''permission denied'' @ [denied_flag])))
      in (case gf_safe_point (ge_fx env) of
            Inl e \<Rightarrow> Some (queue_failure ''safe-point state could not be persisted: '' e)
          | Inr None \<Rightarrow> verdict
          | Inr (Some _) \<Rightarrow>
              (case gf_restore (ge_fx env) of
                 Some e \<Rightarrow> Some (queue_failure ''safe-point interjection restore failed: '' e)
               | None \<Rightarrow> verdict), st))"

definition tool_scope_of :: "reply \<Rightarrow> string" where
  "tool_scope_of reply =
     normalize_permission_scope (case reply of RpCancelled \<Rightarrow> ''cancelled'' | RpSilent \<Rightarrow> ''once'' | RpAnswered _ scope \<Rightarrow> scope)"

definition prompt_user :: "'p gate_env \<Rightarrow> gated_tools \<Rightarrow> string \<Rightarrow> string \<Rightarrow> json \<Rightarrow> permission_profile \<Rightarrow> 'p gate_state \<Rightarrow> 'p gate_step" where
  "prompt_user env self call_id name input profile st =
     (case request_permission_for_profile profile (ge_permission_id env) st of
        (Inl e, st1) \<Rightarrow>
          Some (Some (refusal ((''error_code'', JStr ''PERMISSION_PERSISTENCE_FAILED'')
                  # error_text (''permission request could not be created: '' @ e))), st1)
      | (Inr pid, st1) \<Rightarrow>
          (if pid = auto_approved then Some (None, st1)
           else Option.bind (ask_user env self call_id name (permission_reason name) input tool_scope_of st1)
                  (\<lambda>(end, st2). case end of
                     AsAnswer approved scope \<Rightarrow>
                       map_option (conclude env approved) (remember_answer env self name input approved scope st2)
                   | failed \<Rightarrow> Some (Some (ask_failure failed), st2))))"

definition grant_covers :: "'p gate_env \<Rightarrow> gated_tools \<Rightarrow> string \<Rightarrow> json \<Rightarrow> 'p gate_state \<Rightarrow> bool option" where
  "grant_covers env self name input st =
     (if gt_has_runtime self
      then map_option (\<lambda>d. case d of GdAllowed _ \<Rightarrow> True | _ \<Rightarrow> False)
             (policy_check (ge_policy env) (ge_db_ok env) (ge_now env) (build_tool_invocation env self name input) (gs_policy st))
      else Some False)"

definition await_tool_permission :: "'p gate_env \<Rightarrow> gated_tools \<Rightarrow> string \<Rightarrow> string \<Rightarrow> json \<Rightarrow> bool \<Rightarrow> 'p gate_state \<Rightarrow> 'p gate_step" where
  "await_tool_permission env self call_id name input auto_approve_allowed st =
     Option.bind (grant_covers env self name input st) (\<lambda>covered.
       if covered then Some (None, st)
       else Option.bind (dispatch_gate env self HePermissionRequest name input st) (\<lambda>(outcomes, st1).
         (let profile = profile_of (effective_permission_profile self st1)
          in case hook_permission_gate (aggregate_permission outcomes) profile auto_approve_allowed of
               HgDeny reason \<Rightarrow>
                 Some (Some (refusal (error_text reason @ [denied_flag, (''denied_by_hook'', JBool True)])), st1)
             | HgAutoApprove _ \<Rightarrow> auto_approve env self call_id name input st1
             | HgPrompt \<Rightarrow> prompt_user env self call_id name input profile st1)))"

subsection \<open>The control tools of Plan Mode\<close>

text \<open>A result that answers a call of \<open>exit_plan_mode\<close>.\<close>

definition plan_error :: "u64 \<Rightarrow> tool_error \<Rightarrow> tool_result" where
  "plan_error ms e = (refusal (error_text (te_message e) @ [(''code'', JStr (te_code e)), (''approved'', JBool False)]))\<lparr>tr_duration := ms\<rparr>"

definition not_in_plan_mode :: tool_result where
  "not_in_plan_mode = refusal (error_text ''this run is not in Plan Mode'' @ [(''code'', JStr ''not_in_plan_mode''), (''approved'', JBool False)])"

definition plan_rejected :: "u64 \<Rightarrow> u32 \<Rightarrow> tool_result" where
  "plan_rejected ms n =
     \<lparr>tr_output = JObj [(''approved'', JBool False), (''plan_mode'', JBool True), (''rejections'', JInt (int (unat n))),
        (''message'', JStr (''The user did not approve this plan. You are still in Plan Mode: nothing has been executed. ''
           @ ''Ask what they want changed, revise, and submit again. Do not claim the plan was approved.''))],
      tr_is_error = False, tr_duration = ms\<rparr>"

definition plan_accepted :: "u64 \<Rightarrow> string \<Rightarrow> plan \<Rightarrow> tool_result" where
  "plan_accepted ms profile p =
     \<lparr>tr_output = JObj [(''approved'', JBool True), (''plan_mode'', JBool False), (''permission_profile'', JStr profile),
        (''plan'', plan_json p),
        (''message'', JStr (''The user approved this plan. Plan Mode is off and the run is back on its original permission ''
           @ ''profile. Execute the approved steps and nothing beyond them.''))],
      tr_is_error = False, tr_duration = ms\<rparr>"

definition plan_scope_of :: "reply \<Rightarrow> string" where
  "plan_scope_of reply = (case reply of RpCancelled \<Rightarrow> ''cancelled'' | RpSilent \<Rightarrow> ''timeout'' | RpAnswered _ _ \<Rightarrow> ''once'')"

definition plan_card :: "plan \<Rightarrow> json" where
  "plan_card p = JObj [(''kind'', JStr ''plan_approval''), (''plan'', plan_json p), (''step_count'', JInt (int (length (plan_steps p)))),
     (''peak_risk'', JStr (plan_risk_str (peak_risk p))), (''has_irreversible_step'', JBool (has_irreversible_step p))]"

definition await_plan_approval :: "'p gate_env \<Rightarrow> gated_tools \<Rightarrow> plan \<Rightarrow> 'p gate_state \<Rightarrow> ((bool \<times> string) \<times> 'p gate_state) option" where
  "await_plan_approval env self p st =
     map_option (\<lambda>(end, st1). (case end of AsAnswer approved scope \<Rightarrow> (approved, scope) | _ \<Rightarrow> (False, ''persistence_failed''), st1))
       (ask_user env self (ge_uuid env) exit_plan_mode_tool (''Approve plan: '' @ plan_title p) (plan_card p) plan_scope_of st)"

definition answer_plan :: "'p gate_env \<Rightarrow> gated_tools \<Rightarrow> plan \<Rightarrow> bool \<Rightarrow> 'p gate_state \<Rightarrow> (tool_result \<times> 'p gate_state) option" where
  "answer_plan env self p approved st =
     (if \<not> approved then
        (case plan_reject (gt_run self) (gs_plans st) of
           (m, r) \<Rightarrow>
             map_option (\<lambda>st1. (plan_rejected (ge_elapsed env) (case r of Inr n \<Rightarrow> n | Inl _ \<Rightarrow> 0), st1))
               (emit_plan_transition env self PtRejected (st\<lparr>gs_plans := m\<rparr>)))
      else
        (case plan_approve (ge_now env) (gt_run self) (gs_plans st) of
           (m, Inr profile) \<Rightarrow>
             map_option (\<lambda>st1. (plan_accepted (ge_elapsed env) profile p, st1))
               (emit_plan_transition env self PtApproved (st\<lparr>gs_plans := m\<rparr>))
         | (m, Inl e) \<Rightarrow> Some (plan_error (ge_elapsed env) e, st\<lparr>gs_plans := m\<rparr>)))"

definition handle_exit_plan_mode :: "'p gate_env \<Rightarrow> gated_tools \<Rightarrow> json \<Rightarrow> bool \<Rightarrow> 'p gate_state \<Rightarrow> (tool_result \<times> 'p gate_state) option" where
  "handle_exit_plan_mode env self input planning st =
     (if \<not> planning then Some (not_in_plan_mode, st)
      else (case parse_plan input of
        Inl e \<Rightarrow> Some (plan_error 0 e, st)
      | Inr p \<Rightarrow>
          (case record_submission (gt_run self) p (gs_plans st) of
             (m, Inl e) \<Rightarrow> Some (plan_error 0 e, st\<lparr>gs_plans := m\<rparr>)
           | (m, Inr _) \<Rightarrow>
               Option.bind (emit_plan_transition env self PtSubmitted (st\<lparr>gs_plans := m\<rparr>)) (\<lambda>st1.
                 Option.bind (await_plan_approval env self p st1) (\<lambda>((approved, _), st2).
                   answer_plan env self p approved st2)))))"

text \<open>
  \<open>enter_plan_mode\<close> runs its handler through the gateway's \<open>execute\<close>: the registered tool's schema and
  path policy first. The handler is synchronous, so it ends before its timeout, and it captures the
  declared profile of the run.
\<close>

definition gateway_checks :: "'p gate_env \<Rightarrow> gateway \<Rightarrow> string \<Rightarrow> json \<Rightarrow> tool_error + tool" where
  "gateway_checks env gw name input =
     (case get_tool gw name of
        None \<Rightarrow> Inl (tool_err ''unknown_tool'' (''unknown tool: '' @ name))
      | Some t \<Rightarrow>
          bind_sum (map_err (\<lambda>m. tool_err ''invalid_arguments'' (''tool `'' @ name @ ''` arguments failed schema validation: '' @ m))
                      (validate_schema (ge_schema env) (tl_schema t) input)) (\<lambda>_.
            bind_sum (enforce_input_policy (ge_glob env) (ge_machine env) gw t input) (\<lambda>_. Inr t)))"

definition handle_enter_plan_mode :: "'p gate_env \<Rightarrow> gated_tools \<Rightarrow> json \<Rightarrow> 'p gate_state \<Rightarrow> tool_result \<times> 'p gate_state" where
  "handle_enter_plan_mode env self input st =
     (let failed = (\<lambda>e. refusal (error_text (te_message e) @ [(''code'', JStr (te_code e))]))
      in case gateway_checks env (gt_gateway self) enter_plan_mode_tool input of
           Inl e \<Rightarrow> (failed e, st)
         | Inr _ \<Rightarrow>
             (case enter_tool_execute (ge_order env) (ge_now env) (gt_run self) (gt_profile self) input (gs_plans st) of
                (m, Inl e) \<Rightarrow> (failed e, st\<lparr>gs_plans := m\<rparr>)
              | (m, Inr out) \<Rightarrow> (\<lparr>tr_output = out, tr_is_error = False, tr_duration = ge_elapsed env\<rparr>, st\<lparr>gs_plans := m\<rparr>)))"

subsection \<open>The checks before any question\<close>

definition is_mcp_name :: "string \<Rightarrow> bool" where
  "is_mcp_name name \<longleftrightarrow> name = ''mcp_call'' \<or> starts_with name ''mcp__''"

definition check_known :: "gated_tools \<Rightarrow> string \<Rightarrow> tool_result + unit" where
  "check_known self name =
     (if get_tool (gt_gateway self) name = None \<and> name \<notin> {''task'', ''task_output'', ''kill_task'', ''mcp_call''}
         \<and> \<not> starts_with name ''mcp__''
      then Inl (refusal (error_text (''unknown tool: '' @ name)))
      else if starts_with name ''mcp__'' \<and> name \<notin> set (List.map fst (gt_mcp_schemas self))
      then Inl (refusal ((''error_code'', JStr ''UNKNOWN_TOOL'') # error_text (''unknown advertised MCP tool: '' @ name)))
      else Inr ())"

definition schema_invalid :: "tool_error \<Rightarrow> tool_result" where
  "schema_invalid e = refusal ((''error_code'', JStr ''SCHEMA_INVALID'') # error_text (te_message e))"

definition check_tool_schema :: "'p gate_env \<Rightarrow> gated_tools \<Rightarrow> string \<Rightarrow> json \<Rightarrow> tool_result + unit" where
  "check_tool_schema env self name input =
     (case get_tool (gt_gateway self) name of
        None \<Rightarrow> Inr ()
      | Some t \<Rightarrow> map_err schema_invalid (validate_external_input (ge_schema env) (tl_schema t) input))"

definition mcp_schema_name :: "string \<Rightarrow> json \<Rightarrow> string option" where
  "mcp_schema_name name input =
     (if name = ''mcp_call''
      then (let server = mcp_server_arg input; tool = mcp_tool_arg input
            in if server \<noteq> [] \<and> tool \<noteq> [] then Some (''mcp__'' @ server @ ''__'' @ tool) else None)
      else Some name)"

definition mcp_schema_input :: "string \<Rightarrow> json \<Rightarrow> json" where
  "mcp_schema_input name input =
     (if name = ''mcp_call'' then (case jget_or ''arguments'' ''input'' input of Some v \<Rightarrow> v | None \<Rightarrow> JNull) else input)"

definition check_mcp_schema :: "'p gate_env \<Rightarrow> gated_tools \<Rightarrow> string \<Rightarrow> json \<Rightarrow> tool_result + unit" where
  "check_mcp_schema env self name input =
     (if \<not> is_mcp_name name then Inr ()
      else (case Option.bind (mcp_schema_name name input) (\<lambda>n. List.find (\<lambda>s. fst s = n) (gt_mcp_schemas self)) of
              None \<Rightarrow> Inr ()
            | Some (_, schema) \<Rightarrow>
                map_err schema_invalid (validate_external_input (ge_schema env) schema (mcp_schema_input name input))))"

subsection \<open>The permission class and the profile\<close>

definition profile_str :: "string \<Rightarrow> string" where
  "profile_str p =
     (if p = ''full_access'' \<or> p = ''autonomous'' \<or> p = ''full'' then ''autonomous''
      else if p = ''readonly'' then ''readonly''
      else if p = plan_profile then plan_profile
      else ''ask'')"

definition call_class :: "gated_tools \<Rightarrow> string \<Rightarrow> permission_class \<times> side_effect" where
  "call_class self name =
     (case get_tool (gt_gateway self) name of
        Some t \<Rightarrow> (tl_class t, tl_side_effect t)
      | None \<Rightarrow>
          (if is_mcp_name name then (PcExternalWrite, SfNetwork)
           else if name = ''task_output'' then (PcAlwaysAllowed, SfReadOnly)
           else if name = ''task'' \<or> name = ''kill_task'' then (PcProjectWrite, SfProcess)
           else (PcElevation, SfDestructive)))"

fun needs_approval :: "policy_result \<Rightarrow> bool" where
  "needs_approval (PolNeedsApproval _) = True"
| "needs_approval _ = False"

definition gate_permission :: "'p gate_env \<Rightarrow> gated_tools \<Rightarrow> string \<Rightarrow> string \<Rightarrow> json \<Rightarrow> 'p gate_state \<Rightarrow> 'p gate_step" where
  "gate_permission env self call_id name input st =
     (case call_class self name of
        (cls, se) \<Rightarrow>
          (let p = profile_str (effective_permission_profile self st);
               verdict = check_permission cls p
           in if p = ''readonly'' \<and> se \<noteq> SfReadOnly
              then Some (Some (refusal (error_text ''readonly profile denies side effects'' @ [denied_flag])), st)
              else if verdict = PolAllowed then Some (None, st)
              else await_tool_permission env self call_id name input (needs_approval verdict \<and> p \<noteq> ''readonly'') st))"

subsection \<open>One call\<close>

datatype gate_end = GeResult tool_result | GeProceed

definition call_id_of :: "'p gate_env \<Rightarrow> string option \<Rightarrow> string" where
  "call_id_of env given = (case given of Some (c # cs) \<Rightarrow> c # cs | _ \<Rightarrow> ge_uuid env)"

text \<open>From the latch on: everything that is refused before the user is asked.\<close>

definition gate_checks :: "'p gate_env \<Rightarrow> gated_tools \<Rightarrow> string \<Rightarrow> json \<Rightarrow> bool \<Rightarrow> 'p gate_state \<Rightarrow> (tool_result + unit) \<times> 'p gate_state" where
  "gate_checks env self name input planning st =
     (if planning \<and> plan_decision_for self name = PdDeny
      then (Inl (refusal (error_text (te_message (blocked_error name))
              @ [(''code'', JStr (te_code (blocked_error name))), denied_flag, (''plan_mode'', JBool True)])), st)
      else (case ensure_verified_project_for_tool env name of
        Inl e \<Rightarrow> (Inl (refusal (error_text e @ [denied_flag, (''code'', JStr ''PROJECT_IDENTITY_REQUIRED'')])), st)
      | Inr _ \<Rightarrow>
          (case consume_budget env self st of
             (Inl e, st1) \<Rightarrow>
               (Inl (refusal (error_text (ge_show_sub env e) @ [denied_flag, (''code'', JStr ''subagent_tool_budget_exhausted'')])), st1)
           | (Inr _, st1) \<Rightarrow>
               (bind_sum (check_known self name) (\<lambda>_.
                  bind_sum (check_tool_schema env self name input) (\<lambda>_. check_mcp_schema env self name input)), st1))))"

definition start_call :: "'p gate_env \<Rightarrow> gated_tools \<Rightarrow> string \<Rightarrow> string \<Rightarrow> 'p gate_state \<Rightarrow> (gate_end \<times> 'p gate_state) option" where
  "start_call env self call_id name st =
     map_option (\<lambda>(ok, st1).
         (if ok then GeProceed
          else GeResult (refusal ((''error_code'', JStr ''PERSISTENCE_FAILED'')
                 # error_text ''tool start event could not be persisted'')), st1))
       (gate_emit env ''started'' (gt_run self) (EvToolCallStarted call_id name) st)"

definition gate :: "'p gate_env \<Rightarrow> gated_tools \<Rightarrow> bool \<Rightarrow> string option \<Rightarrow> string \<Rightarrow> json \<Rightarrow> 'p gate_state
    \<Rightarrow> (gate_end \<times> 'p gate_state) option" where
  "gate env self cancelled given name input st =
     (if cancelled then Some (GeResult (refusal (error_text ''cancelled'')), st)
      else if \<not> tool_allowed (gt_selected self) (gt_allowlist self) name
      then Some (GeResult (deny_not_allowlisted name), st)
      else if name = ''mcp_call'' \<and> (case gt_selected self of Some sel \<Rightarrow> mcp_server_arg input \<notin> set sel | None \<Rightarrow> False)
      then Some (GeResult (server_not_selected (mcp_server_arg input)), st)
      else Option.bind (ensure_plan_latch env self st) (\<lambda>st1.
        (let planning = plan_is_active (gt_run self) (gs_plans st1)
         in if name = exit_plan_mode_tool
            then map_option (\<lambda>(r, st2). (GeResult r, st2)) (handle_exit_plan_mode env self input planning st1)
            else if name = enter_plan_mode_tool
            then (case handle_enter_plan_mode env self input st1 of (r, st2) \<Rightarrow> Some (GeResult r, st2))
            else (case gate_checks env self name input planning st1 of
              (Inl r, st2) \<Rightarrow> Some (GeResult r, st2)
            | (Inr _, st2) \<Rightarrow>
                Option.bind (gate_permission env self (call_id_of env given) name input st2) (\<lambda>(denied, st3).
                  case denied of
                    Some r \<Rightarrow> Some (GeResult r, st3)
                  | None \<Rightarrow> start_call env self (call_id_of env given) name st3)))))"

subsection \<open>What a step leaves alone\<close>

text \<open>The state outside of the questions.\<close>

definition beside :: "'p gate_state \<Rightarrow> 'p gate_state \<Rightarrow> bool" where
  "beside st st' \<longleftrightarrow> gs_plans st' = gs_plans st \<and> gs_policy st' = gs_policy st \<and> gs_ledger st' = gs_ledger st"

lemma beside_refl [simp]: "beside st st"
  by (simp add: beside_def)

lemma beside_trans: "beside st st1 \<Longrightarrow> beside st1 st2 \<Longrightarrow> beside st st2"
  by (simp add: beside_def)

lemma beside_upd [simp]:
  "beside st (st\<lparr>gs_ix := ix\<rparr>)" "beside st (st\<lparr>gs_pending := p\<rparr>)" "beside st (st\<lparr>gs_ix := ix, gs_pending := p\<rparr>)"
  "beside st (withdraw env pid st)"
  by (simp_all add: beside_def withdraw_def)

definition approved_by_user :: "'p gate_env \<Rightarrow> 'p gate_state \<Rightarrow> bool" where
  "approved_by_user env st \<longleftrightarrow>
     (case map_of (ix_answers (gs_ix st)) (ge_permission_id env) of Some (approved, _) \<Rightarrow> approved | None \<Rightarrow> False)"

lemma gate_emit_frame:
  assumes "gate_emit env key run k st = Some (ok, st')"
  shows "beside st st'" "approved_by_user env st' = approved_by_user env st"
  using assms by (auto simp: gate_emit_def beside_def approved_by_user_def)

lemma gate_append_frame:
  assumes "gate_append env key run k st = Some st'"
  shows "beside st st'" "approved_by_user env st' = approved_by_user env st"
  using assms by (auto simp: gate_append_def beside_def approved_by_user_def)

lemma gate_emit_ok:
  assumes "gate_emit env key run k st = Some (True, st')"
  shows "\<exists>e. seq_bus (ix_events (gs_ix st')) run = seq_bus (ix_events (gs_ix st)) run @ [e]
    \<and> sanitize_payload k = Some (ev_payload e)"
proof -
  from assms obtain res s where r: "append_checked (ge_stamp env key) run k (ix_events (gs_ix st)) = Some (res, s)"
    "\<not> isl res" "st' = st\<lparr>gs_ix := (gs_ix st)\<lparr>ix_events := s\<rparr>\<rparr>"
    by (auto simp: gate_emit_def)
  then obtain e where "seq_append (ge_stamp env key) run k (ix_events (gs_ix st)) = Some (e, s)" "\<not> is_persistence_failed (ev_payload e)"
    by (auto simp: append_checked_def split: if_splits)
  from append_published [OF this] r(3) show ?thesis by auto
qed

lemma dispatch_gate_frame:
  "dispatch_gate env self event name input st = Some (out, st') \<Longrightarrow> beside st st'"
  by (auto simp: dispatch_gate_def beside_def split: option.splits)

lemma dispatch_gate_answers:
  "dispatch_gate env self event name input st = Some (out, st') \<Longrightarrow> approved_by_user env st' = approved_by_user env st"
  by (auto simp: dispatch_gate_def approved_by_user_def split: option.splits)

text \<open>A question that ends in a yes was answered with one.\<close>

lemma settle_reply_frame:
  assumes "settle_reply env self f st = Some (end, st')"
  shows "beside st st'" and "end = AsAnswer True scope \<Longrightarrow> approved_by_user env st'"
proof -
  let ?pid = "ge_permission_id env"
  obtain reply ix where w: "await_reply env ?pid (gs_ix st) = (reply, ix)" by fastforce
  obtain r ix2 where m: "mark_resolved (ge_ix env) (gf_resolve (ge_fx env)) ?pid
      (decision_json (reply_approved reply) (f reply)) ix = (r, ix2)" by fastforce
  have "ix_answers ix2 = ix_answers ix"
    using mark_resolved_untouched [of ix "ge_ix env" "gf_resolve (ge_fx env)" ?pid "decision_json (reply_approved reply) (f reply)"] m
    by (simp add: untouched_def)
  moreover have "\<exists>scope. map_of (ix_answers ix) ?pid = Some (True, scope)" if "reply_approved reply"
    using w that by (auto simp: await_reply_def Let_def split: if_splits option.splits)
  ultimately have yes: "approved_by_user env (st\<lparr>gs_ix := ix2, gs_pending := None\<rparr>)" if "reply_approved reply"
    using that by (auto simp: approved_by_user_def)
  show "beside st st'"
    using assms w m gate_emit_frame(1) beside_trans [OF beside_upd(3)]
    by (fastforce simp: settle_reply_def Let_def split: sum.splits option.splits)
  show "approved_by_user env st'" if "end = AsAnswer True scope"
    using assms w m that yes gate_emit_frame(2)
    by (fastforce simp: settle_reply_def Let_def split: sum.splits option.splits if_splits)
qed

lemma ask_user_frame:
  assumes "ask_user env self c t reason input f st = Some (end, st')"
  shows "beside st st'" and "end = AsAnswer True scope \<Longrightarrow> approved_by_user env st'"
proof -
  let ?pid = "ge_permission_id env"
  let ?payload = "JObj [(''tool_call_id'', JStr c), (''tool_name'', JStr t), (''reason'', JStr reason), (''input'', input)]"
  obtain r ix2 where i: "insert_pending (ge_ix env) (gf_insert (ge_fx env)) ?pid (Some (gt_run self)) (Some (gt_conversation self))
      ''tool_permission'' ?payload (register_permission ?pid (gt_run self) t (gs_ix st)) = (r, ix2)" by fastforce
  let ?st2 = "st\<lparr>gs_ix := ix2, gs_pending := Some ?pid\<rparr>"
  consider (insert) e where "end = AsInsert e" "beside st st'" | (snapshot) e where "end = AsSnapshot e" "beside st st'"
    | (event) "end = AsEvent" "beside st st'"
    | (settled) st3 where "beside st st3" "settle_reply env self f st3 = Some (end, st')"
  proof (cases r)
    case (Inl e)
    with assms i insert show ?thesis by (auto simp: ask_user_def Let_def)
  next
    case (Inr u)
    show ?thesis
    proof (cases "gf_snapshot_asked (ge_fx env)")
      case (Some e)
      have "beside st (withdraw env ?pid ?st2)" by (rule beside_trans [OF beside_upd(3) beside_upd(4)])
      with assms i Inr Some snapshot show ?thesis by (auto simp: ask_user_def Let_def)
    next
      case None
      with assms i Inr obtain ok st3 where g: "gate_emit env ''requested'' (gt_run self) (EvPermissionRequested c t reason ?pid input) ?st2
          = Some (ok, st3)" by (auto simp: ask_user_def Let_def bind_eq_Some_conv)
      have b: "beside st st3" by (rule beside_trans [OF beside_upd(3) gate_emit_frame(1) [OF g]])
      have "beside st ((withdraw env ?pid st3)\<lparr>gs_pending := None\<rparr>)"
        by (rule beside_trans [OF b beside_trans [OF beside_upd(4) beside_upd(2)]])
      with assms i Inr None g b event settled show ?thesis by (auto simp: ask_user_def Let_def split: if_splits)
    qed
  qed
  note cases = this
  show "beside st st'" using cases by cases (auto intro: beside_trans settle_reply_frame(1))
  show "approved_by_user env st'" if "end = AsAnswer True scope"
    using cases that by cases (auto intro: settle_reply_frame(2))
qed

subsection \<open>What lets a call through\<close>

definition gate_request :: "gated_tools \<Rightarrow> string \<Rightarrow> json \<Rightarrow> hook_request" where
  "gate_request self name input =
     \<lparr>rq_event = HePermissionRequest, rq_run_id = gt_run self, rq_tool_name = Some name, rq_input = input\<rparr>"

definition hooks_agree :: "'p gate_env \<Rightarrow> gated_tools \<Rightarrow> string \<Rightarrow> json \<Rightarrow> bool" where
  "hooks_agree env self name input \<longleftrightarrow>
     (let req = gate_request self name input; es = applicable (ge_hooks env) (ge_registry env) req
      in list_ex (\<lambda>e. case answer req e of HoPermission (VdAllow _) \<Rightarrow> True | _ \<Rightarrow> False) es
         \<and> \<not> list_ex (\<lambda>e. objects (answer req e)) es)"

lemma gate_approval_unanimous:
  assumes "dispatch_gate env self HePermissionRequest name input st = Some (out, st')"
    and "hook_permission_gate (aggregate_permission out) profile auto = HgAutoApprove reason"
  shows "hooks_agree env self name input \<and> auto \<and> profile \<noteq> PpReadOnly"
proof -
  from assms(1) obtain r where d: "dispatch_outcomes (ge_hooks env) (with_events (ix_events (gs_ix st)) (ge_registry env))
      (gate_request self name input) = Some (out, r)"
    by (auto simp: dispatch_gate_def gate_request_def)
  from assms(2) have a: "aggregate_permission out = PaAutoApprove reason" and p: "auto \<and> profile \<noteq> PpReadOnly"
    by (auto simp: hook_permission_gate_def split: permission_aggregate.splits if_splits)
  have same: "applicable (ge_hooks env) (with_events s (ge_registry env)) req = applicable (ge_hooks env) (ge_registry env) req" for s req
    by (simp add: applicable_def with_events_def)
  have "rq_event (gate_request self name input) = HePermissionRequest" by (simp add: gate_request_def)
  note all = auto_approval_unanimous [OF d this a, unfolded same]
  then have "list_ex (\<lambda>e. case answer (gate_request self name input) e of HoPermission (VdAllow _) \<Rightarrow> True | _ \<Rightarrow> False)
      (applicable (ge_hooks env) (ge_registry env) (gate_request self name input))"
    by (auto simp: list_ex_iff intro!: bexI)
  with all p show ?thesis by (simp add: hooks_agree_def Let_def)
qed

lemma remember_answer_frame:
  assumes "remember_answer env self name input approved scope st = Some st'"
  shows "gs_plans st' = gs_plans st" "approved_by_user env st' = approved_by_user env st"
proof -
  have "gs_plans st' = gs_plans st \<and> approved_by_user env st' = approved_by_user env st"
  proof (cases approved)
    case True
    with assms show ?thesis by (auto simp: remember_answer_def approved_by_user_def split: if_splits)
  next
    case False
    with assms obtain out where "dispatch_gate env self HePermissionDenied name input st = Some (out, st')"
      by (auto simp: remember_answer_def)
    then show ?thesis using dispatch_gate_frame dispatch_gate_answers by (fastforce simp: beside_def)
  qed
  then show "gs_plans st' = gs_plans st" "approved_by_user env st' = approved_by_user env st" by auto
qed

lemma prompt_user_frame:
  assumes "prompt_user env self c name input profile st = Some (res, st')" and "ge_permission_id env \<noteq> auto_approved"
  shows "gs_plans st' = gs_plans st" and "res = None \<Longrightarrow> profile = PpAutonomous \<or> approved_by_user env st'"
proof -
  have "gs_plans st' = gs_plans st \<and> (res = None \<longrightarrow> profile = PpAutonomous \<or> approved_by_user env st')"
  proof (cases "profile = PpConfirmEach")
    case True
    let ?st1 = "st\<lparr>gs_requests := ge_permission_id env # gs_requests st\<rparr>"
    from True assms obtain e st2 where a: "ask_user env self c name (permission_reason name) input tool_scope_of ?st1 = Some (e, st2)"
      by (auto simp: prompt_user_def request_permission_for_profile_def bind_eq_Some_conv)
    have b: "gs_plans st2 = gs_plans st" using ask_user_frame(1) [OF a] by (simp add: beside_def)
    show ?thesis
    proof (cases e)
      case (AsAnswer approved scope)
      with True assms a obtain st3 where r: "remember_answer env self name input approved scope st2 = Some st3"
        "conclude env approved st3 = (res, st')"
        by (auto simp: prompt_user_def request_permission_for_profile_def)
      from r(2) have "st' = st3" "res = None \<longrightarrow> approved"
        by (auto simp: conclude_def Let_def split: sum.splits option.splits if_splits)
      moreover have "approved_by_user env st3" if approved
        using ask_user_frame(2) [OF a] AsAnswer that remember_answer_frame(2) [OF r(1)] by blast
      ultimately show ?thesis using b remember_answer_frame(1) [OF r(1)] by auto
    qed (use True assms a b in \<open>auto simp: prompt_user_def request_permission_for_profile_def\<close>)
  next
    case False
    with assms(1) show ?thesis
      by (cases profile) (auto simp: prompt_user_def request_permission_for_profile_def)
  qed
  then show "gs_plans st' = gs_plans st" "res = None \<Longrightarrow> profile = PpAutonomous \<or> approved_by_user env st'" by auto
qed

lemma auto_approve_frame:
  assumes "auto_approve env self c name input st = Some (res, st')"
  shows "beside st st'"
  using assms beside_trans gate_emit_frame(1)
  by (fastforce simp: auto_approve_def bind_eq_Some_conv split: if_splits)

lemma await_permission_frame:
  assumes "await_tool_permission env self c name input auto st = Some (res, st')" and "ge_permission_id env \<noteq> auto_approved"
  shows "gs_plans st' = gs_plans st"
    and "res = None \<Longrightarrow> grant_covers env self name input st = Some True \<or> hooks_agree env self name input
           \<or> profile_of (effective_permission_profile self st) = PpAutonomous \<or> approved_by_user env st'"
proof -
  obtain covered where g: "grant_covers env self name input st = Some covered"
    using assms(1) by (auto simp: await_tool_permission_def bind_eq_Some_conv)
  have "gs_plans st' = gs_plans st \<and> (res = None \<longrightarrow> grant_covers env self name input st = Some True \<or> hooks_agree env self name input
      \<or> profile_of (effective_permission_profile self st) = PpAutonomous \<or> approved_by_user env st')"
  proof (cases covered)
    case True
    with assms(1) g show ?thesis by (simp add: await_tool_permission_def)
  next
    case False
    with assms(1) g obtain out st1 where d: "dispatch_gate env self HePermissionRequest name input st = Some (out, st1)"
      by (auto simp: await_tool_permission_def bind_eq_Some_conv)
    have p: "gs_plans st1 = gs_plans st" using dispatch_gate_frame [OF d] by (simp add: beside_def)
    then have e: "effective_permission_profile self st1 = effective_permission_profile self st"
      by (simp add: effective_permission_profile_def)
    show ?thesis
    proof (cases "hook_permission_gate (aggregate_permission out) (profile_of (effective_permission_profile self st)) auto")
      case (HgDeny reason)
      with assms(1) g False d p e show ?thesis by (auto simp: await_tool_permission_def)
    next
      case (HgAutoApprove reason)
      with assms(1) g False d e have "auto_approve env self c name input st1 = Some (res, st')"
        by (simp add: await_tool_permission_def)
      from auto_approve_frame [OF this] p gate_approval_unanimous [OF d HgAutoApprove]
      show ?thesis by (simp add: beside_def)
    next
      case HgPrompt
      with assms(1) g False d e have "prompt_user env self c name input (profile_of (effective_permission_profile self st)) st1 = Some (res, st')"
        by (simp add: await_tool_permission_def)
      from prompt_user_frame [OF this assms(2)] p show ?thesis by auto
    qed
  qed
  then show "gs_plans st' = gs_plans st" "res = None \<Longrightarrow> grant_covers env self name input st = Some True \<or> hooks_agree env self name input
    \<or> profile_of (effective_permission_profile self st) = PpAutonomous \<or> approved_by_user env st'" by auto
qed

text \<open>What a call that was let through has passed.\<close>

definition authorised :: "'p gate_env \<Rightarrow> gated_tools \<Rightarrow> string \<Rightarrow> json \<Rightarrow> 'p gate_state \<Rightarrow> 'p gate_state \<Rightarrow> bool" where
  "authorised env self name input st st' \<longleftrightarrow>
     (let p = effective_permission_profile self st'
      in (profile_str p = ''readonly'' \<longrightarrow> snd (call_class self name) = SfReadOnly)
         \<and> (check_permission (fst (call_class self name)) (profile_str p) = PolAllowed
            \<or> grant_covers env self name input st = Some True
            \<or> hooks_agree env self name input
            \<or> profile_of p = PpAutonomous
            \<or> approved_by_user env st'))"

lemma authorised_cong:
  assumes "gs_policy s = gs_policy st" and "gs_plans s' = gs_plans st'" and "approved_by_user env s' = approved_by_user env st'"
  shows "authorised env self name input s s' = authorised env self name input st st'"
  by (simp only: authorised_def grant_covers_def effective_permission_profile_def assms)

lemma gate_permission_frame:
  assumes "gate_permission env self c name input st = Some (res, st')" and "ge_permission_id env \<noteq> auto_approved"
  shows "gs_plans st' = gs_plans st" and "res = None \<Longrightarrow> authorised env self name input st st'"
proof -
  let ?p = "effective_permission_profile self st"
  obtain cls se where c: "call_class self name = (cls, se)" by fastforce
  have "gs_plans st' = gs_plans st \<and> (res = None \<longrightarrow> authorised env self name input st st')"
  proof (cases "profile_str ?p = ''readonly'' \<and> se \<noteq> SfReadOnly \<or> check_permission cls (profile_str ?p) = PolAllowed")
    case True
    with assms(1) c show ?thesis by (auto simp: gate_permission_def authorised_def Let_def split: if_splits)
  next
    case False
    with assms(1) c obtain auto where a: "await_tool_permission env self c name input auto st = Some (res, st')"
      by (auto simp: gate_permission_def Let_def)
    have e: "effective_permission_profile self st' = ?p"
      using await_permission_frame(1) [OF a assms(2)] by (simp add: effective_permission_profile_def)
    show ?thesis using await_permission_frame [OF a assms(2)] False c
      by (auto simp: authorised_def Let_def e)
  qed
  then show "gs_plans st' = gs_plans st" "res = None \<Longrightarrow> authorised env self name input st st'" by auto
qed

lemma ensure_plan_latch_frame:
  assumes "ensure_plan_latch env self st = Some st1"
  shows "gs_policy st1 = gs_policy st"
  using assms gate_append_frame(1)
  by (fastforce simp: ensure_plan_latch_def emit_plan_transition_def beside_def split: if_splits option.splits)

lemma gate_checks_Inr:
  assumes "gate_checks env self name input planning st = (Inr u, st')"
  shows "planning \<longrightarrow> plan_decision_for self name \<noteq> PdDeny" "ensure_verified_project_for_tool env name = Inr ()"
    "fst (consume_budget env self st) = Inr ()"
    "check_known self name = Inr ()" "check_tool_schema env self name input = Inr ()" "check_mcp_schema env self name input = Inr ()"
    "gs_plans st' = gs_plans st" "gs_policy st' = gs_policy st"
  using assms
  by (auto simp: gate_checks_def consume_budget_def bind_sum_Inr split: if_splits sum.splits prod.splits option.splits)

text \<open>
  C15: Nothing is executed that was not authorised. A call that the gate hands to its handler is on the
  run's allowlist, is not one that Plan Mode blocks, passed the schemas and has a verified project
  where it needs one; a profile spelled \<open>readonly\<close> admits it only if it has no side effect (the spelling
  \<open>read_only\<close>, which is read-only for the prompt, does not: \<open>read_only_spelling_honours_grants\<close>); and either its
  class needs no permission under the profile, or a remembered grant covers exactly this call, or all
  hooks that match agreed, or the profile is autonomous, or the user said yes to this very question.
  Its \<open>ToolCallStarted\<close> event is the last one sent to the run's subscribers.
\<close>

theorem let_through_is_authorised:
  assumes "gate env self cancelled given name input st = Some (GeProceed, st')" and "ge_permission_id env \<noteq> auto_approved"
  shows "\<not> cancelled \<and> tool_allowed (gt_selected self) (gt_allowlist self) name
    \<and> \<not> (plan_is_active (gt_run self) (gs_plans st') \<and> plan_decision_for self name = PdDeny)
    \<and> ensure_verified_project_for_tool env name = Inr ()
    \<and> check_tool_schema env self name input = Inr () \<and> check_mcp_schema env self name input = Inr ()
    \<and> authorised env self name input st st'
    \<and> seq_bus (ix_events (gs_ix st')) (gt_run self) \<noteq> []
    \<and> sanitize_payload (EvToolCallStarted (call_id_of env given) name)
        = Some (ev_payload (last (seq_bus (ix_events (gs_ix st')) (gt_run self))))"
proof -
  let ?c = "call_id_of env given"
  obtain st1 where l: "ensure_plan_latch env self st = Some st1"
    using assms(1) by (auto simp: gate_def bind_eq_Some_conv split: if_splits)
  let ?planning = "plan_is_active (gt_run self) (gs_plans st1)"
  from assms(1) l obtain u st2 where c: "gate_checks env self name input ?planning st1 = (Inr u, st2)"
    by (auto simp: gate_def Let_def split: if_splits sum.splits prod.splits)
  from assms(1) l c obtain st3 where p: "gate_permission env self ?c name input st2 = Some (None, st3)"
    and s: "start_call env self ?c name st3 = Some (GeProceed, st')"
    by (auto simp: gate_def Let_def bind_eq_Some_conv split: if_splits option.splits prod.splits)
  from s obtain ok where e: "gate_emit env ''started'' (gt_run self) (EvToolCallStarted ?c name) st3 = Some (True, st')"
    by (auto simp: start_call_def split: if_splits)
  note keeps = gate_checks_Inr(7,8) [OF c] ensure_plan_latch_frame [OF l] gate_permission_frame(1) [OF p assms(2)]
    gate_emit_frame [OF e]
  have "authorised env self name input st st'"
    using gate_permission_frame(2) [OF p assms(2)] authorised_cong [of st2 st st3 st' env self name input] keeps
    by (simp add: beside_def)
  moreover have "\<not> cancelled" "tool_allowed (gt_selected self) (gt_allowlist self) name"
    using assms(1) by (auto simp: gate_def split: if_splits)
  moreover have "gs_plans st' = gs_plans st1" using keeps by (simp add: beside_def)
  ultimately show ?thesis
    using gate_checks_Inr(1,2,5,6) [OF c] gate_emit_ok [OF e] by auto
qed

subsection \<open>A concrete call\<close>

definition no_gate_faults :: gate_faults where
  "no_gate_faults = \<lparr>gf_insert = None, gf_cleanup = None, gf_resolve = None, gf_snapshot_asked = None,
     gf_snapshot_answered = None, gf_remember = None, gf_safe_point = Inr None, gf_restore = None\<rparr>"

text \<open>The user answers while the call waits.\<close>

definition demo_gate_env :: "bool \<Rightarrow> unit gate_env" where
  "demo_gate_env yes = \<lparr>ge_policy = demo_policy_env, ge_schema = \<lparr>sv_show = (\<lambda>_. []), sv_debug = (\<lambda>_. []), sv_less = (\<lambda>_ _. False)\<rparr>,
     ge_glob = (\<lambda>_ _. False), ge_machine = demo_mc, ge_hooks = demo_hook_env, ge_ix = demo_ix_env,
     ge_registry = hook_registry_new, ge_order = id, ge_now = 5, ge_elapsed = 0, ge_runs = (\<lambda>_. None),
     ge_config = sub_config_default, ge_show_sub = (\<lambda>_. []), ge_has_store = False, ge_identity = None,
     ge_db_ok = True, ge_grant_id = ''g1'', ge_permission_id = ''p1'', ge_auto_id = ''h1'', ge_uuid = ''u1'',
     ge_stamp = (\<lambda>k. (k, ''t'')), ge_cancelled = False,
     ge_wait = (\<lambda>ix. snd (respond_permission demo_ix_env None ''p1'' yes (Some ''r1'') None ix)), ge_fx = no_gate_faults\<rparr>"

definition demo_gated :: "tool list \<Rightarrow> gated_tools" where
  "demo_gated ts = \<lparr>gt_gateway = \<lparr>gw_tools = ts, gw_root = None\<rparr>, gt_mcp_schemas = [], gt_allowlist = None, gt_selected = None,
     gt_run = ''r1'', gt_conversation = ''c1'', gt_profile = ''ask'', gt_has_runtime = False\<rparr>"

definition demo_gate_state :: "plan_sessions \<Rightarrow> unit gate_state" where
  "demo_gate_state m = \<lparr>gs_plans = m, gs_ledger = ledger_empty, gs_policy = \<lparr>ps_grants = [], ps_db = None\<rparr>,
     gs_ix = \<lparr>ix_rows = [], ix_outbox = [], ix_waiters = [], ix_listening = [], ix_answers = [], ix_assignments = [],
        ix_assigned = [], ix_policies = [], ix_events = quiet_seq\<rparr>, gs_requests = [], gs_pending = None\<rparr>"

definition open_tool :: "string \<Rightarrow> tool" where
  "open_tool name = (demo_tool name)\<lparr>tl_schema := JObj []\<rparr>"

definition demo_exit :: json where
  "demo_exit = JObj [(''title'', JStr ''t''), (''steps'', JArr [JObj [(''title'', JStr ''x'')]])]"

definition demo_latch :: plan_sessions where
  "demo_latch = [(''r1'', (demo_session PlPlanning)\<lparr>se_plan := None\<rparr>)]"

text \<open>The gate evaluated on a call that asks the user, and on the submission of a plan.\<close>

lemma demo_gate_facts:
  "map_option fst (gate (demo_gate_env True) (demo_gated [open_tool ''t'']) False None ''t'' (JObj []) (demo_gate_state []))
     = Some GeProceed
   \<and> (case gate (demo_gate_env True) (demo_gated []) False None exit_plan_mode_tool demo_exit (demo_gate_state demo_latch) of
        None \<Rightarrow> False | Some (_, st') \<Rightarrow> \<not> plan_is_active ''r1'' (gs_plans st'))"
  by code_simp

theorem let_through_is_authorised_witness:
  "\<exists>st'. gate (demo_gate_env True) (demo_gated [open_tool ''t'']) False None ''t'' (JObj []) (demo_gate_state []) = Some (GeProceed, st')
     \<and> authorised (demo_gate_env True) (demo_gated [open_tool ''t'']) ''t'' (JObj []) (demo_gate_state []) st'
     \<and> sanitize_payload (EvToolCallStarted ''u1'' ''t'')
         = Some (ev_payload (last (seq_bus (ix_events (gs_ix st')) ''r1'')))"
proof -
  from demo_gate_facts obtain st' where g: "gate (demo_gate_env True) (demo_gated [open_tool ''t'']) False None ''t'' (JObj []) (demo_gate_state [])
    = Some (GeProceed, st')" by auto
  have "ge_permission_id (demo_gate_env True) \<noteq> auto_approved" by code_simp
  note let_through_is_authorised [OF g this]
  moreover have "call_id_of (demo_gate_env True) None = ''u1''" "gt_run (demo_gated [open_tool ''t'']) = ''r1''" by code_simp+
  ultimately show ?thesis using g by metis
qed

subsection \<open>Who opens the latch\<close>

lemma stays_planning:
  assumes "keys_once m" and "order_ok m op" and "plan_is_active r m"
    and "\<not> (\<exists>now. op = LoApprove now r)" and "op \<noteq> LoClear r"
  shows "plan_is_active r (latch_do op m)"
  using latch_opens_only_by_approval [OF assms(1,2,3)] assms(4,5) by blast

lemma approved_upd [simp]: "approved_by_user env (st\<lparr>gs_plans := m\<rparr>) = approved_by_user env st"
  by (simp add: approved_by_user_def)

lemma emit_plan_frame:
  "emit_plan_transition env self tr st = Some st' \<Longrightarrow>
     gs_plans st' = gs_plans st \<and> approved_by_user env st' = approved_by_user env st"
  using gate_append_frame by (fastforce simp: emit_plan_transition_def beside_def split: option.splits)

lemma latch_planning:
  assumes "ensure_plan_latch env self st = Some st1" and "keys_once (gs_plans st)"
    and "\<And>m. set (ge_order env m) = set m"
  shows "keys_once (gs_plans st1)" and "plan_is_active r (gs_plans st) \<Longrightarrow> plan_is_active r (gs_plans st1)"
proof -
  let ?op = "LoEnter (ge_order env) (ge_now env) (gt_run self) plan_profile"
  have "gs_plans st1 = gs_plans st \<or> gs_plans st1 = latch_do ?op (gs_plans st)"
    using assms(1) emit_plan_frame [of env self PtEntered _ st1] by (fastforce simp: ensure_plan_latch_def split: if_splits)
  then show "keys_once (gs_plans st1)" "plan_is_active r (gs_plans st) \<Longrightarrow> plan_is_active r (gs_plans st1)"
    using latch_do_keys_once [of "gs_plans st" ?op] stays_planning [of "gs_plans st" ?op r] assms(2,3) by auto
qed

definition released_by_answer :: "'p gate_env \<Rightarrow> gated_tools \<Rightarrow> json \<Rightarrow> 'p gate_state \<Rightarrow> string \<Rightarrow> bool" where
  "released_by_answer env self input st r \<longleftrightarrow>
     r = gt_run self \<and> approved_by_user env st
     \<and> (\<exists>p s. parse_plan input = Inr p \<and> map_of (gs_plans st) r = Some s \<and> se_state s = PlApproved \<and> se_plan s = Some p)"

lemma exit_released:
  assumes "handle_exit_plan_mode env self input planning st = Some (res, st')" and "keys_once (gs_plans st)"
    and "plan_is_active r (gs_plans st)" and "\<not> plan_is_active r (gs_plans st')"
  shows "released_by_answer env self input st' r"
proof -
  have planning and p: "\<exists>p. parse_plan input = Inr p"
    using assms(1,3,4) by (auto simp: handle_exit_plan_mode_def split: if_splits sum.splits)
  then obtain p where p: "parse_plan input = Inr p" by blast
  obtain m sub where m: "record_submission (gt_run self) p (gs_plans st) = (m, sub)" by fastforce
  have k: "keys_once m" "plan_is_active r m"
    using latch_do_keys_once [of "gs_plans st" "LoSubmit (gt_run self) p"]
      stays_planning [of "gs_plans st" "LoSubmit (gt_run self) p" r] assms(2,3) m by auto
  have "sub = Inr ()" using assms(1,4) \<open>planning\<close> p m k(2)
    by (cases sub) (auto simp: handle_exit_plan_mode_def)
  with assms(1) \<open>planning\<close> p m obtain st1 approved scope st2 where
    e: "emit_plan_transition env self PtSubmitted (st\<lparr>gs_plans := m\<rparr>) = Some st1" and
    w: "await_plan_approval env self p st1 = Some ((approved, scope), st2)" and
    a: "answer_plan env self p approved st2 = Some (res, st')"
    by (auto simp: handle_exit_plan_mode_def bind_eq_Some_conv)
  let ?ask = "ask_user env self (ge_uuid env) exit_plan_mode_tool (''Approve plan: '' @ plan_title p) (plan_card p) plan_scope_of st1"
  obtain fin st3 where "?ask = Some (fin, st3)" using w by (cases ?ask) (auto simp: await_plan_approval_def)
  with w have u: "?ask = Some (fin, st2)" and
    f: "(case fin of AsAnswer approved scope \<Rightarrow> (approved, scope) | _ \<Rightarrow> (False, ''persistence_failed'')) = (approved, scope)"
    by (simp_all add: await_plan_approval_def)
  from f have yes: "fin = AsAnswer True scope" if approved using that by (cases fin) auto
  have m2: "gs_plans st2 = m" using ask_user_frame(1) [OF u] emit_plan_frame [OF e] by (simp add: beside_def)
  have approved
  proof (rule ccontr)
    assume no: "\<not> approved"
    have "gs_plans st' = latch_do (LoReject (gt_run self)) m"
      using a no m2 by (auto simp: answer_plan_def dest!: emit_plan_frame split: prod.splits)
    with stays_planning [of m "LoReject (gt_run self)" r] k assms(4) show False by simp
  qed
  have m': "gs_plans st' = latch_do (LoApprove (ge_now env) (gt_run self)) m" "approved_by_user env st' = approved_by_user env st2"
    using a \<open>approved\<close> m2
    by (auto simp: answer_plan_def dest!: emit_plan_frame split: prod.splits sum.splits)
  have r: "r = gt_run self" using stays_planning [of m "LoApprove (ge_now env) (gt_run self)" r] k assms(4) m'(1) by auto
  obtain s where s: "map_of (gs_plans st) r = Some s" "se_state s = PlPlanning"
    using assms(3) by (auto simp: plan_is_active_def split: option.splits)
  then have "m = AList.update r (s\<lparr>se_plan := Some p\<rparr>) (gs_plans st)"
    using m r by (simp add: record_submission_def)
  then have "map_of (gs_plans st') r = Some (s\<lparr>se_plan := Some p, se_state := PlApproved, se_approved_at := Some (ge_now env)\<rparr>)"
    using m'(1) s(2) r by (simp add: plan_approve_def)
  with r p m'(2) ask_user_frame(2) [OF u yes [OF \<open>approved\<close>]] show ?thesis
    by (simp add: released_by_answer_def)
qed

text \<open>
  C16: Only the user opens the latch. If any call through the gate makes a planning run stop planning, then
  it is that run's own call of \<open>exit_plan_mode\<close> with a plan that parses, the user answered its question
  with yes, and the session records exactly this plan as approved.
\<close>

theorem plan_released_only_by_user:
  assumes "gate env self cancelled given name input st = Some (res, st')" and "keys_once (gs_plans st)"
    and "\<And>m. set (ge_order env m) = set m" and "ge_permission_id env \<noteq> auto_approved"
    and "plan_is_active r (gs_plans st)" and "\<not> plan_is_active r (gs_plans st')"
  shows "name = exit_plan_mode_tool \<and> released_by_answer env self input st' r"
proof -
  obtain st1 where l: "ensure_plan_latch env self st = Some st1"
    using assms(1,5,6) by (auto simp: gate_def bind_eq_Some_conv split: if_splits)
  note k = latch_planning(1) [OF l assms(2,3)] latch_planning(2) [OF l assms(2,3) assms(5)]
  let ?planning = "plan_is_active (gt_run self) (gs_plans st1)"
  consider (exit) res1 where "name = exit_plan_mode_tool" "handle_exit_plan_mode env self input ?planning st1 = Some (res1, st')"
    | (enter) "snd (handle_enter_plan_mode env self input st1) = st'"
    | (checks) tr where "gate_checks env self name input ?planning st1 = (tr, st')"
    | (asked) st3 where "gs_plans st3 = gs_plans st1" "beside st3 st'"
  proof (cases "name = exit_plan_mode_tool \<or> name = enter_plan_mode_tool")
    case True
    with assms(1,5,6) l exit enter show ?thesis
      by (auto simp: gate_def Let_def split: if_splits prod.splits)
  next
    case False
    obtain tr st2 where c: "gate_checks env self name input ?planning st1 = (tr, st2)" by fastforce
    show ?thesis
    proof (cases tr)
      case (Inl x)
      with assms(1,5,6) l c False checks show ?thesis by (auto simp: gate_def Let_def split: if_splits)
    next
      case (Inr u)
      with assms(1,5,6) l c False obtain denied st3 where
        p: "gate_permission env self (call_id_of env given) name input st2 = Some (denied, st3)" and
        q: "beside st3 st'"
        by (auto simp: gate_def Let_def bind_eq_Some_conv start_call_def dest: gate_emit_frame(1) split: if_splits option.splits)
      show ?thesis
        by (rule asked [of st3]) (use gate_checks_Inr(7) [OF c [unfolded Inr]] gate_permission_frame(1) [OF p assms(4)] q in auto)
    qed
  qed
  then show ?thesis
  proof cases
    case exit
    with exit_released [OF exit(2) k assms(6)] show ?thesis by simp
  next
    case enter
    let ?op = "LoEnter (ge_order env) (ge_now env) (gt_run self) (gt_profile self)"
    have "gs_plans st' = gs_plans st1 \<or> gs_plans st' = latch_do ?op (gs_plans st1)"
      using enter by (auto simp: handle_enter_plan_mode_def enter_tool_execute_def Let_def split: sum.splits prod.splits if_splits)
    with stays_planning [of "gs_plans st1" ?op r] k assms(3,6) show ?thesis by auto
  next
    case (checks tr)
    then have "gs_plans st' = gs_plans st1"
      by (auto simp: gate_checks_def consume_budget_def split: if_splits sum.splits prod.splits option.splits)
    with k(2) assms(6) show ?thesis by simp
  next
    case asked
    with k(2) assms(6) show ?thesis by (simp add: beside_def)
  qed
qed

theorem plan_released_only_by_user_witness:
  "\<exists>res st'. gate (demo_gate_env True) (demo_gated []) False None exit_plan_mode_tool demo_exit
       (demo_gate_state demo_latch) = Some (res, st')
     \<and> released_by_answer (demo_gate_env True) (demo_gated []) demo_exit st' ''r1''"
proof -
  let ?g = "gate (demo_gate_env True) (demo_gated []) False None exit_plan_mode_tool demo_exit (demo_gate_state demo_latch)"
  from demo_gate_facts obtain res st' where g: "?g = Some (res, st')" and r: "\<not> plan_is_active ''r1'' (gs_plans st')"
    by (auto split: option.splits)
  have k: "keys_once (gs_plans (demo_gate_state demo_latch))" "ge_permission_id (demo_gate_env True) \<noteq> auto_approved"
    "plan_is_active ''r1'' (gs_plans (demo_gate_state demo_latch))" by code_simp+
  have o1: "set (ge_order (demo_gate_env True) m) = set m" for m by (simp add: demo_gate_env_def)
  from plan_released_only_by_user [OF g k(1) o1 k(2,3) r] g show ?thesis by blast
qed

subsection \<open>What the model sees, and two gaps of the grants\<close>

lemma fold_more_names:
  "x \<in> set (List.map fst (fold (\<lambda>schema schemas. if p schema \<or> fst schema \<in> set (List.map fst schemas)
      then schemas else schemas @ [schema]) mcp acc))
   \<longleftrightarrow> x \<in> set (List.map fst acc) \<or> (\<exists>s\<in>set mcp. fst s = x \<and> \<not> p s)"
  for p :: "string \<times> json \<Rightarrow> bool"
  by (induction mcp arbitrary: acc) auto

lemma in_visible_tools:
  assumes "distinct (List.map tl_name ts)" and "List.find (\<lambda>t. tl_name t = name) ts = Some t"
  shows "name \<in> tl_name ` {x \<in> set ts. q x} \<longleftrightarrow> q t"
  using assms by (induction ts) (auto simp: find_Some_iff split: if_splits)

text \<open>
  C31: Which tools the model is shown. Where the gateway's tools have distinct names and the schemas of MCP tools have names
  with the prefix \<open>mcp__\<close>, a registered tool is among the visible ones exactly if the run's selection and
  allowlist allow it and the gate would not refuse it for Plan Mode, except for the two control
  tools: \<open>exit_plan_mode\<close> is shown only while planning, and \<open>enter_plan_mode\<close> only while not, although the gate
  would hand it to its handler then too. The other checks of the gate are not part of it.
\<close>

theorem visible_iff_admitted:
  assumes "distinct (List.map tl_name (gw_tools (gt_gateway self)))" and "get_tool (gt_gateway self) name = Some t"
    and "list_all (\<lambda>s. starts_with (fst s) ''mcp__'') mcp"
  shows "name \<in> set (List.map fst (model_visible_tool_schemas (gt_gateway self) (gt_allowlist self) mcp (gt_selected self) planning))
     \<longleftrightarrow> tool_allowed (gt_selected self) (gt_allowlist self) name
       \<and> (if name = exit_plan_mode_tool then planning
          else if name = enter_plan_mode_tool then \<not> planning
          else \<not> (planning \<and> plan_decision_for self name = PdDeny))"
proof -
  have name: "tl_name t = name" using assms(2) by (rule get_tool_name)
  have mcp: "s \<in> set mcp \<Longrightarrow> fst s \<noteq> exit_plan_mode_tool \<and> fst s \<noteq> enter_plan_mode_tool" for s
    using assms(3) by (auto simp: list_all_iff exit_plan_mode_tool_def enter_plan_mode_tool_def starts_with_def dest!: bspec)
  have tools: "name \<in> tl_name ` {x \<in> set (gw_tools (gt_gateway self)). tool_allowed (gt_selected self) (gt_allowlist self) (tl_name x)
      \<and> tool_visible planning x} \<longleftrightarrow> tool_allowed (gt_selected self) (gt_allowlist self) name \<and> tool_visible planning t"
    using in_visible_tools [OF assms(1) assms(2) [unfolded get_tool_def]] name by simp
  have seen: "name \<in> set (List.map fst (model_visible_tool_schemas (gt_gateway self) (gt_allowlist self) mcp (gt_selected self) planning))
    \<longleftrightarrow> tool_allowed (gt_selected self) (gt_allowlist self) name
      \<and> (tool_visible planning t \<or> \<not> planning \<and> (\<exists>s\<in>set mcp. fst s = name))"
    unfolding model_visible_tool_schemas_def disj_assoc [symmetric] fold_more_names
    using tools by (auto simp: image_image)
  have "tool_visible planning t \<or> \<not> planning \<and> (\<exists>s\<in>set mcp. fst s = name) \<longleftrightarrow>
      (if name = exit_plan_mode_tool then planning
       else if name = enter_plan_mode_tool then \<not> planning
       else \<not> (planning \<and> plan_decision_for self name = PdDeny))"
    using mcp assms(2) name
    by (auto simp: tool_visible_def plan_decision_for_def plan_mode_decision_def split: plan_decision.splits side_effect.splits permission_class.splits if_splits)
  with seen show ?thesis by simp
qed

theorem visible_iff_admitted_witness:
  "\<not> set (List.map fst (model_visible_tool_schemas (gt_gateway (demo_gated [demo_tool ''t''])) None [(''mcp__s__t'', JNull)] None True))
      \<supseteq> {''t''}"
proof -
  have "distinct (List.map tl_name (gw_tools (gt_gateway (demo_gated [demo_tool ''t'']))))"
    "get_tool (gt_gateway (demo_gated [demo_tool ''t''])) ''t'' = Some (demo_tool ''t'')"
    "list_all (\<lambda>s. starts_with (fst s) ''mcp__'') [(''mcp__s__t'', JNull)]"
    by (simp_all add: demo_gated_def get_tool_def demo_tool_def starts_with_def)
  from visible_iff_admitted [OF this, of True]
  have "''t'' \<notin> set (List.map fst (model_visible_tool_schemas (gt_gateway (demo_gated [demo_tool ''t''])) None [(''mcp__s__t'', JNull)] None True))"
    by (simp add: demo_gated_def plan_decision_for_def get_tool_def demo_tool_def plan_mode_decision_def
        exit_plan_mode_tool_def enter_plan_mode_tool_def network_read_tools_def)
  then show ?thesis by simp
qed
text \<open>
  The constraint reads \<open>server_id\<close> before \<open>server\<close>, the call is routed by \<open>server\<close> before
  \<open>server_id\<close>: a grant for a tool of one server covers a call that names both and runs on the other.
\<close>

theorem mcp_grant_covers_other_server:
  assumes "policy_remember env fault uuid now iv scope who st = Some (Inr (Some g), st')"
    and "\<And>t. pe_time env (pe_stamp env t) = Some t" and "now' < now + hours 24" and "ti_session iv \<noteq> None"
    and "ti_tool iv = ''mcp_call''" and "ti_input iv = JObj ((''server_id'', JStr s) # rest)" and "map_of rest ''server'' = None"
  shows "(\<exists>i. policy_check env ok now' (iv\<lparr>ti_input := JObj ((''server'', JStr other) # (''server_id'', JStr s) # rest)\<rparr>) st'
      = Some (GdAllowed i))
    \<and> mcp_server_arg (JObj ((''server'', JStr other) # (''server_id'', JStr s) # rest)) = other
    \<and> mcp_server_arg (ti_input iv) = s"
proof (intro conjI)
  let ?input = "JObj ((''server'', JStr other) # (''server_id'', JStr s) # rest)"
  from assms(1) have "build_constraint env iv \<noteq> None" by (rule policy_remember_needs_constraint)
  have "mcp_constraint env (iv\<lparr>ti_input := ?input\<rparr>) = mcp_constraint env iv"
    using assms(5,6) by (simp add: mcp_constraint_def jget_or_def Let_def cong: option.case_cong)
  then have "build_constraint env (iv\<lparr>ti_input := ?input\<rparr>) = build_constraint env iv"
    using assms(5) by (simp add: build_constraint_def file_tools_def is_mcp_def)
  then show "\<exists>i. policy_check env ok now' (iv\<lparr>ti_input := ?input\<rparr>) st' = Some (GdAllowed i)"
    by (intro remembered_covers [OF assms(1-4) refl]) simp
qed (use assms(6,7) in \<open>simp_all add: mcp_server_arg_def jget_or_def\<close>)

theorem mcp_grant_covers_other_server_witness:
  "\<exists>st i. policy_check demo_policy_env True 0
     (demo_call ''mcp_call'' (JObj [(''server'', JStr ''b''), (''server_id'', JStr ''a''), (''tool'', JStr ''t'')])) st = Some (GdAllowed i)
     \<and> mcp_server_arg (JObj [(''server'', JStr ''b''), (''server_id'', JStr ''a''), (''tool'', JStr ''t'')]) = ''b''"
proof -
  let ?iv = "demo_call ''mcp_call'' (JObj [(''server_id'', JStr ''a''), (''tool'', JStr ''t'')])"
  have "build_constraint demo_policy_env ?iv = Some (mcp_constraint demo_policy_env ?iv)"
    by (simp add: build_constraint_def file_tools_def is_mcp_def)
  from demo_remember [OF this] obtain g st' where
    "policy_remember demo_policy_env None ''g1'' 0 ?iv ''session'' None demo_store = Some (Inr (Some g), st')" by blast
  from mcp_grant_covers_other_server [OF this, of 0 "''a''" "[(''tool'', JStr ''t'')]" True "''b''"]
  show ?thesis by (auto simp: hours_def)
qed

text \<open>
  A grant for an advertised MCP tool is not bound to its arguments. Such a call carries them under
  their own names, the constraint hashes what is under \<open>arguments\<close> or \<open>input\<close>, so a remembered
  permission for one call covers every call of the tool that agrees in seven other keys.
\<close>

theorem mcp_grant_covers_any_arguments:
  assumes "policy_remember env fault uuid now iv scope who st = Some (Inr (Some g), st')"
    and "\<And>t. pe_time env (pe_stamp env t) = Some t" and "now' < now + hours 24" and "ti_session iv \<noteq> None"
    and "starts_with (ti_tool iv) ''mcp__''"
    and "list_all (\<lambda>k. jget k input = jget k (ti_input iv))
           [''server_id'', ''server'', ''tool'', ''tool_name'', ''schema_version'', ''arguments'', ''input'']"
  shows "\<exists>i. policy_check env ok now' (iv\<lparr>ti_input := input\<rparr>) st' = Some (GdAllowed i)"
proof (rule remembered_covers [OF assms(1-4) refl])
  have "mcp_constraint env (iv\<lparr>ti_input := input\<rparr>) = mcp_constraint env iv"
    using assms(6) by (simp add: mcp_constraint_def jget_or_def Let_def cong: option.case_cong)
  moreover have "ti_tool iv \<noteq> ''run_terminal''" "ti_tool iv \<notin> set file_tools" "is_mcp (ti_tool iv)"
    using assms(5) by (auto simp: file_tools_def is_mcp_def starts_with_def)
  ultimately show "map_option (\<lambda>c. (bc_path_scope c, bc_argument c)) (build_constraint env (iv\<lparr>ti_input := input\<rparr>))
    = map_option (\<lambda>c. (bc_path_scope c, bc_argument c)) (build_constraint env iv)"
    by (simp add: build_constraint_def)
qed

theorem mcp_grant_covers_any_arguments_witness:
  "\<exists>st i. policy_check demo_policy_env True 0
     (demo_call ''mcp__fs__write'' (JObj [(''path'', JStr ''/etc/passwd'')])) st = Some (GdAllowed i)"
proof -
  let ?iv = "demo_call ''mcp__fs__write'' (JObj [(''path'', JStr ''notes'')])"
  have "build_constraint demo_policy_env ?iv = Some (mcp_constraint demo_policy_env ?iv)"
    by (simp add: build_constraint_def file_tools_def is_mcp_def starts_with_def)
  from demo_remember [OF this] obtain g st' where
    "policy_remember demo_policy_env None ''g1'' 0 ?iv ''session'' None demo_store = Some (Inr (Some g), st')" by blast
  from mcp_grant_covers_any_arguments [OF this, of 0 "JObj [(''path'', JStr ''/etc/passwd'')]" True]
  show ?thesis by (auto simp: hours_def starts_with_def)
qed

text \<open>
  The profile \<open>read_only\<close> is read-only for the prompt but not for the gate, which knows \<open>readonly\<close>
  alone: a grant lets a write through.
\<close>

lemma read_only_spelling_honours_grants:
  assumes "effective_permission_profile self st = ''read_only''" and "call_class self name = (PcProjectWrite, SfWrite)"
    and "grant_covers env self name input st = Some True"
  shows "gate_permission env self c name input st = Some (None, st)"
  using assms by (simp add: gate_permission_def profile_str_def plan_profile_def check_permission_def await_tool_permission_def)

end
