(* ===== verification/Messages.thy ===== *)
theory Messages
  imports Prelude
begin

section \<open>The transcript of a run\<close>

text \<open>
  The messages of \<open>message.rs\<close>, their projection to JSON values and back, and the strict decoder of
  stored snapshots (\<open>engine_core.rs\<close>). \<open>show\<close> is \<open>Value::to_string\<close>, \<open>read\<close> is
  \<open>serde_json::from_str\<close>, \<open>fresh\<close> is the id made for a message that has none.
\<close>

subsection \<open>Messages\<close>

record image_source =
  is_url :: string
  is_media_type :: "string option"
  is_detail :: "string option"

record tool_call =
  kc_id :: string
  kc_name :: string
  kc_arguments :: string

datatype content_block =
    CbText string | CbThinking string "string option" | CbImage image_source | CbToolCall tool_call

datatype result_block = RbText string | RbJson json | RbArtifact string "string option"

datatype stop_reason = SrStop | SrToolUse | SrLength | SrCancelled | SrError | SrProvider string

record user_message =
  um_id :: string
  um_content :: "content_block list"

record assistant_message =
  am_id :: string
  am_content :: "content_block list"
  am_stop_reason :: "stop_reason option"

record result_message =
  rm_id :: string
  rm_call_id :: string
  rm_tool_name :: string
  rm_content :: "result_block list"
  rm_is_error :: bool
  rm_code :: "string option"

record system_message =
  ym_id :: string
  ym_text :: string

record custom_message =
  xm_id :: string
  xm_kind :: string
  xm_payload :: json

datatype agent_message =
    MUser user_message | MAssistant assistant_message | MResult result_message
  | MSystem system_message | MCustom custom_message

fun stop_reason_str :: "stop_reason \<Rightarrow> string" where
  "stop_reason_str SrStop = ''stop''"
| "stop_reason_str SrToolUse = ''tool_use''"
| "stop_reason_str SrLength = ''length''"
| "stop_reason_str SrCancelled = ''cancelled''"
| "stop_reason_str SrError = ''error''"
| "stop_reason_str (SrProvider raw) = ''provider:'' @ raw"

definition stop_reason_from_label :: "string \<Rightarrow> stop_reason" where
  "stop_reason_from_label label =
     (if label = ''stop'' then SrStop
      else if label = ''tool_use'' then SrToolUse
      else if label = ''length'' then SrLength
      else if label = ''cancelled'' then SrCancelled
      else if label = ''error'' then SrError
      else SrProvider label)"

fun agent_message_id :: "agent_message \<Rightarrow> string" where
  "agent_message_id (MUser m) = um_id m"
| "agent_message_id (MAssistant m) = am_id m"
| "agent_message_id (MResult m) = rm_id m"
| "agent_message_id (MSystem m) = ym_id m"
| "agent_message_id (MCustom m) = xm_id m"

subsection \<open>To JSON\<close>

definition image_json :: "image_source \<Rightarrow> json" where
  "image_json i = JObj [(''url'', JStr (is_url i)), (''media_type'', opt_json (is_media_type i)), (''detail'', opt_json (is_detail i))]"

fun content_block_to_value :: "content_block \<Rightarrow> json" where
  "content_block_to_value (CbText text) = JObj [(''type'', JStr ''text''), (''text'', JStr text)]"
| "content_block_to_value (CbThinking text signature) =
     JObj [(''type'', JStr ''thinking''), (''text'', JStr text), (''signature'', opt_json signature)]"
| "content_block_to_value (CbImage source) = JObj [(''type'', JStr ''image''), (''source'', image_json source)]"
| "content_block_to_value (CbToolCall call) =
     JObj [(''type'', JStr ''tool_call''), (''tool_call_id'', JStr (kc_id call)), (''name'', JStr (kc_name call)),
           (''arguments'', JStr (kc_arguments call))]"

fun result_block_to_value :: "result_block \<Rightarrow> json" where
  "result_block_to_value (RbText text) = JObj [(''type'', JStr ''text''), (''text'', JStr text)]"
| "result_block_to_value (RbJson value) = JObj [(''type'', JStr ''json''), (''value'', value)]"
| "result_block_to_value (RbArtifact artifact preview) =
     JObj [(''type'', JStr ''artifact''), (''artifact_id'', JStr artifact), (''preview'', opt_json preview)]"

fun result_block_text :: "(json \<Rightarrow> string) \<Rightarrow> result_block \<Rightarrow> string" where
  "result_block_text show (RbText text) = text"
| "result_block_text show (RbJson value) = show value"
| "result_block_text show (RbArtifact artifact preview) = (case preview of Some p \<Rightarrow> p | None \<Rightarrow> artifact)"

definition tool_result_content :: "(json \<Rightarrow> string) \<Rightarrow> result_block list \<Rightarrow> string" where
  "tool_result_content show blocks = str_join [CHR 0x0A] (List.map (result_block_text show) blocks)"

fun block_text :: "content_block \<Rightarrow> string" where
  "block_text (CbText text) = text"
| "block_text (CbThinking text _) = text"
| "block_text _ = []"

fun block_call :: "content_block \<Rightarrow> tool_call option" where
  "block_call (CbToolCall call) = Some call"
| "block_call _ = None"

definition call_json :: "tool_call \<Rightarrow> json" where
  "call_json call = JObj [(''id'', JStr (kc_id call)), (''type'', JStr ''function''),
     (''function'', JObj [(''name'', JStr (kc_name call)), (''arguments'', JStr (kc_arguments call))])]"

fun agent_message_to_value :: "(json \<Rightarrow> string) \<Rightarrow> agent_message \<Rightarrow> json" where
  "agent_message_to_value show (MUser m) = JObj
     [(''role'', JStr ''user''), (''message_id'', JStr (um_id m)),
      (''content'', JArr (List.map content_block_to_value (um_content m)))]"
| "agent_message_to_value show (MAssistant m) = JObj
     [(''role'', JStr ''assistant''), (''message_id'', JStr (am_id m)),
      (''content'', JStr (concat (List.map block_text (am_content m)))),
      (''blocks'', JArr (List.map content_block_to_value (am_content m))),
      (''tool_calls'', JArr (List.map call_json (List.map_filter block_call (am_content m)))),
      (''stop_reason'', opt_json (map_option stop_reason_str (am_stop_reason m)))]"
| "agent_message_to_value show (MResult m) = JObj
     [(''role'', JStr ''tool''), (''message_id'', JStr (rm_id m)), (''tool_call_id'', JStr (rm_call_id m)),
      (''name'', JStr (rm_tool_name m)), (''content'', JStr (tool_result_content show (rm_content m))),
      (''tool_result_blocks'', JArr (List.map result_block_to_value (rm_content m))),
      (''is_error'', JBool (rm_is_error m)), (''error_code'', opt_json (rm_code m))]"
| "agent_message_to_value show (MSystem m) = JObj
     [(''role'', JStr ''system''), (''message_id'', JStr (ym_id m)), (''content'', JStr (ym_text m))]"
| "agent_message_to_value show (MCustom m) = JObj
     [(''role'', JStr ''custom''), (''message_id'', JStr (xm_id m)), (''kind'', JStr (xm_kind m)),
      (''payload'', xm_payload m)]"

definition agent_messages_to_values :: "(json \<Rightarrow> string) \<Rightarrow> agent_message list \<Rightarrow> json list" where
  "agent_messages_to_values show ms = List.map (agent_message_to_value show) ms"

subsection \<open>From JSON\<close>

text \<open>\<open>get(key).and_then(as_str).unwrap_or_default()\<close>\<close>

definition text_of :: "string \<Rightarrow> json \<Rightarrow> string" where
  "text_of k v = (case jget_str k v of Some s \<Rightarrow> s | None \<Rightarrow> [])"

text \<open>The derived deserializer of an optional string, and of the image source, from an object or a sequence.\<close>

fun read_opt_str :: "json option \<Rightarrow> string option option" where
  "read_opt_str None = Some None"
| "read_opt_str (Some JNull) = Some None"
| "read_opt_str (Some (JStr s)) = Some (Some s)"
| "read_opt_str (Some _) = None"

definition image_fields :: "json option \<Rightarrow> json option \<Rightarrow> json option \<Rightarrow> image_source option" where
  "image_fields url media_type detail =
     (case (Option.bind url as_str, read_opt_str media_type, read_opt_str detail) of
        (Some u, Some m, Some d) \<Rightarrow> Some \<lparr>is_url = u, is_media_type = m, is_detail = d\<rparr>
      | _ \<Rightarrow> None)"

fun read_image :: "json \<Rightarrow> image_source option" where
  "read_image (JObj kvs) = image_fields (map_of kvs ''url'') (map_of kvs ''media_type'') (map_of kvs ''detail'')"
| "read_image (JArr [u, m, d]) = image_fields (Some u) (Some m) (Some d)"
| "read_image _ = None"

definition value_to_content_block :: "json \<Rightarrow> content_block option" where
  "value_to_content_block v =
     (case jget_str ''type'' v of
        None \<Rightarrow> None
      | Some kind \<Rightarrow>
          (if kind = ''text'' then Some (CbText (text_of ''text'' v))
           else if kind = ''thinking'' then Some (CbThinking (text_of ''text'' v) (jget_str ''signature'' v))
           else if kind = ''image'' then map_option CbImage (Option.bind (jget ''source'' v) read_image)
           else if kind = ''tool_call''
           then Some (CbToolCall \<lparr>kc_id = text_of ''tool_call_id'' v, kc_name = text_of ''name'' v,
                                  kc_arguments = text_of ''arguments'' v\<rparr>)
           else None))"

definition value_to_result_block :: "json \<Rightarrow> result_block option" where
  "value_to_result_block v =
     (case jget_str ''type'' v of
        None \<Rightarrow> None
      | Some kind \<Rightarrow>
          (if kind = ''text'' then Some (RbText (text_of ''text'' v))
           else if kind = ''json'' then Some (RbJson (case jget ''value'' v of Some x \<Rightarrow> x | None \<Rightarrow> JNull))
           else if kind = ''artifact'' then Some (RbArtifact (text_of ''artifact_id'' v) (jget_str ''preview'' v))
           else None))"

definition value_to_result_message :: "string \<Rightarrow> json \<Rightarrow> result_message" where
  "value_to_result_message i v =
     \<lparr>rm_id = i, rm_call_id = text_of ''tool_call_id'' v, rm_tool_name = text_of ''name'' v,
      rm_content =
        (case map_option (List.map_filter value_to_result_block) (Option.bind (jget ''tool_result_blocks'' v) as_array) of
           Some (b # bs) \<Rightarrow> b # bs
         | _ \<Rightarrow> [RbText (text_of ''content'' v)]),
      rm_is_error = (case Option.bind (jget ''is_error'' v) as_bool of Some b \<Rightarrow> b | None \<Rightarrow> False),
      rm_code = jget_str ''error_code'' v\<rparr>"

definition value_to_assistant :: "string \<Rightarrow> json \<Rightarrow> assistant_message" where
  "value_to_assistant i v =
     \<lparr>am_id = i,
      am_content =
        (case Option.bind (jget ''blocks'' v) as_array of
           Some blocks \<Rightarrow> List.map_filter value_to_content_block blocks
         | None \<Rightarrow> (case jget_str ''content'' v of Some (c # cs) \<Rightarrow> [CbText (c # cs)] | _ \<Rightarrow> [])),
      am_stop_reason = map_option stop_reason_from_label (jget_str ''stop_reason'' v)\<rparr>"

definition value_to_user :: "string \<Rightarrow> json \<Rightarrow> user_message" where
  "value_to_user i v =
     \<lparr>um_id = i,
      um_content =
        (case Option.bind (jget ''content'' v) as_array of
           Some blocks \<Rightarrow> List.map_filter value_to_content_block blocks
         | None \<Rightarrow> (case jget_str ''content'' v of Some text \<Rightarrow> [CbText text] | None \<Rightarrow> []))\<rparr>"

definition value_to_agent_message :: "(json \<Rightarrow> string) \<Rightarrow> json \<Rightarrow> agent_message" where
  "value_to_agent_message fresh v =
     (let role = (case jget_str ''role'' v of Some r \<Rightarrow> r | None \<Rightarrow> ''user'');
          i = (case jget_str ''message_id'' v of Some i \<Rightarrow> i | None \<Rightarrow> fresh v)
      in if role = ''tool'' then MResult (value_to_result_message i v)
         else if role = ''assistant'' then MAssistant (value_to_assistant i v)
         else if role = ''system'' then MSystem \<lparr>ym_id = i, ym_text = text_of ''content'' v\<rparr>
         else if role = ''user'' then MUser (value_to_user i v)
         else if role = ''custom''
         then MCustom \<lparr>xm_id = i, xm_kind = (case jget_str ''kind'' v of Some k \<Rightarrow> k | None \<Rightarrow> ''custom''),
                       xm_payload = (case jget ''payload'' v of Some p \<Rightarrow> p | None \<Rightarrow> JNull)\<rparr>
         else MCustom \<lparr>xm_id = i, xm_kind = role,
                       xm_payload = (case jget ''content'' v of Some p \<Rightarrow> p | None \<Rightarrow> JNull)\<rparr>)"

definition values_to_agent_messages :: "(json \<Rightarrow> string) \<Rightarrow> json list \<Rightarrow> agent_message list" where
  "values_to_agent_messages fresh vs = List.map (value_to_agent_message fresh) vs"

subsection \<open>The strict decoder\<close>

text \<open>\<open>for (index, x) in xs.iter().enumerate() { f(index, x)? }\<close>\<close>

fun each_ok :: "(nat \<Rightarrow> 'a \<Rightarrow> string + unit) \<Rightarrow> nat \<Rightarrow> 'a list \<Rightarrow> string + unit" where
  "each_ok f i [] = Inr ()"
| "each_ok f i (x # xs) = bind_sum (f i x) (\<lambda>_. each_ok f (Suc i) xs)"

definition need :: "bool \<Rightarrow> string \<Rightarrow> string + unit" where
  "need b msg = (if b then Inr () else Inl msg)"

text \<open>A string that is there and not blank.\<close>

definition has_text :: "string \<Rightarrow> json \<Rightarrow> bool" where
  "has_text k v = (case jget_str k v of Some s \<Rightarrow> str_trim s \<noteq> [] | None \<Rightarrow> False)"

definition check_snapshot_block :: "(string \<Rightarrow> string + json) \<Rightarrow> (json \<Rightarrow> string) \<Rightarrow> string \<Rightarrow> nat \<Rightarrow> json \<Rightarrow> string + unit" where
  "check_snapshot_block read image_error mid index block =
     (let at = ''snapshot message '' @ mid @ '' block '' @ show_nat index
      in case jget_str ''type'' block of
           None \<Rightarrow> Inl (at @ '' has no type'')
         | Some kind \<Rightarrow>
             (if kind = ''text'' \<or> kind = ''thinking'' then need (jget_str ''text'' block \<noteq> None) (at @ '' has no text'')
              else if kind = ''image''
              then (case jget ''source'' block of
                      None \<Rightarrow> Inl (''snapshot message '' @ mid @ '' image has no source'')
                    | Some source \<Rightarrow> need (read_image source \<noteq> None) (''invalid snapshot image source: '' @ image_error source))
              else if kind = ''tool_call''
              then bind_sum
                     (each_ok (\<lambda>_ field. need (has_text field block)
                        (''snapshot message '' @ mid @ '' tool call missing '' @ field)) 0
                        [''tool_call_id'', ''name'', ''arguments''])
                     (\<lambda>_. case read (text_of ''arguments'' block) of
                             Inl e \<Rightarrow> Inl (''snapshot message '' @ mid @ '' tool call arguments are invalid JSON: '' @ e)
                           | Inr _ \<Rightarrow> Inr ())
              else Inl (''snapshot message '' @ mid @ '' has unknown block '' @ kind)))"

definition validate_snapshot_content_blocks ::
  "(string \<Rightarrow> string + json) \<Rightarrow> (json \<Rightarrow> string) \<Rightarrow> string \<Rightarrow> json \<Rightarrow> string + unit" where
  "validate_snapshot_content_blocks read image_error mid v =
     (case as_array v of
        None \<Rightarrow> Inl (''snapshot message '' @ mid @ '' blocks are not an array'')
      | Some blocks \<Rightarrow> each_ok (check_snapshot_block read image_error mid) 0 blocks)"

definition check_snapshot_result :: "string \<Rightarrow> nat \<Rightarrow> json \<Rightarrow> string + unit" where
  "check_snapshot_result call index block =
     (let at = ''snapshot tool '' @ call @ '' result '' @ show_nat index
      in case jget_str ''type'' block of
           None \<Rightarrow> Inl (at @ '' has no type'')
         | Some kind \<Rightarrow>
             (if kind = ''text'' then need (jget_str ''text'' block \<noteq> None) (at @ '' has no text'')
              else if kind = ''json'' then need (jget ''value'' block \<noteq> None) (at @ '' has no value'')
              else if kind = ''artifact'' then need (has_text ''artifact_id'' block) (at @ '' has no artifact_id'')
              else Inl (''snapshot tool '' @ call @ '' has unknown result block '' @ kind)))"

definition validate_snapshot_tool_result_blocks :: "string \<Rightarrow> json \<Rightarrow> string + unit" where
  "validate_snapshot_tool_result_blocks call v =
     (case as_array v of
        None \<Rightarrow> Inl (''snapshot tool '' @ call @ '' result blocks are not an array'')
      | Some blocks \<Rightarrow> each_ok (check_snapshot_result call) 0 blocks)"

fun is_object :: "json \<Rightarrow> bool" where
  "is_object (JObj _) = True"
| "is_object _ = False"

definition check_snapshot_role :: "(string \<Rightarrow> string + json) \<Rightarrow> (json \<Rightarrow> string) \<Rightarrow> string \<Rightarrow> string \<Rightarrow> json \<Rightarrow> string + unit" where
  "check_snapshot_role read image_error mid role v =
     (if role = ''assistant'' then
        (case jget ''blocks'' v of
           Some blocks \<Rightarrow> validate_snapshot_content_blocks read image_error mid blocks
         | None \<Rightarrow> need (jget_str ''content'' v \<noteq> None) (''snapshot assistant '' @ mid @ '' has no content''))
      else if role = ''user'' then
        (case jget ''content'' v of
           Some blocks \<Rightarrow> (if as_str blocks \<noteq> None then Inr () else validate_snapshot_content_blocks read image_error mid blocks)
         | None \<Rightarrow> Inl (''snapshot user '' @ mid @ '' has no content''))
      else if role = ''system'' then need (jget_str ''content'' v \<noteq> None) (''snapshot system '' @ mid @ '' has no content'')
      else if role = ''tool'' then
        (if \<not> has_text ''tool_call_id'' v then Inl (''snapshot tool '' @ mid @ '' is missing tool_call_id'')
         else (let call = text_of ''tool_call_id'' v
               in if \<not> has_text ''name'' v then Inl (''snapshot tool '' @ call @ '' is missing name'')
                  else (case jget ''tool_result_blocks'' v of
                          Some blocks \<Rightarrow> validate_snapshot_tool_result_blocks call blocks
                        | None \<Rightarrow> need (jget_str ''content'' v \<noteq> None) (''snapshot tool '' @ call @ '' has no content''))))
      else if role = ''custom'' then
        (if \<not> has_text ''kind'' v then Inl (''snapshot custom '' @ mid @ '' is missing kind'')
         else need (jget ''payload'' v \<noteq> None) (''snapshot custom '' @ mid @ '' has no payload''))
      else Inl (''snapshot message '' @ mid @ '' has unknown role '' @ role))"

definition check_snapshot_message :: "(string \<Rightarrow> string + json) \<Rightarrow> (json \<Rightarrow> string) \<Rightarrow> nat \<Rightarrow> json \<Rightarrow> string + unit" where
  "check_snapshot_message read image_error index v =
     (if \<not> is_object v then Inl (''snapshot message '' @ show_nat index @ '' is not an object'')
      else if \<not> has_text ''message_id'' v then Inl (''snapshot message '' @ show_nat index @ '' is missing message_id'')
      else (let mid = text_of ''message_id'' v
            in case jget_str ''role'' v of
                 None \<Rightarrow> Inl (''snapshot message '' @ mid @ '' is missing role'')
               | Some role \<Rightarrow> check_snapshot_role read image_error mid role v))"

definition try_agent_messages_from_json ::
  "(string \<Rightarrow> string + json) \<Rightarrow> (json \<Rightarrow> string) \<Rightarrow> (json \<Rightarrow> string) \<Rightarrow> json \<Rightarrow> string + agent_message list" where
  "try_agent_messages_from_json read image_error fresh v =
     (case as_array v of
        None \<Rightarrow> Inl ''active context snapshot must be an array''
      | Some items \<Rightarrow>
          bind_sum (each_ok (check_snapshot_message read image_error) 0 items)
            (\<lambda>_. Inr (values_to_agent_messages fresh items)))"

subsection \<open>The provider's message form\<close>

record engine_message =
  em_role :: string
  em_content :: string
  em_tool_call_id :: "string option"
  em_tool_name :: "string option"
  em_tool_calls :: "tool_call list option"
  em_images :: "image_source list"

fun block_image :: "content_block \<Rightarrow> image_source option" where
  "block_image (CbImage source) = Some source"
| "block_image _ = None"

definition engine_message_text :: "string \<Rightarrow> string \<Rightarrow> engine_message" where
  "engine_message_text role content = \<lparr>em_role = role, em_content = content, em_tool_call_id = None, em_tool_name = None,
     em_tool_calls = None, em_images = []\<rparr>"

definition engine_message_from_blocks :: "string \<Rightarrow> content_block list \<Rightarrow> engine_message" where
  "engine_message_from_blocks role blocks =
     (let calls = List.map_filter block_call blocks
      in (engine_message_text role (concat (List.map block_text blocks)))
           \<lparr>em_tool_calls := (if calls = [] then None else Some calls), em_images := List.map_filter block_image blocks\<rparr>)"

fun agent_to_engine_message :: "(json \<Rightarrow> string) \<Rightarrow> agent_message \<Rightarrow> engine_message" where
  "agent_to_engine_message show (MUser m) = engine_message_from_blocks ''user'' (um_content m)"
| "agent_to_engine_message show (MAssistant m) = engine_message_from_blocks ''assistant'' (am_content m)"
| "agent_to_engine_message show (MResult m) =
     (engine_message_text ''tool'' (tool_result_content show (rm_content m)))
       \<lparr>em_tool_call_id := Some (rm_call_id m), em_tool_name := Some (rm_tool_name m)\<rparr>"
| "agent_to_engine_message show (MSystem m) = engine_message_text ''system'' (ym_text m)"
| "agent_to_engine_message show (MCustom m) = engine_message_text (xm_kind m) (show (xm_payload m))"

definition engine_to_agent_message ::
  "(string \<Rightarrow> string + json) \<Rightarrow> string \<Rightarrow> engine_message \<Rightarrow> agent_message" where
  "engine_to_agent_message read i m =
     (let content = (if em_content m = [] then [] else [CbText (em_content m)]) @ List.map CbImage (em_images m);
          role = em_role m
      in if role = ''assistant''
         then MAssistant \<lparr>am_id = i, am_content = content @ (case em_tool_calls m of Some calls \<Rightarrow> List.map CbToolCall calls | None \<Rightarrow> []),
                          am_stop_reason = None\<rparr>
         else if role = ''tool''
         then MResult \<lparr>rm_id = i, rm_call_id = (case em_tool_call_id m of Some c \<Rightarrow> c | None \<Rightarrow> []),
                       rm_tool_name = (case em_tool_name m of Some n \<Rightarrow> n | None \<Rightarrow> []),
                       rm_content = [RbJson (case read (em_content m) of Inr v \<Rightarrow> v | Inl _ \<Rightarrow> JStr (em_content m))],
                       rm_is_error = False, rm_code = None\<rparr>
         else if role = ''system'' then MSystem \<lparr>ym_id = i, ym_text = em_content m\<rparr>
         else if role = ''user'' then MUser \<lparr>um_id = i, um_content = content\<rparr>
         else MCustom \<lparr>xm_id = i, xm_kind = role,
                       xm_payload = JObj [(''role'', JStr role), (''content'', JStr (em_content m))]\<rparr>)"

subsection \<open>Round trip\<close>

text \<open>What a message becomes: a provider's stop reason gets its prefix into the text, an empty result a text.\<close>

fun relabel :: "stop_reason \<Rightarrow> stop_reason" where
  "relabel (SrProvider raw) = SrProvider (''provider:'' @ raw)"
| "relabel r = r"

fun rewritten :: "(json \<Rightarrow> string) \<Rightarrow> agent_message \<Rightarrow> agent_message" where
  "rewritten show (MAssistant m) = MAssistant (m\<lparr>am_stop_reason := map_option relabel (am_stop_reason m)\<rparr>)"
| "rewritten show (MResult m) = MResult (if rm_content m = [] then m\<lparr>rm_content := [RbText []]\<rparr> else m)"
| "rewritten show m = m"

lemma jget_str_JObj [simp]:
  "jget_str k (JObj ((k', v) # kvs)) = (if k' = k then as_str v else jget_str k (JObj kvs))"
  by (simp add: jget_str_def)

lemma as_str_opt_json [simp]: "as_str (opt_json x) = x"
  by (cases x) simp_all

lemma read_opt_json [simp]: "read_opt_str (Some (opt_json x)) = Some x"
  by (cases x) simp_all

lemma read_image_json [simp]: "read_image (image_json i) = Some i"
  by (simp add: image_json_def image_fields_def)

lemma content_block_roundtrip [simp]: "value_to_content_block (content_block_to_value b) = Some b"
  by (cases b) (simp_all add: value_to_content_block_def text_of_def)

lemma result_block_roundtrip [simp]: "value_to_result_block (result_block_to_value b) = Some b"
  by (cases b) (simp_all add: value_to_result_block_def text_of_def)

lemma map_filter_Some: "(\<And>x. f (g x) = Some x) \<Longrightarrow> List.map_filter f (List.map g xs) = xs"
  by (induction xs) (simp_all add: List.map_filter_def)

lemma stop_reason_relabelled: "stop_reason_from_label (stop_reason_str r) = relabel r"
  by (cases r) (simp_all add: stop_reason_from_label_def)

lemma message_roundtrip: "value_to_agent_message fresh (agent_message_to_value show m) = rewritten show m"
  by (cases m)
    (auto simp: value_to_agent_message_def value_to_user_def value_to_assistant_def value_to_result_message_def text_of_def
      map_filter_Some stop_reason_relabelled option.map_comp comp_def tool_result_content_def Let_def
      split: list.splits option.splits)

lemma transcript_rewritten:
  "values_to_agent_messages fresh (agent_messages_to_values show ms) = List.map (rewritten show) ms"
  by (simp add: values_to_agent_messages_def agent_messages_to_values_def message_roundtrip)

text \<open>
  C36: The transcript survives its projection to JSON up to two spots. A message read back is the message that
  was written, except that the stop reason of a provider's own gains the prefix \<open>provider:\<close> in its text
  each time, and a tool result without content becomes one with an empty text.
\<close>

theorem transcript_roundtrip:
  "values_to_agent_messages fresh (agent_messages_to_values show ms) = List.map (rewritten show) ms"
  by (rule transcript_rewritten)

text \<open>What the strict decoder asks of a message.\<close>

definition blank :: "string \<Rightarrow> bool" where
  "blank s \<longleftrightarrow> str_trim s = []"

fun storable_block :: "(string \<Rightarrow> string + json) \<Rightarrow> content_block \<Rightarrow> bool" where
  "storable_block read (CbToolCall call) \<longleftrightarrow>
     \<not> blank (kc_id call) \<and> \<not> blank (kc_name call) \<and> \<not> blank (kc_arguments call) \<and> \<not> isl (read (kc_arguments call))"
| "storable_block read _ \<longleftrightarrow> True"

fun storable_result :: "result_block \<Rightarrow> bool" where
  "storable_result (RbArtifact artifact _) \<longleftrightarrow> \<not> blank artifact"
| "storable_result _ \<longleftrightarrow> True"

fun storable :: "(string \<Rightarrow> string + json) \<Rightarrow> agent_message \<Rightarrow> bool" where
  "storable read (MUser m) \<longleftrightarrow> \<not> blank (um_id m) \<and> list_all (storable_block read) (um_content m)"
| "storable read (MAssistant m) \<longleftrightarrow> \<not> blank (am_id m) \<and> list_all (storable_block read) (am_content m)"
| "storable read (MResult m) \<longleftrightarrow> \<not> blank (rm_id m) \<and> \<not> blank (rm_call_id m) \<and> \<not> blank (rm_tool_name m)
     \<and> list_all storable_result (rm_content m)"
| "storable read (MSystem m) \<longleftrightarrow> \<not> blank (ym_id m)"
| "storable read (MCustom m) \<longleftrightarrow> \<not> blank (xm_id m) \<and> \<not> blank (xm_kind m)"

lemma need_Inr [simp]: "need b msg = Inr u \<longleftrightarrow> b"
  by (simp add: need_def)

lemma each_ok_Inr:
  "(\<And>i x. x \<in> set xs \<Longrightarrow> f i x = Inr () \<longleftrightarrow> p x) \<Longrightarrow> each_ok f i xs = Inr () \<longleftrightarrow> list_all p xs"
  by (induction xs arbitrary: i) (auto simp: bind_sum_Inr)

lemma has_text_JObj [simp]:
  "has_text k (JObj ((k', v) # kvs)) = (if k' = k then (case as_str v of Some s \<Rightarrow> \<not> blank s | None \<Rightarrow> False) else has_text k (JObj kvs))"
  by (simp add: has_text_def blank_def split: option.split)

lemma check_block_exact:
  "check_snapshot_block read err mid i (content_block_to_value b) = Inr () \<longleftrightarrow> storable_block read b"
  by (cases b) (auto simp: check_snapshot_block_def bind_sum_Inr text_of_def Let_def split: sum.splits)

lemma check_result_exact:
  "check_snapshot_result call i (result_block_to_value b) = Inr () \<longleftrightarrow> storable_result b"
  by (cases b) (auto simp: check_snapshot_result_def Let_def)

lemma check_message_exact:
  "check_snapshot_message read err i (agent_message_to_value show m) = Inr () \<longleftrightarrow> storable read m"
proof -
  have blocks: "each_ok (check_snapshot_block read err mid) 0 (List.map content_block_to_value bs) = Inr ()
      \<longleftrightarrow> list_all (storable_block read) bs" for mid bs
  proof -
    have "each_ok (check_snapshot_block read err mid) i (List.map content_block_to_value bs) = Inr ()
        \<longleftrightarrow> list_all (storable_block read) bs" for i
      by (induction bs arbitrary: i) (auto simp: bind_sum_Inr check_block_exact)
    then show ?thesis .
  qed
  have results: "each_ok (check_snapshot_result call) i (List.map result_block_to_value bs) = Inr ()
      \<longleftrightarrow> list_all storable_result bs" for call bs i
    by (induction bs arbitrary: i) (auto simp: bind_sum_Inr check_result_exact)
  show ?thesis
    by (cases m)
      (auto simp: check_snapshot_message_def check_snapshot_role_def validate_snapshot_content_blocks_def
        validate_snapshot_tool_result_blocks_def text_of_def Let_def blocks results)
qed

text \<open>
  C37: Of a transcript that was projected to JSON, the strict decoder accepts exactly those whose messages all
  have an id, whose tool calls have an id, a name and arguments that parse, whose tool results have a call id and a
  tool name, whose artifacts have an id and whose custom messages have a kind, none of them blank;
  it then returns the transcript rewritten as by the lenient decoder.
\<close>

theorem snapshot_decodes_iff:
  "case try_agent_messages_from_json read err fresh (JArr (agent_messages_to_values show ms)) of
     Inr ms' \<Rightarrow> list_all (storable read) ms \<and> ms' = List.map (rewritten show) ms
   | Inl e \<Rightarrow> \<not> list_all (storable read) ms"
proof -
  have "each_ok (check_snapshot_message read err) i (List.map (agent_message_to_value show) ms) = Inr ()
      \<longleftrightarrow> list_all (storable read) ms" for i
    by (induction ms arbitrary: i) (auto simp: bind_sum_Inr check_message_exact)
  then show ?thesis
    by (cases "each_ok (check_snapshot_message read err) 0 (List.map (agent_message_to_value show) ms)")
      (auto simp: try_agent_messages_from_json_def agent_messages_to_values_def
        transcript_rewritten [unfolded agent_messages_to_values_def])
qed

end
