(* ===== verification/Compaction.thy ===== *)
theory Compaction
  imports Messages "HOL-Library.Multiset"
begin

section \<open>Compaction of the transcript\<close>

text \<open>
  \<open>compaction.rs\<close>: what is done to the JSON form of a history that has grown too long. Oversized tool outputs
  are cut, calls without a result get one, a prefix is replaced by a summary of the model. \<open>show\<close> is
  \<open>Value::to_string\<close>, \<open>uuid\<close> the id of the summary.
\<close>

subsection \<open>Calls and their results\<close>

definition role_of :: "json \<Rightarrow> string" where
  "role_of m = text_of ''role'' m"

definition calls_of :: "json \<Rightarrow> json list option" where
  "calls_of m = Option.bind (jget ''tool_calls'' m) as_array"

definition dangling_result :: "string \<Rightarrow> string \<Rightarrow> json" where
  "dangling_result i name = JObj
     [(''role'', JStr ''tool''), (''tool_call_id'', JStr i), (''name'', JStr name),
      (''content'', JStr ''DANGLING_TOOL_CALL: execution result was missing; call was not executed''),
      (''is_error'', JBool True), (''error_code'', JStr ''DANGLING_TOOL_CALL'')]"

definition call_name :: "json \<Rightarrow> string" where
  "call_name call = (case Option.bind (jget ''function'' call) (jget_str ''name'') of Some n \<Rightarrow> n | None \<Rightarrow> ''unknown'')"

definition is_result_for :: "string \<Rightarrow> json \<Rightarrow> bool" where
  "is_result_for i m \<longleftrightarrow> role_of m = ''tool'' \<and> jget_str ''tool_call_id'' m = Some i"

text \<open>The index after \<open>index\<close> where the next assistant message is.\<close>

definition search_end :: "json list \<Rightarrow> nat \<Rightarrow> nat" where
  "search_end ms index =
     (case List.find (\<lambda>k. jget_str ''role'' (ms ! k) = Some ''assistant'') [Suc index..<length ms] of
        Some k \<Rightarrow> k | None \<Rightarrow> length ms)"

definition matching_result :: "json list \<Rightarrow> nat \<Rightarrow> nat list \<Rightarrow> string \<Rightarrow> nat option" where
  "matching_result ms index consumed i =
     List.find (\<lambda>k. k \<notin> set consumed \<and> is_result_for i (ms ! k)) [Suc index..<search_end ms index]"

text \<open>One assistant message's calls: what follows it, the results used, how many were missing.\<close>

fun answer_calls :: "json list \<Rightarrow> nat \<Rightarrow> nat list \<Rightarrow> json list \<Rightarrow> json list \<times> nat list \<times> nat" where
  "answer_calls ms index consumed [] = ([], consumed, 0)"
| "answer_calls ms index consumed (call # calls) =
     (let i = text_of ''id'' call
      in if i = [] then answer_calls ms index consumed calls
         else (case matching_result ms index consumed i of
                 Some k \<Rightarrow>
                   (case answer_calls ms index (k # consumed) calls of (out, c, n) \<Rightarrow> (ms ! k # out, c, n))
               | None \<Rightarrow>
                   (case answer_calls ms index consumed calls of
                      (out, c, n) \<Rightarrow> (dangling_result i (call_name call) # out, c, Suc n))))"

fun repair_loop :: "json list \<Rightarrow> nat list \<Rightarrow> (nat \<times> json) list \<Rightarrow> json list \<times> nat" where
  "repair_loop ms consumed [] = ([], 0)"
| "repair_loop ms consumed ((index, m) # rest) =
     (case calls_of m of
        None \<Rightarrow>
          (case repair_loop ms consumed rest of
             (out, n) \<Rightarrow> (if role_of m \<noteq> ''tool'' \<or> index \<notin> set consumed then m # out else out, n))
      | Some calls \<Rightarrow>
          (if role_of m \<noteq> ''assistant''
           then (case repair_loop ms consumed rest of (out, n) \<Rightarrow> (m # out, n))
           else (case answer_calls ms index consumed calls of
                   (results, c, k) \<Rightarrow>
                     (case repair_loop ms c rest of (out, n) \<Rightarrow> (m # results @ out, k + n)))))"

definition repair_dangling_tool_calls :: "json list \<Rightarrow> json list \<times> nat" where
  "repair_dangling_tool_calls ms = repair_loop ms [] (List.enumerate 0 ms)"

subsection \<open>Cutting tool outputs\<close>

record compact_result =
  cr_messages :: "json list"
  cr_dropped :: nat
  cr_repaired :: nat
  cr_summary :: string
  cr_summarized :: nat

definition ellipsis :: string where "ellipsis = [CHR 0xE2, CHR 0x80, CHR 0xA6]"

definition arrow :: string where "arrow = [CHR 0xE2, CHR 0x86, CHR 0x92]"

text \<open>What a tool result with an oversized content becomes, and what the summary says of it.\<close>

definition cut_text :: "nat \<Rightarrow> string \<Rightarrow> string" where
  "cut_text limit content =
     (let preview = take_chars (limit div 2) content
      in preview @ CHR 0x0A # ellipsis @ ''[truncated '' @ show_nat (length content - length preview) @ '' chars for compaction]'')"

definition trim_result :: "nat \<Rightarrow> json \<Rightarrow> (json \<times> string) option" where
  "trim_result limit m =
     (let content = text_of ''content'' m
      in if role_of m = ''tool'' \<and> length content > limit
         then (let compacted = cut_text limit content;
                   i = (case jget_str ''tool_call_id'' m of Some i \<Rightarrow> i | None \<Rightarrow> ''?'')
               in Some (jinsert ''tool_result_blocks'' (JArr [JObj [(''type'', JStr ''text''), (''text'', JStr compacted)]])
                          (jinsert ''content'' (JStr compacted) m),
                        ''tool_call_id='' @ i @ '' truncated '' @ show_nat (length content) @ arrow
                          @ show_nat (length (take_chars (limit div 2) content)) @ '' chars''))
         else None)"

definition compact_messages :: "json list \<Rightarrow> nat \<Rightarrow> compact_result" where
  "compact_messages ms limit =
     (case repair_dangling_tool_calls ms of
        (repaired, n) \<Rightarrow>
          (let summaries = List.map_filter (\<lambda>m. map_option snd (trim_result limit m)) repaired
           in \<lparr>cr_messages = List.map (\<lambda>m. case trim_result limit m of Some (t, _) \<Rightarrow> t | None \<Rightarrow> m) repaired,
               cr_dropped = length summaries, cr_repaired = n,
               cr_summary = (if summaries = [] then ''no tool outputs truncated'' else str_join ''; '' summaries),
               cr_summarized = 0\<rparr>))"

subsection \<open>Replacing a prefix by a summary\<close>

definition summary_marker :: string where "summary_marker = ''[context-summary]''"

fun split_back :: "json list \<Rightarrow> nat \<Rightarrow> nat" where
  "split_back ms 0 = 0"
| "split_back ms (Suc k) = (if role_of (ms ! Suc k) = ''tool'' then split_back ms k else Suc k)"

definition choose_summary_split :: "json list \<Rightarrow> nat \<Rightarrow> nat" where
  "choose_summary_split ms keep_tail =
     (if length ms \<le> keep_tail then 0 else split_back ms (length ms - keep_tail))"

fun drop_orphans :: "string list \<Rightarrow> json list \<Rightarrow> json list \<times> nat" where
  "drop_orphans known [] = ([], 0)"
| "drop_orphans known (m # ms) =
     (let known' = (if role_of m = ''assistant''
                    then (case calls_of m of Some calls \<Rightarrow> List.map_filter (jget_str ''id'') calls @ known | None \<Rightarrow> known)
                    else known)
      in case drop_orphans known' ms of
           (out, n) \<Rightarrow>
             (if role_of m = ''tool'' \<and> text_of ''tool_call_id'' m \<notin> set known' then (out, Suc n) else (m # out, n)))"

definition drop_orphan_tool_results :: "json list \<Rightarrow> json list \<times> nat" where
  "drop_orphan_tool_results ms = drop_orphans [] ms"

definition truncate_chars :: "string \<Rightarrow> nat \<Rightarrow> string" where
  "truncate_chars text n =
     (if chars_count text \<le> n then text
      else take_chars n text @ ellipsis @ ''['' @ show_nat (chars_count text - n) @ '' chars elided]'')"

definition render_call :: "json \<Rightarrow> string" where
  "render_call c =
     (let f = jget ''function'' c;
          name = (case Option.bind f (jget_str ''name'') of Some n \<Rightarrow> n | None \<Rightarrow> ''?'');
          args = (case Option.bind f (jget_str ''arguments'') of Some a \<Rightarrow> a | None \<Rightarrow> [])
      in name @ ''('' @ truncate_chars args 200 @ '')'')"

definition render_message_line :: "(json \<Rightarrow> string) \<Rightarrow> json \<Rightarrow> nat \<Rightarrow> string" where
  "render_message_line show m limit =
     (let role = role_of m;
          body = str_trim (case jget ''content'' m of
                             None \<Rightarrow> []
                           | Some v \<Rightarrow> (case as_str v of Some s \<Rightarrow> s | None \<Rightarrow> show v));
          body = (case calls_of m of
                    Some (c # cs) \<Rightarrow> body @ (if body = [] then [] else [CHR 0x0A])
                                      @ ''calls: '' @ str_join '', '' (List.map render_call (c # cs))
                  | _ \<Rightarrow> body);
          label = (if role = ''tool'' then ''tool:'' @ (case jget_str ''name'' m of Some n \<Rightarrow> n | None \<Rightarrow> ''tool'')
                   else if role = [] then ''unknown'' else role)
      in label @ '': '' @ truncate_chars body limit)"

text \<open>As many lines from the front as fit, each with its line break.\<close>

fun take_budget :: "nat \<Rightarrow> string list \<Rightarrow> string list" where
  "take_budget budget [] = []"
| "take_budget budget (line # lines) =
     (if length line + 1 > budget then [] else line # take_budget (budget - (length line + 1)) lines)"

definition render_transcript_for_summary :: "(json \<Rightarrow> string) \<Rightarrow> json list \<Rightarrow> nat \<Rightarrow> nat \<Rightarrow> string" where
  "render_transcript_for_summary show ms max_total max_message =
     (if ms = [] then []
      else (let ls = List.map (\<lambda>m. render_message_line show m max_message) ms
            in if sum_list (List.map (\<lambda>l. length l + 1) ls) \<le> max_total then str_join [CHR 0x0A] ls
               else (let head = hd ls;
                         tail = rev (take_budget (max_total - (length head + 64)) (rev (tl ls)));
                         elided = length ls - (1 + length tail)
                     in str_join [CHR 0x0A]
                          (head # (if elided > 0 then [ellipsis @ ''['' @ show_nat elided @ '' intermediate messages elided]''] else [])
                           @ tail))))"

definition summary_message :: "string \<Rightarrow> string \<Rightarrow> nat \<Rightarrow> json" where
  "summary_message uuid summary omitted = JObj
     [(''role'', JStr ''system''), (''message_id'', JStr uuid),
      (''content'', JStr (summary_marker @ '' The first '' @ show_nat omitted
         @ '' messages of this conversation were replaced by the summary below to stay inside the context budget. ''
         @ ''Treat it as an accurate record of work already done; continue from it instead of redoing that work.''
         @ CHR 0x0A # CHR 0x0A # str_trim summary))]"

definition apply_model_summary :: "string \<Rightarrow> json list \<Rightarrow> nat \<Rightarrow> string \<Rightarrow> nat \<Rightarrow> compact_result" where
  "apply_model_summary uuid ms split0 summary limit =
     (let split = min split0 (length ms)
      in case drop_orphan_tool_results (drop split ms) of
           (tail, orphans) \<Rightarrow>
             (let c = compact_messages tail limit
              in \<lparr>cr_messages = summary_message uuid summary split # cr_messages c, cr_dropped = cr_dropped c,
                  cr_repaired = cr_repaired c + orphans, cr_summary = str_trim summary, cr_summarized = split\<rparr>))"

subsection \<open>Integrity of calls and results\<close>

text \<open>Each assistant message is followed at once by the results of its calls, in their order.\<close>

definition call_ids :: "json \<Rightarrow> string list" where
  "call_ids m =
     (if role_of m = ''assistant''
      then (case calls_of m of Some calls \<Rightarrow> List.filter (\<lambda>i. i \<noteq> []) (List.map (text_of ''id'') calls) | None \<Rightarrow> [])
      else [])"

fun well_paired :: "json list \<Rightarrow> bool" where
  "well_paired [] \<longleftrightarrow> True"
| "well_paired (m # ms) \<longleftrightarrow>
     list_all2 is_result_for (call_ids m) (take (length (call_ids m)) ms) \<and> well_paired ms"

lemma result_not_caller: "is_result_for i m \<Longrightarrow> call_ids m = []"
  by (simp add: is_result_for_def call_ids_def)

lemma dangling_is_result: "is_result_for i (dangling_result i name)"
  by (simp add: is_result_for_def dangling_result_def role_of_def text_of_def)

lemma matching_resultD:
  "matching_result ms index consumed i = Some k \<Longrightarrow>
     is_result_for i (ms ! k) \<and> k \<notin> set consumed \<and> index < k \<and> k < length ms"
proof -
  have "search_end ms index \<le> length ms"
    by (auto simp: search_end_def find_Some_iff split: option.splits)
  then show "matching_result ms index consumed i = Some k \<Longrightarrow> ?thesis"
    by (auto simp: matching_result_def find_Some_iff) 
qed

lemma answer_calls_results:
  "answer_calls ms index consumed calls = (out, c, n) \<Longrightarrow>
     list_all2 is_result_for (List.filter (\<lambda>i. i \<noteq> []) (List.map (text_of ''id'') calls)) out"
proof (induction calls arbitrary: consumed out c n)
  case (Cons call calls)
  show ?case
  proof (cases "text_of ''id'' call = []")
    case False
    show ?thesis
    proof (cases "matching_result ms index consumed (text_of ''id'' call)")
      case None
      with Cons False show ?thesis by (auto simp: Let_def dangling_is_result split: prod.splits)
    next
      case (Some k)
      with Cons False matching_resultD [OF Some] show ?thesis by (auto simp: Let_def split: prod.splits)
    qed
  qed (use Cons in \<open>auto simp: Let_def\<close>)
qed simp

lemma well_paired_results:
  assumes "list_all2 is_result_for ids results" and "well_paired out"
  shows "well_paired (results @ out)"
  using assms by (induction rule: list_all2_induct) (simp_all add: result_not_caller)

lemma repair_loop_paired:
  "well_paired (fst (repair_loop ms consumed rest))"
proof (induction ms consumed rest rule: repair_loop.induct)
  case (2 ms consumed index m rest)
  show ?case
  proof (cases "calls_of m")
    case None
    with 2(1) [OF None] show ?thesis by (auto simp: call_ids_def split: prod.splits)
  next
    case (Some calls)
    show ?thesis
    proof (cases "role_of m = ''assistant''")
      case False
      with 2(2) [OF Some] Some show ?thesis by (auto simp: call_ids_def split: prod.splits)
    next
      case True
      obtain results c k where a: "answer_calls ms index consumed calls = (results, c, k)" by (metis prod_cases3)
      then have p: "list_all2 is_result_for (call_ids m) results"
        using answer_calls_results [of ms index consumed calls results c k] Some True by (simp add: call_ids_def)
      then have "length results = length (call_ids m)" by (simp add: list_all2_lengthD)
      with 2(3) [OF Some _ a [symmetric]] p Some True a well_paired_results [OF p]
      show ?thesis by (auto split: prod.splits)
    qed
  qed
qed simp

lemma trim_keeps:
  assumes "trim_result limit m = Some (t, s)"
  shows "call_ids t = call_ids m" and "is_result_for i t = is_result_for i m"
proof -
  have r: "role_of m = ''tool''" and t: "\<exists>x y. t = jinsert ''tool_result_blocks'' x (jinsert ''content'' y m)"
    using assms by (auto simp: trim_result_def Let_def split: if_splits)
  obtain kvs where m: "m = JObj kvs" using r by (cases m) (auto simp: role_of_def text_of_def jget_str_def)
  from t m have "jget_str ''role'' t = jget_str ''role'' m" "jget_str ''tool_call_id'' t = jget_str ''tool_call_id'' m"
    by (auto simp: jget_str_def)
  then show "call_ids t = call_ids m" "is_result_for i t = is_result_for i m"
    using r by (auto simp: call_ids_def is_result_for_def role_of_def text_of_def)
qed

lemma well_paired_map:
  assumes "\<And>m. call_ids (f m) = call_ids m" and "\<And>i m. is_result_for i (f m) = is_result_for i m"
  shows "well_paired (List.map f ms) = well_paired ms"
proof (induction ms)
  case (Cons m ms)
  have "list_all2 is_result_for ids (List.map f xs) = list_all2 is_result_for ids xs" for ids xs
    by (simp add: list_all2_map2 assms(2))
  with Cons show ?case by (simp add: assms(1) take_map)
qed simp

lemma compact_paired: "well_paired (cr_messages (compact_messages ms limit))"
proof -
  let ?f = "\<lambda>m. case trim_result limit m of Some (t, _) \<Rightarrow> t | None \<Rightarrow> m"
  obtain repaired n where r: "repair_dangling_tool_calls ms = (repaired, n)" by fastforce
  have same: "call_ids (?f m) = call_ids m" "is_result_for i (?f m) = is_result_for i m" for i m
    by (cases "trim_result limit m"; auto dest: trim_keeps)+
  have "well_paired (List.map ?f repaired) = well_paired repaired"
    by (rule well_paired_map) (rule same)+
  moreover have "well_paired repaired"
    using repair_loop_paired [of ms "[]" "List.enumerate 0 ms"] r by (simp add: repair_dangling_tool_calls_def)
  ultimately show ?thesis by (simp add: compact_messages_def r Let_def)
qed

lemma role_of_first: "role_of (JObj ((''role'', JStr r) # kvs)) = r"
  by (simp add: role_of_def text_of_def)

lemma summary_no_calls: "call_ids (summary_message uuid summary n) = []"
proof -
  have "role_of (summary_message uuid summary n) = ''system''"
    unfolding summary_message_def by (rule role_of_first)
  then show ?thesis by (simp add: call_ids_def)
qed

text \<open>
  C38: Whatever the history was, after repairing it, after mechanical compaction and after the replacement of a
  prefix by a summary every assistant message is directly followed by one result for each of its calls
  that has an id, in the order of the calls.
\<close>

theorem compaction_pairs_calls:
  "well_paired (fst (repair_dangling_tool_calls ms))
   \<and> well_paired (cr_messages (compact_messages ms limit))
   \<and> well_paired (cr_messages (apply_model_summary uuid ms split summary limit))"
proof -
  obtain tail orphans where "drop_orphan_tool_results (drop (min split (length ms)) ms) = (tail, orphans)" by fastforce
  then have "cr_messages (apply_model_summary uuid ms split summary limit)
      = summary_message uuid summary (min split (length ms)) # cr_messages (compact_messages tail limit)"
    by (simp add: apply_model_summary_def Let_def)
  then show ?thesis
    using repair_loop_paired [of ms "[]" "List.enumerate 0 ms"] compact_paired [of ms] compact_paired [of tail]
    by (simp add: repair_dangling_tool_calls_def summary_no_calls)
qed

subsection \<open>Nothing is lost by the repair\<close>

definition results_plain :: "json list \<Rightarrow> bool" where
  "results_plain ms \<longleftrightarrow> list_all (\<lambda>m. role_of m = ''tool'' \<longrightarrow> calls_of m = None) ms"

definition is_dangling :: "json \<Rightarrow> bool" where
  "is_dangling m \<longleftrightarrow> (\<exists>i name. m = dangling_result i name)"

definition picked :: "json list \<Rightarrow> nat set \<Rightarrow> json multiset" where
  "picked ms K = image_mset ((!) ms) (mset_set K)"

lemma picked_insert: "finite K \<Longrightarrow> k \<notin> K \<Longrightarrow> picked ms (insert k K) = add_mset (ms ! k) (picked ms K)"
  by (simp add: picked_def)

lemma picked_Un: "finite K \<Longrightarrow> finite L \<Longrightarrow> K \<inter> L = {} \<Longrightarrow> picked ms (K \<union> L) = picked ms K + picked ms L"
  by (simp add: picked_def mset_set_Union)

lemma picked_all: "picked ms {0..<length ms} = mset ms"
proof -
  have "picked ms {0..<length ms} = mset (List.map ((!) ms) [0..<length ms])"
    by (simp add: picked_def flip: mset_set_upto_eq_mset_upto)
  then show ?thesis by (simp add: map_nth)
qed

text \<open>
  The ids that tool results carry at some indices, and the call ids of a message that have no result of
  their own between it and the next assistant message, as often as a result is missing.
\<close>

definition result_ids :: "json list \<Rightarrow> nat list \<Rightarrow> string list" where
  "result_ids ms ks = List.map_filter (\<lambda>k. if role_of (ms ! k) = ''tool'' then jget_str ''tool_call_id'' (ms ! k) else None) ks"

definition missing_ids :: "json list \<Rightarrow> nat \<Rightarrow> string multiset" where
  "missing_ids ms k = mset (call_ids (ms ! k)) - mset (result_ids ms [Suc k..<search_end ms k])"

definition open_results :: "json list \<Rightarrow> nat \<Rightarrow> nat list \<Rightarrow> string multiset" where
  "open_results ms index consumed = mset (result_ids ms (List.filter (\<lambda>k. k \<notin> set consumed) [Suc index..<search_end ms index]))"

definition added_ids :: "json list \<Rightarrow> string multiset" where
  "added_ids added = mset (List.map (text_of ''tool_call_id'') added)"

lemma added_ids_simps [simp]:
  "added_ids [] = {#}" "added_ids (m # ms) = add_mset (text_of ''tool_call_id'' m) (added_ids ms)"
  "added_ids (ms @ ms') = added_ids ms + added_ids ms'"
  by (simp_all add: added_ids_def)

lemma dangling_id [simp]: "text_of ''tool_call_id'' (dangling_result i name) = i"
  by (simp add: dangling_result_def text_of_def)

lemma result_ids_simps [simp]:
  "result_ids ms [] = []"
  "result_ids ms (k # ks) = (if role_of (ms ! k) = ''tool''
     then (case jget_str ''tool_call_id'' (ms ! k) of Some i \<Rightarrow> i # result_ids ms ks | None \<Rightarrow> result_ids ms ks) else result_ids ms ks)"
  by (auto simp: result_ids_def map_filter_simps split: option.split)

lemma result_ids_set: "i \<in> set (result_ids ms ks) \<longleftrightarrow> (\<exists>k\<in>set ks. is_result_for i (ms ! k))"
  by (induction ks) (auto simp: is_result_for_def split: option.splits)

lemma result_ids_remove:
  "distinct ks \<Longrightarrow> k \<in> set ks \<Longrightarrow> is_result_for i (ms ! k) \<Longrightarrow>
     mset (result_ids ms ks) = add_mset i (mset (result_ids ms (List.filter (\<lambda>l. l \<noteq> k) ks)))"
proof (induction ks)
  case (Cons l ks)
  show ?case
  proof (cases "l = k")
    case True
    then have "List.filter (\<lambda>l. l \<noteq> k) ks = ks" using Cons.prems(1) by (auto simp: filter_id_conv)
    then show ?thesis using True Cons.prems(3) by (simp add: is_result_for_def)
  next
    case False
    then show ?thesis using Cons by (auto split: option.split)
  qed
qed simp

lemma matching_none: "matching_result ms index consumed i = None \<Longrightarrow> i \<notin># open_results ms index consumed"
  by (auto simp: matching_result_def find_None_iff open_results_def result_ids_set)

lemma matching_some:
  assumes "matching_result ms index consumed i = Some k"
  shows "open_results ms index consumed = add_mset i (open_results ms index (k # consumed))" and "k < search_end ms index"
proof -
  let ?ks = "[Suc index..<search_end ms index]"
  from assms have k: "k \<in> set ?ks" "k \<notin> set consumed" "is_result_for i (ms ! k)"
    by (auto simp: matching_result_def find_Some_iff in_set_conv_nth)
  then have "k \<in> set (List.filter (\<lambda>k. k \<notin> set consumed) ?ks)" by simp
  from result_ids_remove [OF _ this k(3)] show "open_results ms index consumed = add_mset i (open_results ms index (k # consumed))"
    by (simp add: open_results_def conj_commute)
  show "k < search_end ms index" using k(1) by simp
qed

lemma add_diff_other: "x \<notin># B \<Longrightarrow> add_mset x A - B = add_mset x (A - B)"
  by (auto simp: multiset_eq_iff not_in_iff)

text \<open>Results used up by earlier messages lie before the next assistant message.\<close>

definition used_before :: "json list \<Rightarrow> nat \<Rightarrow> nat list \<Rightarrow> bool" where
  "used_before ms i consumed \<longleftrightarrow> (\<forall>k\<in>set consumed. \<forall>j. i \<le> j \<longrightarrow> j < length ms \<longrightarrow> role_of (ms ! j) = ''assistant'' \<longrightarrow> k < j)"

lemma search_end_le:
  assumes "index < j" "j < length ms" "role_of (ms ! j) = ''assistant''"
  shows "search_end ms index \<le> j"
proof -
  have a: "jget_str ''role'' (ms ! j) = Some ''assistant''"
    using assms(3) by (auto simp: role_of_def text_of_def split: option.splits)
  then have some: "List.find (\<lambda>k. jget_str ''role'' (ms ! k) = Some ''assistant'') [Suc index..<length ms] \<noteq> None"
    using assms(1,2) by (auto simp: find_None_iff)
  then obtain k where k: "List.find (\<lambda>k. jget_str ''role'' (ms ! k) = Some ''assistant'') [Suc index..<length ms] = Some k" by blast
  then obtain n where n: "n < length [Suc index..<length ms]" "k = [Suc index..<length ms] ! n"
    "\<forall>m<n. jget_str ''role'' (ms ! ([Suc index..<length ms] ! m)) \<noteq> Some ''assistant''"
    by (auto simp: find_Some_iff)
  have "n \<le> j - Suc index"
  proof (rule ccontr)
    assume "\<not> n \<le> j - Suc index"
    then have "jget_str ''role'' (ms ! ([Suc index..<length ms] ! (j - Suc index))) \<noteq> Some ''assistant''" using n(3) by simp
    then show False using a assms(1,2) by simp
  qed
  then have "k \<le> j" using n(1,2) assms(1) by simp
  then show ?thesis by (simp add: search_end_def k)
qed

lemma open_results_fresh:
  assumes "used_before ms i consumed" "i < length ms" "role_of (ms ! i) = ''assistant''"
  shows "open_results ms i consumed = mset (result_ids ms [Suc i..<search_end ms i])"
proof -
  have "k < i" if "k \<in> set consumed" for k using assms that by (auto simp: used_before_def)
  then have "List.filter (\<lambda>k. k \<notin> set consumed) [Suc i..<search_end ms i] = [Suc i..<search_end ms i]"
    by (fastforce simp: filter_id_conv)
  then show ?thesis by (simp add: open_results_def)
qed

lemma answer_calls_picks:
  "answer_calls ms index consumed calls = (out, c, n) \<Longrightarrow>
     set consumed \<subseteq> set c
     \<and> (\<forall>k\<in>set c - set consumed. index < k \<and> k < length ms \<and> role_of (ms ! k) = ''tool'' \<and> k < search_end ms index)
     \<and> (\<exists>added. mset out = picked ms (set c - set consumed) + mset added \<and> length added = n \<and> list_all is_dangling added
          \<and> added_ids added = mset (List.filter (\<lambda>i. i \<noteq> []) (List.map (text_of ''id'') calls)) - open_results ms index consumed)"
proof (induction calls arbitrary: consumed out c n)
  case Nil
  then show ?case by (auto simp: picked_def)
next
  case (Cons call calls)
  let ?i = "text_of ''id'' call"
  show ?case
  proof (cases "?i = []")
    case True
    with Cons show ?thesis by (simp add: Let_def)
  next
    case False
    show ?thesis
    proof (cases "matching_result ms index consumed ?i")
      case None
      with Cons.prems False obtain out' n' where a: "answer_calls ms index consumed calls = (out', c, n')"
        "out = dangling_result ?i (call_name call) # out'" "n = Suc n'"
        by (auto simp: Let_def split: prod.splits)
      from Cons.IH [OF a(1)] obtain added where "mset out' = picked ms (set c - set consumed) + mset added"
        "length added = n'" "list_all is_dangling added"
        "added_ids added = mset (List.filter (\<lambda>i. i \<noteq> []) (List.map (text_of ''id'') calls)) - open_results ms index consumed" by blast
      then have "mset out = picked ms (set c - set consumed) + mset (dangling_result ?i (call_name call) # added)
          \<and> length (dangling_result ?i (call_name call) # added) = n
          \<and> list_all is_dangling (dangling_result ?i (call_name call) # added)
          \<and> added_ids (dangling_result ?i (call_name call) # added)
              = mset (List.filter (\<lambda>i. i \<noteq> []) (List.map (text_of ''id'') (call # calls))) - open_results ms index consumed"
        using a(2,3) False add_diff_other [OF matching_none [OF None]] by (auto simp: is_dangling_def)
      with Cons.IH [OF a(1)] show ?thesis by blast
    next
      case (Some k)
      with Cons.prems False obtain out' where a: "answer_calls ms index (k # consumed) calls = (out', c, n)"
        "out = ms ! k # out'" by (auto simp: Let_def split: prod.splits)
      note k = matching_resultD [OF Some]
      from Cons.IH [OF a(1)] obtain added where ih: "mset out' = picked ms (set c - set (k # consumed)) + mset added"
        "length added = n" "list_all is_dangling added" "set (k # consumed) \<subseteq> set c"
        "\<forall>l\<in>set c - set (k # consumed). index < l \<and> l < length ms \<and> role_of (ms ! l) = ''tool'' \<and> l < search_end ms index"
        "added_ids added = mset (List.filter (\<lambda>i. i \<noteq> []) (List.map (text_of ''id'') calls)) - open_results ms index (k # consumed)" by blast
      have more: "set c - set consumed = insert k (set c - set (k # consumed))" using k ih(4) by auto
      have "picked ms (set c - set consumed) = add_mset (ms ! k) (picked ms (set c - set (k # consumed)))"
        unfolding more by (rule picked_insert) auto
      then have "mset out = picked ms (set c - set consumed) + mset added"
        by (simp only: a(2) mset.simps ih(1) union_mset_add_mset_left)
      moreover have "\<forall>l\<in>set c - set consumed. index < l \<and> l < length ms \<and> role_of (ms ! l) = ''tool'' \<and> l < search_end ms index"
        unfolding more using ih(5) k matching_some(2) [OF Some] by (simp add: is_result_for_def)
      moreover have "added_ids added = mset (List.filter (\<lambda>i. i \<noteq> []) (List.map (text_of ''id'') (call # calls))) - open_results ms index consumed"
        using ih(6) False by (simp add: matching_some(1) [OF Some])
      moreover have "set consumed \<subseteq> set c" using ih(4) by simp
      ultimately show ?thesis using ih(2,3) by blast
    qed
  qed
qed

lemma repair_loop_picks:
  assumes "results_plain ms" and "repair_loop ms consumed (List.enumerate i xs) = (out, n)" and "drop i ms = xs"
    and "\<forall>k\<in>set consumed. role_of (ms ! k) = ''tool''" and "i \<le> length ms" and "used_before ms i consumed"
  shows "\<exists>added. mset out = picked ms ({i..<length ms} - set consumed) + mset added \<and> length added = n
    \<and> list_all is_dangling added \<and> added_ids added = (\<Sum>k\<leftarrow>[i..<length ms]. missing_ids ms k)"
  using assms
proof (induction xs arbitrary: consumed i out n)
  case Nil
  then show ?case by (auto simp: picked_def)
next
  case (Cons m xs)
  have i: "i < length ms" "ms ! i = m" "drop (Suc i) ms = xs"
  proof -
    show "i < length ms" using Cons.prems(3) by (cases "i < length ms") simp_all
    then show "ms ! i = m" "drop (Suc i) ms = xs" using Cons.prems(3) by (simp_all add: Cons_nth_drop_Suc [symmetric])
  qed
  have range: "{i..<length ms} = insert i {Suc i..<length ms}" using i(1) by auto
  have sum: "(\<Sum>k\<leftarrow>[i..<length ms]. missing_ids ms k) = missing_ids ms i + (\<Sum>k\<leftarrow>[Suc i..<length ms]. missing_ids ms k)"
    using i(1) by (simp add: upt_conv_Cons)
  note IH = Cons.IH [OF Cons.prems(1) _ i(3)]
  show ?case
  proof (cases "role_of m = ''assistant'' \<and> calls_of m \<noteq> None")
    case True
    then obtain calls where calls: "calls_of m = Some calls" "role_of m = ''assistant''" by auto
    obtain results c k where a: "answer_calls ms i consumed calls = (results, c, k)" by (metis prod_cases3)
    with Cons.prems(2) calls obtain out' n' where r: "repair_loop ms c (List.enumerate (Suc i) xs) = (out', n')"
      "out = m # results @ out'" "n = k + n'" by (auto split: prod.splits)
    from answer_calls_picks [OF a] obtain added where c: "set consumed \<subseteq> set c"
      "\<forall>l\<in>set c - set consumed. i < l \<and> l < length ms \<and> role_of (ms ! l) = ''tool'' \<and> l < search_end ms i"
      "mset results = picked ms (set c - set consumed) + mset added" "length added = k" "list_all is_dangling added"
      "added_ids added = mset (List.filter (\<lambda>i. i \<noteq> []) (List.map (text_of ''id'') calls)) - open_results ms i consumed" by blast
    have missing: "added_ids added = missing_ids ms i"
      using c(6) open_results_fresh [OF Cons.prems(6) i(1)] calls i(2) by (simp add: missing_ids_def call_ids_def)
    have before: "used_before ms (Suc i) c"
      using Cons.prems(6) c(2) search_end_le [of i _ ms] unfolding used_before_def
      by (meson Diff_iff Suc_le_eq Suc_leD less_le_trans)
    have tools: "\<forall>l\<in>set c. role_of (ms ! l) = ''tool''" using c(1,2) Cons.prems(4) by blast
    from IH [OF r(1) tools _ before] i(1) obtain more where m: "mset out' = picked ms ({Suc i..<length ms} - set c) + mset more"
      "length more = n'" "list_all is_dangling more" "added_ids more = (\<Sum>k\<leftarrow>[Suc i..<length ms]. missing_ids ms k)" by auto
    have "i \<notin> set c" using tools i(2) calls by auto
    then have "{i..<length ms} - set consumed = insert i (({Suc i..<length ms} - set c) \<union> (set c - set consumed))"
      using range c(1,2) by (auto simp: Suc_le_eq)
    moreover have "i \<notin> ({Suc i..<length ms} - set c) \<union> (set c - set consumed)" using \<open>i \<notin> set c\<close> by auto
    moreover have "({Suc i..<length ms} - set c) \<inter> (set c - set consumed) = {}" by auto
    ultimately have "picked ms ({i..<length ms} - set consumed)
        = add_mset m (picked ms ({Suc i..<length ms} - set c) + picked ms (set c - set consumed))"
      using i(2) by (simp only: picked_insert picked_Un finite_Un finite_Diff finite_atLeastLessThan finite_set simp_thms)
    then have "mset out = picked ms ({i..<length ms} - set consumed) + mset (added @ more)"
      using r(2) m(1) c(3) by simp
    then show ?thesis using c(4,5) m(2-4) r(3) missing sum by (intro exI [of _ "added @ more"]) simp
  next
    case False
    obtain out' n' where r: "repair_loop ms consumed (List.enumerate (Suc i) xs) = (out', n')" by fastforce
    have before: "used_before ms (Suc i) consumed" using Cons.prems(6) by (simp add: used_before_def)
    have "missing_ids ms i = {#}" using False i(2) by (auto simp: missing_ids_def call_ids_def split: option.split)
    with IH [OF r Cons.prems(4) _ before] i(1) sum obtain more where m: "mset out' = picked ms ({Suc i..<length ms} - set consumed) + mset more"
      "length more = n'" "list_all is_dangling more" "added_ids more = (\<Sum>k\<leftarrow>[i..<length ms]. missing_ids ms k)" by auto
    have "(role_of m = ''tool'' \<longrightarrow> calls_of m = None)" using Cons.prems(1) i(1,2) by (auto simp: results_plain_def list_all_length)
    with False Cons.prems(2) r have o: "n = n'" "out = (if role_of m \<noteq> ''tool'' \<or> i \<notin> set consumed then m # out' else out')"
      by (auto split: option.splits if_splits)
    show ?thesis
    proof (cases "i \<in> set consumed")
      case True
      then have "role_of m = ''tool''" using Cons.prems(4) i(2) by auto
      with True o(2) have "out = out'" by simp
      moreover have "{i..<length ms} - set consumed = {Suc i..<length ms} - set consumed" using range True by auto
      ultimately show ?thesis using m o(1) by auto
    next
      case False
      then have "{i..<length ms} - set consumed = insert i ({Suc i..<length ms} - set consumed)" using range by auto
      then have "picked ms ({i..<length ms} - set consumed) = add_mset m (picked ms ({Suc i..<length ms} - set consumed))"
        using i(2) by (simp add: picked_insert)
      then show ?thesis using m o False by auto
    qed
  qed
qed

text \<open>
  C39: Repairing a history loses and duplicates no message, and adds a synthetic error result exactly for the
  calls without a result of their own: an assistant message with \<open>n\<close> calls of an id, followed by \<open>k\<close> results for this id
  before the next assistant message, gets \<open>n - k\<close> of them for it (none if \<open>k\<close> is not less). The outcome has these and
  exactly the messages of the input, and their number is the count reported. Only the order
  changes. Assumed is that no tool result itself carries a list of calls (\<open>results_plain\<close>), which the engine never writes.
\<close>

theorem repair_loses_nothing:
  assumes "results_plain ms"
  shows "\<exists>added. mset (fst (repair_dangling_tool_calls ms)) = mset ms + mset added
    \<and> length added = snd (repair_dangling_tool_calls ms) \<and> list_all is_dangling added
    \<and> added_ids added = (\<Sum>k\<leftarrow>[0..<length ms]. missing_ids ms k)"
proof -
  obtain out n where r: "repair_loop ms [] (List.enumerate 0 ms) = (out, n)" by fastforce
  have "used_before ms 0 []" by (simp add: used_before_def)
  with repair_loop_picks [OF assms r] show ?thesis
    by (simp add: repair_dangling_tool_calls_def r picked_all)
qed

subsection \<open>A repaired history cannot be stored\<close>

lemma each_ok_member: "each_ok f i xs = Inr u \<Longrightarrow> x \<in> set xs \<Longrightarrow> \<exists>j. f j x = Inr ()"
  by (induction xs arbitrary: i) (auto simp: bind_sum_Inr)

lemma is_dangling_result: "is_dangling (dangling_result i name)"
  by (auto simp: is_dangling_def)

lemma answer_calls_dangling:
  "answer_calls ms index consumed calls = (out, c, n) \<Longrightarrow> n > 0 \<Longrightarrow> list_ex is_dangling out"
proof (induction calls arbitrary: consumed out c n)
  case (Cons call calls)
  then show ?case
    by (cases "text_of ''id'' call = []"; cases "matching_result ms index consumed (text_of ''id'' call)")
      (auto simp: Let_def is_dangling_result split: prod.splits)
qed simp

lemma repair_loop_dangling:
  "repair_loop ms consumed rest = (out, n) \<Longrightarrow> n > 0 \<Longrightarrow> list_ex is_dangling out"
proof (induction rest arbitrary: consumed out n)
  case (Cons x rest)
  obtain index m where x: "x = (index, m)" by fastforce
  show ?case
  proof (cases "role_of m = ''assistant'' \<and> calls_of m \<noteq> None")
    case True
    then obtain calls where calls: "calls_of m = Some calls" "role_of m = ''assistant''" by auto
    obtain results c k where a: "answer_calls ms index consumed calls = (results, c, k)" by (metis prod_cases3)
    with Cons.prems calls x obtain out' n' where r: "repair_loop ms c rest = (out', n')" "out = m # results @ out'" "n = k + n'"
      by (auto split: prod.splits)
    then show ?thesis using Cons.IH [OF r(1)] answer_calls_dangling [OF a] Cons.prems(2) by (cases "k = 0") auto
  next
    case False
    obtain out' n' where r: "repair_loop ms consumed rest = (out', n')" by fastforce
    with False Cons.prems x have "n = n'" "out = m # out' \<or> out = out'"
      by (auto split: option.splits if_splits)
    with Cons.IH [OF r] Cons.prems(2) show ?thesis by auto
  qed
qed simp

lemma dangling_has_no_id: "is_dangling m \<Longrightarrow> \<not> has_text ''message_id'' m"
  by (auto simp: is_dangling_def dangling_result_def has_text_def jget_str_def)

text \<open>
  A history in which a dangling call was repaired cannot be restored from its snapshot: the synthetic result
  has no message id, which the strict decoder of stored snapshots insists on.
\<close>

theorem repaired_snapshot_refused:
  assumes "snd (repair_dangling_tool_calls ms) > 0"
  shows "\<exists>e. try_agent_messages_from_json read err fresh (JArr (fst (repair_dangling_tool_calls ms))) = Inl e"
proof -
  obtain out n where r: "repair_loop ms [] (List.enumerate 0 ms) = (out, n)" by fastforce
  with assms have "list_ex is_dangling out" using repair_loop_dangling [OF r] by (simp add: repair_dangling_tool_calls_def)
  then obtain m where m: "m \<in> set out" "is_dangling m" by (auto simp: list_ex_iff)
  have "check_snapshot_message read err j m \<noteq> Inr ()" for j
    using dangling_has_no_id [OF m(2)] by (auto simp: check_snapshot_message_def)
  then have "each_ok (check_snapshot_message read err) 0 out \<noteq> Inr ()"
    using each_ok_member [of "check_snapshot_message read err" 0 out "()" m] m(1) by auto
  then obtain e where "each_ok (check_snapshot_message read err) 0 out = Inl e"
    by (cases "each_ok (check_snapshot_message read err) 0 out") auto
  then show ?thesis using r by (simp add: try_agent_messages_from_json_def repair_dangling_tool_calls_def)
qed

definition demo_history :: "json list" where
  "demo_history = agent_messages_to_values (\<lambda>_. [])
     [MUser \<lparr>um_id = ''m1'', um_content = [CbText ''hi'']\<rparr>,
      MAssistant \<lparr>am_id = ''m2'', am_content = [CbToolCall \<lparr>kc_id = ''c1'', kc_name = ''read'', kc_arguments = ''{}''\<rparr>],
                  am_stop_reason = Some SrToolUse\<rparr>]"

theorem repair_loses_nothing_witness:
  "results_plain demo_history \<and> missing_ids demo_history 1 = {#''c1''#}
   \<and> (\<exists>added. mset (fst (repair_dangling_tool_calls demo_history)) = mset demo_history + mset added
        \<and> length added = snd (repair_dangling_tool_calls demo_history) \<and> list_all is_dangling added)"
proof -
  have "results_plain demo_history" "mset (call_ids (demo_history ! 1)) = {#''c1''#}"
    "result_ids demo_history [Suc 1..<search_end demo_history 1] = []" by code_simp+
  with repair_loses_nothing [of demo_history] show ?thesis by (auto simp: missing_ids_def)
qed

theorem repaired_snapshot_refused_witness:
  "snd (repair_dangling_tool_calls demo_history) = 1
   \<and> (\<exists>e. try_agent_messages_from_json (\<lambda>_. Inr JNull) (\<lambda>_. []) (\<lambda>_. ''f'')
            (JArr (fst (repair_dangling_tool_calls demo_history))) = Inl e)"
proof -
  have "snd (repair_dangling_tool_calls demo_history) = 1" by code_simp
  with repaired_snapshot_refused [of demo_history "\<lambda>_. Inr JNull" "\<lambda>_. []" "\<lambda>_. ''f''"] show ?thesis by simp
qed

subsection \<open>Where the summary stops, and what a cut does to wide characters\<close>

lemma split_back_le: "split_back ms k \<le> k"
  by (induction ms k rule: split_back.induct) auto

lemma split_back_stops: "split_back ms k = 0 \<or> role_of (ms ! split_back ms k) \<noteq> ''tool''"
  by (induction ms k rule: split_back.induct) auto

text \<open>The kept tail has at least the asked length and starts with no tool result, if anything is summarized.\<close>

theorem summary_tail_safe:
  "choose_summary_split ms keep = 0
   \<or> choose_summary_split ms keep + keep \<le> length ms \<and> role_of (ms ! choose_summary_split ms keep) \<noteq> ''tool''"
  using split_back_le [of ms "length ms - keep"] split_back_stops [of ms "length ms - keep"]
  by (auto simp: choose_summary_split_def)

text \<open>
  The limit of a tool output is in bytes, its preview in characters. An output of at most half as many
  characters as the limit but more bytes than the limit, as text in a script of three bytes per character
  easily has, is kept in full with a note that it was truncated: compaction makes it longer.
\<close>

theorem compaction_grows_wide_output:
  assumes "role_of m = ''tool''" and "length (text_of ''content'' m) > limit"
    and "chars_count (text_of ''content'' m) \<le> limit div 2"
  shows "\<exists>t s note. trim_result limit m = Some (t, s) \<and> text_of ''content'' t = text_of ''content'' m @ note \<and> note \<noteq> []"
proof -
  let ?c = "text_of ''content'' m"
  obtain kvs where m: "m = JObj kvs" using assms(1) by (cases m) (auto simp: role_of_def text_of_def jget_str_def)
  have "cut_text limit ?c = ?c @ CHR 0x0A # ellipsis @ ''[truncated '' @ show_nat 0 @ '' chars for compaction]''"
    using take_chars_all [OF assms(3)] by (simp add: cut_text_def Let_def)
  moreover obtain t s where "trim_result limit m = Some (t, s)"
    "t = jinsert ''tool_result_blocks'' (JArr [JObj [(''type'', JStr ''text''), (''text'', JStr (cut_text limit ?c))]])
           (jinsert ''content'' (JStr (cut_text limit ?c)) m)"
    using assms(1,2) by (simp add: trim_result_def Let_def)
  moreover from this(2) have "text_of ''content'' t = cut_text limit ?c"
    by (simp add: m text_of_def jget_str_def)
  ultimately show ?thesis by auto
qed

theorem compaction_grows_wide_output_witness:
  "\<exists>t s note. trim_result 4 (JObj [(''role'', JStr ''tool''), (''content'', JStr (ellipsis @ ellipsis))]) = Some (t, s)
     \<and> text_of ''content'' t = (ellipsis @ ellipsis) @ note \<and> note \<noteq> []"
proof -
  let ?m = "JObj [(''role'', JStr ''tool''), (''content'', JStr (ellipsis @ ellipsis))]"
  have "role_of ?m = ''tool''" "length (text_of ''content'' ?m) > 4" "chars_count (text_of ''content'' ?m) \<le> 4 div 2"
    "text_of ''content'' ?m = ellipsis @ ellipsis" by code_simp+
  then show ?thesis using compaction_grows_wide_output [of ?m 4] by metis
qed

end
