(* ===== verification/DoomLoop.thy ===== *)
theory DoomLoop
  imports Prelude
begin

section \<open>The doom-loop detector\<close>

text \<open>
  \<open>doom_loop.rs\<close>: a run is stuck when its last tool calls, or its last texts, are a block of up to three (two)
  steps repeated back to back. The queues hold the last twelve keys and six texts.
\<close>

definition tool_window :: nat where "tool_window = 12"
definition text_window :: nat where "text_window = 6"
definition tool_max_period :: nat where "tool_max_period = 3"
definition text_max_period :: nat where "text_max_period = 2"
definition text_min_significant :: nat where "text_min_significant = 20"
definition pattern_element_cap :: nat where "pattern_element_cap = 80"

datatype doom_signal = DsTool | DsText

record doom_reason =
  dr_signal :: doom_signal
  dr_period :: nat
  dr_repeats :: nat
  dr_pattern :: "string list"

record detector =
  dt_tools :: "string list"
  dt_texts :: "string list"

definition detector_new :: detector where
  "detector_new = \<lparr>dt_tools = [], dt_texts = []\<rparr>"

text \<open>\<open>push_back\<close>, then \<open>pop_front\<close> while the queue is longer than its window.\<close>

definition push_window :: "nat \<Rightarrow> string \<Rightarrow> string list \<Rightarrow> string list" where
  "push_window n x xs = (let ys = xs @ [x] in drop (length ys - n) ys)"

definition tool_key :: "string \<Rightarrow> string \<Rightarrow> string" where
  "tool_key name fingerprint = name @ '':'' @ fingerprint"

definition observe_tool :: "string \<Rightarrow> string \<Rightarrow> detector \<Rightarrow> detector" where
  "observe_tool name fingerprint d = d\<lparr>dt_tools := push_window tool_window (tool_key name fingerprint) (dt_tools d)\<rparr>"

definition observe_text :: "string \<Rightarrow> detector \<Rightarrow> detector" where
  "observe_text text d =
     (let normalized = take_chars 200 (str_trim text)
      in if normalized = [] then d else d\<lparr>dt_texts := push_window text_window normalized (dt_texts d)\<rparr>)"

definition required_tool_repeats :: "nat \<Rightarrow> nat" where
  "required_tool_repeats period = (if period = 1 then 3 else 4)"

definition required_text_repeats :: "nat \<Rightarrow> nat" where
  "required_text_repeats period = 3"

text \<open>True when the block is no repetition of a shorter block.\<close>

definition is_primitive :: "string list \<Rightarrow> bool" where
  "is_primitive block \<longleftrightarrow>
     (let k = length block
      in list_all (\<lambda>d. k mod d \<noteq> 0 \<or> list_ex (\<lambda>i. block ! i \<noteq> block ! (i mod d)) [0..<k]) [1..<k])"

text \<open>The loop runs for periods from 1, so it ends.\<close>

function count_repeats :: "string list \<Rightarrow> string list \<Rightarrow> nat \<Rightarrow> nat \<Rightarrow> nat" where
  "count_repeats xs block period repeats =
     (if 0 < period \<and> (repeats + 1) * period \<le> length xs
         \<and> take period (drop (length xs - repeats * period - period) xs) = block
      then count_repeats xs block period (repeats + 1) else repeats)"
  by pat_completeness auto

termination
proof (relation "measure (\<lambda>(xs, block, period, repeats). length xs - repeats)", simp, clarsimp)
  fix xs :: "string list" and period repeats :: nat
  assume a: "0 < period" "period + repeats * period \<le> length xs"
  have "repeats \<le> repeats * period" using a(1) by simp
  with a show "length xs - Suc repeats < length xs - repeats" by linarith
qed

declare count_repeats.simps [simp del]

fun cycle_from :: "string list \<Rightarrow> (nat \<Rightarrow> nat) \<Rightarrow> nat list \<Rightarrow> (nat \<times> nat) option" where
  "cycle_from xs required [] = None"
| "cycle_from xs required (period # periods) =
     (let block = drop (length xs - period) xs
      in if period > 1 \<and> \<not> is_primitive block then cycle_from xs required periods
         else (let repeats = count_repeats xs block period 1
               in if repeats \<ge> required period then Some (period, repeats) else cycle_from xs required periods))"

definition find_periodic_cycle :: "string list \<Rightarrow> nat \<Rightarrow> (nat \<Rightarrow> nat) \<Rightarrow> (nat \<times> nat) option" where
  "find_periodic_cycle xs max_period required = cycle_from xs required [1..<Suc (min max_period (length xs))]"

definition truncate_pattern :: "string list \<Rightarrow> string list" where
  "truncate_pattern block =
     List.map (\<lambda>entry. if chars_count entry > pattern_element_cap
                    then take_chars pattern_element_cap entry @ [CHR 0xE2, CHR 0x80, CHR 0xA6] else entry) block"

definition diagnose_tools :: "detector \<Rightarrow> doom_reason option" where
  "diagnose_tools d =
     map_option (\<lambda>(period, repeats).
        \<lparr>dr_signal = DsTool, dr_period = period, dr_repeats = repeats,
         dr_pattern = truncate_pattern (drop (length (dt_tools d) - period) (dt_tools d))\<rparr>)
       (find_periodic_cycle (dt_tools d) tool_max_period required_tool_repeats)"

definition diagnose_texts :: "detector \<Rightarrow> doom_reason option" where
  "diagnose_texts d =
     Option.bind (find_periodic_cycle (dt_texts d) text_max_period required_text_repeats) (\<lambda>(period, repeats).
       let block = drop (length (dt_texts d) - period) (dt_texts d)
       in if \<not> list_ex (\<lambda>t. length t > text_min_significant) block then None
          else Some \<lparr>dr_signal = DsText, dr_period = period, dr_repeats = repeats, dr_pattern = truncate_pattern block\<rparr>)"

definition diagnose :: "detector \<Rightarrow> doom_reason option" where
  "diagnose d = (case diagnose_tools d of Some r \<Rightarrow> Some r | None \<Rightarrow> diagnose_texts d)"

definition signal_text :: "doom_signal \<Rightarrow> string" where
  "signal_text s = (case s of DsTool \<Rightarrow> ''tool calls'' | DsText \<Rightarrow> ''assistant text'')"

definition doom_text :: "doom_reason \<Rightarrow> string" where
  "doom_text r = signal_text (dr_signal r) @ '' repeated a '' @ show_nat (dr_period r) @ ''-step cycle ''
     @ show_nat (dr_repeats r) @ '' times without change: ['' @ str_join '' -> '' (dr_pattern r) @ '']''"

subsection \<open>The detector is exact\<close>

text \<open>The sequence ends in \<open>n\<close> copies of a block of the given length.\<close>

definition ends_in_cycle :: "nat \<Rightarrow> nat \<Rightarrow> string list \<Rightarrow> bool" where
  "ends_in_cycle n period xs \<longleftrightarrow> (\<exists>pre block. length block = period \<and> xs = pre @ concat (replicate n block))"

lemma length_rounds: "length (concat (replicate n block)) = n * length block"
  by (simp add: length_concat sum_list_replicate)

lemma rounds_Suc: "concat (replicate (Suc n) block) = concat (replicate n block) @ block"
  by (induction n) simp_all

text \<open>How many rounds the loop counts.\<close>

definition last_rounds :: "string list \<Rightarrow> string list \<Rightarrow> nat \<Rightarrow> bool" where
  "last_rounds xs block n \<longleftrightarrow> (\<exists>pre. xs = pre @ concat (replicate n block))"

lemma last_rounds_Suc:
  assumes "last_rounds xs block n" and "block \<noteq> []"
  shows "last_rounds xs block (Suc n) \<longleftrightarrow>
    (n + 1) * length block \<le> length xs \<and> take (length block) (drop (length xs - n * length block - length block) xs) = block"
proof -
  from assms(1) obtain pre where xs: "xs = pre @ concat (replicate n block)" by (auto simp: last_rounds_def)
  have len: "length xs - n * length block = length pre" by (simp add: xs length_rounds)
  have "last_rounds xs block (Suc n) \<longleftrightarrow> (\<exists>p. pre = p @ block)"
    by (auto simp: last_rounds_def xs)
  also have "\<dots> \<longleftrightarrow> length block \<le> length pre \<and> drop (length pre - length block) pre = block"
    by (metis append_take_drop_id append_eq_conv_conj length_append le_add2 add_diff_cancel_right')
  also have "\<dots> \<longleftrightarrow> (n + 1) * length block \<le> length xs
      \<and> take (length block) (drop (length xs - n * length block - length block) xs) = block"
    unfolding len by (auto simp: xs length_rounds)
  finally show ?thesis .
qed

lemma last_rounds_mono: "last_rounds xs block n \<Longrightarrow> m \<le> n \<Longrightarrow> last_rounds xs block m"
proof (induction n)
  case (Suc n)
  have "last_rounds xs block n" using Suc.prems(1) by (auto simp: last_rounds_def)
  with Suc show ?case by (cases "m = Suc n") auto
qed simp

lemma count_repeats_exact:
  assumes "last_rounds xs block repeats" and "block \<noteq> []" and "period = length block"
  shows "n \<le> count_repeats xs block period repeats \<longleftrightarrow> n \<le> repeats \<or> last_rounds xs block n"
  using assms
proof (induction xs block period repeats rule: count_repeats.induct)
  case (1 xs block period repeats)
  note step = last_rounds_Suc [OF 1(2,3)]
  show ?case
  proof (cases "last_rounds xs block (Suc repeats)")
    case True
    with step 1(3,4) have c: "0 < period \<and> (repeats + 1) * period \<le> length xs
         \<and> take period (drop (length xs - repeats * period - period) xs) = block" by simp
    from 1(1) [OF c] True 1(3,4) have "n \<le> count_repeats xs block period (repeats + 1) \<longleftrightarrow> n \<le> Suc repeats \<or> last_rounds xs block n"
      by simp
    with c True show ?thesis by (subst count_repeats.simps) (auto simp: le_Suc_eq)
  next
    case False
    with step 1(4) have "\<not> (0 < period \<and> (repeats + 1) * period \<le> length xs
         \<and> take period (drop (length xs - repeats * period - period) xs) = block)" by simp
    then have "count_repeats xs block period repeats = repeats" by (subst count_repeats.simps) (rule if_not_P)
    moreover have "last_rounds xs block n \<Longrightarrow> n \<le> repeats"
      using False last_rounds_mono by (metis not_less_eq_eq)
    ultimately show ?thesis by auto
  qed
qed

lemma cycle_from_exact:
  "cycle_from xs required ps \<noteq> None \<longleftrightarrow>
     list_ex (\<lambda>p. (p \<le> 1 \<or> is_primitive (drop (length xs - p) xs))
                \<and> required p \<le> count_repeats xs (drop (length xs - p) xs) p 1) ps"
  by (induction ps) (auto simp: Let_def)

lemma ends_in_cycle_rounds:
  assumes "0 < n" and "p \<le> length xs"
  shows "ends_in_cycle n p xs \<longleftrightarrow> last_rounds xs (drop (length xs - p) xs) n"
proof
  assume "ends_in_cycle n p xs"
  then obtain pre block where b: "length block = p" "xs = pre @ concat (replicate n block)"
    by (auto simp: ends_in_cycle_def)
  obtain m where "n = Suc m" using assms(1) by (cases n) auto
  then have "xs = (pre @ concat (replicate m block)) @ block" using b(2) by (simp only: rounds_Suc append_assoc)
  then have "drop (length xs - p) xs = block" using b(1) by simp
  with b show "last_rounds xs (drop (length xs - p) xs) n" by (auto simp: last_rounds_def)
next
  assume "last_rounds xs (drop (length xs - p) xs) n"
  then obtain pre where "xs = pre @ concat (replicate n (drop (length xs - p) xs))" by (auto simp: last_rounds_def)
  moreover have "length (drop (length xs - p) xs) = p" using assms(2) by simp
  ultimately show "ends_in_cycle n p xs" unfolding ends_in_cycle_def by blast
qed

lemma counted_cycle:
  assumes "0 < p" and "p \<le> length xs" and "0 < n"
  shows "n \<le> count_repeats xs (drop (length xs - p) xs) p 1 \<longleftrightarrow> ends_in_cycle n p xs"
proof -
  let ?block = "drop (length xs - p) xs"
  have one: "last_rounds xs ?block 1"
    by (auto simp: last_rounds_def intro!: exI [of _ "take (length xs - p) xs"])
  have "?block \<noteq> []" "p = length ?block" using assms(1,2) by auto
  from count_repeats_exact [OF one this, of n] show ?thesis
    using ends_in_cycle_rounds [OF assms(3,2)] last_rounds_mono [OF one, of n] by (auto simp: le_Suc_eq)
qed

lemma ends_in_cycle_le: "ends_in_cycle n p xs \<Longrightarrow> 0 < n \<Longrightarrow> p \<le> length xs"
  by (cases n) (auto simp: ends_in_cycle_def)

text \<open>A block of two or three steps that is not primitive is one step repeated.\<close>

lemma not_primitive:
  assumes "\<not> is_primitive block" and "length block = 2 \<or> length block = 3"
  shows "block = replicate (length block) (block ! 0)"
proof -
  from assms(1) obtain d where d: "1 \<le> d" "d < length block" "length block mod d = 0"
    "\<And>i. i < length block \<Longrightarrow> block ! i = block ! (i mod d)"
    by (auto simp: is_primitive_def Let_def list_all_iff list_ex_iff)
  with assms(2) have "d = 1" by (cases "d = 2") auto
  with d(4) show ?thesis by (intro nth_equalityI) auto
qed

lemma one_step_rounds: "concat (replicate n (replicate p x)) = replicate (n * p) x"
  by (induction n) (simp_all add: replicate_add)

lemma coarse_cycle:
  assumes "ends_in_cycle n p xs" and "0 < n" and "p = 2 \<or> p = 3" and "\<not> is_primitive (drop (length xs - p) xs)" and "m \<le> n * p"
  shows "ends_in_cycle m 1 xs"
proof -
  let ?block = "drop (length xs - p) xs"
  have le: "p \<le> length xs" using ends_in_cycle_le [OF assms(1,2)] .
  obtain pre where pre: "xs = pre @ concat (replicate n ?block)"
    using assms(1) ends_in_cycle_rounds [OF assms(2) le] by (auto simp: last_rounds_def)
  have "?block = replicate p (?block ! 0)" using not_primitive [OF assms(4)] le assms(3) by auto
  with pre have "xs = pre @ replicate (n * p) (?block ! 0)" using one_step_rounds by metis
  also have "\<dots> = (pre @ replicate (n * p - m) (?block ! 0)) @ replicate m (?block ! 0)"
    using assms(5) by (simp flip: replicate_add)
  finally have "xs = (pre @ replicate (n * p - m) (?block ! 0)) @ concat (replicate m [?block ! 0])"
    using one_step_rounds [of m 1 "?block ! 0"] by simp
  moreover have "length [?block ! 0] = 1" by simp
  ultimately show ?thesis unfolding ends_in_cycle_def by blast
qed

lemma cycle_found:
  assumes "mx = 2 \<or> mx = 3" and "\<And>p. 0 < required p" and "\<And>p. required 1 \<le> required p * p \<or> p = 0"
  shows "find_periodic_cycle xs mx required \<noteq> None \<longleftrightarrow>
    (\<exists>p. 1 \<le> p \<and> p \<le> mx \<and> ends_in_cycle (required p) p xs)" (is "?found \<longleftrightarrow> ?cycle")
proof -
  let ?range = "{1..<Suc (min mx (length xs))}"
  have "?found \<longleftrightarrow> (\<exists>p\<in>?range. (p \<le> 1 \<or> is_primitive (drop (length xs - p) xs))
      \<and> required p \<le> count_repeats xs (drop (length xs - p) xs) p 1)"
    by (simp only: find_periodic_cycle_def cycle_from_exact list_ex_iff set_upt)
  also have "\<dots> \<longleftrightarrow> (\<exists>p\<in>?range. (p \<le> 1 \<or> is_primitive (drop (length xs - p) xs)) \<and> ends_in_cycle (required p) p xs)"
    using counted_cycle [OF _ _ assms(2)] by (intro bex_cong) auto
  also have "\<dots> \<longleftrightarrow> (\<exists>p. 1 \<le> p \<and> p \<le> mx \<and> p \<le> length xs \<and> (p \<le> 1 \<or> is_primitive (drop (length xs - p) xs))
      \<and> ends_in_cycle (required p) p xs)"
    by (simp add: Bex_def less_Suc_eq_le conj_assoc)
  also have "\<dots> \<longleftrightarrow> ?cycle"
  proof
    assume ?cycle
    then obtain p where p: "1 \<le> p" "p \<le> mx" "ends_in_cycle (required p) p xs" by blast
    have le: "p \<le> length xs" using ends_in_cycle_le [OF p(3) assms(2)] .
    show "\<exists>p. 1 \<le> p \<and> p \<le> mx \<and> p \<le> length xs \<and> (p \<le> 1 \<or> is_primitive (drop (length xs - p) xs))
      \<and> ends_in_cycle (required p) p xs"
    proof (cases "p \<le> 1 \<or> is_primitive (drop (length xs - p) xs)")
      case True
      with p le show ?thesis by blast
    next
      case False
      then have "p = 2 \<or> p = 3" using assms(1) p(2) by auto
      then have "ends_in_cycle (required 1) 1 xs"
        using coarse_cycle [OF p(3) assms(2)] assms(3) [of p] False by auto
      with p le assms(1) show ?thesis by (intro exI [of _ 1]) auto
    qed
  qed blast
  finally show ?thesis .
qed

subsection \<open>What the detector sees of a run\<close>

lemma window_suffix: "push_window n x (drop (length xs - n) xs) = drop (length (xs @ [x]) - n) (xs @ [x])"
  by (cases "length xs \<le> n") (simp_all add: push_window_def Let_def Suc_diff_le)

lemma observed_tools:
  "dt_tools (fold (\<lambda>(name, fp). observe_tool name fp) calls detector_new)
     = drop (length calls - tool_window) (List.map (\<lambda>(name, fp). tool_key name fp) calls)"
proof (induction calls rule: rev_induct)
  case (snoc call calls)
  obtain name fp where "call = (name, fp)" by fastforce
  with snoc window_suffix [of tool_window "tool_key name fp" "List.map (\<lambda>(name, fp). tool_key name fp) calls"]
  show ?case by (simp add: observe_tool_def)
qed (simp add: detector_new_def)

lemma ends_in_cycle_window:
  assumes "n * p \<le> w"
  shows "ends_in_cycle n p (drop (length xs - w) xs) \<longleftrightarrow> ends_in_cycle n p xs"
proof
  assume "ends_in_cycle n p (drop (length xs - w) xs)"
  then obtain pre block where b: "length block = p" "drop (length xs - w) xs = pre @ concat (replicate n block)"
    by (auto simp: ends_in_cycle_def)
  then have "xs = (take (length xs - w) xs @ pre) @ concat (replicate n block)" by (metis append.assoc append_take_drop_id)
  with b(1) show "ends_in_cycle n p xs" unfolding ends_in_cycle_def by blast
next
  assume "ends_in_cycle n p xs"
  then obtain pre block where b: "length block = p" "xs = pre @ concat (replicate n block)"
    by (auto simp: ends_in_cycle_def)
  then have "length xs - w \<le> length pre" using assms by (simp add: length_rounds)
  with b have "drop (length xs - w) xs = drop (length xs - w) pre @ concat (replicate n block)" by simp
  with b(1) show "ends_in_cycle n p (drop (length xs - w) xs)" unfolding ends_in_cycle_def by blast
qed

lemma tool_cycle_cases:
  "find_periodic_cycle xs tool_max_period required_tool_repeats \<noteq> None
     \<longleftrightarrow> ends_in_cycle 3 1 xs \<or> ends_in_cycle 4 2 xs \<or> ends_in_cycle 4 3 xs"
proof -
  have range: "1 \<le> p \<and> p \<le> tool_max_period \<longleftrightarrow> p = 1 \<or> p = 2 \<or> p = 3" for p
    by (auto simp: tool_max_period_def)
  have "find_periodic_cycle xs tool_max_period required_tool_repeats \<noteq> None
      \<longleftrightarrow> (\<exists>p. 1 \<le> p \<and> p \<le> tool_max_period \<and> ends_in_cycle (required_tool_repeats p) p xs)"
    by (rule cycle_found) (auto simp: tool_max_period_def required_tool_repeats_def)
  also have "\<dots> \<longleftrightarrow> (\<exists>p. (p = 1 \<or> p = 2 \<or> p = 3) \<and> ends_in_cycle (required_tool_repeats p) p xs)"
    unfolding conj_assoc [symmetric] range ..
  also have "\<dots> \<longleftrightarrow> ends_in_cycle (required_tool_repeats 1) 1 xs \<or> ends_in_cycle (required_tool_repeats 2) 2 xs
      \<or> ends_in_cycle (required_tool_repeats 3) 3 xs"
    by blast
  finally show ?thesis by (simp add: required_tool_repeats_def)
qed

text \<open>
  C40: The detector is exact on tool calls. After any sequence of calls it reports a cycle exactly if the
  whole sequence ends in three equal calls, or in four rounds of a block of two or three calls; the
  window of twelve keys is wide enough to see each of them.
\<close>

theorem tool_cycles_exact:
  "diagnose_tools (fold (\<lambda>(name, fp). observe_tool name fp) calls detector_new) \<noteq> None \<longleftrightarrow>
     (let keys = List.map (\<lambda>(name, fp). tool_key name fp) calls
      in ends_in_cycle 3 1 keys \<or> ends_in_cycle 4 2 keys \<or> ends_in_cycle 4 3 keys)"
proof -
  let ?keys = "List.map (\<lambda>(name, fp). tool_key name fp) calls"
  have "ends_in_cycle n p (drop (length ?keys - tool_window) ?keys) \<longleftrightarrow> ends_in_cycle n p ?keys" if "n * p \<le> 12" for n p
    using ends_in_cycle_window [of n p tool_window ?keys] that by (simp add: tool_window_def)
  then have "find_periodic_cycle (drop (length ?keys - tool_window) ?keys) tool_max_period required_tool_repeats \<noteq> None
      \<longleftrightarrow> ends_in_cycle 3 1 ?keys \<or> ends_in_cycle 4 2 ?keys \<or> ends_in_cycle 4 3 ?keys"
    unfolding tool_cycle_cases by simp
  then show ?thesis
    unfolding diagnose_tools_def observed_tools Let_def option.map_disc_iff length_map .
qed

end
