(* ===== verification/EngineTypes.thy ===== *)
theory EngineTypes
  imports Messages DoomLoop Hooks SessionActor ToolGate
begin

section \<open>The agent engine: its environment and its log\<close>

text \<open>
  The loop of \<open>engine/engine_core.rs\<close> that drives one run: a turn asks the provider for a response, with retries
  and one compaction on overflow, runs the tools the response calls for, and goes on until a response calls
  for none. What the engine only calls (the sequencer, the hooks, the provider, the tools, the queues of
  user input, the clock) is a record of operations on a world \<open>'w\<close>; the world may be cancelled
  whenever the engine waits. A provider's stream is the list of its events. A panic of the redaction
  ends the task and is not modelled here, and neither is the bus of ephemeral text deltas.
  The log is not part of the code's state: it lists the durable events that were stored, and the tools
  that returned, each with its result, in the order in which that happened. The calls of a parallel batch are all
  started together; which of those still running returns next is the world's choice (\<open>eo_pick\<close>), and what a
  call does to the world is taken to happen when it returns.
\<close>

subsection \<open>Errors, provider events, settings\<close>

datatype engine_error =
    EeMessage string
  | EeProvider string string bool string "u64 option"
  | EeCancelled
  | EeDoomLoop doom_reason
  | EeMaxSteps
  | EeRecoveryBlocked string
  | EeHookRefused string

fun engine_error_code :: "engine_error \<Rightarrow> string" where
  "engine_error_code (EeProvider _ code _ _ _) = code"
| "engine_error_code EeCancelled = ''cancelled''"
| "engine_error_code (EeDoomLoop _) = ''doom_loop''"
| "engine_error_code EeMaxSteps = ''max_steps''"
| "engine_error_code (EeMessage _) = ''provider''"
| "engine_error_code (EeRecoveryBlocked _) = ''recovery_blocked''"
| "engine_error_code (EeHookRefused _) = ''hook_refused''"

fun engine_error_text :: "engine_error \<Rightarrow> string" where
  "engine_error_text (EeMessage s) = s"
| "engine_error_text (EeProvider message _ _ _ _) = message"
| "engine_error_text EeCancelled = ''cancelled''"
| "engine_error_text (EeDoomLoop r) = ''doom loop detected: '' @ doom_text r"
| "engine_error_text EeMaxSteps = ''max steps exceeded''"
| "engine_error_text (EeRecoveryBlocked s) = ''recovery_blocked: '' @ s"
| "engine_error_text (EeHookRefused s) = ''hook_refused: '' @ s"

fun error_retryable :: "engine_error \<Rightarrow> bool" where
  "error_retryable (EeProvider _ _ retryable _ _) = retryable"
| "error_retryable _ = False"

fun is_context_overflow :: "engine_error \<Rightarrow> bool" where
  "is_context_overflow (EeProvider _ _ _ category _) =
     (category = ''ContextLengthExceeded'' \<or> category = ''ContextWindowExceeded'')"
| "is_context_overflow _ = False"

fun error_retry_after :: "engine_error \<Rightarrow> u64 option" where
  "error_retry_after (EeProvider _ _ _ _ after) = after"
| "error_retry_after _ = None"

datatype provider_stop = PsStop | PsToolUse | PsLength | PsCancelled | PsError | PsUnknown string

datatype provider_event =
    PvText string
  | PvReasoning string
  | PvToolCall nat "string option" "string option" string
  | PvUsage u64 u64 "u64 option" "u64 option" "u64 option"
  | PvCompleted
  | PvCompletedWith provider_stop
  | PvError string string bool string "u64 option"

definition stop_reason_label :: "provider_stop option \<Rightarrow> string" where
  "stop_reason_label r =
     (case r of
        Some PsStop \<Rightarrow> ''stop'' | Some PsToolUse \<Rightarrow> ''tool_use'' | Some PsLength \<Rightarrow> ''length''
      | Some PsCancelled \<Rightarrow> ''cancelled'' | Some PsError \<Rightarrow> ''error'' | Some (PsUnknown raw) \<Rightarrow> ''unknown:'' @ raw
      | None \<Rightarrow> ''unknown'')"

fun stop_of :: "provider_stop \<Rightarrow> stop_reason" where
  "stop_of PsStop = SrStop"
| "stop_of PsToolUse = SrToolUse"
| "stop_of PsLength = SrLength"
| "stop_of PsCancelled = SrCancelled"
| "stop_of PsError = SrError"
| "stop_of (PsUnknown raw) = SrProvider raw"

definition core_stop_reason :: "provider_stop option \<Rightarrow> stop_reason" where
  "core_stop_reason r = (case r of Some s \<Rightarrow> stop_of s | None \<Rightarrow> SrToolUse)"

definition max_provider_backoff_ms :: u64 where "max_provider_backoff_ms = 60000"

definition provider_backoff_ms :: "u32 \<Rightarrow> u64 option \<Rightarrow> u64" where
  "provider_backoff_ms attempt retry_after =
     (let local = (if attempt = 1 then 500 else if attempt = 2 then 1000 else 2000)
      in max (min (case retry_after of Some d \<Rightarrow> d | None \<Rightarrow> 0) max_provider_backoff_ms) local)"

record tool_capability =
  tp_name :: string
  tp_schema :: json
  tp_mode :: execution_mode
  tp_side_effect :: side_effect
  tp_key :: "string option"

record offered_tool =
  ot_name :: string
  ot_description :: string
  ot_schema :: json

fun execution_mode_debug :: "execution_mode \<Rightarrow> string" where
  "execution_mode_debug EmParallelSafe = ''ParallelSafe''"
| "execution_mode_debug EmSequential = ''Sequential''"
| "execution_mode_debug EmExclusive = ''Exclusive''"

record turn_request =
  tq_run :: string
  tq_attempt :: u32
  tq_model :: string
  tq_system :: "string option"
  tq_messages :: "agent_message list"
  tq_tools :: "offered_tool list"

record engine_config =
  ec_run :: string
  ec_conversation :: string
  ec_model :: string
  ec_system :: "string option"
  ec_messages :: "engine_message list"
  ec_content :: string
  ec_max_steps :: u32

datatype input_kind = IkSteering | IkFollowUp

datatype input_safe_point = SpBeforeProvider | SpAfterToolBatch | SpBeforeRunEnd

record pending_input =
  pi_id :: string
  pi_kind :: input_kind
  pi_content :: string
  pi_lease :: "string option"

text \<open>A call after the hooks, and after its execution.\<close>

record prepared_call =
  pc_id :: string
  pc_name :: string
  pc_args :: string
  pc_input :: json
  pc_rejected :: "tool_result option"
  pc_parallel :: bool
  pc_key :: "string option"

record executed_call =
  xc_id :: string
  xc_name :: string
  xc_args :: string
  xc_result :: tool_result
  xc_message :: string

subsection \<open>What the engine calls\<close>

record 'w engine_ops =
  eo_cancelled :: "'w \<Rightarrow> bool"
  eo_cancel :: "'w \<Rightarrow> 'w"
  eo_uuid :: "'w \<Rightarrow> string \<times> 'w"
  eo_append :: "string \<Rightarrow> run_event_kind \<Rightarrow> 'w \<Rightarrow> string option \<times> 'w"
  eo_last_sequence :: "string \<Rightarrow> 'w \<Rightarrow> u64"
  eo_schemas :: "'w \<Rightarrow> offered_tool list \<times> 'w"
  eo_capabilities :: "'w \<Rightarrow> tool_capability list \<times> 'w"
  eo_dispatch :: "hook_request \<Rightarrow> 'w \<Rightarrow> hook_decision list \<times> 'w"
  eo_observe :: "hook_request \<Rightarrow> 'w \<Rightarrow> (string + unit) \<times> 'w"
  eo_stream :: "turn_request \<Rightarrow> 'w \<Rightarrow> (engine_error + provider_event list) \<times> 'w"
  eo_next :: "'w \<Rightarrow> 'w"
  eo_wait :: "u64 \<Rightarrow> 'w \<Rightarrow> 'w"
  eo_race :: "'w \<Rightarrow> string option \<times> 'w"
  eo_tool :: "string \<Rightarrow> string \<Rightarrow> string \<Rightarrow> string \<Rightarrow> json \<Rightarrow> 'w \<Rightarrow> tool_result \<times> 'w"
  eo_pick :: "nat \<Rightarrow> 'w \<Rightarrow> nat \<times> 'w"
  eo_uncertain :: "string \<Rightarrow> string \<Rightarrow> string \<Rightarrow> json \<Rightarrow> 'w \<Rightarrow> (string + unit) \<times> 'w"
  eo_settled :: "string \<Rightarrow> 'w \<Rightarrow> 'w"
  eo_drain :: "(input_kind \<Rightarrow> input_safe_point \<Rightarrow> 'w \<Rightarrow> (string + pending_input list) \<times> 'w) option"
  eo_ack :: "pending_input \<Rightarrow> string \<Rightarrow> 'w \<Rightarrow> (string + unit) \<times> 'w"
  eo_safe_point :: "(input_safe_point \<Rightarrow> 'w \<Rightarrow> (string + string option) \<times> 'w) option"
  eo_coordinator :: "(string \<Rightarrow> safe_point \<Rightarrow> 'w \<Rightarrow> coordinator_action \<times> 'w) option"
  eo_read :: "string \<Rightarrow> string + json"
  eo_show :: "json \<Rightarrow> string"
  eo_hash :: "string \<Rightarrow> string"
  eo_fresh :: "'w \<Rightarrow> json \<Rightarrow> string"
  eo_history_chars :: "nat option"
  eo_output_chars :: "nat option"
  eo_model_compaction :: bool
  eo_context_window :: "u64 option"

text \<open>The state of a run, with its log.\<close>

datatype engine_act = ActSent run_event_kind | ActRan string string json tool_result

record 'w engine =
  eg_world :: 'w
  eg_attempts :: u32
  eg_failures :: u32
  eg_log :: "engine_act list"

subsection \<open>Sequencing\<close>

type_synonym ('w, 'a) em = "'w engine \<Rightarrow> (engine_error + 'a) \<times> 'w engine"

definition em_ret :: "'a \<Rightarrow> ('w, 'a) em" where
  "em_ret x st = (Inr x, st)"

definition em_fail :: "engine_error \<Rightarrow> ('w, 'a) em" where
  "em_fail e st = (Inl e, st)"

text \<open>The operator \<open>?\<close> between two steps.\<close>

definition em_bind :: "('w, 'a) em \<Rightarrow> ('a \<Rightarrow> ('w, 'b) em) \<Rightarrow> ('w, 'b) em" where
  "em_bind m f st = (case m st of (Inl e, st') \<Rightarrow> (Inl e, st') | (Inr x, st') \<Rightarrow> f x st')"

definition em_then :: "('w, 'a) em \<Rightarrow> ('w, 'b) em \<Rightarrow> ('w, 'b) em" where
  "em_then m k = em_bind m (\<lambda>_. k)"

text \<open>An operation on the world.\<close>

definition em_op :: "('w \<Rightarrow> 'a \<times> 'w) \<Rightarrow> ('w, 'a) em" where
  "em_op f st = (case f (eg_world st) of (x, w) \<Rightarrow> (Inr x, st\<lparr>eg_world := w\<rparr>))"

definition em_get :: "('w \<Rightarrow> 'a) \<Rightarrow> ('w, 'a) em" where
  "em_get f st = (Inr (f (eg_world st)), st)"

definition em_do :: "('w \<Rightarrow> 'w) \<Rightarrow> ('w, unit) em" where
  "em_do f st = (Inr (), st\<lparr>eg_world := f (eg_world st)\<rparr>)"

definition em_note :: "engine_act \<Rightarrow> ('w, unit) em" where
  "em_note a st = (Inr (), st\<lparr>eg_log := eg_log st @ [a]\<rparr>)"

definition em_attempted :: "('w, unit) em" where
  "em_attempted st = (Inr (), st\<lparr>eg_attempts := eg_attempts st + 1\<rparr>)"

definition em_failed_summary :: "('w, unit) em" where
  "em_failed_summary st = (Inr (), st\<lparr>eg_failures := eg_failures st + 1\<rparr>)"

definition em_counters :: "('w, u32 \<times> u32) em" where
  "em_counters st = (Inr (eg_attempts st, eg_failures st), st)"

fun em_lift :: "(string \<Rightarrow> engine_error) \<Rightarrow> string + 'a \<Rightarrow> ('w, 'a) em" where
  "em_lift f (Inl e) = em_fail (f e)"
| "em_lift f (Inr x) = em_ret x"

text \<open>\<open>events.append\<close>, whose result is dropped, and \<open>append_critical\<close>.\<close>

definition append_event :: "'w engine_ops \<Rightarrow> string \<Rightarrow> run_event_kind \<Rightarrow> ('w, string option) em" where
  "append_event ops run k =
     em_bind (em_op (eo_append ops run k)) (\<lambda>res.
       case res of None \<Rightarrow> em_then (em_note (ActSent k)) (em_ret None) | Some e \<Rightarrow> em_ret (Some e))"

definition append_soft :: "'w engine_ops \<Rightarrow> string \<Rightarrow> run_event_kind \<Rightarrow> ('w, unit) em" where
  "append_soft ops run k = em_then (append_event ops run k) (em_ret ())"

definition append_critical :: "'w engine_ops \<Rightarrow> string \<Rightarrow> run_event_kind \<Rightarrow> ('w, unit) em" where
  "append_critical ops run k =
     em_bind (append_event ops run k) (\<lambda>res. case res of None \<Rightarrow> em_ret () | Some e \<Rightarrow> em_fail (EeMessage e))"

text \<open>A content block as serde derives it, and what a response said.\<close>

fun block_serde :: "content_block \<Rightarrow> json" where
  "block_serde (CbText text) = JObj [(''Text'', JObj [(''text'', JStr text)])]"
| "block_serde (CbThinking text signature) =
     JObj [(''Thinking'', JObj [(''text'', JStr text), (''signature'', opt_json signature)])]"
| "block_serde (CbImage source) = JObj [(''Image'', JObj [(''source'', image_json source)])]"
| "block_serde (CbToolCall call) =
     JObj [(''ToolCall'', JObj [(''tool_call_id'', JStr (kc_id call)), (''name'', JStr (kc_name call)),
                              (''arguments_json'', JStr (kc_arguments call))])]"

definition spoken :: "string \<Rightarrow> string \<Rightarrow> content_block list" where
  "spoken reasoning text =
     (if reasoning = [] then [] else [CbThinking reasoning None]) @ (if text = [] then [] else [CbText text])"

definition close_turn :: "'w engine_ops \<Rightarrow> string \<Rightarrow> string \<Rightarrow> string \<Rightarrow> string \<Rightarrow> content_block list \<Rightarrow> ('w, unit) em" where
  "close_turn ops run turn mid stop content =
     em_then (append_critical ops run (EvMessageCompleted turn mid ''assistant''
                (Some (JObj [(''message_id'', JStr mid), (''role'', JStr ''assistant''),
                             (''content'', JArr (List.map block_serde content))]))))
       (append_critical ops run (EvTurnCompleted turn stop 0 0))"

definition close_failed_turn :: "'w engine_ops \<Rightarrow> string \<Rightarrow> string \<Rightarrow> string \<Rightarrow> string \<Rightarrow> string \<Rightarrow> string \<Rightarrow> ('w, unit) em" where
  "close_failed_turn ops run turn mid stop text reasoning = close_turn ops run turn mid stop (spoken reasoning text)"

definition new_id :: "'w engine_ops \<Rightarrow> ('w, string) em" where
  "new_id ops = em_op (eo_uuid ops)"

definition run_hooks :: "'w engine_ops \<Rightarrow> hook_event \<Rightarrow> string \<Rightarrow> string option \<Rightarrow> json \<Rightarrow> ('w, hook_decision list) em" where
  "run_hooks ops event run tool input =
     em_op (eo_dispatch ops \<lparr>rq_event = event, rq_run_id = run, rq_tool_name = tool, rq_input = input\<rparr>)"

definition observe_hooks :: "'w engine_ops \<Rightarrow> hook_event \<Rightarrow> string \<Rightarrow> string option \<Rightarrow> json \<Rightarrow> ('w, unit) em" where
  "observe_hooks ops event run tool input =
     em_bind (em_op (eo_observe ops \<lparr>rq_event = event, rq_run_id = run, rq_tool_name = tool, rq_input = input\<rparr>))
       (em_lift EeHookRefused)"

subsection \<open>What a step may do to the log\<close>

text \<open>
  A transition function on engine acts rejects a log by \<open>None\<close>. \<open>logs d s m Q\<close>: from state \<open>s\<close> the
  acts that \<open>m\<close> adds are accepted, and if \<open>m\<close> returns \<open>x\<close> then \<open>Q\<close> holds of \<open>x\<close> and the state reached.
\<close>

primrec run_log :: "('s \<Rightarrow> engine_act \<Rightarrow> 's option) \<Rightarrow> 's \<Rightarrow> engine_act list \<Rightarrow> 's option" where
  "run_log d s [] = Some s"
| "run_log d s (a # as) = (case d s a of None \<Rightarrow> None | Some s' \<Rightarrow> run_log d s' as)"

definition logs :: "('s \<Rightarrow> engine_act \<Rightarrow> 's option) \<Rightarrow> 's \<Rightarrow> ('w, 'a) em \<Rightarrow> ('a \<Rightarrow> 's \<Rightarrow> bool) \<Rightarrow> bool" where
  "logs d s m Q \<longleftrightarrow> (\<forall>st. \<exists>acts. eg_log (snd (m st)) = eg_log st @ acts
     \<and> (case fst (m st) of Inl e \<Rightarrow> run_log d s acts \<noteq> None | Inr x \<Rightarrow> (\<exists>s'. run_log d s acts = Some s' \<and> Q x s')))"

named_theorems log_rules

lemma run_log_append:
  "run_log d s (as @ bs) = (case run_log d s as of None \<Rightarrow> None | Some s' \<Rightarrow> run_log d s' bs)"
  by (induction as arbitrary: s) (simp_all split: option.split)

lemma logs_mono: "logs d s m R \<Longrightarrow> (\<And>x s'. R x s' \<Longrightarrow> Q x s') \<Longrightarrow> logs d s m Q"
  unfolding logs_def
proof
  fix st
  assume m: "\<forall>st. \<exists>acts. eg_log (snd (m st)) = eg_log st @ acts
     \<and> (case fst (m st) of Inl e \<Rightarrow> run_log d s acts \<noteq> None | Inr x \<Rightarrow> (\<exists>s'. run_log d s acts = Some s' \<and> R x s'))"
  assume R: "\<And>x s'. R x s' \<Longrightarrow> Q x s'"
  from m obtain acts where "eg_log (snd (m st)) = eg_log st @ acts"
    "case fst (m st) of Inl e \<Rightarrow> run_log d s acts \<noteq> None | Inr x \<Rightarrow> (\<exists>s'. run_log d s acts = Some s' \<and> R x s')" by blast
  with R show "\<exists>acts. eg_log (snd (m st)) = eg_log st @ acts
     \<and> (case fst (m st) of Inl e \<Rightarrow> run_log d s acts \<noteq> None | Inr x \<Rightarrow> (\<exists>s'. run_log d s acts = Some s' \<and> Q x s'))"
    by (intro exI [of _ acts]) (cases "fst (m st)"; auto)
qed

lemma logsD:
  assumes "logs d s m Q" and "m st = (r, st')"
  obtains acts where "eg_log st' = eg_log st @ acts" "run_log d s acts \<noteq> None"
    "\<And>x. r = Inr x \<Longrightarrow> \<exists>s'. run_log d s acts = Some s' \<and> Q x s'"
proof -
  from assms(1) obtain acts where "eg_log (snd (m st)) = eg_log st @ acts"
    "case fst (m st) of Inl e \<Rightarrow> run_log d s acts \<noteq> None | Inr x \<Rightarrow> (\<exists>s'. run_log d s acts = Some s' \<and> Q x s')"
    unfolding logs_def by blast
  with assms(2) show thesis by (intro that [of acts]) (cases r; auto)+
qed

lemma logs_ret [log_rules]: "Q x s \<Longrightarrow> logs d s (em_ret x) Q"
  by (simp add: logs_def em_ret_def)

lemma logs_fail [log_rules]: "logs d s (em_fail e) Q"
  by (simp add: logs_def em_fail_def)

lemma logs_bind [log_rules]:
  assumes "logs d s m (\<lambda>x s'. logs d s' (f x) Q)"
  shows "logs d s (em_bind m f) Q"
  unfolding logs_def
proof
  fix st
  obtain r st1 where m: "m st = (r, st1)" by fastforce
  from logsD [OF assms m] obtain acts where a: "eg_log st1 = eg_log st @ acts" "run_log d s acts \<noteq> None"
    "\<And>x. r = Inr x \<Longrightarrow> \<exists>s'. run_log d s acts = Some s' \<and> logs d s' (f x) Q" by blast
  show "\<exists>acts. eg_log (snd (em_bind m f st)) = eg_log st @ acts
     \<and> (case fst (em_bind m f st) of Inl e \<Rightarrow> run_log d s acts \<noteq> None | Inr x \<Rightarrow> (\<exists>s'. run_log d s acts = Some s' \<and> Q x s'))"
  proof (cases r)
    case (Inl e)
    with m a show ?thesis by (simp add: em_bind_def)
  next
    case (Inr x)
    with a(3) obtain s' where s: "run_log d s acts = Some s'" "logs d s' (f x) Q" by blast
    obtain r2 st2 where f: "f x st1 = (r2, st2)" by fastforce
    from logsD [OF s(2) f] obtain bs where b: "eg_log st2 = eg_log st1 @ bs"
      "run_log d s' bs \<noteq> None" "\<And>y. r2 = Inr y \<Longrightarrow> \<exists>t. run_log d s' bs = Some t \<and> Q y t" by blast
    have "eg_log (snd (em_bind m f st)) = eg_log st @ (acts @ bs)" using m f a(1) b(1) Inr by (simp add: em_bind_def)
    moreover have "case fst (em_bind m f st) of Inl e \<Rightarrow> run_log d s (acts @ bs) \<noteq> None
        | Inr y \<Rightarrow> (\<exists>t. run_log d s (acts @ bs) = Some t \<and> Q y t)"
      using m f b(2,3) Inr s(1) by (simp add: em_bind_def run_log_append split: sum.split)
    ultimately show ?thesis by blast
  qed
qed

lemma logs_then [log_rules]: "logs d s m (\<lambda>_ s'. logs d s' k Q) \<Longrightarrow> logs d s (em_then m k) Q"
  unfolding em_then_def by (rule logs_bind)

lemma logs_op [log_rules]: "(\<And>x. Q x s) \<Longrightarrow> logs d s (em_op f) Q"
  by (simp add: logs_def em_op_def split: prod.split)

lemma logs_get [log_rules]: "(\<And>x. Q x s) \<Longrightarrow> logs d s (em_get f) Q"
  by (simp add: logs_def em_get_def)

lemma logs_do [log_rules]: "Q () s \<Longrightarrow> logs d s (em_do f) Q"
  by (simp add: logs_def em_do_def)

lemma logs_counters [log_rules]:
  "Q () s \<Longrightarrow> logs d s em_attempted Q" "Q () s \<Longrightarrow> logs d s em_failed_summary Q"
  by (simp_all add: logs_def em_attempted_def em_failed_summary_def)

lemma logs_look [log_rules]: "(\<And>x. Q x s) \<Longrightarrow> logs d s em_counters Q"
  by (simp add: logs_def em_counters_def)

lemma logs_note: "d s a = Some s' \<Longrightarrow> Q () s' \<Longrightarrow> logs d s (em_note a) Q"
  by (simp add: logs_def em_note_def)

lemma logs_lift [log_rules]: "(\<And>x. Q x s) \<Longrightarrow> logs d s (em_lift f r) Q"
  by (cases r) (simp_all add: logs_ret logs_fail)

lemma logs_event:
  "d s (ActSent k) = Some s' \<Longrightarrow> Q None s' \<Longrightarrow> (\<And>e. Q (Some e) s) \<Longrightarrow> logs d s (append_event ops run k) Q"
  unfolding append_event_def by (intro log_rules) (auto split: option.split intro!: log_rules logs_note)

lemma logs_soft:
  "d s (ActSent k) = Some s' \<Longrightarrow> Q () s' \<Longrightarrow> Q () s \<Longrightarrow> logs d s (append_soft ops run k) Q"
  unfolding append_soft_def by (intro log_rules logs_event) auto

lemma logs_critical:
  "d s (ActSent k) = Some s' \<Longrightarrow> Q () s' \<Longrightarrow> logs d s (append_critical ops run k) Q"
  unfolding append_critical_def by (intro log_rules logs_event) (auto intro!: log_rules)

text \<open>Two steps whose results are combined.\<close>

lemma logs_pair:
  assumes "logs d s m (\<lambda>x t. t = s1 \<and> g x)" and "logs d s1 n (\<lambda>y t. t = s2 \<and> h y)"
    and "\<And>x y. g x \<Longrightarrow> h y \<Longrightarrow> Q (f x y) s2"
  shows "logs d s (em_bind m (\<lambda>x. em_bind n (\<lambda>y. em_ret (f x y)))) Q"
proof (rule logs_bind, rule logs_mono [OF assms(1)])
  fix x s'
  assume "s' = s1 \<and> g x"
  then show "logs d s' (em_bind n (\<lambda>y. em_ret (f x y))) Q"
    using assms(3) by (auto intro!: logs_bind logs_mono [OF assms(2)] logs_ret)
qed

text \<open>The same with the next state computed.\<close>

lemma logs_note_case [log_rules]:
  "(case d s a of Some s' \<Rightarrow> Q () s' | None \<Rightarrow> False) \<Longrightarrow> logs d s (em_note a) Q"
  by (auto intro: logs_note split: option.splits)

lemma logs_event_case [log_rules]:
  "(case d s (ActSent k) of Some s' \<Rightarrow> Q None s' | None \<Rightarrow> False) \<Longrightarrow> (\<And>e. Q (Some e) s) \<Longrightarrow> logs d s (append_event ops run k) Q"
  by (auto intro: logs_event split: option.splits)

lemma logs_soft_case [log_rules]:
  "(case d s (ActSent k) of Some s' \<Rightarrow> Q () s' | None \<Rightarrow> False) \<Longrightarrow> Q () s \<Longrightarrow> logs d s (append_soft ops run k) Q"
  by (auto intro: logs_soft split: option.splits)

lemma logs_critical_case [log_rules]:
  "(case d s (ActSent k) of Some s' \<Rightarrow> Q () s' | None \<Rightarrow> False) \<Longrightarrow> logs d s (append_critical ops run k) Q"
  by (auto intro: logs_critical split: option.splits)

lemma logs_new_id [log_rules]: "(\<And>x. Q x s) \<Longrightarrow> logs d s (new_id ops) Q"
  unfolding new_id_def by (rule logs_op)

lemma logs_run_hooks [log_rules]: "(\<And>x. Q x s) \<Longrightarrow> logs d s (run_hooks ops event run tool input) Q"
  unfolding run_hooks_def by (rule logs_op)

lemma logs_observe_hooks [log_rules]: "Q () s \<Longrightarrow> logs d s (observe_hooks ops event run tool input) Q"
  unfolding observe_hooks_def by (intro log_rules) simp

lemma logs_if [log_rules]: "(b \<Longrightarrow> logs d s m Q) \<Longrightarrow> (\<not> b \<Longrightarrow> logs d s m' Q) \<Longrightarrow> logs d s (if b then m else m') Q"
  by simp

lemma logs_case_sum [log_rules]:
  "(\<And>x. r = Inl x \<Longrightarrow> logs d s (f x) Q) \<Longrightarrow> (\<And>y. r = Inr y \<Longrightarrow> logs d s (g y) Q) \<Longrightarrow> logs d s (case r of Inl x \<Rightarrow> f x | Inr y \<Rightarrow> g y) Q"
  by (cases r) simp_all

lemma logs_case_option [log_rules]:
  "(r = None \<Longrightarrow> logs d s m Q) \<Longrightarrow> (\<And>y. r = Some y \<Longrightarrow> logs d s (g y) Q) \<Longrightarrow> logs d s (case r of None \<Rightarrow> m | Some y \<Rightarrow> g y) Q"
  by (cases r) simp_all

lemma logs_case_prod [log_rules]:
  "(\<And>x y. r = (x, y) \<Longrightarrow> logs d s (f x y) Q) \<Longrightarrow> logs d s (case r of (x, y) \<Rightarrow> f x y) Q"
  by (cases r) simp

subsection \<open>The protocol of a run's log\<close>

text \<open>
  The place in the protocol, with the number of turns so far: outside of a turn; in a turn whose message has
  not begun; in a message, with the number of the last attempt and the calls prepared; behind the message.
\<close>

datatype log_phase =
    PhIdle nat
  | PhTurn nat string
  | PhOpen nat string string nat "(string \<times> string \<times> json) list"
  | PhDone nat string

definition attempt_ok :: "u32 \<Rightarrow> log_phase \<Rightarrow> log_phase option" where
  "attempt_ok a p =
     (case p of PhOpen k t m n cs \<Rightarrow> (if n \<le> unat a \<and> unat a \<le> 4 \<and> cs = [] then Some p else None) | _ \<Rightarrow> None)"

definition phase_event :: "log_phase \<Rightarrow> run_event_kind \<Rightarrow> log_phase option" where
  "phase_event p e =
     (case e of
        EvTurnStarted t \<Rightarrow> (case p of PhIdle k \<Rightarrow> Some (PhTurn (Suc k) t) | _ \<Rightarrow> None)
      | EvMessageStarted t m _ \<Rightarrow> (case p of PhTurn k t' \<Rightarrow> (if t = t' then Some (PhOpen k t m 0 []) else None) | _ \<Rightarrow> None)
      | EvGenerationAttemptStarted a most \<Rightarrow>
          (case p of
             PhOpen k t m n cs \<Rightarrow>
               (if n < unat a \<and> unat a \<le> 4 \<and> most = 3 \<and> cs = [] then Some (PhOpen k t m (unat a) []) else None)
           | _ \<Rightarrow> None)
      | EvGenerationAttemptFailed a _ _ _ _ \<Rightarrow> attempt_ok a p
      | EvGenerationAttemptDiscarded a _ \<Rightarrow> attempt_ok a p
      | EvGenerationAttemptCommitted a \<Rightarrow> attempt_ok a p
      | EvUsageUpdated _ _ _ _ _ \<Rightarrow> (case p of PhOpen _ _ _ _ _ \<Rightarrow> Some p | _ \<Rightarrow> None)
      | EvToolCallRequested _ _ _ \<Rightarrow> (case p of PhOpen _ _ _ _ _ \<Rightarrow> Some p | _ \<Rightarrow> None)
      | EvToolCallPrepared i name input _ _ \<Rightarrow>
          (case p of PhOpen k t m n cs \<Rightarrow> Some (PhOpen k t m n (cs @ [(i, name, input)])) | _ \<Rightarrow> None)
      | EvToolCallCompleted i name _ _ _ _ \<Rightarrow>
          (case p of PhOpen k t m n cs \<Rightarrow> (if (i, name) \<in> (\<lambda>(i, name, _). (i, name)) ` set cs then Some p else None) | _ \<Rightarrow> None)
      | EvMessageCompleted t m _ _ \<Rightarrow>
          (case p of PhOpen k t' m' n cs \<Rightarrow> (if t = t' \<and> m = m' then Some (PhDone k t) else None) | _ \<Rightarrow> None)
      | EvTurnCompleted t _ _ _ \<Rightarrow> (case p of PhDone k t' \<Rightarrow> (if t = t' then Some (PhIdle k) else None) | _ \<Rightarrow> None)
      | EvContextCompressed _ _ _ \<Rightarrow> Some p
      | EvContextSnapshotCommitted _ _ _ _ _ _ _ _ _ _ \<Rightarrow> Some p
      | EvProgress _ _ \<Rightarrow> Some p
      | _ \<Rightarrow> None)"

fun protocol :: "log_phase \<Rightarrow> engine_act \<Rightarrow> log_phase option" where
  "protocol p (ActSent e) = phase_event p e"
| "protocol p (ActRan i name input result) =
     (case p of PhOpen k t m n cs \<Rightarrow> (if (i, name, input) \<in> set cs then Some p else None) | _ \<Rightarrow> None)"

declare protocol.simps(1) [simp del]

lemma protocol_simps [simp]:
  "protocol (PhIdle k) (ActSent (EvTurnStarted t)) = Some (PhTurn (Suc k) t)"
  "protocol (PhTurn k t) (ActSent (EvMessageStarted t m role)) = Some (PhOpen k t m 0 [])"
  "protocol (PhOpen k t m n cs) (ActSent (EvUsageUpdated u1 u2 u3 u4 u5)) = Some (PhOpen k t m n cs)"
  "protocol (PhOpen k t m n cs) (ActSent (EvToolCallRequested i name input)) = Some (PhOpen k t m n cs)"
  "protocol (PhOpen k t m n cs) (ActSent (EvToolCallPrepared i name input x y)) = Some (PhOpen k t m n (cs @ [(i, name, input)]))"
  "protocol (PhOpen k t m n cs) (ActSent (EvMessageCompleted t m role content)) = Some (PhDone k t)"
  "protocol (PhDone k t) (ActSent (EvTurnCompleted t stop a b)) = Some (PhIdle k)"
  "protocol p (ActSent (EvContextCompressed a b summary)) = Some p"
  "protocol p (ActSent (EvContextSnapshotCommitted x1 x2 x3 x4 x5 x6 x7 x8 x9 x10)) = Some p"
  "protocol p (ActSent (EvProgress message percentage)) = Some p"
  by (simp_all add: protocol.simps(1) phase_event_def)

text \<open>Only the events of a turn are sent by closing it.\<close>

lemma logs_close_turn:
  assumes "d s (ActSent (EvMessageCompleted turn mid ''assistant''
      (Some (JObj [(''message_id'', JStr mid), (''role'', JStr ''assistant''), (''content'', JArr (List.map block_serde content))])))) = Some s1"
    and "d s1 (ActSent (EvTurnCompleted turn stop 0 0)) = Some s2" and "Q () s2"
  shows "logs d s (close_turn ops run turn mid stop content) Q"
  unfolding close_turn_def
  by (rule logs_then, rule logs_critical, rule assms(1), rule logs_critical, rule assms(2), rule assms(3))

lemma protocol_close [log_rules]:
  "Q () (PhIdle k) \<Longrightarrow> logs protocol (PhOpen k t m n cs) (close_turn ops run t m stop content) Q"
  by (rule logs_close_turn [OF protocol_simps(6) protocol_simps(7)])

end
