(* ===== verification/EngineTools.thy ===== *)
theory EngineTools
  imports EngineTypes "HOL-Library.Sublist"
begin

section \<open>The tool calls of a turn\<close>

text \<open>
  The second half of a turn of \<open>run_inner\<close> and \<open>execute_prepared_tools\<close>: each call of a response passes the
  doom-loop detector and the hooks and is announced; then the calls that nothing rejected are run, and
  each call gets its completion event and its result. A batch of parallel calls returns its results in
  the order of completion, with the index of the call.
\<close>

subsection \<open>Preparing\<close>

text \<open>A call as the stream gave it: id, name, arguments.\<close>

type_synonym call_text = "string \<times> string \<times> string"

definition fail_closed_reason :: "provider_stop option \<Rightarrow> (string \<times> string) option" where
  "fail_closed_reason stop =
     (case stop of
        Some PsToolUse \<Rightarrow> None
      | Some PsLength \<Rightarrow> Some (''TRUNCATED_TOOL_CALL'', ''provider output was truncated before the tool call could be executed'')
      | Some PsCancelled \<Rightarrow> Some (''CANCELLED_TOOL_CALL'', ''provider cancelled before the tool call could be executed'')
      | Some PsError \<Rightarrow> Some (''PROVIDER_ERROR_TOOL_CALL'', ''provider ended with an error before the tool call could be executed'')
      | Some PsStop \<Rightarrow> Some (''INVALID_TOOL_CALL_STOP_REASON'', ''provider stopped without authorizing tool execution'')
      | _ \<Rightarrow> Some (''UNKNOWN_PROVIDER_STOP_REASON'',
                  ''provider did not provide a reliable stop reason; tool call was not executed''))"

definition call_refusal :: "string \<Rightarrow> string \<Rightarrow> tool_result" where
  "call_refusal code message = refusal [(''error_code'', JStr code), (''error'', JStr message)]"

definition hook_refusal :: "string \<Rightarrow> tool_result" where
  "hook_refusal reason = refusal [(''error_code'', JStr ''HOOK_DENIED''), (''error'', JStr reason), (''denied_by_hook'', JBool True)]"

definition tool_fingerprint_chars :: nat where "tool_fingerprint_chars = 80"

definition tool_args_fingerprint :: "'w engine_ops \<Rightarrow> string \<Rightarrow> string" where
  "tool_args_fingerprint ops args =
     (if chars_count args \<le> tool_fingerprint_chars then take_chars tool_fingerprint_chars args
      else take_chars tool_fingerprint_chars args @ CHR 0x23 # eo_hash ops args)"

text \<open>The verdicts of the hooks before a call: the last denial counts, and the last modification.\<close>

fun pre_hook_verdict :: "hook_decision list \<Rightarrow> json \<Rightarrow> string option \<Rightarrow> json \<times> string option" where
  "pre_hook_verdict [] input deny = (input, deny)"
| "pre_hook_verdict (HdDeny reason # ds) input deny = pre_hook_verdict ds input (Some reason)"
| "pre_hook_verdict (HdModify payload # ds) input deny = pre_hook_verdict ds payload deny"
| "pre_hook_verdict (_ # ds) input deny = pre_hook_verdict ds input deny"

text \<open>The input of a call and why it is rejected, before the hooks are asked.\<close>

definition read_call :: "'w engine_ops \<Rightarrow> provider_stop option \<Rightarrow> string \<Rightarrow> json \<times> tool_result option" where
  "read_call ops stop args =
     (case eo_read ops args of
        Inr v \<Rightarrow> (v, map_option (\<lambda>(code, message). call_refusal code message) (fail_closed_reason stop))
      | Inl e \<Rightarrow> (JObj [], Some (case fail_closed_reason stop of
                                  Some (code, message) \<Rightarrow> call_refusal code message
                                | None \<Rightarrow> call_refusal ''INVALID_TOOL_ARGUMENTS'' (''tool arguments are not valid JSON: '' @ e))))"

definition prepare_call :: "'w engine_ops \<Rightarrow> (string \<Rightarrow> tool_capability option) \<Rightarrow> string \<Rightarrow> provider_stop option
    \<Rightarrow> detector \<Rightarrow> call_text \<Rightarrow> ('w, prepared_call \<times> detector) em" where
  "prepare_call ops caps run stop doom c =
     (case c of (id0, name, args) \<Rightarrow>
        em_bind (if id0 = [] then new_id ops else em_ret id0) (\<lambda>i.
          let doom' = observe_tool name (tool_args_fingerprint ops args) doom
          in case diagnose doom' of
               Some reason \<Rightarrow> em_fail (EeDoomLoop reason)
             | None \<Rightarrow>
                 (case read_call ops stop args of (input0, rejected0) \<Rightarrow>
                    em_bind (run_hooks ops HePreToolUse run (Some name) input0) (\<lambda>decisions.
                      case pre_hook_verdict decisions input0 None of (input, deny) \<Rightarrow>
                        let rejected = (case deny of Some reason \<Rightarrow> Some (hook_refusal reason) | None \<Rightarrow> rejected0);
                            cap = caps name
                        in em_then (append_critical ops run (EvToolCallRequested i name input))
                          (em_then (append_critical ops run (EvToolCallPrepared i name input
                             (case cap of Some t \<Rightarrow> execution_mode_debug (tp_mode t) | None \<Rightarrow> ''Sequential'')
                             (case cap of Some t \<Rightarrow> side_effect_debug (tp_side_effect t) | None \<Rightarrow> ''Destructive'')))
                             (em_ret (\<lparr>pc_id = i, pc_name = name, pc_args = args, pc_input = input, pc_rejected = rejected,
                                       pc_parallel = (map_option tp_mode cap = Some EmParallelSafe),
                                       pc_key = Option.bind cap tp_key\<rparr>, doom')))))))"

fun prepare_calls :: "'w engine_ops \<Rightarrow> (string \<Rightarrow> tool_capability option) \<Rightarrow> string \<Rightarrow> provider_stop option
    \<Rightarrow> detector \<Rightarrow> call_text list \<Rightarrow> ('w, prepared_call list \<times> detector) em" where
  "prepare_calls ops caps run stop doom [] = em_ret ([], doom)"
| "prepare_calls ops caps run stop doom (c # cs) =
     em_bind (prepare_call ops caps run stop doom c) (\<lambda>(p, doom').
       em_bind (prepare_calls ops caps run stop doom' cs) (\<lambda>(ps, doom''). em_ret (p # ps, doom'')))"

subsection \<open>Executing\<close>

definition is_long_running :: "tool_result \<Rightarrow> bool" where
  "is_long_running r = (jget_str ''status'' (tr_output r) = Some ''running'' \<or> jget_str ''status'' (tr_output r) = Some ''pending'')"

definition parallel_max :: nat where "parallel_max = 4"

text \<open>A batch is parallel if every call that will run is declared so and no two share a conflict key.\<close>

fun batch_parallel :: "string list \<Rightarrow> prepared_call list \<Rightarrow> bool" where
  "batch_parallel keys [] = True"
| "batch_parallel keys (c # cs) =
     (if pc_rejected c \<noteq> None then batch_parallel keys cs
      else if \<not> pc_parallel c then False
      else (case pc_key c of
              None \<Rightarrow> batch_parallel keys cs
            | Some k \<Rightarrow> k \<notin> set keys \<and> batch_parallel (k # keys) cs))"

text \<open>The completion event; when it is lost, the ledger is told and the run is cancelled.\<close>

definition complete_call :: "'w engine_ops \<Rightarrow> string \<Rightarrow> string \<Rightarrow> prepared_call \<Rightarrow> json \<Rightarrow> tool_result \<Rightarrow> string \<Rightarrow> ('w, unit) em" where
  "complete_call ops run turn c input r mid =
     em_bind (append_event ops run (EvToolCallCompleted (pc_id c) (pc_name c) (tr_output r) (tr_is_error r) (tr_duration r) (Some mid)))
       (\<lambda>res. case res of
          None \<Rightarrow> (if is_long_running r then em_ret () else em_do (eo_settled ops (pc_id c)))
        | Some e \<Rightarrow>
            em_bind (em_op (eo_uncertain ops (pc_id c) (pc_name c) turn input)) (\<lambda>uncertain.
              em_then (em_do (eo_cancel ops))
                (em_then (em_do (eo_settled ops (pc_id c)))
                   (em_fail (case uncertain of
                       Inl u \<Rightarrow> EeRecoveryBlocked (''completion fact AND uncertain ledger recording both failed: completion='' @ e
                                  @ ''; uncertain='' @ u)
                     | Inr () \<Rightarrow> EeMessage e)))))"

definition executed :: "prepared_call \<Rightarrow> tool_result \<Rightarrow> string \<Rightarrow> executed_call" where
  "executed c r mid = \<lparr>xc_id = pc_id c, xc_name = pc_name c, xc_args = pc_args c, xc_result = r, xc_message = mid\<rparr>"

definition reject_call :: "'w engine_ops \<Rightarrow> string \<Rightarrow> string \<Rightarrow> prepared_call \<Rightarrow> tool_result \<Rightarrow> ('w, executed_call) em" where
  "reject_call ops run turn c r =
     em_bind (new_id ops) (\<lambda>mid.
       em_then (complete_call ops run turn c (case eo_read ops (pc_args c) of Inr v \<Rightarrow> v | Inl _ \<Rightarrow> JStr (pc_args c))
                  (r\<lparr>tr_is_error := True, tr_duration := 0\<rparr>) mid)
         (em_ret (executed c r mid)))"

text \<open>What follows the execution of a call, alone or in a batch.\<close>

definition settle_call :: "'w engine_ops \<Rightarrow> string \<Rightarrow> string \<Rightarrow> prepared_call \<Rightarrow> tool_result \<Rightarrow> ('w, executed_call) em" where
  "settle_call ops run turn c r =
     em_then (observe_hooks ops (if tr_is_error r then HePostToolUseFailure else HePostToolUse) run (Some (pc_name c))
                (JObj [(''input'', pc_input c), (''output'', tr_output r)]))
       (em_bind (new_id ops) (\<lambda>mid.
          em_then (complete_call ops run turn c (pc_input c) r mid) (em_ret (executed c r mid))))"

definition run_call :: "'w engine_ops \<Rightarrow> string \<Rightarrow> string \<Rightarrow> string \<Rightarrow> prepared_call \<Rightarrow> ('w, executed_call) em" where
  "run_call ops run turn message c =
     em_bind (em_op (eo_tool ops (pc_id c) turn message (pc_name c) (pc_input c))) (\<lambda>r.
       em_then (em_note (ActRan (pc_id c) (pc_name c) (pc_input c) r)) (settle_call ops run turn c r))"

definition missing_result :: tool_result where
  "missing_result = refusal [(''error'', JStr ''missing parallel result'')]"

definition next_batch :: "prepared_call list \<Rightarrow> prepared_call list" where
  "next_batch cs = take parallel_max (takeWhile (\<lambda>c. pc_parallel c \<and> pc_rejected c = None) cs)"

text \<open>
  \<open>buffer_unordered\<close>: the calls of a batch, with their positions in it, all run at once. The world says which of
  those that are left returns next, and the results come in that order.
\<close>

function run_unordered :: "'w engine_ops \<Rightarrow> string \<Rightarrow> string \<Rightarrow> (nat \<times> prepared_call) list
    \<Rightarrow> ('w, (nat \<times> tool_result) list) em" where
  "run_unordered ops turn message [] = em_ret []"
| "run_unordered ops turn message (p # ps) =
     em_bind (em_op (eo_pick ops (length (p # ps)))) (\<lambda>k.
       let j = k mod length (p # ps);
           (idx, c) = (p # ps) ! j
       in em_bind (em_op (eo_tool ops (pc_id c) turn message (pc_name c) (pc_input c))) (\<lambda>r.
            em_then (em_note (ActRan (pc_id c) (pc_name c) (pc_input c) r))
              (em_bind (run_unordered ops turn message (take j (p # ps) @ drop (Suc j) (p # ps))) (\<lambda>rs.
                 em_ret ((idx, r) # rs)))))"
  by pat_completeness auto
termination
  by (relation "measure (\<lambda>(ops, turn, message, ps). length ps)") (auto simp: min_def mod_less_divisor le_less_trans)

fun settle_batch :: "'w engine_ops \<Rightarrow> string \<Rightarrow> string \<Rightarrow> (nat \<times> tool_result) list \<Rightarrow> nat \<Rightarrow> prepared_call list
    \<Rightarrow> ('w, executed_call list) em" where
  "settle_batch ops run turn results k [] = em_ret []"
| "settle_batch ops run turn results k (c # cs) =
     em_bind (settle_call ops run turn c (case map_of (rev results) k of Some r \<Rightarrow> r | None \<Rightarrow> missing_result)) (\<lambda>x.
       em_bind (settle_batch ops run turn results (Suc k) cs) (\<lambda>xs. em_ret (x # xs)))"

definition run_batch :: "'w engine_ops \<Rightarrow> string \<Rightarrow> string \<Rightarrow> string \<Rightarrow> prepared_call list \<Rightarrow> ('w, executed_call list) em" where
  "run_batch ops run turn message cs =
     em_bind (run_unordered ops turn message (enumerate 0 cs)) (\<lambda>results. settle_batch ops run turn results 0 cs)"

lemma next_batch_nonempty:
  "pc_rejected c = None \<Longrightarrow> pc_parallel c \<Longrightarrow> next_batch (c # cs) \<noteq> []"
  by (simp add: next_batch_def parallel_max_def)

function execute_calls :: "'w engine_ops \<Rightarrow> string \<Rightarrow> string \<Rightarrow> string \<Rightarrow> bool \<Rightarrow> prepared_call list
    \<Rightarrow> ('w, executed_call list) em" where
  "execute_calls ops run turn message par [] = em_ret []"
| "execute_calls ops run turn message par (c # cs) =
     (case pc_rejected c of
        Some r \<Rightarrow>
          em_bind (reject_call ops run turn c r) (\<lambda>x.
            em_bind (execute_calls ops run turn message par cs) (\<lambda>xs. em_ret (x # xs)))
      | None \<Rightarrow>
          (if par \<and> pc_parallel c
           then em_bind (run_batch ops run turn message (next_batch (c # cs))) (\<lambda>xs.
                  em_bind (execute_calls ops run turn message par (drop (length (next_batch (c # cs))) (c # cs))) (\<lambda>ys.
                    em_ret (xs @ ys)))
           else em_bind (run_call ops run turn message c) (\<lambda>x.
                  em_bind (execute_calls ops run turn message par cs) (\<lambda>xs. em_ret (x # xs)))))"
  by pat_completeness auto
termination
  by (relation "measure (\<lambda>(ops, run, turn, message, par, cs). length cs)") (auto simp: next_batch_nonempty intro!: diff_less)

definition execute_prepared_tools :: "'w engine_ops \<Rightarrow> string \<Rightarrow> string \<Rightarrow> string \<Rightarrow> prepared_call list
    \<Rightarrow> ('w, executed_call list) em" where
  "execute_prepared_tools ops run turn message cs = execute_calls ops run turn message (batch_parallel [] cs) cs"

definition call_tools :: "'w engine_ops \<Rightarrow> (string \<Rightarrow> tool_capability option) \<Rightarrow> string \<Rightarrow> string \<Rightarrow> string \<Rightarrow> provider_stop option
    \<Rightarrow> detector \<Rightarrow> call_text list \<Rightarrow> ('w, executed_call list \<times> detector) em" where
  "call_tools ops caps run turn message stop doom calls =
     em_bind (prepare_calls ops caps run stop doom calls) (\<lambda>(prepared, doom').
       em_bind (execute_prepared_tools ops run turn message prepared) (\<lambda>xs. em_ret (xs, doom')))"

subsection \<open>Preparing announces the calls\<close>

definition call_of :: "prepared_call \<Rightarrow> string \<times> string \<times> json" where
  "call_of c = (pc_id c, pc_name c, pc_input c)"

abbreviation unrejected :: "prepared_call \<Rightarrow> bool" where
  "unrejected c \<equiv> pc_rejected c = None"

lemma read_call_closed: "stop \<noteq> Some PsToolUse \<Longrightarrow> snd (read_call ops stop args) \<noteq> None"
  by (auto simp: read_call_def fail_closed_reason_def split: sum.split option.splits provider_stop.splits)

text \<open>A rejected call was not let through by its stop reason, or by its arguments, or by a hook.\<close>

lemma prepare_call_logs:
  "logs protocol (PhOpen k t m n cs) (prepare_call ops caps run stop doom c)
     (\<lambda>(p, _) s. s = PhOpen k t m n (cs @ [call_of p]) \<and> (unrejected p \<longrightarrow> stop = Some PsToolUse))"
proof -
  obtain i name args where c: "c = (i, name, args)" by (cases c)
  obtain input0 rejected0 where r: "read_call ops stop args = (input0, rejected0)" by fastforce
  have "rejected0 = None \<Longrightarrow> stop = Some PsToolUse" using read_call_closed [of stop ops args] r by auto
  then show ?thesis
    by (auto simp: prepare_call_def Let_def r c call_of_def intro!: log_rules split: option.split prod.split)
qed

lemma prepare_calls_logs:
  "logs protocol (PhOpen k t m n cs) (prepare_calls ops caps run stop doom calls)
     (\<lambda>(ps, _) s. s = PhOpen k t m n (cs @ List.map call_of ps) \<and> (stop = Some PsToolUse \<or> list_all (\<lambda>p. \<not> unrejected p) ps))"
proof (induction calls arbitrary: cs doom)
  case Nil
  then show ?case by (auto intro!: log_rules)
next
  case (Cons c calls)
  show ?case
    unfolding prepare_calls.simps
    by (rule logs_bind, rule logs_mono [OF prepare_call_logs])
      (auto intro!: logs_bind logs_ret logs_mono [OF Cons.IH])
qed

subsection \<open>Executing runs what was unrejected, once and in order\<close>

type_synonym call_run = "string \<times> string \<times> json"

abbreviation todo :: "prepared_call list \<Rightarrow> prepared_call list" where
  "todo cs \<equiv> List.filter unrejected cs"

text \<open>
  The state of an execution: the runs that are left, the runs that returned with their results, the calls that are
  not yet completed, and the completions. A run is the next one that is left, or any that is left in a parallel
  batch; the completion is that of the next call, and one that is not rejected must have run by then.
\<close>

fun call_steps :: "bool \<Rightarrow> call_run list \<times> (call_run \<times> tool_result) list \<times> prepared_call list \<times> call_run list \<Rightarrow> engine_act
    \<Rightarrow> (call_run list \<times> (call_run \<times> tool_result) list \<times> prepared_call list \<times> call_run list) option" where
  "call_steps par (left, outs, cs, fins) (ActRan i name input result) =
     (if (if par then (i, name, input) \<in> set left else left \<noteq> [] \<and> hd left = (i, name, input))
      then Some (remove1 (i, name, input) left, outs @ [((i, name, input), result)], cs, fins) else None)"
| "call_steps par (left, outs, cs, fins) (ActSent e) =
     (case e of
        EvToolCallCompleted i name out _ _ _ \<Rightarrow>
          (case cs of
             c # cs' \<Rightarrow>
               (if pc_id c = i \<and> pc_name c = name \<and> (unrejected c \<longrightarrow> length left < length (todo cs))
                then Some (left, outs, cs', fins @ [(i, name, out)]) else None)
           | [] \<Rightarrow> None)
      | _ \<Rightarrow> None)"

text \<open>Equal up to the order in which the runs of a parallel batch return.\<close>

definition same_runs :: "bool \<Rightarrow> 'a list \<Rightarrow> 'a list \<Rightarrow> bool" where
  "same_runs par xs ys = (if par then mset xs = mset ys else xs = ys)"

lemma same_runs_refl [simp]: "same_runs par xs xs"
  by (simp add: same_runs_def)

lemma same_runs_append: "same_runs par xs ys \<Longrightarrow> same_runs par xs' ys' \<Longrightarrow> same_runs par (xs @ xs') (ys @ ys')"
  by (simp add: same_runs_def split: if_splits)

lemma same_runs_length: "same_runs par xs ys \<Longrightarrow> length xs = length ys"
  by (auto simp: same_runs_def dest: mset_eq_length split: if_splits)

lemma same_runs_next:
  assumes "same_runs par left (t # ts)"
  shows "if par then t \<in> set left else left \<noteq> [] \<and> hd left = t" and "same_runs par (remove1 t left) ts"
proof -
  have "par \<Longrightarrow> t \<in> set left" using assms by (metis list.set_intros(1) mset_eq_setD same_runs_def)
  then show "if par then t \<in> set left else left \<noteq> [] \<and> hd left = t" using assms by (simp add: same_runs_def)
  show "same_runs par (remove1 t left) ts" using assms by (simp add: same_runs_def split: if_splits)
qed

text \<open>What a call that was executed has to do with its result.\<close>

definition call_settled :: "prepared_call \<Rightarrow> executed_call \<Rightarrow> bool" where
  "call_settled c x \<longleftrightarrow> xc_id x = pc_id c \<and> xc_name x = pc_name c
     \<and> (case pc_rejected c of Some r \<Rightarrow> xc_result x = r | None \<Rightarrow> True)"

definition fin_of :: "executed_call \<Rightarrow> call_run" where
  "fin_of x = (xc_id x, xc_name x, tr_output (xc_result x))"

text \<open>The runs behind the results of a list of calls: those of the calls that were not rejected.\<close>

definition outcomes :: "prepared_call list \<Rightarrow> executed_call list \<Rightarrow> (call_run \<times> tool_result) list" where
  "outcomes cs xs = List.map (\<lambda>(c, x). (call_of c, xc_result x)) (List.filter (\<lambda>(c, x). unrejected c) (zip cs xs))"

lemma outcomes_simps [simp]:
  "outcomes [] [] = []"
  "outcomes (c # cs) (x # xs) = (if unrejected c then [(call_of c, xc_result x)] else []) @ outcomes cs xs"
  by (simp_all add: outcomes_def)

lemma outcomes_append:
  "length cs = length xs \<Longrightarrow> outcomes (cs @ cs') (xs @ xs') = outcomes cs xs @ outcomes cs' xs'"
  by (simp add: outcomes_def)

lemma executed_simps [simp]:
  "xc_id (executed c r mid) = pc_id c" "xc_name (executed c r mid) = pc_name c" "xc_result (executed c r mid) = r"
  by (simp_all add: executed_def)

lemma complete_call_logs:
  assumes "\<And>err ms msg. d s (ActSent (EvToolCallCompleted (pc_id c) (pc_name c) (tr_output r) err ms msg)) = Some s'"
    and "Q () s'"
  shows "logs d s (complete_call ops run turn c input r mid) Q"
  unfolding complete_call_def using assms by (auto intro!: log_rules split: option.split)

lemma settle_call_logs:
  assumes "\<And>err ms msg. d s (ActSent (EvToolCallCompleted (pc_id c) (pc_name c) (tr_output r) err ms msg)) = Some s'"
    and "\<And>mid. Q (executed c r mid) s'"
  shows "logs d s (settle_call ops run turn c r) Q"
  unfolding settle_call_def using assms(2)
  by (auto intro!: log_rules complete_call_logs [where d = d and s = s and s' = s' and c = c and r = r, OF assms(1)])

lemma reject_call_logs:
  assumes "\<And>err ms msg. d s (ActSent (EvToolCallCompleted (pc_id c) (pc_name c) (tr_output r) err ms msg)) = Some s'"
    and "\<And>mid. Q (executed c r mid) s'"
  shows "logs d s (reject_call ops run turn c r) Q"
  unfolding reject_call_def using assms
  by (auto intro!: log_rules complete_call_logs [where d = d and s = s and s' = s' and c = c])

lemma next_batch_spec:
  assumes "next_batch cs = b"
  shows "list_all unrejected b" and "cs = b @ drop (length b) cs"
proof -
  let ?p = "\<lambda>c. pc_parallel c \<and> unrejected c"
  have b: "b = take parallel_max (takeWhile ?p cs)" using assms by (simp add: next_batch_def)
  then show "list_all unrejected b" by (auto simp: list_all_iff dest: in_set_takeD set_takeWhileD)
  obtain k where "takeWhile ?p cs = take k cs" using takeWhile_eq_take by blast
  then have "b = take (min parallel_max k) cs" by (simp add: b)
  then have "b = take (length b) cs" by (metis append_eq_conv_conj append_take_drop_id)
  then show "cs = b @ drop (length b) cs" by (metis append_take_drop_id)
qed

text \<open>A call is completed when fewer calls are left to run than it and its successors have among them.\<close>

lemma completes_head:
  "unrejected c \<longrightarrow> length left < length (todo (c # cs)) \<Longrightarrow>
     call_steps par (left, outs, c # cs, fins) (ActSent (EvToolCallCompleted (pc_id c) (pc_name c) out err ms msg))
       = Some (left, outs, cs, fins @ [(pc_id c, pc_name c, out)])"
  by simp

text \<open>
  The calls of a batch run once each, in some order, and a result carries the position of its call: \<open>qs\<close> lists
  the calls in that order with what they returned.
\<close>

lemma run_unordered_steps:
  "mset left = mset (List.map (\<lambda>p. call_of (snd p)) ps) + mset rest \<Longrightarrow>
     logs (call_steps True) (left, outs, cs, fins) (run_unordered ops turn message ps)
       (\<lambda>rs s. \<exists>left' qs. s = (left', outs @ List.map (\<lambda>((k, c), r). (call_of c, r)) qs, cs, fins) \<and> mset left' = mset rest
          \<and> mset (List.map fst qs) = mset ps \<and> rs = List.map (\<lambda>((k, c), r). (k, r)) qs)"
proof (induction ops turn message ps arbitrary: left outs rule: run_unordered.induct)
  case (1 ops turn message)
  then show ?case unfolding run_unordered.simps by (intro logs_ret exI [of _ left] exI [of _ "[]"]) simp
next
  case (2 ops turn message p ps)
  show ?case
    unfolding run_unordered.simps
  proof (intro logs_bind logs_op)
    fix k
    let ?j = "k mod length (p # ps)"
    obtain idx c where pick: "(p # ps) ! ?j = (idx, c)" by fastforce
    let ?ps = "take ?j (p # ps) @ drop (Suc ?j) (p # ps)"
    have "?j < length (p # ps)" by (intro mod_less_divisor) simp
    then have "p # ps = take ?j (p # ps) @ (idx, c) # drop (Suc ?j) (p # ps)" using id_take_nth_drop pick by metis
    then have split: "mset (p # ps) = add_mset (idx, c) (mset ?ps)" by (metis mset.simps(2) mset_append union_mset_add_mset_right)
    then have "image_mset (\<lambda>p. call_of (snd p)) (mset (p # ps)) = image_mset (\<lambda>p. call_of (snd p)) (add_mset (idx, c) (mset ?ps))"
      by (rule arg_cong)
    then have left: "mset left = add_mset (call_of c) (mset (List.map (\<lambda>p. call_of (snd p)) ?ps) + mset rest)"
      using 2(2) by (simp only: mset_map snd_conv image_mset_add_mset union_mset_add_mset_left)
    have first: "call_of c \<in> set left" using left by (metis set_mset_mset union_single_eq_member)
    have "mset (remove1 (call_of c) left) = mset (List.map (\<lambda>p. call_of (snd p)) ?ps) + mset rest" using left by simp
    note IH = 2(1) [OF refl refl pick [symmetric] this]
    show "logs (call_steps True) (left, outs, cs, fins)
       (let j = ?j; (idx, c) = (p # ps) ! j
        in em_bind (em_op (eo_tool ops (pc_id c) turn message (pc_name c) (pc_input c))) (\<lambda>r.
             em_then (em_note (ActRan (pc_id c) (pc_name c) (pc_input c) r))
               (em_bind (run_unordered ops turn message (take j (p # ps) @ drop (Suc j) (p # ps))) (\<lambda>rs. em_ret ((idx, r) # rs)))))
       (\<lambda>rs s. \<exists>left' qs. s = (left', outs @ List.map (\<lambda>((k, c), r). (call_of c, r)) qs, cs, fins) \<and> mset left' = mset rest
          \<and> mset (List.map fst qs) = mset (p # ps) \<and> rs = List.map (\<lambda>((k, c), r). (k, r)) qs)"
      unfolding Let_def pick split prod.case
    proof (intro logs_bind logs_op logs_then logs_note_case)
      fix r
      have run: "call_steps True (left, outs, cs, fins) (ActRan (pc_id c) (pc_name c) (pc_input c) r)
          = Some (remove1 (call_of c) left, outs @ [(call_of c, r)], cs, fins)"
        using first by (simp add: call_of_def)
      show "case call_steps True (left, outs, cs, fins) (ActRan (pc_id c) (pc_name c) (pc_input c) r) of None \<Rightarrow> False
        | Some s' \<Rightarrow> logs (call_steps True) s' (em_bind (run_unordered ops turn message ?ps) (\<lambda>rs. em_ret ((idx, r) # rs)))
           (\<lambda>rs s. \<exists>left' qs. s = (left', outs @ List.map (\<lambda>((k, c), r). (call_of c, r)) qs, cs, fins) \<and> mset left' = mset rest
              \<and> mset (List.map fst qs) = add_mset (idx, c) (mset ?ps) \<and> rs = List.map (\<lambda>((k, c), r). (k, r)) qs)"
        unfolding run option.case
      proof (rule logs_bind, rule logs_mono [OF IH], rule logs_ret, elim exE conjE)
        fix rs s left' qs
        assume s: "s = (left', (outs @ [(call_of c, r)]) @ List.map (\<lambda>((k, c), r). (call_of c, r)) qs, cs, fins)" "mset left' = mset rest"
          and qs: "mset (List.map fst qs) = mset ?ps" "rs = List.map (\<lambda>((k, c), r). (k, r)) qs"
        show "\<exists>left' qs. s = (left', outs @ List.map (\<lambda>((k, c), r). (call_of c, r)) qs, cs, fins) \<and> mset left' = mset rest
           \<and> mset (List.map fst qs) = add_mset (idx, c) (mset ?ps) \<and> (idx, r) # rs = List.map (\<lambda>((k, c), r). (k, r)) qs"
          using s qs by (intro exI [of _ left'] exI [of _ "((idx, c), r) # qs"]) simp
      qed
    qed
  qed
qed

lemma settle_call_steps:
  assumes "unrejected c" and "length left \<le> length (todo cs)"
  shows "logs (call_steps par) (left, outs, c # cs, fins) (settle_call ops run turn c r)
    (\<lambda>x s. s = (left, outs, cs, fins @ [fin_of x]) \<and> call_settled c x \<and> xc_result x = r)"
  using completes_head [of c left cs] assms by (intro settle_call_logs) (simp_all add: fin_of_def call_settled_def)

lemma reject_call_steps:
  assumes "pc_rejected c = Some r"
  shows "logs (call_steps par) (left, outs, c # cs, fins) (reject_call ops run turn c r)
    (\<lambda>x s. s = (left, outs, cs, fins @ [fin_of x]) \<and> call_settled c x)"
  using assms completes_head [of c left cs] by (intro reject_call_logs) (simp_all add: fin_of_def call_settled_def)

lemma settle_batch_steps:
  assumes "list_all unrejected b" and "length left \<le> length (todo cs)"
  shows "logs (call_steps par) (left, outs, b @ cs, fins) (settle_batch ops run turn results k b)
    (\<lambda>xs s. s = (left, outs, cs, fins @ List.map fin_of xs) \<and> list_all2 call_settled b xs
       \<and> outcomes b xs = List.map (\<lambda>(k, c). (call_of c, case map_of (rev results) k of Some r \<Rightarrow> r | None \<Rightarrow> missing_result)) (enumerate k b))"
  using assms(1)
proof (induction b arbitrary: k fins)
  case (Cons c b)
  have c: "unrejected c" "list_all unrejected b" using Cons.prems by simp_all
  have len: "length left \<le> length (todo (b @ cs))" using assms(2) by simp
  show ?case
    unfolding settle_batch.simps append_Cons
  proof (rule logs_bind, rule logs_mono [OF settle_call_steps [OF c(1) len]], elim conjE, rule logs_bind, simp only:)
    fix x
    assume x: "call_settled c x"
      and r: "xc_result x = (case map_of (rev results) k of Some r \<Rightarrow> r | None \<Rightarrow> missing_result)"
    show "logs (call_steps par) (left, outs, b @ cs, fins @ [fin_of x]) (settle_batch ops run turn results (Suc k) b)
       (\<lambda>xs s. logs (call_steps par) s (em_ret (x # xs)) (\<lambda>xs s. s = (left, outs, cs, fins @ List.map fin_of xs)
          \<and> list_all2 call_settled (c # b) xs
          \<and> outcomes (c # b) xs = List.map (\<lambda>(k, c). (call_of c, case map_of (rev results) k of Some r \<Rightarrow> r | None \<Rightarrow> missing_result))
              (enumerate k (c # b))))"
      using x r c(1) by (intro logs_mono [OF Cons.IH [OF c(2)]] logs_ret) simp
  qed
qed (simp add: logs_ret outcomes_def)

text \<open>The results of a batch, looked up by position, are those that the calls returned.\<close>

lemma results_by_position:
  fixes qs :: "((nat \<times> prepared_call) \<times> tool_result) list"
  assumes "mset (List.map fst qs) = mset (enumerate 0 b)" and "results = List.map (\<lambda>((k, c), r). (k, r)) qs"
  shows "mset (List.map (\<lambda>((k, c), r). (call_of c, r)) qs)
       = mset (List.map (\<lambda>(k, c). (call_of c, case map_of (rev results) k of Some r \<Rightarrow> r | None \<Rightarrow> missing_result)) (enumerate 0 b))"
proof -
  let ?g = "\<lambda>k. case map_of (rev results) k of Some r \<Rightarrow> r | None \<Rightarrow> missing_result"
  have keys: "List.map fst results = List.map fst (List.map fst qs)" by (auto simp: assms(2))
  have "mset (List.map fst results) = image_mset fst (mset (List.map fst qs))" by (simp only: keys mset_map [of fst "List.map fst qs"])
  then have "mset (List.map fst results) = image_mset fst (mset (enumerate 0 b))" by (simp only: assms(1))
  then have "mset (List.map fst results) = mset [0..<length b]"
    by (simp only: mset_map [symmetric] map_fst_enumerate add_0)
  then have "distinct (List.map fst results)" by (metis distinct_upt mset_eq_imp_distinct_iff)
  then have "distinct (List.map fst (rev results))" by (metis distinct_rev rev_map)
  then have "?g k = r" if "((k, c), r) \<in> set qs" for k c r
  proof -
    have "(k, r) \<in> set (rev results)" using that by (force simp: assms(2))
    then show ?thesis using \<open>distinct (List.map fst (rev results))\<close> by simp
  qed
  then have "List.map (\<lambda>((k, c), r). (call_of c, r)) qs = List.map (\<lambda>(k, c). (call_of c, ?g k)) (List.map fst qs)" by (auto simp: case_prod_beta)
  then have "mset (List.map (\<lambda>((k, c), r). (call_of c, r)) qs) = image_mset (\<lambda>(k, c). (call_of c, ?g k)) (mset (List.map fst qs))"
    by (simp only: mset_map [of _ "List.map fst qs"])
  then show ?thesis by (simp only: assms(1) mset_map [of _ "enumerate 0 b"])
qed

text \<open>
  What an execution of \<open>cs\<close> does: with the runs of its calls and of those behind it left, it runs and completes
  exactly its own, and its results are those of its runs.
\<close>

definition executes :: "bool \<Rightarrow> prepared_call list \<Rightarrow> ('a \<Rightarrow> executed_call list) \<Rightarrow> ('w, 'a) em \<Rightarrow> bool" where
  "executes par cs f m \<longleftrightarrow> (\<forall>post left outs fins. same_runs par left (List.map call_of (todo (cs @ post))) \<longrightarrow>
     logs (call_steps par) (left, outs, cs @ post, fins) m (\<lambda>x s. \<exists>left' outs'. s = (left', outs @ outs', post, fins @ List.map fin_of (f x))
       \<and> same_runs par left' (List.map call_of (todo post)) \<and> same_runs par outs' (outcomes cs (f x)) \<and> list_all2 call_settled cs (f x)))"

lemma executesI:
  assumes "\<And>post left outs fins. same_runs par left (List.map call_of (todo (cs @ post))) \<Longrightarrow>
     logs (call_steps par) (left, outs, cs @ post, fins) m (\<lambda>x s. \<exists>left' outs'. s = (left', outs @ outs', post, fins @ List.map fin_of (f x))
       \<and> same_runs par left' (List.map call_of (todo post)) \<and> same_runs par outs' (outcomes cs (f x)) \<and> list_all2 call_settled cs (f x))"
  shows "executes par cs f m"
  using assms by (simp add: executes_def)

lemma executesD:
  assumes "executes par cs f m" and "same_runs par left (List.map call_of (todo (cs @ post)))"
  shows "logs (call_steps par) (left, outs, cs @ post, fins) m (\<lambda>x s. \<exists>left' outs'. s = (left', outs @ outs', post, fins @ List.map fin_of (f x))
       \<and> same_runs par left' (List.map call_of (todo post)) \<and> same_runs par outs' (outcomes cs (f x)) \<and> list_all2 call_settled cs (f x))"
  using assms by (simp add: executes_def)

lemma executes_seq:
  assumes m: "executes par cs f m" and n: "executes par ds id n"
  shows "executes par (cs @ ds) id (em_bind m (\<lambda>x. em_bind n (\<lambda>ys. em_ret (f x @ ys))))"
proof (rule executesI)
  fix post left outs fins
  assume "same_runs par left (List.map call_of (todo ((cs @ ds) @ post)))"
  then have left: "same_runs par left (List.map call_of (todo (cs @ ds @ post)))" by simp
  show "logs (call_steps par) (left, outs, (cs @ ds) @ post, fins) (em_bind m (\<lambda>x. em_bind n (\<lambda>ys. em_ret (f x @ ys))))
     (\<lambda>x s. \<exists>left' outs'. s = (left', outs @ outs', post, fins @ List.map fin_of (id x))
       \<and> same_runs par left' (List.map call_of (todo post)) \<and> same_runs par outs' (outcomes (cs @ ds) (id x))
       \<and> list_all2 call_settled (cs @ ds) (id x))"
    unfolding append_assoc
  proof (rule logs_bind, rule logs_mono [OF executesD [OF m left]], elim exE conjE, simp only:,
         rule logs_bind, rule logs_mono [OF executesD [OF n]], assumption, elim exE conjE, rule logs_ret)
    fix x s left' outs' ys t left'' outs''
    assume "same_runs par outs' (outcomes cs (f x))" "same_runs par outs'' (outcomes ds (id ys))"
      "list_all2 call_settled cs (f x)" "list_all2 call_settled ds (id ys)"
      "same_runs par left'' (List.map call_of (todo post))"
      "t = (left'', (outs @ outs') @ outs'', post, (fins @ List.map fin_of (f x)) @ List.map fin_of (id ys))"
    then show "\<exists>left' outs'. t = (left', outs @ outs', post, fins @ List.map fin_of (id (f x @ ys)))
       \<and> same_runs par left' (List.map call_of (todo post)) \<and> same_runs par outs' (outcomes (cs @ ds) (id (f x @ ys)))
       \<and> list_all2 call_settled (cs @ ds) (id (f x @ ys))"
      by (intro exI [of _ left''] exI [of _ "outs' @ outs''"])
        (simp add: list_all2_appendI outcomes_append [OF list_all2_lengthD] same_runs_append)
  qed
qed

lemma executes_cons:
  "executes par [c] (\<lambda>x. [x]) m \<Longrightarrow> executes par cs id n \<Longrightarrow>
     executes par (c # cs) id (em_bind m (\<lambda>x. em_bind n (\<lambda>xs. em_ret (x # xs))))"
  using executes_seq [of par "[c]" "\<lambda>x. [x]" m cs n] by simp

lemma reject_call_executes:
  assumes "pc_rejected c = Some r"
  shows "executes par [c] (\<lambda>x. [x]) (reject_call ops run turn c r)"
proof (rule executesI)
  fix post left outs fins
  assume "same_runs par left (List.map call_of (todo ([c] @ post)))"
  then have "same_runs par left (List.map call_of (todo post))" using assms by simp
  then show "logs (call_steps par) (left, outs, [c] @ post, fins) (reject_call ops run turn c r)
     (\<lambda>x s. \<exists>left' outs'. s = (left', outs @ outs', post, fins @ List.map fin_of [x])
       \<and> same_runs par left' (List.map call_of (todo post)) \<and> same_runs par outs' (outcomes [c] [x]) \<and> list_all2 call_settled [c] [x])"
    using assms by (auto intro!: logs_mono [OF reject_call_steps [OF assms]])
qed

lemma run_call_executes:
  assumes "unrejected c"
  shows "executes par [c] (\<lambda>x. [x]) (run_call ops run turn message c)"
proof (rule executesI)
  fix post left outs fins
  assume "same_runs par left (List.map call_of (todo ([c] @ post)))"
  then have left: "same_runs par left (call_of c # List.map call_of (todo post))" using assms by simp
  note step = same_runs_next [OF left]
  have len: "length (remove1 (call_of c) left) \<le> length (todo post)" using same_runs_length [OF step(2)] by simp
  show "logs (call_steps par) (left, outs, [c] @ post, fins) (run_call ops run turn message c)
     (\<lambda>x s. \<exists>left' outs'. s = (left', outs @ outs', post, fins @ List.map fin_of [x])
       \<and> same_runs par left' (List.map call_of (todo post)) \<and> same_runs par outs' (outcomes [c] [x]) \<and> list_all2 call_settled [c] [x])"
    unfolding run_call_def
  proof (intro logs_bind logs_op logs_then)
    fix r
    show "logs (call_steps par) (left, outs, [c] @ post, fins) (em_note (ActRan (pc_id c) (pc_name c) (pc_input c) r))
       (\<lambda>_ s. logs (call_steps par) s (settle_call ops run turn c r) (\<lambda>x s. \<exists>left' outs'. s = (left', outs @ outs', post, fins @ List.map fin_of [x])
       \<and> same_runs par left' (List.map call_of (todo post)) \<and> same_runs par outs' (outcomes [c] [x]) \<and> list_all2 call_settled [c] [x]))"
    proof (rule logs_note)
      show "call_steps par (left, outs, [c] @ post, fins) (ActRan (pc_id c) (pc_name c) (pc_input c) r)
          = Some (remove1 (call_of c) left, outs @ [(call_of c, r)], c # post, fins)"
        using step(1) by (simp add: call_of_def split: if_splits)
      show "logs (call_steps par) (remove1 (call_of c) left, outs @ [(call_of c, r)], c # post, fins) (settle_call ops run turn c r)
         (\<lambda>x s. \<exists>left' outs'. s = (left', outs @ outs', post, fins @ List.map fin_of [x])
       \<and> same_runs par left' (List.map call_of (todo post)) \<and> same_runs par outs' (outcomes [c] [x]) \<and> list_all2 call_settled [c] [x])"
        using assms step(2) by (auto intro!: logs_mono [OF settle_call_steps [OF assms len]])
    qed
  qed
qed

lemma run_batch_executes:
  assumes "list_all unrejected b"
  shows "executes True b id (run_batch ops run turn message b)"
proof (rule executesI)
  fix post left outs fins
  assume "same_runs True left (List.map call_of (todo (b @ post)))"
  moreover have "todo (b @ post) = b @ todo post" using assms by (simp add: list_all_iff)
  ultimately have "mset left = mset (List.map call_of b) + mset (List.map call_of (todo post))"
    unfolding same_runs_def if_True by (simp only: map_append mset_append)
  moreover have "List.map call_of b = List.map call_of (List.map snd (enumerate 0 b))" by (simp only: map_snd_enumerate)
  ultimately have left: "mset left = mset (List.map (\<lambda>p. call_of (snd p)) (enumerate 0 b)) + mset (List.map call_of (todo post))"
    by (simp only: map_map o_def)
  show "logs (call_steps True) (left, outs, b @ post, fins) (run_batch ops run turn message b)
     (\<lambda>xs s. \<exists>left' outs'. s = (left', outs @ outs', post, fins @ List.map fin_of (id xs))
       \<and> same_runs True left' (List.map call_of (todo post)) \<and> same_runs True outs' (outcomes b (id xs)) \<and> list_all2 call_settled b (id xs))"
    unfolding run_batch_def
  proof (rule logs_bind, rule logs_mono [OF run_unordered_steps [OF left]], elim exE conjE, simp only:)
    fix rs s left' and qs :: "((nat \<times> prepared_call) \<times> tool_result) list"
    assume l: "mset left' = mset (List.map call_of (todo post))" and qs: "mset (List.map fst qs) = mset (enumerate 0 b)"
    have "length left' \<le> length (todo post)" using mset_eq_length [OF l] by simp
    note batch = settle_batch_steps [OF assms this]
    show "logs (call_steps True) (left', outs @ List.map (\<lambda>((k, c), r). (call_of c, r)) qs, b @ post, fins)
        (settle_batch ops run turn (List.map (\<lambda>((k, c), r). (k, r)) qs) 0 b)
       (\<lambda>xs s. \<exists>left' outs'. s = (left', outs @ outs', post, fins @ List.map fin_of (id xs))
         \<and> same_runs True left' (List.map call_of (todo post)) \<and> same_runs True outs' (outcomes b (id xs)) \<and> list_all2 call_settled b (id xs))"
      using l results_by_position [OF qs refl] by (auto intro!: logs_mono [OF batch] simp: same_runs_def)
  qed
qed

lemma execute_calls_executes: "executes par cs id (execute_calls ops run turn message par cs)"
proof (induction ops run turn message par cs rule: execute_calls.induct)
  case (1 ops run turn message par)
  then show ?case by (auto intro!: executesI logs_ret simp: outcomes_def)
next
  case (2 ops run turn message par c cs)
  show ?case
  proof (cases "pc_rejected c")
    case (Some r)
    show ?thesis
      unfolding execute_calls.simps Some option.case by (rule executes_cons [OF reject_call_executes [OF Some] 2(3) [OF Some]])
  next
    case None
    let ?b = "next_batch (c # cs)" and ?rest = "drop (length (next_batch (c # cs))) (c # cs)"
    note split = next_batch_spec [OF refl, of "c # cs"]
    show ?thesis
    proof (cases "par \<and> pc_parallel c")
      case True
      have "executes par ?rest id (execute_calls ops run turn message par ?rest)" using 2(1) [OF None True] .
      moreover have "executes par ?b id (run_batch ops run turn message ?b)" using run_batch_executes [OF split(1)] True by simp
      ultimately have "executes par (?b @ ?rest) id (em_bind (run_batch ops run turn message ?b) (\<lambda>xs.
          em_bind (execute_calls ops run turn message par ?rest) (\<lambda>ys. em_ret (id xs @ ys))))" by (rule executes_seq [rotated])
      then show ?thesis
        unfolding execute_calls.simps None option.case if_P [OF True] id_apply split(2) [symmetric] .
    next
      case False
      show ?thesis
        unfolding execute_calls.simps None option.case if_not_P [OF False]
        by (rule executes_cons [OF run_call_executes [OF None] 2(2) [OF None False]])
    qed
  qed
qed

lemma execute_prepared_steps:
  "logs (call_steps (batch_parallel [] cs)) (List.map call_of (todo cs), [], cs, []) (execute_prepared_tools ops run turn message cs)
    (\<lambda>xs s. \<exists>outs. s = ([], outs, [], List.map fin_of xs) \<and> same_runs (batch_parallel [] cs) outs (outcomes cs xs) \<and> list_all2 call_settled cs xs)"
proof -
  have "executes (batch_parallel [] cs) cs id (execute_prepared_tools ops run turn message cs)"
    unfolding execute_prepared_tools_def by (rule execute_calls_executes)
  from executesD [OF this, of "List.map call_of (todo cs)" "[]" "[]" "[]"] show ?thesis
    by (auto elim!: logs_mono simp: same_runs_def split: if_splits)
qed

text \<open>What ran with what it returned, and the completions with their outputs, in a log.\<close>

fun outcomes_of :: "engine_act list \<Rightarrow> (call_run \<times> tool_result) list" where
  "outcomes_of [] = []"
| "outcomes_of (ActRan i name input r # acts) = ((i, name, input), r) # outcomes_of acts"
| "outcomes_of (ActSent _ # acts) = outcomes_of acts"

definition runs_of :: "engine_act list \<Rightarrow> call_run list" where
  "runs_of acts = List.map fst (outcomes_of acts)"

lemma runs_of_simps [simp]:
  "runs_of [] = []"
  "runs_of (ActRan i name input r # acts) = (i, name, input) # runs_of acts"
  "runs_of (ActSent e # acts) = runs_of acts"
  by (simp_all add: runs_of_def)

definition completion_of :: "engine_act \<Rightarrow> call_run option" where
  "completion_of a = (case a of ActSent (EvToolCallCompleted i name out _ _ _) \<Rightarrow> Some (i, name, out) | _ \<Rightarrow> None)"

definition completions_of :: "engine_act list \<Rightarrow> call_run list" where
  "completions_of acts = List.map_filter completion_of acts"

lemma completions_of_simps [simp]:
  "completions_of [] = []"
  "completions_of (a # acts) = (case completion_of a of Some c \<Rightarrow> c # completions_of acts | None \<Rightarrow> completions_of acts)"
  by (simp_all add: completions_of_def map_filter_simps split: option.split)

definition call_name_of :: "prepared_call \<Rightarrow> string \<times> string" where
  "call_name_of c = (pc_id c, pc_name c)"

definition name_of_completion :: "call_run \<Rightarrow> string \<times> string" where
  "name_of_completion f = (case f of (i, name, _) \<Rightarrow> (i, name))"

lemma call_steps_sent:
  "call_steps par (left, outs, cs, fins) (ActSent e) = Some s \<Longrightarrow>
     \<exists>c cs' out err ms msg. e = EvToolCallCompleted (pc_id c) (pc_name c) out err ms msg \<and> cs = c # cs'
        \<and> s = (left, outs, cs', fins @ [(pc_id c, pc_name c, out)])"
  by (cases e) (auto split: list.splits if_splits)

lemma call_steps_ran:
  assumes "call_steps par (left, outs, cs, fins) (ActRan i name input r) = Some s"
  shows "\<exists>left'. s = (left', outs @ [((i, name, input), r)], cs, fins) \<and> same_runs par left ((i, name, input) # left')
     \<and> set left' \<subseteq> set left \<and> (i, name, input) \<in> set left"
proof -
  let ?t = "(i, name, input)"
  have s: "s = (remove1 ?t left, outs @ [(?t, r)], cs, fins)" and ok: "if par then ?t \<in> set left else left \<noteq> [] \<and> hd left = ?t"
    using assms by (auto split: if_splits)
  have member: "?t \<in> set left" using ok hd_in_set [of left] by (cases par) auto
  have "left = ?t # remove1 ?t left" if "\<not> par"
    using that ok by (cases left) simp_all
  then have "same_runs par left (?t # remove1 ?t left)" using member by (simp add: same_runs_def)
  then show ?thesis using s member set_remove1_subset [of ?t left] by blast
qed

lemma call_steps_split:
  "run_log (call_steps par) (left, outs, cs, fins) acts = Some (left', outs', cs', fins') \<Longrightarrow>
     same_runs par left (runs_of acts @ left') \<and> outs' = outs @ outcomes_of acts
     \<and> List.map call_name_of cs = List.map name_of_completion (completions_of acts) @ List.map call_name_of cs'
     \<and> fins' = fins @ completions_of acts"
proof (induction acts arbitrary: left outs cs fins)
  case (Cons a acts)
  then obtain s where s: "call_steps par (left, outs, cs, fins) a = Some s"
    "run_log (call_steps par) s acts = Some (left', outs', cs', fins')"
    by (auto split: option.splits)
  show ?case
  proof (cases a)
    case (ActSent e)
    from call_steps_sent [OF s(1) [unfolded ActSent]] obtain c cs1 out err ms msg where
      e: "e = EvToolCallCompleted (pc_id c) (pc_name c) out err ms msg" "cs = c # cs1"
         "s = (left, outs, cs1, fins @ [(pc_id c, pc_name c, out)])" by blast
    from Cons.IH [OF s(2) [unfolded e(3)]] show ?thesis
      by (simp add: ActSent e(1,2) completion_of_def call_name_of_def name_of_completion_def)
  next
    case (ActRan i name input r)
    from call_steps_ran [OF s(1) [unfolded ActRan]] obtain left1 where
      l: "s = (left1, outs @ [((i, name, input), r)], cs, fins)" "same_runs par left ((i, name, input) # left1)" by blast
    note IH = Cons.IH [OF s(2) [unfolded l(1)]]
    have "same_runs par left ((i, name, input) # runs_of acts @ left')"
      using l(2) IH by (simp add: same_runs_def split: if_splits)
    then show ?thesis using IH by (simp add: ActRan completion_of_def)
  qed
qed simp

lemma call_steps_protocol:
  "run_log (call_steps par) (left, outs, cs, fins) acts \<noteq> None \<Longrightarrow> set left \<union> set (List.map call_of cs) \<subseteq> set known \<Longrightarrow>
     run_log protocol (PhOpen k t m n known) acts = Some (PhOpen k t m n known)"
proof (induction acts arbitrary: left outs cs fins)
  case (Cons a acts)
  then obtain s where s: "call_steps par (left, outs, cs, fins) a = Some s" "run_log (call_steps par) s acts \<noteq> None"
    by (auto split: option.splits)
  show ?case
  proof (cases a)
    case (ActSent e)
    from call_steps_sent [OF s(1) [unfolded ActSent]] obtain c cs' out err ms msg where
      e: "e = EvToolCallCompleted (pc_id c) (pc_name c) out err ms msg" "cs = c # cs'"
         "s = (left, outs, cs', fins @ [(pc_id c, pc_name c, out)])" by blast
    have "call_of c \<in> set known" using Cons.prems(2) e(2) by auto
    then have "(pc_id c, pc_name c) \<in> (\<lambda>(i, name, _). (i, name)) ` set known" by (force simp: call_of_def)
    then have "protocol (PhOpen k t m n known) a = Some (PhOpen k t m n known)"
      by (simp add: ActSent e(1) protocol.simps(1) phase_event_def)
    then show ?thesis using Cons.IH [of left outs cs'] s(2) Cons.prems(2) e(2,3) by simp
  next
    case (ActRan i name input r)
    from call_steps_ran [OF s(1) [unfolded ActRan]] obtain left1 where
      l: "s = (left1, outs @ [((i, name, input), r)], cs, fins)" "set left1 \<subseteq> set left" "(i, name, input) \<in> set left" by blast
    then have "protocol (PhOpen k t m n known) a = Some (PhOpen k t m n known)" using Cons.prems(2) by (auto simp: ActRan)
    then show ?thesis using Cons.IH [OF s(2) [unfolded l(1)]] Cons.prems(2) l(2) by (simp add: le_supI1 subset_trans)
  qed
qed simp

lemma logs_other:
  assumes "logs d s m Q" and "\<And>acts. run_log d s acts \<noteq> None \<Longrightarrow> run_log d' s1 acts = Some s2"
  shows "logs d' s1 m (\<lambda>x t. t = s2 \<and> (\<exists>s'. Q x s'))"
  unfolding logs_def
proof
  fix st
  obtain r st' where m: "m st = (r, st')" by fastforce
  obtain acts where acts: "eg_log st' = eg_log st @ acts" "run_log d s acts \<noteq> None"
    "\<And>x. r = Inr x \<Longrightarrow> \<exists>s'. run_log d s acts = Some s' \<and> Q x s'" using logsD [OF assms(1) m] by blast
  show "\<exists>acts. eg_log (snd (m st)) = eg_log st @ acts
     \<and> (case fst (m st) of Inl e \<Rightarrow> run_log d' s1 acts \<noteq> None
        | Inr x \<Rightarrow> (\<exists>s'. run_log d' s1 acts = Some s' \<and> s' = s2 \<and> (\<exists>s'. Q x s')))"
    using acts(1,3) assms(2) [OF acts(2)] m by (intro exI [of _ acts]) (auto split: sum.split)
qed

lemma execute_prepared_protocol:
  assumes "set (List.map call_of cs) \<subseteq> set known"
  shows "logs protocol (PhOpen k t m n known) (execute_prepared_tools ops run turn message cs)
       (\<lambda>xs s. s = PhOpen k t m n known \<and> list_all2 call_settled cs xs)"
proof -
  have "run_log protocol (PhOpen k t m n known) acts = Some (PhOpen k t m n known)"
    if "run_log (call_steps (batch_parallel [] cs)) (List.map call_of (todo cs), [], cs, []) acts \<noteq> None" for acts
    by (rule call_steps_protocol [OF that]) (use assms in force)
  then show ?thesis by (intro logs_mono [OF logs_other [OF execute_prepared_steps]]) auto
qed

lemma call_tools_protocol:
  "logs protocol (PhOpen k t m n []) (call_tools ops caps run turn message stop doom calls)
     (\<lambda>_ s. \<exists>cs. s = PhOpen k t m n cs)"
  unfolding call_tools_def
proof (rule logs_bind, rule logs_mono [OF prepare_calls_logs], clarsimp)
  fix ps doom'
  show "logs protocol (PhOpen k t m n (List.map call_of ps))
      (em_bind (execute_prepared_tools ops run turn message ps) (\<lambda>xs. em_ret (xs, doom'))) (\<lambda>_ s. \<exists>cs. s = PhOpen k t m n cs)"
    by (rule logs_bind, rule logs_mono [OF execute_prepared_protocol]) (auto intro: logs_ret)
qed

text \<open>
  C10: The calls that were not rejected run at most once each and a rejected call never runs: one after the other in
  the order of the calls, except in a parallel batch, where they return in any order; every call,
  run or rejected, is completed at most once, in the order of the calls. When no error cuts the
  execution short, each call that was not rejected has run exactly once, there is one result per call in
  the order of the calls, each completion event carries the output of its call's result, and the result of
  a call is the one its own run returned, or the refusal if it was rejected.
\<close>

theorem tools_run_once_in_order:
  "\<exists>acts. eg_log (snd (execute_prepared_tools ops run turn message cs st)) = eg_log st @ acts
     \<and> (if batch_parallel [] cs then mset (runs_of acts) \<subseteq># mset (List.map call_of (todo cs))
        else prefix (runs_of acts) (List.map call_of (todo cs)))
     \<and> prefix (List.map name_of_completion (completions_of acts)) (List.map call_name_of cs)
     \<and> (case fst (execute_prepared_tools ops run turn message cs st) of
          Inl e \<Rightarrow> True
        | Inr xs \<Rightarrow>
            list_all2 call_settled cs xs \<and> completions_of acts = List.map fin_of xs
            \<and> (if batch_parallel [] cs then mset (outcomes_of acts) = mset (outcomes cs xs) else outcomes_of acts = outcomes cs xs))"
proof -
  let ?par = "batch_parallel [] cs" and ?s = "(List.map call_of (todo cs), [], cs, [])"
  obtain r st' where m: "execute_prepared_tools ops run turn message cs st = (r, st')" by fastforce
  obtain acts where acts: "eg_log st' = eg_log st @ acts" "run_log (call_steps ?par) ?s acts \<noteq> None"
    and finished: "\<And>xs. r = Inr xs \<Longrightarrow> \<exists>s. run_log (call_steps ?par) ?s acts = Some s
        \<and> (\<exists>outs. s = ([], outs, [], List.map fin_of xs) \<and> same_runs ?par outs (outcomes cs xs) \<and> list_all2 call_settled cs xs)"
    by (rule logsD [OF execute_prepared_steps m], rule that) (assumption | blast)+
  obtain left' outs' cs' fins' where "run_log (call_steps ?par) ?s acts = Some (left', outs', cs', fins')" using acts(2) by auto
  note split = call_steps_split [OF this]
  have runs: "if ?par then mset (runs_of acts) \<subseteq># mset (List.map call_of (todo cs)) else prefix (runs_of acts) (List.map call_of (todo cs))"
    using split by (cases ?par) (simp_all only: same_runs_def if_True if_False mset_append mset_subset_eq_add_left prefixI)
  have names: "prefix (List.map name_of_completion (completions_of acts)) (List.map call_name_of cs)"
    using split by (metis prefixI)
  have "list_all2 call_settled cs xs \<and> completions_of acts = List.map fin_of xs \<and> same_runs ?par (outcomes_of acts) (outcomes cs xs)"
    if "r = Inr xs" for xs
  proof -
    from finished [OF that] obtain outs where o: "run_log (call_steps ?par) ?s acts = Some ([], outs, [], List.map fin_of xs)"
      "same_runs ?par outs (outcomes cs xs)" "list_all2 call_settled cs xs" by blast
    from call_steps_split [OF o(1)] o(2,3) show ?thesis by simp
  qed
  then have results: "case r of Inl e \<Rightarrow> True | Inr xs \<Rightarrow>
      list_all2 call_settled cs xs \<and> completions_of acts = List.map fin_of xs
      \<and> (if ?par then mset (outcomes_of acts) = mset (outcomes cs xs) else outcomes_of acts = outcomes cs xs)"
    by (simp add: same_runs_def split: sum.split)
  from acts(1) runs names results show ?thesis unfolding m fst_conv snd_conv by blast
qed

text \<open>Runs are accepted only under the flag.\<close>

fun run_guard :: "bool \<Rightarrow> engine_act \<Rightarrow> bool option" where
  "run_guard b (ActSent e) = Some b"
| "run_guard b (ActRan i name input r) = (if b then Some b else None)"

lemma same_runs_Nil: "same_runs par [] (xs @ ys) \<longleftrightarrow> xs = [] \<and> ys = []"
  by (auto simp: same_runs_def)

lemma run_guard_log: "run_log run_guard b acts = (if b \<or> runs_of acts = [] then Some b else None)"
  by (induction acts rule: outcomes_of.induct) auto

lemma prepare_call_guard:
  "logs run_guard b (prepare_call ops caps run stop doom c) (\<lambda>(p, _) s. s = b \<and> (unrejected p \<longrightarrow> stop = Some PsToolUse))"
proof -
  obtain i name args where c: "c = (i, name, args)" by (cases c)
  obtain input0 rejected0 where r: "read_call ops stop args = (input0, rejected0)" by fastforce
  have "rejected0 = None \<Longrightarrow> stop = Some PsToolUse" using read_call_closed [of stop ops args] r by auto
  then show ?thesis
    by (auto simp: prepare_call_def Let_def r c call_of_def intro!: log_rules split: option.split prod.split)
qed

lemma prepare_calls_guard:
  "logs run_guard b (prepare_calls ops caps run stop doom calls)
     (\<lambda>(ps, _) s. s = b \<and> (stop = Some PsToolUse \<or> todo ps = []))"
proof (induction calls arbitrary: doom)
  case Nil
  then show ?case by (auto intro!: log_rules)
next
  case (Cons c calls)
  show ?case
    unfolding prepare_calls.simps
    by (rule logs_bind, rule logs_mono [OF prepare_call_guard])
      (auto intro!: logs_bind logs_ret logs_mono [OF Cons.IH])
qed

lemma execute_prepared_guard:
  assumes "b \<or> todo cs = []"
  shows "logs run_guard b (execute_prepared_tools ops run turn message cs) (\<lambda>_ s. s = b)"
proof -
  let ?par = "batch_parallel [] cs" and ?s = "(List.map call_of (todo cs), [], cs, [])"
  have "run_log run_guard b acts = Some b" if "run_log (call_steps ?par) ?s acts \<noteq> None" for acts
  proof -
    from that obtain left' outs' cs' fins' where "run_log (call_steps ?par) ?s acts = Some (left', outs', cs', fins')" by auto
    from call_steps_split [OF this] assms show ?thesis by (auto simp: run_guard_log same_runs_Nil)
  qed
  then show ?thesis by (intro logs_mono [OF logs_other [OF execute_prepared_steps]]) auto
qed

text \<open>
  C7: No tool runs unless the provider said that the turn ended for tool use: with every other stop reason, none
  included, the calls of the response are announced and completed with a refusal, and none of them runs.
\<close>

theorem tools_run_only_on_tool_use:
  "\<exists>acts. eg_log (snd (call_tools ops caps run turn message stop doom calls st)) = eg_log st @ acts
     \<and> (stop = Some PsToolUse \<or> runs_of acts = [])"
proof -
  let ?b = "stop = Some PsToolUse"
  have "logs run_guard ?b (call_tools ops caps run turn message stop doom calls) (\<lambda>_ _. True)"
    unfolding call_tools_def
    by (rule logs_bind, rule logs_mono [OF prepare_calls_guard])
      (auto intro!: logs_bind logs_ret logs_mono [OF execute_prepared_guard])
  then obtain acts where "eg_log (snd (call_tools ops caps run turn message stop doom calls st)) = eg_log st @ acts"
    "run_log run_guard ?b acts \<noteq> None" by (rule logsD) (auto simp: prod_eq_iff)
  then show ?thesis by (auto simp: run_guard_log split: if_splits)
qed

end
