(* ===== verification/EngineContext.thy ===== *)
theory EngineContext
  imports EngineTypes Compaction
begin

section \<open>What the engine does to its context between turns\<close>

text \<open>
  Compaction as \<open>run_inner\<close> calls it (\<open>maybe_compact_typed_history\<close> and what it calls), the safe points where
  interjections and queued input enter the transcript, and the hooks that see the prompt.
\<close>

definition history_compact_chars :: nat where "history_compact_chars = 48000"
definition tool_output_max_chars :: nat where "tool_output_max_chars = 4000"
definition summary_keep_tail :: nat where "summary_keep_tail = 6"
definition summary_min_prefix :: nat where "summary_min_prefix = 4"
definition summary_transcript_chars :: nat where "summary_transcript_chars = 60000"
definition summary_message_chars :: nat where "summary_message_chars = 2000"
definition summary_max_attempts :: u32 where "summary_max_attempts = 8"
definition summary_max_failures :: u32 where "summary_max_failures = 2"

definition summary_system_prompt :: string where
  "summary_system_prompt = str_join [CHR 0x0A]
     [''You are compacting the conversation history of an autonomous coding agent. The transcript below is about to ''
        @ ''be deleted and replaced by your summary, so the summary is the only thing the agent will remember about it.'',
      [],
      ''Write a dense, factual summary using exactly these five sections, in this order:'',
      [],
      ''## Goal'',
      ''What the user asked for, in their terms.'',
      [],
      ''## Completed'',
      ''Work already finished. Be specific enough that the agent will not redo it.'',
      [],
      ''## Current state'',
      ''Where things stand right now: files changed, commands run and their outcome, what is verified and what is not.'',
      [],
      ''## Open questions'',
      ''Unresolved problems, failures, and decisions still to be made.'',
      [],
      ''## Next steps'',
      ''The concrete actions that were planned or in progress.'',
      [],
      ''Rules:'',
      ''- Keep concrete identifiers verbatim: file paths, symbol names, commands, error text, ids, and the reasons behind decisions.'',
      ''- Never invent facts. If a section has nothing, write \"none\".'',
      ''- Do not address the user, do not ask questions, do not add preamble or closing remarks. Output only the five sections.'']"

subsection \<open>Asking the model for a summary\<close>

text \<open>The stream is read with the cancellation looked at before each event.\<close>

fun summary_collect :: "'w engine_ops \<Rightarrow> provider_event list \<Rightarrow> string \<Rightarrow> ('w, string + string) em" where
  "summary_collect ops [] text = em_then (em_do (eo_next ops)) (em_ret (Inr text))"
| "summary_collect ops (e # es) text =
     em_then (em_do (eo_next ops)) (em_bind (em_get (eo_cancelled ops)) (\<lambda>cancelled.
       if cancelled then em_ret (Inl ''cancelled'')
       else (case e of
               PvText delta \<Rightarrow> summary_collect ops es (text @ delta)
             | PvError message _ _ _ _ \<Rightarrow> em_ret (Inl message)
             | _ \<Rightarrow> summary_collect ops es text)))"

text \<open>The race of the whole request with cancellation and the timeout: \<open>eo_race\<close> tells whether it was lost.\<close>

definition stream_summary_text :: "'w engine_ops \<Rightarrow> string \<Rightarrow> string \<Rightarrow> agent_message list \<Rightarrow> ('w, string + string) em" where
  "stream_summary_text ops run model messages =
     em_bind (em_get (eo_cancelled ops)) (\<lambda>cancelled.
       if cancelled then em_ret (Inl ''cancelled'')
       else em_bind (em_op (eo_stream ops \<lparr>tq_run = run, tq_attempt = 0, tq_model = model,
                       tq_system = Some summary_system_prompt, tq_messages = messages, tq_tools = []\<rparr>)) (\<lambda>stream.
              em_bind (case stream of Inl e \<Rightarrow> em_ret (Inl (engine_error_text e)) | Inr events \<Rightarrow> summary_collect ops events [])
                (\<lambda>outcome. em_bind (em_op (eo_race ops)) (\<lambda>lost.
                   em_ret (case lost of Some e \<Rightarrow> Inl e | None \<Rightarrow> outcome)))))"

definition try_model_summary :: "'w engine_ops \<Rightarrow> string \<Rightarrow> string \<Rightarrow> json list \<Rightarrow> nat \<Rightarrow> ('w, compact_result option) em" where
  "try_model_summary ops run model vs limit =
     em_bind (em_get (eo_cancelled ops)) (\<lambda>cancelled.
       if \<not> eo_model_compaction ops \<or> cancelled then em_ret None
       else em_bind em_counters (\<lambda>(attempts, failures).
         if attempts \<ge> summary_max_attempts \<or> failures \<ge> summary_max_failures then em_ret None
         else (let split = choose_summary_split vs summary_keep_tail
               in if split < summary_min_prefix then em_ret None
                  else em_then em_attempted (em_bind (new_id ops) (\<lambda>i.
                    em_bind (stream_summary_text ops run model
                        [MUser \<lparr>um_id = i, um_content = [CbText (render_transcript_for_summary (eo_show ops) (take split vs)
                                                            summary_transcript_chars summary_message_chars)]\<rparr>]) (\<lambda>answer.
                      case answer of
                        Inr summary \<Rightarrow>
                          (if str_trim summary \<noteq> []
                           then em_bind (new_id ops) (\<lambda>uuid. em_ret (Some (apply_model_summary uuid vs split summary limit)))
                           else em_then em_failed_summary (em_ret None))
                      | Inl _ \<Rightarrow> em_then em_failed_summary (em_ret None)))))))"

subsection \<open>Compacting\<close>

definition history_chars :: "'w engine_ops \<Rightarrow> json list \<Rightarrow> nat" where
  "history_chars ops vs = sum_list (List.map (\<lambda>v. length (eo_show ops v)) vs)"

definition tokens_of :: "nat \<Rightarrow> u64" where
  "tokens_of chars = max (word_of_nat chars div 4) 1"

definition maybe_compact_values :: "'w engine_ops \<Rightarrow> string \<Rightarrow> string \<Rightarrow> json list \<Rightarrow> ('w, json list) em" where
  "maybe_compact_values ops run model vs =
     (let history_limit = (case eo_history_chars ops of Some n \<Rightarrow> n | None \<Rightarrow> history_compact_chars);
          tool_limit = (case eo_output_chars ops of Some n \<Rightarrow> n | None \<Rightarrow> tool_output_max_chars);
          before = history_chars ops vs
      in if before < history_limit
         then (case repair_dangling_tool_calls vs of (fixed, repaired) \<Rightarrow> em_ret (if repaired = 0 then vs else fixed))
         else
           em_bind (run_hooks ops HePreCompact run None
               (JObj [(''before_chars'', JInt (int before)), (''messages'', JInt (int (length vs))),
                      (''model_compaction'', JBool (eo_model_compaction ops))])) (\<lambda>decisions.
             if isl (aggregate_allow decisions) then em_ret vs
             else em_bind (try_model_summary ops run model vs tool_limit) (\<lambda>summarized.
               let r = (case summarized of Some r \<Rightarrow> r | None \<Rightarrow> compact_messages vs tool_limit);
                   after = history_chars ops (cr_messages r)
               in em_then (append_soft ops run (EvContextCompressed (tokens_of before) (tokens_of after) (cr_summary r)))
                    (em_then (observe_hooks ops HePostCompact run None
                       (JObj [(''mode'', JStr (if cr_summarized r > 0 then ''model'' else ''mechanical'')),
                              (''before_chars'', JInt (int before)), (''after_chars'', JInt (int after)),
                              (''dropped_tool_outputs'', JInt (int (cr_dropped r))),
                              (''repaired_dangling'', JInt (int (cr_repaired r))),
                              (''summarized_messages'', JInt (int (cr_summarized r))), (''summary'', JStr (cr_summary r))]))
                       (em_ret (cr_messages r))))))"

text \<open>The id of the first message that is a summary; one without an id is passed over.\<close>

definition summary_id :: "json list \<Rightarrow> string option" where
  "summary_id vs =
     (case List.map_filter (\<lambda>v. case jget_str ''content'' v of
                                  Some content \<Rightarrow>
                                    (if jget_str ''role'' v = Some ''system'' \<and> starts_with content summary_marker
                                     then jget_str ''message_id'' v else None)
                                | None \<Rightarrow> None) vs of
        [] \<Rightarrow> None | i # _ \<Rightarrow> Some i)"

definition maybe_compact_typed_history :: "'w engine_ops \<Rightarrow> string \<Rightarrow> string \<Rightarrow> string \<Rightarrow> agent_message list
    \<Rightarrow> ('w, agent_message list) em" where
  "maybe_compact_typed_history ops run turn model messages =
     (let vs = agent_messages_to_values (eo_show ops) messages
      in em_bind (maybe_compact_values ops run model vs) (\<lambda>compacted.
           em_then
             (if compacted \<noteq> vs
              then em_bind (new_id ops) (\<lambda>snapshot. em_bind (em_get (eo_last_sequence ops run)) (\<lambda>revision.
                     append_critical ops run (EvContextSnapshotCommitted snapshot (Some turn) revision
                       (List.map agent_message_id messages) (summary_id compacted)
                       (Some (''0..'' @ show_nat (length messages))) ''typed-compaction-v1'' (eo_context_window ops) None
                       (JArr compacted))))
              else em_ret ())
             (em_bind (em_get (eo_fresh ops)) (\<lambda>fresh. em_ret (values_to_agent_messages fresh compacted)))))"

subsection \<open>Input at safe points\<close>

fun input_label :: "input_kind \<Rightarrow> string" where
  "input_label IkSteering = ''steering''"
| "input_label IkFollowUp = ''follow_up''"

definition input_message :: "pending_input \<Rightarrow> agent_message" where
  "input_message p =
     (let tag = CHR 0x5B # input_label (pi_kind p) @ [CHR 0x5D, CHR 0x0A]
      in MUser \<lparr>um_id = ''queue:'' @ pi_id p,
                um_content = [CbText (if starts_with (pi_content p) tag then pi_content p else tag @ pi_content p)]\<rparr>)"

fun take_inputs :: "'w engine_ops \<Rightarrow> string \<Rightarrow> pending_input list \<Rightarrow> agent_message list \<Rightarrow> ('w, agent_message list) em" where
  "take_inputs ops turn [] messages = em_ret messages"
| "take_inputs ops turn (p # ps) messages =
     em_bind (em_op (eo_ack ops p turn)) (\<lambda>r.
       em_then (em_lift (\<lambda>e. EeMessage (''input ack failed: '' @ e)) r) (take_inputs ops turn ps (messages @ [input_message p])))"

text \<open>All pending input of a kind, with the transcript it is added to.\<close>

definition drain_inputs :: "'w engine_ops \<Rightarrow> input_kind \<Rightarrow> input_safe_point \<Rightarrow> agent_message list \<Rightarrow> string
    \<Rightarrow> ('w, bool \<times> agent_message list) em" where
  "drain_inputs ops kind point messages turn =
     (case eo_drain ops of
        None \<Rightarrow> em_ret (False, messages)
      | Some drain \<Rightarrow>
          em_bind (em_op (drain kind point)) (\<lambda>r.
            em_bind (em_lift (\<lambda>e. EeMessage (''input drain failed: '' @ e)) r) (\<lambda>pending.
              if pending = [] then em_ret (False, messages)
              else em_bind (take_inputs ops turn pending messages) (\<lambda>ms. em_ret (True, ms)))))"

fun input_point :: "safe_point \<Rightarrow> input_safe_point" where
  "input_point ProviderBatchBoundary = SpBeforeProvider"
| "input_point _ = SpAfterToolBatch"

definition apply_safe_point :: "'w engine_ops \<Rightarrow> string \<Rightarrow> safe_point \<Rightarrow> agent_message list \<Rightarrow> ('w, agent_message list) em" where
  "apply_safe_point ops conversation point messages =
     em_bind
       (case eo_safe_point ops of
          Some receive \<Rightarrow>
            em_bind (em_op (receive (input_point point)))
              (em_lift (\<lambda>e. EeMessage (''safe-point persistence failed: '' @ e)))
        | None \<Rightarrow>
            (case eo_coordinator ops of
               Some coordinator \<Rightarrow>
                 em_bind (em_op (coordinator conversation point)) (\<lambda>action.
                   em_ret (case action of ActInject content \<Rightarrow> Some content | _ \<Rightarrow> None))
             | None \<Rightarrow> em_ret None))
       (\<lambda>content. case content of
          None \<Rightarrow> em_ret messages
        | Some c \<Rightarrow>
            em_bind (new_id ops) (\<lambda>i.
              em_ret (messages @ [MUser \<lparr>um_id = i, um_content = [CbText (''[interjection]'' @ CHR 0x0A # c)]\<rparr>])))"

subsection \<open>The prompt\<close>

text \<open>The prompt after the hooks, with what they inject.\<close>

fun apply_prompt_hook_responses :: "string \<Rightarrow> hook_decision list \<Rightarrow> engine_error + string \<times> string list" where
  "apply_prompt_hook_responses content [] = Inr (content, [])"
| "apply_prompt_hook_responses content (HdDeny reason # ds) = Inl (EeMessage (''hook denied: '' @ reason))"
| "apply_prompt_hook_responses content (HdModify payload # ds) =
     apply_prompt_hook_responses (case jget_str ''content'' payload of Some c \<Rightarrow> c | None \<Rightarrow> content) ds"
| "apply_prompt_hook_responses content (HdInject messages # ds) =
     bind_sum (apply_prompt_hook_responses content ds) (\<lambda>(c, injected). Inr (c, messages @ injected))"
| "apply_prompt_hook_responses content (HdAllow # ds) = apply_prompt_hook_responses content ds"

fun with_ids :: "'w engine_ops \<Rightarrow> (string \<Rightarrow> 'a \<Rightarrow> agent_message) \<Rightarrow> 'a list \<Rightarrow> ('w, agent_message list) em" where
  "with_ids ops f [] = em_ret []"
| "with_ids ops f (x # xs) =
     em_bind (new_id ops) (\<lambda>i. em_bind (with_ids ops f xs) (\<lambda>ms. em_ret (f i x # ms)))"

definition legacy_messages :: "engine_message list \<Rightarrow> string \<Rightarrow> engine_message list" where
  "legacy_messages ms content =
     (if ms = [] then [engine_message_text ''user'' content]
      else if (em_role (last ms) = ''user'' \<and> str_trim (em_content (last ms)) = str_trim content) \<or> str_trim content = []
      then ms else ms @ [engine_message_text ''user'' content])"

definition ends_with_prompt :: "agent_message list \<Rightarrow> string \<Rightarrow> bool" where
  "ends_with_prompt ms content =
     (ms \<noteq> [] \<and> (case last ms of
                    MUser m \<Rightarrow> list_ex (\<lambda>b. case b of CbText text \<Rightarrow> str_trim text = str_trim content | _ \<Rightarrow> False) (um_content m)
                  | _ \<Rightarrow> False))"

text \<open>The transcript of the first request: what hooks injected, the history, the prompt unless it is there.\<close>

definition initial_transcript :: "'w engine_ops \<Rightarrow> engine_message list \<Rightarrow> string \<Rightarrow> string list \<Rightarrow> agent_message list option
    \<Rightarrow> ('w, agent_message list) em" where
  "initial_transcript ops history content injected typed =
     em_bind (case typed of
                Some messages \<Rightarrow> em_ret messages
              | None \<Rightarrow> with_ids ops (engine_to_agent_message (eo_read ops)) (legacy_messages history content)) (\<lambda>messages.
       em_bind (if str_trim content \<noteq> [] \<and> \<not> ends_with_prompt messages content
                then em_bind (new_id ops) (\<lambda>i. em_ret (messages @ [MUser \<lparr>um_id = i, um_content = [CbText content]\<rparr>]))
                else em_ret messages) (\<lambda>messages'.
         em_bind (with_ids ops (\<lambda>i text. MSystem \<lparr>ym_id = i, ym_text = text\<rparr>) injected) (\<lambda>leading.
           em_ret (leading @ messages'))))"

subsection \<open>Only compaction is in the log\<close>

lemma summary_collect_logs [log_rules]: "(\<And>x. Q x s) \<Longrightarrow> logs d s (summary_collect ops es acc) Q"
  by (induction es arbitrary: acc) (auto intro!: log_rules split: provider_event.split)

lemma stream_summary_logs [log_rules]: "(\<And>x. Q x s) \<Longrightarrow> logs d s (stream_summary_text ops run model ms) Q"
  unfolding stream_summary_text_def by (auto intro!: log_rules split: sum.split)

lemma try_model_summary_logs [log_rules]: "(\<And>x. Q x s) \<Longrightarrow> logs d s (try_model_summary ops run model vs limit) Q"
  unfolding try_model_summary_def Let_def by (auto intro!: log_rules split: sum.split prod.split)

lemma compact_values_logs [log_rules]: "(\<And>x. Q x p) \<Longrightarrow> logs protocol p (maybe_compact_values ops run model vs) Q"
  unfolding maybe_compact_values_def Let_def by (auto intro!: log_rules split: prod.split)

lemma compact_history_logs [log_rules]:
  "(\<And>x. Q x p) \<Longrightarrow> logs protocol p (maybe_compact_typed_history ops run turn model ms) Q"
  unfolding maybe_compact_typed_history_def Let_def by (auto intro!: log_rules)

lemma take_inputs_logs [log_rules]: "(\<And>x. Q x s) \<Longrightarrow> logs d s (take_inputs ops turn ps ms) Q"
  by (induction ps arbitrary: ms) (auto intro!: log_rules)

lemma drain_inputs_logs [log_rules]: "(\<And>x. Q x s) \<Longrightarrow> logs d s (drain_inputs ops kind point ms turn) Q"
  unfolding drain_inputs_def by (auto intro!: log_rules split: option.split)

lemma apply_safe_point_logs [log_rules]: "(\<And>x. Q x s) \<Longrightarrow> logs d s (apply_safe_point ops conversation point ms) Q"
  unfolding apply_safe_point_def by (auto intro!: log_rules split: option.split)

lemma with_ids_logs [log_rules]: "(\<And>x. Q x s) \<Longrightarrow> logs d s (with_ids ops f xs) Q"
proof (induction xs arbitrary: Q)
  case (Cons x xs)
  show ?case unfolding with_ids.simps by (intro log_rules Cons.IH) (rule Cons.prems)
qed (simp add: logs_ret)

lemma initial_transcript_logs [log_rules]:
  "(\<And>x. Q x s) \<Longrightarrow> logs d s (initial_transcript ops history content injected typed) Q"
  unfolding initial_transcript_def by (auto intro!: log_rules split: option.split)

end
