(* ===== verification/EngineLoop.thy ===== *)
theory EngineLoop
  imports EngineTools EngineContext
begin

section \<open>The turns of a run\<close>

text \<open>
  \<open>run_inner\<close>: a turn opens its message, makes attempts to get a response from the provider, and closes the
  message after the tools have run. The loop over the turns is a recursion on the steps that are left
  of \<open>max_steps\<close>; the code counts the steps up in a \<open>u32\<close>, which agrees with it below \<open>2^32 - 1\<close> turns.
\<close>

subsection \<open>The stream of a response\<close>

definition max_provider_attempts :: u32 where "max_provider_attempts = 3"

record generation =
  gn_text :: string
  gn_reasoning :: string
  gn_tools :: "(nat \<times> call_text) list"
  gn_saw :: bool
  gn_reason :: "provider_stop option"

definition no_generation :: generation where
  "no_generation = \<lparr>gn_text = [], gn_reasoning = [], gn_tools = [], gn_saw = False, gn_reason = None\<rparr>"

text \<open>The map of calls by index, in the order of the indices.\<close>

fun tool_entry :: "nat \<Rightarrow> (call_text \<Rightarrow> call_text) \<Rightarrow> (nat \<times> call_text) list \<Rightarrow> (nat \<times> call_text) list" where
  "tool_entry i f [] = [(i, f ([], [], []))]"
| "tool_entry i f ((j, c) # rest) =
     (if i < j then (i, f ([], [], [])) # (j, c) # rest
      else if i = j then (j, f c) # rest
      else (j, c) # tool_entry i f rest)"

definition keep_text :: "string option \<Rightarrow> string \<Rightarrow> string" where
  "keep_text new old = (case new of Some n \<Rightarrow> (if n = [] then old else n) | None \<Rightarrow> old)"

definition tool_delta :: "string option \<Rightarrow> string option \<Rightarrow> string \<Rightarrow> call_text \<Rightarrow> call_text" where
  "tool_delta i name delta c = (case c of (i0, name0, args) \<Rightarrow> (keep_text i i0, keep_text name name0, args @ delta))"

text \<open>How an attempt ends: the run returns, the loop goes on with the next attempt, at once
  or after compacting the transcript, or there is a response.\<close>

datatype 'a attempt_end = AeReturn engine_outcome | AeRetry | AeCompact | AeDone 'a

definition give_up :: "'w engine_ops \<Rightarrow> string \<Rightarrow> string \<Rightarrow> string \<Rightarrow> generation \<Rightarrow> ('w, 'a attempt_end) em" where
  "give_up ops run turn mid g =
     em_then (close_failed_turn ops run turn mid ''cancelled'' (gn_text g) (gn_reasoning g)) (em_ret (AeReturn OutCancelled))"

definition fail_turn :: "'w engine_ops \<Rightarrow> string \<Rightarrow> string \<Rightarrow> string \<Rightarrow> generation \<Rightarrow> engine_error \<Rightarrow> ('w, 'a) em" where
  "fail_turn ops run turn mid g e =
     em_then (close_failed_turn ops run turn mid ''error'' (gn_text g) (gn_reasoning g)) (em_fail e)"

text \<open>An attempt that failed and will be repeated: the event, the wait, and whether the run was cancelled meanwhile.\<close>

definition retry_later :: "'w engine_ops \<Rightarrow> string \<Rightarrow> string \<Rightarrow> string \<Rightarrow> u32 \<Rightarrow> string \<Rightarrow> u64 option \<Rightarrow> generation
    \<Rightarrow> ('w, 'a attempt_end) em" where
  "retry_later ops run turn mid attempt code retry_after g =
     (let delay = provider_backoff_ms attempt retry_after
      in em_then (append_soft ops run (EvGenerationAttemptFailed attempt code True True (Some delay)))
           (em_then (em_do (eo_wait ops delay))
              (em_bind (em_get (eo_cancelled ops)) (\<lambda>cancelled.
                 if cancelled then give_up ops run turn mid g else em_ret AeRetry))))"

definition stream_error :: "'w engine_ops \<Rightarrow> string \<Rightarrow> string \<Rightarrow> string \<Rightarrow> u32 \<Rightarrow> generation
    \<Rightarrow> string \<Rightarrow> string \<Rightarrow> bool \<Rightarrow> string \<Rightarrow> u64 option \<Rightarrow> ('w, generation attempt_end) em" where
  "stream_error ops run turn mid attempt g message code retryable category retry_after =
     (if \<not> gn_saw g \<and> retryable \<and> attempt < max_provider_attempts
      then retry_later ops run turn mid attempt code retry_after g
      else em_then (if gn_saw g then append_soft ops run (EvGenerationAttemptDiscarded attempt code) else em_ret ())
             (em_then (append_soft ops run (EvGenerationAttemptFailed attempt code retryable False None))
                (if gn_tools g \<noteq> [] then em_ret (AeDone (g\<lparr>gn_reason := Some PsError\<rparr>))
                 else fail_turn ops run turn mid g (EeProvider message code retryable category retry_after))))"

fun read_stream :: "'w engine_ops \<Rightarrow> string \<Rightarrow> string \<Rightarrow> string \<Rightarrow> u32 \<Rightarrow> provider_event list \<Rightarrow> generation
    \<Rightarrow> ('w, generation attempt_end) em" where
  "read_stream ops run turn mid attempt [] g = em_then (em_do (eo_next ops)) (em_ret (AeDone g))"
| "read_stream ops run turn mid attempt (e # es) g =
     em_then (em_do (eo_next ops)) (em_bind (em_get (eo_cancelled ops)) (\<lambda>cancelled.
       if cancelled
       then (if gn_tools g \<noteq> [] then em_ret (AeDone (g\<lparr>gn_reason := Some PsCancelled\<rparr>))
             else give_up ops run turn mid g)
       else (case e of
           PvText t \<Rightarrow> read_stream ops run turn mid attempt es (g\<lparr>gn_saw := True, gn_text := gn_text g @ t\<rparr>)
         | PvReasoning t \<Rightarrow> read_stream ops run turn mid attempt es (g\<lparr>gn_saw := True, gn_reasoning := gn_reasoning g @ t\<rparr>)
         | PvToolCall index i name delta \<Rightarrow>
             read_stream ops run turn mid attempt es
               (g\<lparr>gn_saw := True, gn_tools := tool_entry index (tool_delta i name delta) (gn_tools g)\<rparr>)
         | PvUsage input_tokens output_tokens reasoning_tokens created read \<Rightarrow>
             em_then (append_soft ops run (EvUsageUpdated input_tokens output_tokens reasoning_tokens created read))
               (read_stream ops run turn mid attempt es g)
         | PvError message code retryable category retry_after \<Rightarrow>
             stream_error ops run turn mid attempt g message code retryable category retry_after
         | PvCompletedWith reason \<Rightarrow> read_stream ops run turn mid attempt es (g\<lparr>gn_reason := Some reason\<rparr>)
         | PvCompleted \<Rightarrow> read_stream ops run turn mid attempt es (g\<lparr>gn_reason := Some PsStop\<rparr>))))"

text \<open>What is made of a stream that ended.\<close>

definition judge_stream :: "'w engine_ops \<Rightarrow> string \<Rightarrow> string \<Rightarrow> string \<Rightarrow> u32 \<Rightarrow> generation \<Rightarrow> ('w, generation attempt_end) em" where
  "judge_stream ops run turn mid attempt g =
     em_bind (em_get (eo_cancelled ops)) (\<lambda>cancelled.
       if cancelled \<and> gn_tools g = [] then give_up ops run turn mid g
       else if gn_reason g = None \<and> gn_tools g \<noteq> []
       then em_then (append_soft ops run (EvGenerationAttemptDiscarded attempt ''INCOMPLETE_TOOL_CALL''))
              (em_ret (AeDone (g\<lparr>gn_reason := Some (PsUnknown ''INCOMPLETE_TOOL_CALL'')\<rparr>)))
       else if \<not> gn_saw g \<and> attempt < 2 then retry_later ops run turn mid attempt ''EMPTY_RESPONSE'' None g
       else if \<not> gn_saw g
       then em_then (append_soft ops run (EvGenerationAttemptFailed attempt ''EMPTY_RESPONSE'' False False None))
              (fail_turn ops run turn mid g
                 (EeProvider ''provider returned empty response'' ''EMPTY_RESPONSE'' False ''unknown'' None))
       else em_then (append_critical ops run (EvGenerationAttemptCommitted attempt)) (em_ret (AeDone g)))"

subsection \<open>Attempts\<close>

text \<open>The connection failed: cancelled, repeated, compacted once when the context is too long, or given up.\<close>

definition connect_error :: "'w engine_ops \<Rightarrow> string \<Rightarrow> string \<Rightarrow> string \<Rightarrow> u32 \<Rightarrow> bool \<Rightarrow> engine_error
    \<Rightarrow> ('w, generation attempt_end) em" where
  "connect_error ops run turn mid attempt overflowed e =
     em_bind (em_get (eo_cancelled ops)) (\<lambda>cancelled.
       if e = EeCancelled \<or> cancelled then give_up ops run turn mid no_generation
       else if error_retryable e \<and> attempt < max_provider_attempts
       then retry_later ops run turn mid attempt (engine_error_code e) (error_retry_after e) no_generation
       else if is_context_overflow e
       then em_then (append_soft ops run (EvGenerationAttemptFailed attempt (engine_error_code e) False (\<not> overflowed) None))
              (if overflowed then fail_turn ops run turn mid no_generation e else em_ret AeCompact)
       else em_then (append_soft ops run
                (EvGenerationAttemptFailed attempt (engine_error_code e) (error_retryable e) False None))
              (fail_turn ops run turn mid no_generation e))"

definition attempt_once :: "'w engine_ops \<Rightarrow> string \<Rightarrow> string \<Rightarrow> string \<Rightarrow> turn_request \<Rightarrow> bool \<Rightarrow> ('w, generation attempt_end) em" where
  "attempt_once ops run turn mid request overflowed =
     (let attempt = tq_attempt request
      in em_then (append_soft ops run (EvGenerationAttemptStarted attempt max_provider_attempts))
           (em_bind (em_op (eo_stream ops request)) (\<lambda>stream.
              case stream of
                Inl e \<Rightarrow> connect_error ops run turn mid attempt overflowed e
              | Inr events \<Rightarrow>
                  em_bind (read_stream ops run turn mid attempt events no_generation) (\<lambda>ending.
                    case ending of
                      AeDone g \<Rightarrow> judge_stream ops run turn mid attempt g
                    | other \<Rightarrow> em_ret other))))"

text \<open>
  The loop. A retry needs an attempt below the third, an overflow that it is the first; so it ends after at most
  four attempts.
\<close>

definition returns :: "('w, 'a) em \<Rightarrow> ('a \<Rightarrow> bool) \<Rightarrow> bool" where
  "returns m P \<longleftrightarrow> (\<forall>st x st'. m st = (Inr x, st') \<longrightarrow> P x)"

lemma returns_bind: "(\<And>x. returns (f x) P) \<Longrightarrow> returns (em_bind m f) P"
  unfolding returns_def em_bind_def by (auto split: prod.splits sum.splits)

lemma returns_bind2: "returns m R \<Longrightarrow> (\<And>x. R x \<Longrightarrow> returns (f x) P) \<Longrightarrow> returns (em_bind m f) P"
  unfolding returns_def em_bind_def by (auto split: prod.splits sum.splits) blast

lemma returns_then: "returns k P \<Longrightarrow> returns (em_then m k) P"
  unfolding em_then_def by (rule returns_bind)

lemma returns_ret [simp]: "returns (em_ret x) P \<longleftrightarrow> P x"
  by (simp add: returns_def em_ret_def)

lemma returns_fail [simp]: "returns (em_fail e) P"
  by (simp add: returns_def em_fail_def)

text \<open>Why an attempt asks for another one.\<close>

definition asks_again :: "u32 \<Rightarrow> bool \<Rightarrow> 'a attempt_end \<Rightarrow> bool" where
  "asks_again attempt overflowed ending \<longleftrightarrow>
     (case ending of AeRetry \<Rightarrow> attempt < max_provider_attempts | AeCompact \<Rightarrow> \<not> overflowed | _ \<Rightarrow> True)"

lemma asks_again_simps [simp]:
  "asks_again attempt overflowed AeRetry \<longleftrightarrow> attempt < max_provider_attempts"
  "asks_again attempt overflowed AeCompact \<longleftrightarrow> \<not> overflowed"
  "asks_again attempt overflowed (AeDone x)" "asks_again attempt overflowed (AeReturn r)"
  by (simp_all add: asks_again_def)

lemma give_up_returns: "returns (give_up ops run turn mid g) (asks_again attempt overflowed)"
  unfolding give_up_def by (intro returns_then) simp

lemma fail_turn_returns: "returns (fail_turn ops run turn mid g e) P"
  unfolding fail_turn_def by (intro returns_then) simp

lemma retry_later_returns:
  "attempt < max_provider_attempts \<Longrightarrow> returns (retry_later ops run turn mid attempt code after g) (asks_again attempt overflowed)"
  unfolding retry_later_def Let_def by (auto intro!: returns_then returns_bind give_up_returns)

lemma stream_error_returns:
  "returns (stream_error ops run turn mid attempt g message code retryable category after) (asks_again attempt overflowed)"
  unfolding stream_error_def
  by (auto intro!: returns_then returns_bind retry_later_returns fail_turn_returns)

lemma read_stream_returns:
  "returns (read_stream ops run turn mid attempt es g) (asks_again attempt overflowed)"
  by (induction es arbitrary: g)
    (auto intro!: returns_then returns_bind give_up_returns stream_error_returns split: provider_event.split)

lemma judge_stream_returns:
  "returns (judge_stream ops run turn mid attempt g) (asks_again attempt overflowed)"
proof -
  have "attempt < 2 \<Longrightarrow> attempt < max_provider_attempts" by (simp add: max_provider_attempts_def word_less_nat_alt)
  then show ?thesis
    unfolding judge_stream_def
    by (auto intro!: returns_then returns_bind give_up_returns retry_later_returns fail_turn_returns)
qed

lemma connect_error_returns:
  "returns (connect_error ops run turn mid attempt overflowed e) (asks_again attempt overflowed)"
  unfolding connect_error_def
  by (auto intro!: returns_then returns_bind give_up_returns retry_later_returns fail_turn_returns)

lemma attempt_once_returns:
  "returns (attempt_once ops run turn mid request overflowed) (asks_again (tq_attempt request) overflowed)"
  unfolding attempt_once_def Let_def
  by (auto intro!: returns_then returns_bind connect_error_returns returns_bind2 [OF read_stream_returns [where overflowed = True]]
      judge_stream_returns split: sum.split attempt_end.split)

lemma next_attempt: "attempt < max_provider_attempts \<Longrightarrow> unat (attempt + 1) = Suc (unat attempt) \<and> unat attempt < 3"
  by (auto simp: max_provider_attempts_def word_less_nat_alt unat_plus_if')

function attempts :: "'w engine_ops \<Rightarrow> string \<Rightarrow> string \<Rightarrow> string \<Rightarrow> turn_request \<Rightarrow> bool \<Rightarrow> 'w engine
    \<Rightarrow> (engine_error + (agent_message list \<times> (engine_outcome + generation))) \<times> 'w engine" where
  "attempts ops run turn mid request overflowed st =
     (case attempt_once ops run turn mid request overflowed st of
        (Inl e, st1) \<Rightarrow> (Inl e, st1)
      | (Inr ending, st1) \<Rightarrow>
          (case ending of
             AeRetry \<Rightarrow> attempts ops run turn mid (request\<lparr>tq_attempt := tq_attempt request + 1\<rparr>) overflowed st1
           | AeCompact \<Rightarrow>
               (case maybe_compact_typed_history ops run turn (tq_model request) (tq_messages request) st1 of
                  (Inl e, st2) \<Rightarrow> (Inl e, st2)
                | (Inr messages, st2) \<Rightarrow>
                    attempts ops run turn mid (request\<lparr>tq_attempt := tq_attempt request + 1, tq_messages := messages\<rparr>) True st2)
           | AeDone g \<Rightarrow> (Inr (tq_messages request, Inr g), st1)
           | AeReturn r \<Rightarrow> (Inr (tq_messages request, Inl r), st1)))"
  by pat_completeness auto
termination
proof (relation "measures [\<lambda>(ops, run, turn, mid, request, overflowed, st). if overflowed then 0 else 1,
    \<lambda>(ops, run, turn, mid, request, overflowed, st). 3 - unat (tq_attempt request)]", goal_cases)
  case 1
  show ?case by simp
next
  case (2 ops run turn mid request overflowed st r st1 ending)
  with attempt_once_returns [of ops run turn mid request overflowed] have "tq_attempt request < max_provider_attempts"
    unfolding returns_def by (metis asks_again_simps(1))
  from next_attempt [OF this] show ?case by auto
next
  case (3 ops run turn mid request overflowed st r st1 ending x messages st2)
  with attempt_once_returns [of ops run turn mid request overflowed] have "\<not> overflowed"
    unfolding returns_def by (metis asks_again_simps(2))
  then show ?case by simp
qed

subsection \<open>After a response without calls\<close>

definition outcome_of :: "provider_stop option \<Rightarrow> engine_outcome" where
  "outcome_of stop =
     (case stop of
        Some PsCancelled \<Rightarrow> OutCancelled
      | Some PsError \<Rightarrow> OutFailed ''PROVIDER_STOP_ERROR'' ''provider ended the response with an error stop reason'' False
      | Some (PsUnknown raw) \<Rightarrow>
          OutFailed ''UNKNOWN_PROVIDER_STOP_REASON'' (''provider ended with unknown stop reason: '' @ raw) False
      | Some reason \<Rightarrow> OutCompleted (stop_reason_label (Some reason))
      | None \<Rightarrow> OutCompleted ''unknown'')"

text \<open>What a turn leaves: the outcome of the run, or the transcript and the detector for the next turn.\<close>

datatype turn_end = TeReturn engine_outcome | TeNext "agent_message list" detector

definition stop_run :: "'w engine_ops \<Rightarrow> string \<Rightarrow> provider_stop option \<Rightarrow> ('w, turn_end) em" where
  "stop_run ops run stop =
     em_bind (run_hooks ops HeStop run None (JObj [(''reason'', JStr ''stop'')])) (\<lambda>decisions.
       case aggregate_allow decisions of
         Inl reason \<Rightarrow>
           em_then (run_hooks ops HeStopFailure run None (JObj [(''reason'', JStr reason)]))
             (em_fail (EeMessage (''stop hook denied: '' @ reason)))
       | Inr _ \<Rightarrow> em_ret (TeReturn (outcome_of stop)))"

definition finish_turn :: "'w engine_ops \<Rightarrow> string \<Rightarrow> string \<Rightarrow> string \<Rightarrow> agent_message list \<Rightarrow> detector \<Rightarrow> generation
    \<Rightarrow> ('w, turn_end) em" where
  "finish_turn ops run turn mid messages doom g =
     (let content = spoken (gn_reasoning g) (gn_text g);
          messages1 = messages @ [MAssistant \<lparr>am_id = mid, am_content = content,
            am_stop_reason = Some (stop_of (case gn_reason g of Some r \<Rightarrow> r | None \<Rightarrow> PsStop))\<rparr>]
      in em_then (close_turn ops run turn mid (stop_reason_label (gn_reason g)) content)
           (em_bind (drain_inputs ops IkFollowUp SpBeforeRunEnd messages1 turn) (\<lambda>(consumed, messages2).
              if consumed
              then em_then (append_soft ops run (EvProgress ''follow_up_consumed'' None)) (em_ret (TeNext messages2 doom))
              else stop_run ops run (gn_reason g))))"

subsection \<open>After a response with calls\<close>

definition call_block :: "executed_call \<Rightarrow> content_block" where
  "call_block x = CbToolCall \<lparr>kc_id = xc_id x, kc_name = xc_name x, kc_arguments = xc_args x\<rparr>"

definition result_of :: "executed_call \<Rightarrow> agent_message" where
  "result_of x =
     (let output = tr_output (xc_result x)
      in MResult \<lparr>rm_id = xc_message x, rm_call_id = xc_id x, rm_tool_name = xc_name x,
           rm_content = [case jget_str ''artifact_id'' output of
                           Some artifact \<Rightarrow> RbArtifact artifact (jget_str ''preview'' output)
                         | None \<Rightarrow> RbJson output],
           rm_is_error = tr_is_error (xc_result x),
           rm_code = Option.bind (jget_or ''error_code'' ''code'' output) as_str\<rparr>)"

definition batch_persistence_failed :: "executed_call list \<Rightarrow> bool" where
  "batch_persistence_failed xs = list_ex (\<lambda>x. jget_str ''error_code'' (tr_output (xc_result x)) = Some ''PERSISTENCE_FAILED'') xs"

definition tool_turn :: "'w engine_ops \<Rightarrow> (string \<Rightarrow> tool_capability option) \<Rightarrow> engine_config \<Rightarrow> string \<Rightarrow> string
    \<Rightarrow> agent_message list \<Rightarrow> detector \<Rightarrow> generation \<Rightarrow> ('w, turn_end) em" where
  "tool_turn ops caps cfg turn mid messages doom g =
     (let run = ec_run cfg
      in em_bind (call_tools ops caps run turn mid (gn_reason g) doom (List.map snd (gn_tools g))) (\<lambda>(xs, doom').
           let content = spoken (gn_reasoning g) (gn_text g) @ List.map call_block xs;
               messages1 = messages @ MAssistant \<lparr>am_id = mid, am_content = content,
                 am_stop_reason = Some (core_stop_reason (gn_reason g))\<rparr> # List.map result_of xs
           in em_then (close_turn ops run turn mid (stop_reason_label (gn_reason g)) content)
                (if batch_persistence_failed xs
                 then em_then (em_do (eo_cancel ops))
                        (em_fail (EeMessage ''critical tool persistence failed; run stopped fail-closed''))
                 else em_bind (apply_safe_point ops (ec_conversation cfg) AfterTool messages1) (\<lambda>messages2.
                        em_bind (drain_inputs ops IkSteering SpAfterToolBatch messages2 turn) (\<lambda>(_, messages3).
                          em_bind (maybe_compact_typed_history ops run turn (ec_model cfg) messages3) (\<lambda>messages4.
                            em_bind (apply_safe_point ops (ec_conversation cfg) ProviderBatchBoundary messages4) (\<lambda>messages5.
                              em_ret (TeNext messages5 doom'))))))))"

subsection \<open>The run\<close>

definition one_turn :: "'w engine_ops \<Rightarrow> (string \<Rightarrow> tool_capability option) \<Rightarrow> engine_config \<Rightarrow> offered_tool list
    \<Rightarrow> agent_message list \<Rightarrow> detector \<Rightarrow> ('w, turn_end) em" where
  "one_turn ops caps cfg tools messages doom =
     (let run = ec_run cfg
      in em_bind (new_id ops) (\<lambda>turn. em_bind (new_id ops) (\<lambda>mid.
           em_then (append_critical ops run (EvTurnStarted turn))
             (em_then (append_critical ops run (EvMessageStarted turn mid ''assistant''))
                (em_bind (attempts ops run turn mid
                    \<lparr>tq_run = run, tq_attempt = 1, tq_model = ec_model cfg, tq_system = ec_system cfg,
                     tq_messages = messages, tq_tools = tools\<rparr> False) (\<lambda>(messages1, response).
                   case response of
                     Inl outcome \<Rightarrow> em_ret (TeReturn outcome)
                   | Inr g \<Rightarrow>
                       (let doom1 = (if gn_text g = [] then doom else observe_text (gn_text g) doom)
                        in case diagnose doom1 of
                             Some reason \<Rightarrow> fail_turn ops run turn mid g (EeDoomLoop reason)
                           | None \<Rightarrow>
                               (if gn_tools g = [] then finish_turn ops run turn mid messages1 doom1 g
                                else tool_turn ops caps cfg turn mid messages1 doom1 g))))))))"

primrec turns :: "nat \<Rightarrow> 'w engine_ops \<Rightarrow> (string \<Rightarrow> tool_capability option) \<Rightarrow> engine_config \<Rightarrow> offered_tool list
    \<Rightarrow> agent_message list \<Rightarrow> detector \<Rightarrow> ('w, engine_outcome) em" where
  "turns 0 ops caps cfg tools messages doom =
     em_bind (em_get (eo_cancelled ops)) (\<lambda>cancelled. if cancelled then em_ret OutCancelled else em_fail EeMaxSteps)"
| "turns (Suc n) ops caps cfg tools messages doom =
     em_bind (em_get (eo_cancelled ops)) (\<lambda>cancelled.
       if cancelled then em_ret OutCancelled
       else em_bind (one_turn ops caps cfg tools messages doom) (\<lambda>e.
              case e of TeReturn outcome \<Rightarrow> em_ret outcome
                      | TeNext messages' doom' \<Rightarrow> turns n ops caps cfg tools messages' doom'))"

fun em_inr :: "engine_error + 'a \<Rightarrow> ('w, 'a) em" where
  "em_inr (Inl e) = em_fail e"
| "em_inr (Inr x) = em_ret x"

definition capability_of :: "tool_capability list \<Rightarrow> string \<Rightarrow> tool_capability option" where
  "capability_of caps = map_of (rev (List.map (\<lambda>c. (tp_name c, c)) caps))"

definition run_inner :: "'w engine_ops \<Rightarrow> engine_config \<Rightarrow> offered_tool list \<Rightarrow> agent_message list option \<Rightarrow> ('w, engine_outcome) em" where
  "run_inner ops cfg tools typed =
     (let run = ec_run cfg
      in em_bind (em_op (eo_capabilities ops)) (\<lambda>caps.
           em_bind (run_hooks ops HeSessionStart run None (JObj [(''conversation_id'', JStr (ec_conversation cfg))])) (\<lambda>ds.
             em_bind (em_inr (apply_prompt_hook_responses (ec_content cfg) ds)) (\<lambda>(content1, injected1).
               em_bind (run_hooks ops HeUserPromptSubmit run None (JObj [(''content'', JStr content1)])) (\<lambda>ds'.
                 em_bind (em_inr (apply_prompt_hook_responses content1 ds')) (\<lambda>(content2, injected2).
                   em_bind (initial_transcript ops (ec_messages cfg) content2 (injected1 @ injected2) typed) (\<lambda>messages.
                     turns (unat (ec_max_steps cfg)) ops (capability_of caps) cfg tools messages detector_new)))))))"

text \<open>The run with its closing hooks, whose verdicts are dropped, and the entry that asks for the schemas itself.\<close>

definition run_with_typed_transcript :: "'w engine_ops \<Rightarrow> engine_config \<Rightarrow> offered_tool list \<Rightarrow> agent_message list option
    \<Rightarrow> ('w, engine_outcome) em" where
  "run_with_typed_transcript ops cfg tools typed st =
     (case run_inner ops cfg tools typed st of
        (Inl e, st1) \<Rightarrow>
          em_then (run_hooks ops HeError (ec_run cfg) None
              (JObj [(''code'', JStr (engine_error_code e)), (''message'', JStr (engine_error_text e))]))
            (em_then (run_hooks ops HeSessionEnd (ec_run cfg) None (JObj [(''success'', JBool False)])) (em_fail e)) st1
      | (Inr outcome, st1) \<Rightarrow>
          em_then (run_hooks ops HeSessionEnd (ec_run cfg) None (JObj [(''success'', JBool True)])) (em_ret outcome) st1)"

definition run_engine :: "'w engine_ops \<Rightarrow> engine_config \<Rightarrow> ('w, engine_outcome) em" where
  "run_engine ops cfg = em_bind (em_op (eo_schemas ops)) (\<lambda>tools. run_with_typed_transcript ops cfg tools None)"

subsection \<open>The log of a run follows the protocol\<close>

lemma attempt_events [simp]:
  assumes "n \<le> unat a" and "unat a \<le> 4"
  shows "protocol (PhOpen k t m n []) (ActSent (EvGenerationAttemptFailed a code x y z)) = Some (PhOpen k t m n [])"
    and "protocol (PhOpen k t m n []) (ActSent (EvGenerationAttemptDiscarded a reason)) = Some (PhOpen k t m n [])"
    and "protocol (PhOpen k t m n []) (ActSent (EvGenerationAttemptCommitted a)) = Some (PhOpen k t m n [])"
  using assms by (simp_all add: protocol.simps(1) phase_event_def attempt_ok_def)

lemma attempt_started [simp]:
  "n < unat a \<Longrightarrow> unat a \<le> 4 \<Longrightarrow>
     protocol (PhOpen k t m n []) (ActSent (EvGenerationAttemptStarted a max_provider_attempts)) = Some (PhOpen k t m (unat a) [])"
  by (simp add: protocol.simps(1) phase_event_def max_provider_attempts_def)

text \<open>Where an attempt leaves the log: the turn is closed if the run returns, else it is as open as before.\<close>

definition left_at :: "nat \<Rightarrow> string \<Rightarrow> string \<Rightarrow> nat \<Rightarrow> 'a attempt_end \<Rightarrow> log_phase \<Rightarrow> bool" where
  "left_at k t m n ending p \<longleftrightarrow> (case ending of AeReturn _ \<Rightarrow> p = PhIdle k | _ \<Rightarrow> p = PhOpen k t m n [])"

lemma left_at_simps [simp]:
  "left_at k t m n (AeReturn r) p \<longleftrightarrow> p = PhIdle k"
  "left_at k t m n AeRetry p \<longleftrightarrow> p = PhOpen k t m n []"
  "left_at k t m n AeCompact p \<longleftrightarrow> p = PhOpen k t m n []"
  "left_at k t m n (AeDone x) p \<longleftrightarrow> p = PhOpen k t m n []"
  by (simp_all add: left_at_def)

lemma give_up_logs [log_rules]: "logs protocol (PhOpen k t m n []) (give_up ops run t m g) (left_at k t m n)"
  unfolding give_up_def close_failed_turn_def by (auto intro!: log_rules)

lemma fail_turn_logs [log_rules]: "logs protocol (PhOpen k t m n []) (fail_turn ops run t m g e) Q"
  unfolding fail_turn_def close_failed_turn_def by (auto intro!: log_rules)

lemma retry_later_logs [log_rules]:
  "n \<le> unat a \<Longrightarrow> unat a \<le> 4 \<Longrightarrow> logs protocol (PhOpen k t m n []) (retry_later ops run t m a code after g) (left_at k t m n)"
  unfolding retry_later_def Let_def by (auto intro!: log_rules)

lemma stream_error_logs [log_rules]:
  "n \<le> unat a \<Longrightarrow> unat a \<le> 4 \<Longrightarrow>
     logs protocol (PhOpen k t m n []) (stream_error ops run t m a g message code retryable category after) (left_at k t m n)"
  unfolding stream_error_def by (auto intro!: log_rules)

lemma read_stream_logs [log_rules]:
  "n \<le> unat a \<Longrightarrow> unat a \<le> 4 \<Longrightarrow> logs protocol (PhOpen k t m n []) (read_stream ops run t m a es g) (left_at k t m n)"
  by (induction es arbitrary: g) (auto intro!: log_rules split: provider_event.split)

lemma judge_stream_logs [log_rules]:
  "n \<le> unat a \<Longrightarrow> unat a \<le> 4 \<Longrightarrow> logs protocol (PhOpen k t m n []) (judge_stream ops run t m a g) (left_at k t m n)"
  unfolding judge_stream_def by (auto intro!: log_rules)

lemma connect_error_logs [log_rules]:
  "n \<le> unat a \<Longrightarrow> unat a \<le> 4 \<Longrightarrow> logs protocol (PhOpen k t m n []) (connect_error ops run t m a overflowed e) (left_at k t m n)"
  unfolding connect_error_def by (auto intro!: log_rules)

lemma judge_after_logs:
  assumes "n \<le> unat a" "unat a \<le> 4"
  shows "logs protocol (PhOpen k t m n [])
    (em_bind (read_stream ops run t m a es no_generation) (\<lambda>ending. case ending of AeDone g \<Rightarrow> judge_stream ops run t m a g | other \<Rightarrow> em_ret other))
    (left_at k t m n)"
proof (rule logs_bind, rule logs_mono [OF read_stream_logs [OF assms]])
  fix ending :: "generation attempt_end" and p
  assume "left_at k t m n ending p"
  then show "logs protocol p (case ending of AeDone g \<Rightarrow> judge_stream ops run t m a g | other \<Rightarrow> em_ret other) (left_at k t m n)"
    using assms by (cases ending) (auto intro!: log_rules)
qed

lemma attempt_once_logs:
  assumes "n < unat (tq_attempt request)" and "unat (tq_attempt request) \<le> 4"
  shows "logs protocol (PhOpen k t m n []) (attempt_once ops run t m request overflowed)
    (\<lambda>ending p. \<exists>n' \<le> unat (tq_attempt request). left_at k t m n' ending p)"
proof -
  let ?a = "tq_attempt request"
  have body: "logs protocol (PhOpen k t m n' [])
      (em_bind (em_op (eo_stream ops request)) (\<lambda>stream.
              case stream of
                Inl e \<Rightarrow> connect_error ops run t m ?a overflowed e
              | Inr events \<Rightarrow>
                  em_bind (read_stream ops run t m ?a events no_generation) (\<lambda>ending.
                    case ending of AeDone g \<Rightarrow> judge_stream ops run t m ?a g | other \<Rightarrow> em_ret other)))
      (\<lambda>ending p. \<exists>n' \<le> unat ?a. left_at k t m n' ending p)" if "n' \<le> unat ?a" for n'
    using that assms(2)
    by (intro logs_bind logs_op logs_case_sum logs_mono [OF connect_error_logs] logs_mono [OF judge_after_logs]) auto
  show ?thesis
    unfolding attempt_once_def Let_def
    by (rule logs_then, rule logs_soft_case) (use assms body in auto)
qed

lemma attempts_unfold:
  "attempts ops run turn mid request overflowed =
     em_bind (attempt_once ops run turn mid request overflowed) (\<lambda>ending.
       case ending of
         AeRetry \<Rightarrow> attempts ops run turn mid (request\<lparr>tq_attempt := tq_attempt request + 1\<rparr>) overflowed
       | AeCompact \<Rightarrow>
           em_bind (maybe_compact_typed_history ops run turn (tq_model request) (tq_messages request)) (\<lambda>messages.
             attempts ops run turn mid (request\<lparr>tq_attempt := tq_attempt request + 1, tq_messages := messages\<rparr>) True)
       | AeDone g \<Rightarrow> em_ret (tq_messages request, Inr g)
       | AeReturn r \<Rightarrow> em_ret (tq_messages request, Inl r))"
  by (rule ext, subst attempts.simps)
    (auto simp: em_bind_def em_ret_def split: prod.split sum.split attempt_end.split)

lemma logs_returns:
  assumes "logs d s m Q" and "returns m P"
  shows "logs d s m (\<lambda>x p. Q x p \<and> P x)"
  unfolding logs_def
proof
  fix st
  obtain r st' where m: "m st = (r, st')" by fastforce
  obtain acts where acts: "eg_log st' = eg_log st @ acts" "run_log d s acts \<noteq> None"
    "\<And>x. r = Inr x \<Longrightarrow> \<exists>s'. run_log d s acts = Some s' \<and> Q x s'" using logsD [OF assms(1) m] by blast
  show "\<exists>acts. eg_log (snd (m st)) = eg_log st @ acts
     \<and> (case fst (m st) of Inl e \<Rightarrow> run_log d s acts \<noteq> None | Inr x \<Rightarrow> (\<exists>s'. run_log d s acts = Some s' \<and> Q x s' \<and> P x))"
  proof (intro exI conjI)
    show "eg_log (snd (m st)) = eg_log st @ acts" using acts(1) m by simp
    have "P x" if "r = Inr x" for x using assms(2) m that unfolding returns_def by blast
    then show "case fst (m st) of Inl e \<Rightarrow> run_log d s acts \<noteq> None
        | Inr x \<Rightarrow> (\<exists>s'. run_log d s acts = Some s' \<and> Q x s' \<and> P x)"
      using acts(2,3) m by (cases r) auto
  qed
qed

text \<open>Without an overflow at most three attempts are made, with one at most four.\<close>

lemma attempts_logs:
  assumes "n < unat (tq_attempt request)" and "unat (tq_attempt request) \<le> (if overflowed then 4 else 3)"
  shows "logs protocol (PhOpen k t m n []) (attempts ops run t m request overflowed)
    (\<lambda>(_, response) p. case response of Inl _ \<Rightarrow> p = PhIdle k | Inr _ \<Rightarrow> \<exists>n. p = PhOpen k t m n [])"
  using assms
proof (induction "(if overflowed then 0 else 4) + (3 - unat (tq_attempt request))" arbitrary: n request overflowed rule: less_induct)
  case less
  let ?a = "tq_attempt request"
  have bound: "unat ?a \<le> 4" using less.prems by (auto split: if_splits)
  show ?case
    unfolding attempts_unfold [of ops run t m request]
  proof (rule logs_bind, rule logs_mono [OF logs_returns [OF attempt_once_logs [OF less.prems(1) bound] attempt_once_returns]])
    fix ending :: "generation attempt_end" and p
    assume "(\<exists>n' \<le> unat ?a. left_at k t m n' ending p) \<and> asks_again ?a overflowed ending"
    then obtain n' where n': "n' \<le> unat ?a" "left_at k t m n' ending p" "asks_again ?a overflowed ending" by blast
    show "logs protocol p (case ending of
         AeRetry \<Rightarrow> attempts ops run t m (request\<lparr>tq_attempt := ?a + 1\<rparr>) overflowed
       | AeCompact \<Rightarrow>
           em_bind (maybe_compact_typed_history ops run t (tq_model request) (tq_messages request)) (\<lambda>messages.
             attempts ops run t m (request\<lparr>tq_attempt := ?a + 1, tq_messages := messages\<rparr>) True)
       | AeDone g \<Rightarrow> em_ret (tq_messages request, Inr g)
       | AeReturn r \<Rightarrow> em_ret (tq_messages request, Inl r))
      (\<lambda>(_, response) p. case response of Inl _ \<Rightarrow> p = PhIdle k | Inr _ \<Rightarrow> \<exists>n. p = PhOpen k t m n [])"
    proof (cases ending)
      case AeRetry
      with n' have p: "p = PhOpen k t m n' []" and a: "unat (?a + 1) = Suc (unat ?a)" "unat ?a < 3"
        using next_attempt by auto
      show ?thesis
        unfolding AeRetry p attempt_end.case by (rule less.hyps) (use n'(1) a in auto)
    next
      case AeCompact
      with n' less.prems have p: "p = PhOpen k t m n' []" and o: "\<not> overflowed" "unat ?a \<le> 3" by auto
      then have a: "unat (?a + 1) = Suc (unat ?a)" by (simp add: unat_plus_if')
      show ?thesis
        unfolding AeCompact p attempt_end.case
        by (intro logs_bind compact_history_logs, rule less.hyps) (use n'(1) a o in auto)
    qed (use n' in \<open>auto intro!: log_rules\<close>)
  qed
qed

lemma stop_run_logs [log_rules]: "(\<And>x. Q x s) \<Longrightarrow> logs d s (stop_run ops run stop) Q"
  unfolding stop_run_def by (auto intro!: log_rules)

lemma finish_turn_logs:
  "logs protocol (PhOpen k t m n []) (finish_turn ops run t m ms doom g) (\<lambda>_ p. p = PhIdle k)"
  unfolding finish_turn_def Let_def by (auto intro!: log_rules)

lemma tool_turn_logs:
  "logs protocol (PhOpen k t m n []) (tool_turn ops caps cfg t m ms doom g) (\<lambda>_ p. p = PhIdle k)"
  unfolding tool_turn_def Let_def
  by (rule logs_bind, rule logs_mono [OF call_tools_protocol]) (auto intro!: log_rules)

lemma one_turn_logs:
  "logs protocol (PhIdle k) (one_turn ops caps cfg tools ms doom) (\<lambda>_ p. p = PhIdle (Suc k))"
proof -
  have attempts: "logs protocol (PhOpen (Suc k) t m 0 []) (attempts ops run t m
        \<lparr>tq_run = run, tq_attempt = 1, tq_model = model, tq_system = system, tq_messages = ms, tq_tools = tools\<rparr> False)
        (\<lambda>(_, response) p. case response of Inl _ \<Rightarrow> p = PhIdle (Suc k) | Inr _ \<Rightarrow> \<exists>n. p = PhOpen (Suc k) t m n [])"
    for t m run model system by (rule attempts_logs) simp_all
  show ?thesis
    unfolding one_turn_def Let_def
    by (intro log_rules, simp, intro log_rules, simp, intro logs_bind logs_mono [OF attempts])
      (auto intro!: log_rules finish_turn_logs tool_turn_logs split: sum.splits)
qed

lemma turns_logs:
  "logs protocol (PhIdle k) (turns n ops caps cfg tools ms doom) (\<lambda>_ p. \<exists>j \<le> n. p = PhIdle (k + j))"
proof (induction n arbitrary: k ms doom)
  case 0
  then show ?case by (auto intro!: log_rules)
next
  case (Suc n)
  have "logs protocol (PhIdle (Suc k)) (turns n ops caps cfg tools ms' doom') (\<lambda>_ p. \<exists>j \<le> Suc n. p = PhIdle (k + j))" for ms' doom'
    by (rule logs_mono [OF Suc.IH]) (metis Suc_le_mono add_Suc_right add_Suc)
  moreover have "\<exists>j \<le> Suc n. PhIdle (Suc k) = PhIdle (k + j)" by (rule exI [of _ 1]) simp
  moreover have "\<exists>j \<le> Suc n. PhIdle k = PhIdle (k + j)" by (rule exI [of _ 0]) simp
  ultimately show ?case
    unfolding turns.simps
    by (intro log_rules) (auto intro!: log_rules logs_mono [OF one_turn_logs] split: turn_end.split)
qed

lemma em_inr_logs [log_rules]: "(\<And>x. Q x s) \<Longrightarrow> logs d s (em_inr r) Q"
  by (cases r) (auto intro!: log_rules)

lemma run_inner_logs:
  "logs protocol (PhIdle 0) (run_inner ops cfg tools typed) (\<lambda>_ p. \<exists>j \<le> unat (ec_max_steps cfg). p = PhIdle j)"
  unfolding run_inner_def Let_def
  using turns_logs [of 0 "unat (ec_max_steps cfg)" ops _ cfg tools _ detector_new]
  by (auto intro!: log_rules simp del: turns.simps)

lemma closing_hooks:
  "\<exists>w. run_with_typed_transcript ops cfg tools typed st
     = (case run_inner ops cfg tools typed st of (r, st1) \<Rightarrow> (r, st1\<lparr>eg_world := w\<rparr>))"
  by (auto simp: run_with_typed_transcript_def em_then_def em_bind_def run_hooks_def em_op_def em_fail_def em_ret_def
      split: prod.split sum.split)

text \<open>
  C4: The log of a run follows the protocol. Whatever the provider streams, the tools return, the hooks and the user
  do and whichever appends fail: turns come one after the other, each opens one assistant message and
  nothing of a turn is logged outside of it; the attempts of a turn are numbered upwards and are at most
  four; a tool runs only with an id, name and input that was announced in the same turn, and
  only announced calls are completed. When the run returns an outcome, no turn is open, and there were
  at most \<open>max_steps\<close> of them.
\<close>

theorem run_log_conforms:
  "\<exists>acts. eg_log (snd (run_with_typed_transcript ops cfg tools typed st)) = eg_log st @ acts
     \<and> (case fst (run_with_typed_transcript ops cfg tools typed st) of
          Inl e \<Rightarrow> run_log protocol (PhIdle 0) acts \<noteq> None
        | Inr outcome \<Rightarrow> (\<exists>k. k \<le> unat (ec_max_steps cfg) \<and> run_log protocol (PhIdle 0) acts = Some (PhIdle k)))"
proof -
  obtain r st1 where m: "run_inner ops cfg tools typed st = (r, st1)" by fastforce
  obtain acts where acts: "eg_log st1 = eg_log st @ acts" "run_log protocol (PhIdle 0) acts \<noteq> None"
    "\<And>x. r = Inr x \<Longrightarrow> \<exists>s'. run_log protocol (PhIdle 0) acts = Some s' \<and> (\<exists>j \<le> unat (ec_max_steps cfg). s' = PhIdle j)"
    using logsD [OF run_inner_logs m] by blast
  obtain w where w: "run_with_typed_transcript ops cfg tools typed st = (r, st1\<lparr>eg_world := w\<rparr>)"
    using closing_hooks [of ops cfg tools typed st] m by auto
  have "case r of Inl e \<Rightarrow> run_log protocol (PhIdle 0) acts \<noteq> None
      | Inr outcome \<Rightarrow> (\<exists>k. k \<le> unat (ec_max_steps cfg) \<and> run_log protocol (PhIdle 0) acts = Some (PhIdle k))"
    using acts(2,3) by (cases r) auto
  with acts(1) w show ?thesis by auto
qed

subsection \<open>A doom loop among the calls\<close>

text \<open>
  When the detector finds a cycle at a tool call of the response, the run fails at once and the log stays as it
  is: the turn and its message, which every other failure of the provider or the detector closes, stay open.
\<close>

theorem doom_loop_leaves_turn_open:
  assumes "gn_tools g = (j, (i, name, args)) # rest" and "i \<noteq> []"
    and "diagnose (observe_tool name (tool_args_fingerprint ops args) doom) = Some reason"
  shows "tool_turn ops caps cfg turn mid ms doom g st = (Inl (EeDoomLoop reason), st)"
  using assms by (simp add: tool_turn_def call_tools_def prepare_call_def em_bind_def em_fail_def em_ret_def Let_def)

subsection \<open>Assembling a response\<close>

text \<open>What a stream says, read off its events.\<close>

fun text_part :: "provider_event \<Rightarrow> string" where
  "text_part (PvText t) = t"
| "text_part _ = []"

fun reasoning_part :: "provider_event \<Rightarrow> string" where
  "reasoning_part (PvReasoning t) = t"
| "reasoning_part _ = []"

fun call_part :: "nat \<Rightarrow> provider_event \<Rightarrow> (string \<times> string \<times> string) option" where
  "call_part k (PvToolCall index i name delta) =
     (if index = k then Some (case i of Some s \<Rightarrow> s | None \<Rightarrow> [], case name of Some s \<Rightarrow> s | None \<Rightarrow> [], delta) else None)"
| "call_part k _ = None"

fun is_stream_error :: "provider_event \<Rightarrow> bool" where
  "is_stream_error (PvError _ _ _ _ _) = True"
| "is_stream_error _ = False"

text \<open>The last text that is not empty.\<close>

fun last_given :: "string list \<Rightarrow> string" where
  "last_given [] = []"
| "last_given (s # ss) = (if last_given ss = [] then s else last_given ss)"

definition assembled :: "(string \<times> string \<times> string) list \<Rightarrow> call_text option" where
  "assembled parts =
     (if parts = [] then None
      else Some (last_given (List.map fst parts), last_given (List.map (fst \<circ> snd) parts), concat (List.map (snd \<circ> snd) parts)))"

text \<open>The effect of an event on the response.\<close>

fun absorb :: "provider_event \<Rightarrow> generation \<Rightarrow> generation" where
  "absorb (PvText t) g = g\<lparr>gn_saw := True, gn_text := gn_text g @ t\<rparr>"
| "absorb (PvReasoning t) g = g\<lparr>gn_saw := True, gn_reasoning := gn_reasoning g @ t\<rparr>"
| "absorb (PvToolCall index i name delta) g =
     g\<lparr>gn_saw := True, gn_tools := tool_entry index (tool_delta i name delta) (gn_tools g)\<rparr>"
| "absorb (PvCompletedWith reason) g = g\<lparr>gn_reason := Some reason\<rparr>"
| "absorb PvCompleted g = g\<lparr>gn_reason := Some PsStop\<rparr>"
| "absorb _ g = g"

lemma append_soft_returns: "\<exists>st'. append_soft ops run k st = (Inr (), st')"
  by (auto simp: append_soft_def append_event_def em_then_def em_bind_def em_op_def em_note_def em_ret_def split: prod.split option.split)

lemma read_stream_absorbs:
  assumes "\<And>w. \<not> eo_cancelled ops w" and "list_all (\<lambda>e. \<not> is_stream_error e) es"
  shows "fst (read_stream ops run turn mid attempt es g st) = Inr (AeDone (fold absorb es g))"
  using assms(2)
proof (induction es arbitrary: g st)
  case (Cons e es)
  have step: "fst (em_then (append_soft ops run k) (read_stream ops run turn mid attempt es g) st) = Inr (AeDone (fold absorb es g))" for g k st
    using append_soft_returns [of ops run k st] Cons by (auto simp: em_then_def em_bind_def)
  from Cons show ?case
    by (cases e) (simp_all add: em_then_def em_bind_def em_do_def em_get_def assms(1) step [unfolded em_then_def em_bind_def])
qed (simp add: em_then_def em_bind_def em_do_def em_ret_def)

lemma last_given_snoc: "last_given (ss @ [s]) = (if s = [] then last_given ss else s)"
  by (induction ss) auto

lemma tool_entry_keys: "set (List.map fst (tool_entry i f cs)) = insert i (set (List.map fst cs))"
  by (induction i f cs rule: tool_entry.induct) auto

lemma tool_entry_sorted: "sorted_wrt (<) (List.map fst cs) \<Longrightarrow> sorted_wrt (<) (List.map fst (tool_entry i f cs))"
proof (induction i f cs rule: tool_entry.induct)
  case (2 i f j c rest)
  then show ?case using tool_entry_keys [of i f rest] by auto
qed simp

lemma tool_entry_lookup:
  "sorted_wrt (<) (List.map fst cs) \<Longrightarrow>
     map_of (tool_entry i f cs) k = (if k = i then Some (f (case map_of cs i of Some c \<Rightarrow> c | None \<Rightarrow> ([], [], []))) else map_of cs k)"
proof (induction i f cs rule: tool_entry.induct)
  case (2 i f j c rest)
  have "map_of rest i = None" if "i < j" using 2(2) that by (force simp: map_of_eq_None_iff)
  with 2 show ?case by (auto split: option.splits)
qed simp

lemma assembled_snoc:
  "assembled (ps @ [(case i of Some s \<Rightarrow> s | None \<Rightarrow> [], case name of Some s \<Rightarrow> s | None \<Rightarrow> [], delta)])
     = Some (tool_delta i name delta (case assembled ps of Some c \<Rightarrow> c | None \<Rightarrow> ([], [], [])))"
  by (auto simp: assembled_def tool_delta_def last_given_snoc keep_text_def split: option.split)

lemma absorbed:
  "gn_text (fold absorb es no_generation) = concat (List.map text_part es)
   \<and> gn_reasoning (fold absorb es no_generation) = concat (List.map reasoning_part es)
   \<and> sorted_wrt (<) (List.map fst (gn_tools (fold absorb es no_generation)))
   \<and> map_of (gn_tools (fold absorb es no_generation)) k = assembled (List.map_filter (call_part k) es)"
proof (induction es rule: rev_induct)
  case Nil
  then show ?case by (simp add: no_generation_def assembled_def map_filter_simps)
next
  case (snoc e es)
  have parts: "List.map_filter (call_part k) (es @ [e])
      = List.map_filter (call_part k) es @ (case call_part k e of Some p \<Rightarrow> [p] | None \<Rightarrow> [])"
    by (simp add: List.map_filter_def split: option.split)
  show ?case
    unfolding parts using snoc assembled_snoc tool_entry_sorted tool_entry_lookup
    by (cases e) (auto split: if_splits)
qed

text \<open>
  C13: A stream that is neither cancelled nor broken is assembled into the response it spells: the text and the
  reasoning are the deltas in order, and the call at an index, if any delta has the index, has the last id
  and the last name that were not empty and the concatenation of its argument deltas, wherever the deltas
  of the calls are interleaved. The calls are in the order of their indices.
\<close>

theorem stream_assembles_response:
  assumes "\<And>w. \<not> eo_cancelled ops w" and "list_all (\<lambda>e. \<not> is_stream_error e) es"
  shows "\<exists>g. fst (read_stream ops run turn mid attempt es no_generation st) = Inr (AeDone g)
    \<and> gn_text g = concat (List.map text_part es) \<and> gn_reasoning g = concat (List.map reasoning_part es)
    \<and> sorted_wrt (<) (List.map fst (gn_tools g))
    \<and> (\<forall>k. map_of (gn_tools g) k = assembled (List.map_filter (call_part k) es))"
  using read_stream_absorbs [OF assms, of run turn mid attempt no_generation st] absorbed [of es] by blast

text \<open>An engine without hooks or input whose provider streams nothing.\<close>

definition demo_engine_ops :: "unit engine_ops" where
  "demo_engine_ops =
     \<lparr>eo_cancelled = (\<lambda>_. False), eo_cancel = id, eo_uuid = (\<lambda>w. (''u'', w)), eo_append = (\<lambda>_ _ w. (None, w)),
      eo_last_sequence = (\<lambda>_ _. 0), eo_schemas = (\<lambda>w. ([], w)), eo_capabilities = (\<lambda>w. ([], w)),
      eo_dispatch = (\<lambda>_ w. ([], w)), eo_observe = (\<lambda>_ w. (Inr (), w)), eo_stream = (\<lambda>_ w. (Inr [], w)),
      eo_next = id, eo_wait = (\<lambda>_. id), eo_race = (\<lambda>w. (None, w)),
      eo_tool = (\<lambda>_ _ _ _ _ w. (refusal [], w)), eo_pick = (\<lambda>_ w. (0, w)), eo_uncertain = (\<lambda>_ _ _ _ w. (Inr (), w)),
      eo_settled = (\<lambda>_. id), eo_drain = None, eo_ack = (\<lambda>_ _ w. (Inr (), w)), eo_safe_point = None, eo_coordinator = None,
      eo_read = (\<lambda>_. Inr JNull), eo_show = (\<lambda>_. []), eo_hash = id, eo_fresh = (\<lambda>_ _. ''f''), eo_history_chars = None,
      eo_output_chars = None, eo_model_compaction = False, eo_context_window = None\<rparr>"

definition demo_engine :: "unit engine" where
  "demo_engine = \<lparr>eg_world = (), eg_attempts = 0, eg_failures = 0, eg_log = []\<rparr>"

definition demo_config :: engine_config where
  "demo_config = \<lparr>ec_run = ''r'', ec_conversation = ''c'', ec_model = ''m'', ec_system = None, ec_messages = [],
     ec_content = ''hi'', ec_max_steps = 3\<rparr>"

definition demo_response :: generation where
  "demo_response = no_generation\<lparr>gn_tools := [(0, (''c3'', ''read'', ''{}''))], gn_reason := Some PsToolUse\<rparr>"

theorem doom_loop_leaves_turn_open_witness:
  "\<exists>reason. tool_turn demo_engine_ops (\<lambda>_. None) demo_config ''t'' ''m'' []
     (observe_tool ''read'' ''{}'' (observe_tool ''read'' ''{}'' detector_new)) demo_response demo_engine
     = (Inl (EeDoomLoop reason), demo_engine)"
proof -
  have d: "diagnose (observe_tool ''read'' (tool_args_fingerprint demo_engine_ops ''{}'')
      (observe_tool ''read'' ''{}'' (observe_tool ''read'' ''{}'' detector_new))) \<noteq> None"
    by code_simp
  have "gn_tools demo_response = (0, (''c3'', ''read'', ''{}'')) # []" by (simp add: demo_response_def)
  with d doom_loop_leaves_turn_open [of demo_response 0 "''c3''" "''read''" "''{}''" "[]" demo_engine_ops] show ?thesis by auto
qed

theorem stream_assembles_response_witness:
  "\<exists>g. fst (read_stream demo_engine_ops ''r'' ''t'' ''m'' 1
        [PvToolCall 1 (Some ''c1'') (Some ''read'') ''{'', PvText ''hi'', PvToolCall 0 (Some ''c0'') None [], PvToolCall 1 None None ''}'']
        no_generation demo_engine) = Inr (AeDone g)
     \<and> gn_text g = ''hi'' \<and> map_of (gn_tools g) 1 = Some (''c1'', ''read'', ''{}'')"
proof -
  let ?es = "[PvToolCall 1 (Some ''c1'') (Some ''read'') ''{'', PvText ''hi'', PvToolCall 0 (Some ''c0'') None [], PvToolCall 1 None None ''}'']"
  have "\<not> eo_cancelled demo_engine_ops w" for w by (simp add: demo_engine_ops_def)
  moreover have "list_all (\<lambda>e. \<not> is_stream_error e) ?es" by simp
  moreover have "concat (List.map text_part ?es) = ''hi''" by simp
  moreover have "assembled (List.map_filter (call_part 1) ?es) = Some (''c1'', ''read'', ''{}'')" by code_simp
  ultimately show ?thesis using stream_assembles_response [of demo_engine_ops ?es "''r''" "''t''" "''m''" 1 demo_engine] by metis
qed

end
