(* ===== verification/Spec2Isabelle.thy ===== *)
theory Spec2Isabelle
  imports RunState RunEvent Redact EventSeq EventLog LifecycleAuthority RunManager RunConcurrency
    RunRecovery SessionActor Subagents ToolTypes ToolPolicy PathPolicy Schema PatchParser PatchApply PlanMode
    HookModel Hooks Interactions ToolGate Messages Compaction DoomLoop
    EngineTypes EngineTools EngineContext EngineLoop
begin

text \<open>
  Natives is a desktop workbench for AI agents. A daemon executes runs: one run drives a model
  provider and its tools for one turn of a conversation, its status moves along a fixed graph,
  every step is an event in an ordered log, prompts of a conversation wait in a queue while a run
  is active, and a run may start subagents with runs of their own. This library models the part of
  the daemon that keeps those promises and proves them.

  The parts and how they interact:

  \<^item> \<open>Prelude\<close> holds what the components share: saturating machine integers, UTF-8 strings as lists
    of bytes with Rust's \<open>trim\<close> and case mapping, first-match list operations, JSON values.

  \<^item> \<open>RunState\<close> is the state machine of \<open>crates/agent-core/src/run_state.rs\<close> (with the enum and the
    mirrored relation of \<open>crates/assistant-protocol/src/v2/run.rs\<close> and the errors of \<open>error.rs\<close>):
    \<open>run_status\<close>, \<open>can_transition\<close>, \<open>transition\<close>, engine outcomes and the metadata of a commit. Its
    lemmas determine the paths of the graph: how a run completes, what follows cancelling, which
    statuses are final.

  \<^item> \<open>RunEvent\<close> is the event type of \<open>v2/run_event.rs\<close>; \<open>Redact\<close> is \<open>redact_secrets\<close> of the same
    file over bytes, where \<open>None\<close> is the panic of a slice inside a character.

  \<^item> \<open>EventSeq\<close> is the sequencer of \<open>crates/agent-core/src/event_seq.rs\<close> over an abstract store (a
    record of operations, the trait \<open>EventPersistence\<close>); its locale \<open>event_store\<close> states what the
    store promises and proves order, durability and replay from that. \<open>EventLog\<close> is the SQLite log
    of \<open>src-agent-daemon/src/event_log.rs\<close>; it interprets the locale and defines the reachable
    states of sequencer and log together.

  \<^item> \<open>LifecycleAuthority\<close> is the contract of the trait \<open>RunLifecycleAuthority\<close>: a commit is accepted
    only for the expected revision over a legal edge. What a sequence of commits does to a run is
    proved from the contract. \<open>RunManager\<close> is the daemon's authority,
    \<open>src-agent-daemon/src/run_manager.rs\<close>: the persist-first compare-and-swap of
    \<open>commit_transition\<close>, the commits by target and by engine outcome, and the startup recovery; it
    interprets the contract. \<open>RunConcurrency\<close> cuts \<open>commit_transition\<close> at its critical sections (the
    check, the transaction, the update of the run map, and the publication through the sequencer after the
    lock is released) and lets calls and log writers interleave: the table serialises the commits, every
    committed event is published once, but publications can overtake each other. \<open>RunRecovery\<close> is about the
    recovery, which writes the tables directly and moves runs along edges the state graph does not have.

  \<^item> \<open>SessionActor\<close> is the per-conversation coordinator of \<open>crates/harness-core/src/session_actor.rs\<close>:
    the prompt queue, interjections, cancel-and-send, and the claim of a finished run.

  \<^item> \<open>Subagents\<close> is \<open>crates/agent-core/src/subagents.rs\<close>: the permission and tool surface of a child,
    the reservation ledger, token and tool budgets, the parent check and the cancellation of a tree.

  \<^item> The capability gateway (\<open>crates/capability-gateway/src\<close>): \<open>ToolTypes\<close> has its errors and contexts;
    \<open>ToolPolicy\<close> is \<open>tool_policy.rs\<close> with the daemon's grant store, what a remembered permission
    covers; \<open>PathPolicy\<close> is path resolution against the project and working directories
    (\<open>policy.rs\<close> and \<open>lib.rs\<close>) over a file tree with links; \<open>Schema\<close> is
    the validation of external input (\<open>lib.rs\<close>); \<open>PatchParser\<close> and \<open>PatchApply\<close> are
    \<open>tools/apply_patch_parser.rs\<close> and \<open>tools/extra.rs\<close>, the four
    input forms of a patch and its execution with roll-back; \<open>PlanMode\<close> is \<open>plan_mode.rs\<close>.

  \<^item> \<open>HookModel\<close> and \<open>Hooks\<close> are hook definitions, matching and the registry of
    \<open>crates/agent-core/src\<close>: which hooks apply, in which order they run, what their failures mean
    and how their verdicts are combined.

  \<^item> \<open>Interactions\<close> is the daemon's interaction service: pending permissions and questions, their
    rows, the outbox that makes an answer durable before the waiting call is woken.

  \<^item> \<open>ToolGate\<close> is the gate of \<open>src-agent-daemon/src/production_tools.rs\<close> that every tool call
    passes before it executes. It composes hooks, tool policy, plan mode and interactions in the
    order the daemon asks them.

  \<^item> \<open>Messages\<close>, \<open>Compaction\<close> and \<open>DoomLoop\<close> are the parts of the agent engine without effects
    (\<open>crates/agent-core/src\<close>): the transcript with its projection to JSON and the strict decoder of
    stored snapshots (\<open>message.rs\<close>, \<open>engine/engine_core.rs\<close>), what \<open>compaction.rs\<close> does to a long history,
    and the detector of repeated calls and texts (\<open>doom_loop.rs\<close>).

  \<^item> The engine itself, \<open>engine/engine_core.rs\<close>: \<open>EngineTypes\<close> has its errors, the events of a provider,
    the operations it calls and the protocol its log must follow; \<open>EngineTools\<close> prepares and executes
    the calls of a response; \<open>EngineContext\<close> is compaction as the engine uses it, queued input and the
    first transcript; \<open>EngineLoop\<close> is the loop of attempts within the loop of turns. A step takes the
    engine's state to a result or an error and the next state; \<open>logs\<close> says which acts a step may add to the
    log, with one rule per way of sequencing, and the theorems on runs rest on these rules.

  Conventions. Strings are byte lists; a \<open>u32\<close> or \<open>u64\<close> is a word and \<open>saturating_add\<close> is \<open>sat_add\<close>;
  a \<open>usize\<close> that counts list elements is a natural number. Fresh ids, the clock, the order in
  which a hash map is iterated, the text of an operating system error and the failure of a SQL statement or of
  a file operation are arguments. A lock held for a
  whole operation makes it one function from state to state; where an operation releases a lock,
  \<open>RunConcurrency\<close> interleaves its parts. What happens while a call waits for its user (answers of
  the front end, other interactions) is a function on the state of the interactions in the gate's environment. \<open>None\<close> as the result of an
  operation is a panic of the code (a slice inside a UTF-8 character); a fallible operation that fails
  returns its error in a sum. A file tree is an association list from paths to files and directories,
  a machine adds links and working directories to it.
  Walks whose end the code leaves to the data (the parent
  chain, the tree of descendants) terminate by a measure on the ids not yet seen, as the code's
  set of visited ids makes them do, so no fuel is needed; \<open>drain_loop\<close> counts the prompts started;
  the loop of the glob matcher is a \<open>partial_function\<close> and \<open>glob_loop_returns\<close> shows that it ends.
  The engine's loop of attempts ends because a retry needs an attempt below the third and an overflow is
  compacted once; its loop of turns is a recursion on the steps that \<open>max_steps\<close> leaves. What the engine
  waits for (provider, tools, hooks, the user, the clock) are operations on a world, and every wait may find the run
  cancelled; a provider's stream is the list of its events.

  Not modelled: the bus of ephemeral deltas, the provider adapters and the execution of the tools other than
  \<open>apply_patch\<close> (network, processes, the operating system), JSON encoding (a stored payload reads back as
  the event), lock poisoning, the in-memory snapshot file, regular expressions of hook conditions (an argument),
  the harness topology and blueprint of \<open>crates/harness-core\<close>, the RPC surface and the other tables of the daemon,
  the desktop host and the user interface. The usage projection and the
  side-effect ledger written along with an event are functions of the log's environment.
\<close>

end
